(* ===== verification/Prelude.thy ===== *)
theory Prelude
  imports "HOL-Library.Word" "HOL-Library.AList"
begin

text \<open>
  Shared material of the development: the fixed-width integers of the Rust code and
  their saturating operations, the standard collections the code keeps its state in
  (\<open>HashMap\<close> and \<open>BTreeMap\<close>), and the generic facts on lists and options that the
  component theories use.

  \<^item> \<open>u8\<close>, \<open>u32\<close>, \<open>u64\<close> are words of that width, so plain \<open>+\<close>, \<open>-\<close>, \<open>*\<close> wrap around as
    they do in the release profile (\<open>Cargo.toml\<close> leaves overflow checks off there). A
    \<open>usize\<close> that counts live elements is a \<open>nat\<close>.
  \<^item> \<open>saturating_add\<close> and \<open>saturating_sub\<close> are the standard library's, for every width.
  \<^item> A \<open>HashMap\<close> is an association list with distinct keys. Only the look-up function
    is specified by the standard library; a statement about the iteration order of such
    a map is never made here.
  \<^item> A \<open>BTreeMap\<close> is an association list sorted by strictly increasing key, which is
    the order its iterators run in.
  The locale \<open>dictionary\<close> is the interface both maps offer; the component proofs use the
  two interpretations \<open>hm\<close> and \<open>bt\<close>.
\<close>

named_theorems word_arith \<open>reading saturating word arithmetic as arithmetic on nat\<close>
named_theorems map_laws \<open>look-up laws of the collection models\<close>

section \<open>Fixed-width integers\<close>

type_synonym u8 = "8 word"
type_synonym u32 = "32 word"
type_synonym u64 = "64 word"

abbreviation u64_max :: u64 where "u64_max \<equiv> 18446744073709551615"

definition saturating_add :: "'a::len word \<Rightarrow> 'a word \<Rightarrow> 'a word" where
  "saturating_add a b = (if unat a + unat b < 2 ^ LENGTH('a) then a + b else - 1)"

definition saturating_sub :: "'a::len word \<Rightarrow> 'a word \<Rightarrow> 'a word" where
  "saturating_sub a b = (if a < b then 0 else a - b)"

lemma unat_minus_one: "unat (- 1 :: 'a::len word) = 2 ^ LENGTH('a) - 1"
  by (simp add: unsigned_minus_1_eq_mask mask_eq_exp_minus_1)

lemma unat_eq_iff: "(a :: 'a::len word) = b \<longleftrightarrow> unat a = unat b"
  by (simp add: word_eq_iff_unsigned [where 'a = nat, symmetric])

lemma unat_saturating_add [word_arith]:
  "unat (saturating_add a b :: 'a::len word) = min (unat a + unat b) (2 ^ LENGTH('a) - 1)"
  by (auto simp: saturating_add_def unat_word_ariths unat_minus_one min_def)

text \<open>The carry test, for evaluation.\<close>

lemma saturating_add_code [code]:
  "saturating_add a b = (let s = a + b in if s < a then - 1 else s)" for a b :: "'a::len word"
proof -
  have "unat a + unat b < 2 ^ LENGTH('a) \<longleftrightarrow> \<not> a + b < a"
  proof (cases "unat a + unat b < 2 ^ LENGTH('a)")
    case True
    then have "unat (a + b) = unat a + unat b"
      by (simp add: unat_word_ariths)
    then show ?thesis
      using True by (simp add: word_less_nat_alt)
  next
    case False
    have "unat a < 2 ^ LENGTH('a)" "unat b < 2 ^ LENGTH('a)"
      by (rule unsigned_less)+
    then have "unat a + unat b - 2 ^ LENGTH('a) < 2 ^ LENGTH('a)"
      by linarith
    then have "unat (a + b) = unat a + unat b - 2 ^ LENGTH('a)"
      using False by (simp add: unat_word_ariths le_mod_geq)
    then have "unat (a + b) < unat a"
      using False \<open>unat b < 2 ^ LENGTH('a)\<close> by linarith
    then show ?thesis
      using False by (simp add: word_less_nat_alt)
  qed
  then show ?thesis
    by (simp add: saturating_add_def Let_def)
qed

text \<open>\<open>u32::try_from(n)\<close>.\<close>

definition u32_try_from :: "nat \<Rightarrow> u32 option" where
  "u32_try_from n = (if int n < 4294967296 then Some (word_of_int (int n)) else None)"

lemma unat_saturating_sub [word_arith]: "unat (saturating_sub a b) = unat a - unat b"
  by (auto simp: saturating_sub_def unat_sub word_less_nat_alt not_less word_le_nat_alt)

lemma saturating_add_exact:
  "unat a + unat b < 2 ^ LENGTH('a) \<Longrightarrow> saturating_add a b = (a + b :: 'a::len word)"
  by (simp add: saturating_add_def)

lemma saturating_sub_self [simp]: "saturating_sub a a = 0"
  by (simp add: saturating_sub_def)

lemma saturating_sub_zero [simp]: "saturating_sub a 0 = a"
  by (simp add: saturating_sub_def)

lemma saturating_sub_eq_zero: "saturating_sub a b = 0 \<longleftrightarrow> a \<le> b"
  by (auto simp: saturating_sub_def)

section \<open>Lists and options\<close>

lemma distinct_map_fst_mem:
  "distinct (map fst xs) \<Longrightarrow> (k, v) \<in> set xs \<Longrightarrow> (k, w) \<in> set xs \<Longrightarrow> v = w"
  by (metis eq_key_imp_eq_value)

lemma map_of_Some_set: "distinct (map fst xs) \<Longrightarrow> map_of xs k = Some v \<longleftrightarrow> (k, v) \<in> set xs"
  by simp

lemma map_of_None_iff: "map_of xs k = None \<longleftrightarrow> k \<notin> fst ` set xs"
  by (rule map_of_eq_None_iff)

text \<open>The last element of a list, as the \<open>last_key_value\<close> of an ordered map reads it.\<close>

fun last_opt :: "'a list \<Rightarrow> 'a option" where
  "last_opt [] = None"
| "last_opt [x] = Some x"
| "last_opt (x # y # ys) = last_opt (y # ys)"

fun first_opt :: "'a list \<Rightarrow> 'a option" where
  "first_opt [] = None"
| "first_opt (x # xs) = Some x"

lemma last_opt_snoc [simp]: "last_opt (xs @ [x]) = Some x"
  by (induction xs rule: last_opt.induct) auto

lemma last_opt_rev: "last_opt xs = first_opt (rev xs)"
  by (cases xs rule: rev_cases) auto

lemma first_opt_conv: "first_opt xs = (if xs = [] then None else Some (hd xs))"
  by (cases xs) auto

lemma first_opt_append: "first_opt (xs @ ys) = (case first_opt xs of None \<Rightarrow> first_opt ys | r \<Rightarrow> r)"
  by (cases xs) auto

section \<open>Maps\<close>

text \<open>
  The interface: what a look-up returns after an insertion or a removal, and that both
  keep the representation invariant. \<open>insert\<close> overwrites, as \<open>HashMap::insert\<close> and
  \<open>BTreeMap::insert\<close> do.
\<close>

locale dictionary =
  fixes get :: "'m \<Rightarrow> 'k \<Rightarrow> 'v option"
    and insert :: "'k \<Rightarrow> 'v \<Rightarrow> 'm \<Rightarrow> 'm"
    and remove :: "'k \<Rightarrow> 'm \<Rightarrow> 'm"
    and keys :: "'m \<Rightarrow> 'k set"
    and inv :: "'m \<Rightarrow> bool"
  assumes get_insert: "inv m \<Longrightarrow> get (insert k v m) = (get m)(k \<mapsto> v)"
    and get_remove: "inv m \<Longrightarrow> get (remove k m) = (get m)(k := None)"
    and keys_get: "keys m = {k. get m k \<noteq> None}"
    and inv_insert: "inv m \<Longrightarrow> inv (insert k v m)"
    and inv_remove: "inv m \<Longrightarrow> inv (remove k m)"
begin

lemma get_insert_same: "inv m \<Longrightarrow> get (insert k v m) k = Some v"
  by (simp add: get_insert)

lemma get_insert_other: "inv m \<Longrightarrow> k' \<noteq> k \<Longrightarrow> get (insert k v m) k' = get m k'"
  by (simp add: get_insert)

lemma keys_insert: "inv m \<Longrightarrow> keys (insert k v m) = Set.insert k (keys m)"
  by (auto simp: keys_get get_insert)

lemma keys_remove: "inv m \<Longrightarrow> keys (remove k m) = keys m - {k}"
  by (auto simp: keys_get get_remove)

text \<open>Removing a batch of keys one after the other, as the callers' loops do.\<close>

lemma get_fold_remove:
  "inv m \<Longrightarrow> inv (fold remove ks m) \<and>
     get (fold remove ks m) k = (if k \<in> set ks then None else get m k)"
  by (induction ks arbitrary: m) (auto simp: get_remove inv_remove)

lemma inv_fold_remove: "inv m \<Longrightarrow> inv (fold remove ks m)"
  by (simp add: get_fold_remove)

end

subsection \<open>HashMap\<close>

type_synonym ('k, 'v) hash_map = "('k \<times> 'v) list"

abbreviation hm_get :: "('k, 'v) hash_map \<Rightarrow> 'k \<Rightarrow> 'v option" where
  "hm_get m k \<equiv> map_of m k"

abbreviation hm_insert :: "'k \<Rightarrow> 'v \<Rightarrow> ('k, 'v) hash_map \<Rightarrow> ('k, 'v) hash_map" where
  "hm_insert \<equiv> AList.update"

abbreviation hm_remove :: "'k \<Rightarrow> ('k, 'v) hash_map \<Rightarrow> ('k, 'v) hash_map" where
  "hm_remove \<equiv> AList.delete"

abbreviation hm_contains :: "('k, 'v) hash_map \<Rightarrow> 'k \<Rightarrow> bool" where
  "hm_contains m k \<equiv> map_of m k \<noteq> None"

abbreviation hm_ok :: "('k, 'v) hash_map \<Rightarrow> bool" where
  "hm_ok m \<equiv> distinct (map fst m)"

lemma dom_map_of_keys: "dom (map_of m) = fst ` set m"
  by (rule dom_map_of_conv_image_fst)

interpretation hm: dictionary hm_get hm_insert hm_remove "\<lambda>m. fst ` set m" hm_ok
proof unfold_locales
  fix m :: "('a, 'b) hash_map" and k :: 'a and v :: 'b
  show "fst ` set m = {k. map_of m k \<noteq> None}"
    using dom_map_of_keys [of m] by (auto simp: dom_def)
qed (auto simp: update_conv' delete_conv' distinct_update distinct_delete)

subsection \<open>BTreeMap\<close>

type_synonym ('k, 'v) btree_map = "('k \<times> 'v) list"

fun bt_insert :: "'k::linorder \<Rightarrow> 'v \<Rightarrow> ('k, 'v) btree_map \<Rightarrow> ('k, 'v) btree_map" where
  "bt_insert k v [] = [(k, v)]"
| "bt_insert k v ((k', v') # m) =
     (if k < k' then (k, v) # (k', v') # m
      else if k = k' then (k, v) # m
      else (k', v') # bt_insert k v m)"

abbreviation bt_remove :: "'k \<Rightarrow> ('k, 'v) btree_map \<Rightarrow> ('k, 'v) btree_map" where
  "bt_remove \<equiv> AList.delete"

abbreviation bt_get :: "('k, 'v) btree_map \<Rightarrow> 'k \<Rightarrow> 'v option" where
  "bt_get m k \<equiv> map_of m k"

definition bt_ok :: "('k::linorder, 'v) btree_map \<Rightarrow> bool" where
  "bt_ok m \<longleftrightarrow> sorted_wrt (<) (map fst m)"

lemma bt_ok_Nil [simp]: "bt_ok []"
  by (simp add: bt_ok_def)

lemma bt_ok_Cons: "bt_ok ((k, v) # m) \<longleftrightarrow> (\<forall>k' \<in> fst ` set m. k < k') \<and> bt_ok m"
  by (auto simp: bt_ok_def)

lemma bt_ok_append:
  "bt_ok (m @ m') \<longleftrightarrow> bt_ok m \<and> bt_ok m' \<and> (\<forall>k \<in> fst ` set m. \<forall>k' \<in> fst ` set m'. k < k')"
  by (auto simp: bt_ok_def sorted_wrt_append)

lemma bt_ok_distinct: "bt_ok m \<Longrightarrow> distinct (map fst m)"
  by (auto simp: bt_ok_def strict_sorted_iff)

lemma bt_ok_hm_ok: "bt_ok m \<Longrightarrow> hm_ok m"
  by (rule bt_ok_distinct)

lemma fst_set_bt_insert [simp]: "fst ` set (bt_insert k v m) = insert k (fst ` set m)"
  by (induction k v m rule: bt_insert.induct) auto

lemma bt_ok_insert: "bt_ok m \<Longrightarrow> bt_ok (bt_insert k v m)"
  by (induction k v m rule: bt_insert.induct) (auto simp: bt_ok_Cons)

lemma map_of_bt_insert: "bt_ok m \<Longrightarrow> map_of (bt_insert k v m) = (map_of m)(k \<mapsto> v)"
  by (induction k v m rule: bt_insert.induct) (auto simp: bt_ok_Cons fun_eq_iff)

lemma bt_ok_filter: "bt_ok m \<Longrightarrow> bt_ok (filter P m)"
  by (induction m) (auto simp: bt_ok_Cons)

lemma bt_ok_remove: "bt_ok m \<Longrightarrow> bt_ok (bt_remove k m)"
  by (simp add: AList.delete_eq bt_ok_filter)

interpretation bt: dictionary bt_get bt_insert bt_remove "\<lambda>m. fst ` set m" bt_ok
proof unfold_locales
  fix m :: "('a, 'b) btree_map" and k :: 'a and v :: 'b
  show "fst ` set m = {k. map_of m k \<noteq> None}"
    using dom_map_of_keys [of m] by (auto simp: dom_def)
qed (auto simp: map_of_bt_insert delete_conv' bt_ok_insert bt_ok_remove)

lemmas [map_laws] = hm.get_insert hm.get_remove bt.get_insert bt.get_remove

text \<open>Two ordered maps with the same look-up function are the same map.\<close>

lemma alist_by_keys: "distinct (map fst m) \<Longrightarrow> m = map (\<lambda>k. (k, the (map_of m k))) (map fst m)"
  by (rule sym, unfold map_map, rule map_idI) auto

lemma bt_ok_map_of_eq:
  assumes "bt_ok m" "bt_ok m'" "map_of m = map_of m'"
  shows "m = m'"
proof -
  have "fst ` set m = fst ` set m'"
    using assms(3) by (metis dom_map_of_conv_image_fst)
  then have "map fst m = map fst m'"
    using assms(1,2) by (intro strict_sorted_equal) (auto simp: bt_ok_def)
  then show ?thesis
    using alist_by_keys [of m] alist_by_keys [of m'] assms by (simp add: bt_ok_distinct)
qed

section \<open>Refinement\<close>

text \<open>
  A detailed implementation whose operations may panic (\<open>None\<close>) against a total abstract
  specification. One law per step; runs of any length are derived from it once.
\<close>

fun run_impl :: "('op \<Rightarrow> 'c \<Rightarrow> ('ans \<times> 'c) option) \<Rightarrow> 'op list \<Rightarrow> 'c \<Rightarrow> ('ans list \<times> 'c) option" where
  "run_impl f [] c = Some ([], c)"
| "run_impl f (x # xs) c =
     Option.bind (f x c) (\<lambda>(r, c'). map_option (\<lambda>(rs, c''). (r # rs, c'')) (run_impl f xs c'))"

fun run_spec :: "('op \<Rightarrow> 'a \<Rightarrow> 'ans \<times> 'a) \<Rightarrow> 'op list \<Rightarrow> 'a \<Rightarrow> 'ans list \<times> 'a" where
  "run_spec g [] a = ([], a)"
| "run_spec g (x # xs) a = (let (r, a') = g x a; (rs, a'') = run_spec g xs a' in (r # rs, a''))"

locale simulation =
  fixes impl :: "'op \<Rightarrow> 'c \<Rightarrow> ('ans \<times> 'c) option"
    and spec :: "'op \<Rightarrow> 'a \<Rightarrow> 'ans \<times> 'a"
    and rel :: "'c \<Rightarrow> 'a \<Rightarrow> bool"
  assumes step: "rel c a \<Longrightarrow> \<exists>c'. impl x c = Some (fst (spec x a), c') \<and> rel c' (snd (spec x a))"
begin

lemma run:
  "rel c a \<Longrightarrow> \<exists>c'. run_impl impl xs c = Some (fst (run_spec spec xs a), c') \<and>
     rel c' (snd (run_spec spec xs a))"
proof (induction xs arbitrary: c a)
  case (Cons x xs)
  obtain c' where c': "impl x c = Some (fst (spec x a), c')" "rel c' (snd (spec x a))"
    using step [OF Cons.prems] by blast
  from Cons.IH [OF c'(2)] c'(1) show ?case
    by (auto simp: split_beta Let_def)
qed simp

end

section \<open>Invariants\<close>

text \<open>
  An operation-driven component: a total step function, an invariant that holds initially and is kept
  by every step. Reachability is by the usual inductive definition.
\<close>

inductive reachable :: "('op \<Rightarrow> 's \<Rightarrow> 's) \<Rightarrow> 's \<Rightarrow> 's \<Rightarrow> bool" for step :: "'op \<Rightarrow> 's \<Rightarrow> 's" and init :: 's where
  reach_init: "reachable step init init"
| reach_step: "reachable step init s \<Longrightarrow> reachable step init (step x s)"

locale invariant_system =
  fixes step :: "'op \<Rightarrow> 's \<Rightarrow> 's" and inv :: "'s \<Rightarrow> bool" and init :: 's
  assumes inv_init: "inv init" and inv_step: "inv s \<Longrightarrow> inv (step x s)"
begin

lemma reachable_inv: "reachable step init s \<Longrightarrow> inv s"
  by (induction rule: reachable.induct) (auto intro: inv_init inv_step)

lemma run_inv: "inv s \<Longrightarrow> inv (fold step xs s)"
  by (induction xs arbitrary: s) (auto intro: inv_step)

lemma run_reachable: "reachable step init s \<Longrightarrow> reachable step init (fold step xs s)"
  by (induction xs arbitrary: s) (auto intro: reach_step)

end

end
