(* ===== verification/Order_Types.thy ===== *)
theory Order_Types
  imports Prelude "HOL-Library.Char_ord" "HOL-Library.List_Lexorder"
begin

text \<open>
  The vocabulary of the order book: \<open>server/src/order_book/types.rs\<close> (\<open>Side\<close>, \<open>Oid\<close>, \<open>Px\<close>,
  \<open>Sz\<close>, \<open>Coin\<close>, \<open>PxBand\<close>) and the order kept in the book, \<open>InnerL4Order\<close> of
  \<open>server/src/types/inner.rs\<close>, with its implementation of the trait \<open>InnerOrder\<close>. The books
  of the program are generic in the trait; the only order type the program runs them at is
  \<open>InnerL4Order\<close>, and the development is about that instance.

  The newtypes are one-constructor datatypes with the derived order of the Rust code
  (\<open>instantiation ... :: linorder\<close>), so that the ordered maps of \<open>Prelude\<close> apply to them. An
  \<open>Address\<close> of the crate \<open>alloy\<close> is its 20 bytes.
\<close>

section \<open>Sides, identifiers, prices, sizes\<close>

datatype side = Ask | Bid

datatype oid = Oid (oid_value: u64)

datatype px = Px (px_value: u64)

datatype sz = Sz (sz_value: u64)

datatype coin = Coin (coin_value: string)

type_synonym address = "u8 list"

instantiation px :: linorder
begin

definition less_eq_px :: "px \<Rightarrow> px \<Rightarrow> bool" where
  "a \<le> b \<longleftrightarrow> px_value a \<le> px_value b"

definition less_px :: "px \<Rightarrow> px \<Rightarrow> bool" where
  "a < b \<longleftrightarrow> px_value a < px_value b"

instance
  by standard (auto simp: less_eq_px_def less_px_def px.expand)

end

instantiation sz :: linorder
begin

definition less_eq_sz :: "sz \<Rightarrow> sz \<Rightarrow> bool" where
  "a \<le> b \<longleftrightarrow> sz_value a \<le> sz_value b"

definition less_sz :: "sz \<Rightarrow> sz \<Rightarrow> bool" where
  "a < b \<longleftrightarrow> sz_value a < sz_value b"

instance
  by standard (auto simp: less_eq_sz_def less_sz_def sz.expand)

end

instantiation coin :: linorder
begin

definition less_eq_coin :: "coin \<Rightarrow> coin \<Rightarrow> bool" where
  "a \<le> b \<longleftrightarrow> coin_value a \<le> coin_value b"

definition less_coin :: "coin \<Rightarrow> coin \<Rightarrow> bool" where
  "a < b \<longleftrightarrow> coin_value a < coin_value b"

instance
  by standard (auto simp: less_eq_coin_def less_coin_def coin.expand)

end

lemma px_order_simps [simp]:
  "Px a \<le> Px b \<longleftrightarrow> a \<le> b" "Px a < Px b \<longleftrightarrow> a < b"
  by (simp_all add: less_eq_px_def less_px_def)

lemma sz_order_simps [simp]:
  "Sz a \<le> Sz b \<longleftrightarrow> a \<le> b" "Sz a < Sz b \<longleftrightarrow> a < b"
  by (simp_all add: less_eq_sz_def less_sz_def)

lemma coin_order_simps [simp]:
  "Coin a \<le> Coin b \<longleftrightarrow> a \<le> b" "Coin a < Coin b \<longleftrightarrow> a < b"
  by (simp_all add: less_eq_coin_def less_coin_def)

subsection \<open>Sizes\<close>

definition sz_is_positive :: "sz \<Rightarrow> bool" where
  "sz_is_positive s \<longleftrightarrow> sz_value s > 0"

definition sz_is_zero :: "sz \<Rightarrow> bool" where
  "sz_is_zero s \<longleftrightarrow> sz_value s = 0"

definition sz_decrement :: "sz \<Rightarrow> u64 \<Rightarrow> sz" where
  "sz_decrement s d = Sz (saturating_sub (sz_value s) d)"

definition sz_add :: "sz \<Rightarrow> sz \<Rightarrow> sz" where
  "sz_add a b = Sz (saturating_add (sz_value a) (sz_value b))"

instantiation sz :: plus
begin

definition plus_sz :: "sz \<Rightarrow> sz \<Rightarrow> sz" where
  "a + b = sz_add a b"

instance ..

end

text \<open>The size as a number, the reading every statement on sizes uses.\<close>

abbreviation szn :: "sz \<Rightarrow> nat" where
  "szn s \<equiv> unat (sz_value s)"

lemma szn_decrement [word_arith]: "szn (sz_decrement s d) = szn s - unat d"
  by (simp add: sz_decrement_def word_arith)

lemma szn_plus [word_arith]: "szn (a + b) = min (szn a + szn b) (2 ^ 64 - 1)"
  by (simp add: plus_sz_def sz_add_def word_arith)

lemma sz_positive_iff: "sz_is_positive s \<longleftrightarrow> \<not> sz_is_zero s"
  by (simp add: sz_is_positive_def sz_is_zero_def word_gt_0)

lemma sz_zero_iff [word_arith]: "sz_is_zero s \<longleftrightarrow> szn s = 0"
  by (simp add: sz_is_zero_def unat_eq_zero)

lemma szn_inject: "szn a = szn b \<longleftrightarrow> a = b"
  by (cases a; cases b) (simp add: word_eq_iff_unsigned [where 'a = nat, symmetric])

lemma szn_min: "szn (min a b) = min (szn a) (szn b)"
  by (simp add: min_def less_eq_sz_def word_le_nat_alt)

text \<open>Saturating addition makes sizes a commutative monoid, so sums over lists of sizes make sense.\<close>

instantiation sz :: comm_monoid_add
begin

definition zero_sz :: sz where "zero_sz = Sz 0"

instance
proof
  fix a b c :: sz
  show "a + b + c = a + (b + c)"
    by (simp add: szn_plus flip: szn_inject)
  show "a + b = b + a"
    by (simp add: szn_plus add.commute flip: szn_inject)
  have "szn a \<le> 2 ^ 64 - 1"
    using unsigned_less [of "sz_value a", where 'a = nat] by simp
  then show "0 + a = a"
    by (simp add: szn_plus zero_sz_def flip: szn_inject)
qed

end

lemma szn_zero [simp]: "szn 0 = 0"
  by (simp add: zero_sz_def)

text \<open>The saturating sum of a list of sizes.\<close>

lemma szn_sum_list: "szn (sum_list ss) = min (sum_list (map szn ss)) (2 ^ 64 - 1)"
  by (induction ss) (auto simp: szn_plus)

subsection \<open>Coins\<close>

definition str_is_spot :: "string \<Rightarrow> bool" where
  "str_is_spot c \<longleftrightarrow> first_opt c = Some CHR ''@'' \<or> c = ''PURR/USDC''"

definition coin_is_spot :: "coin \<Rightarrow> bool" where
  "coin_is_spot c \<longleftrightarrow> str_is_spot (coin_value c)"

definition coin_is_hip3 :: "coin \<Rightarrow> bool" where
  "coin_is_hip3 c \<longleftrightarrow> CHR '':'' \<in> set (coin_value c)"

definition coin_is_perp :: "coin \<Rightarrow> bool" where
  "coin_is_perp c \<longleftrightarrow> \<not> coin_is_spot c \<and> \<not> coin_is_hip3 c"

subsection \<open>Price bands\<close>

record px_band =
  band_min :: "px option"
  band_max :: "px option"

definition px_band_default :: px_band where
  "px_band_default = \<lparr>band_min = None, band_max = None\<rparr>"

definition band_is_inverted :: "px_band \<Rightarrow> bool" where
  "band_is_inverted b \<longleftrightarrow>
     (case (band_min b, band_max b) of (Some lo, Some hi) \<Rightarrow> hi < lo | _ \<Rightarrow> False)"

text \<open>
  \<open>range_bounds\<close> turns the band into the two \<open>Bound\<close>s of \<open>BTreeMap::range\<close>; a key lies in the
  range when it satisfies both.
\<close>

datatype bound = Included px | Unbounded

definition range_bounds :: "px_band \<Rightarrow> bound \<times> bound" where
  "range_bounds b =
     (case band_min b of None \<Rightarrow> Unbounded | Some p \<Rightarrow> Included p,
      case band_max b of None \<Rightarrow> Unbounded | Some p \<Rightarrow> Included p)"

fun above_bound :: "bound \<Rightarrow> px \<Rightarrow> bool" where
  "above_bound Unbounded p = True"
| "above_bound (Included q) p = (q \<le> p)"

fun below_bound :: "bound \<Rightarrow> px \<Rightarrow> bool" where
  "below_bound Unbounded p = True"
| "below_bound (Included q) p = (p \<le> q)"

definition in_range :: "bound \<times> bound \<Rightarrow> px \<Rightarrow> bool" where
  "in_range r p \<longleftrightarrow> above_bound (fst r) p \<and> below_bound (snd r) p"

lemma in_range_default [simp]: "in_range (range_bounds px_band_default) p"
  by (simp add: in_range_def range_bounds_def px_band_default_def)

section \<open>The order kept in the book\<close>

record inner_l4_order =
  io_user :: address
  io_coin :: coin
  io_side :: side
  io_limit_px :: px
  io_sz :: sz
  io_oid :: u64
  io_timestamp :: u64
  io_trigger_condition :: string
  io_is_trigger :: bool
  io_trigger_px :: string
  io_is_position_tpsl :: bool
  io_reduce_only :: bool
  io_order_type :: string
  io_tif :: "string option"
  io_cloid :: "string option"

definition order_oid :: "inner_l4_order \<Rightarrow> oid" where
  "order_oid o' = Oid (io_oid o')"

definition decrement_sz :: "sz \<Rightarrow> inner_l4_order \<Rightarrow> inner_l4_order" where
  "decrement_sz dec o' = o'\<lparr>io_sz := sz_decrement (io_sz o') (sz_value dec)\<rparr>"

definition order_modify_sz :: "sz \<Rightarrow> inner_l4_order \<Rightarrow> inner_l4_order" where
  "order_modify_sz s o' = o'\<lparr>io_sz := s\<rparr>"

text \<open>\<open>fill\<close> mutates the taker and the maker; the model returns the matched size and both.\<close>

definition order_fill ::
  "inner_l4_order \<Rightarrow> inner_l4_order \<Rightarrow> sz \<times> inner_l4_order \<times> inner_l4_order" where
  "order_fill taker maker =
     (let match_sz = min (io_sz taker) (io_sz maker)
      in (match_sz, decrement_sz match_sz taker, decrement_sz match_sz maker))"

definition convert_trigger :: "u64 \<Rightarrow> inner_l4_order \<Rightarrow> inner_l4_order" where
  "convert_trigger ts o' =
     (if io_is_trigger o'
      then o'\<lparr>io_trigger_px := ''0.0'', io_trigger_condition := ''Triggered'',
             io_is_trigger := False, io_timestamp := ts, io_tif := Some ''Gtc''\<rparr>
      else o')"

text \<open>What the queue operations never change of an order: everything but its size.\<close>

definition same_order :: "inner_l4_order \<Rightarrow> inner_l4_order \<Rightarrow> bool" where
  "same_order a b \<longleftrightarrow> a\<lparr>io_sz := io_sz b\<rparr> = b"

lemma same_order_refl [simp]: "same_order a a"
  by (simp add: same_order_def)

lemma same_order_fields:
  "same_order a b \<Longrightarrow>
     order_oid a = order_oid b \<and> io_side a = io_side b \<and> io_limit_px a = io_limit_px b \<and>
     io_coin a = io_coin b \<and> io_oid a = io_oid b"
  by (cases a; cases b) (auto simp: same_order_def order_oid_def)

lemma same_order_trans: "same_order a b \<Longrightarrow> same_order b c \<Longrightarrow> same_order a c"
  by (cases a; cases b; cases c) (auto simp: same_order_def)

lemma same_order_decrement [simp]: "same_order a (decrement_sz d a)"
  by (simp add: same_order_def decrement_sz_def)

lemma same_order_modify [simp]: "same_order a (order_modify_sz s a)"
  by (simp add: same_order_def order_modify_sz_def)

lemma order_fields_decrement [simp]:
  "io_side (decrement_sz d a) = io_side a" "io_limit_px (decrement_sz d a) = io_limit_px a"
  "order_oid (decrement_sz d a) = order_oid a" "io_coin (decrement_sz d a) = io_coin a"
  "io_oid (decrement_sz d a) = io_oid a"
  by (simp_all add: decrement_sz_def order_oid_def)

lemma order_fields_modify [simp]:
  "io_side (order_modify_sz s a) = io_side a" "io_limit_px (order_modify_sz s a) = io_limit_px a"
  "order_oid (order_modify_sz s a) = order_oid a" "io_coin (order_modify_sz s a) = io_coin a"
  "io_sz (order_modify_sz s a) = s" "io_oid (order_modify_sz s a) = io_oid a"
  by (simp_all add: order_modify_sz_def order_oid_def)

lemma order_fields_convert_trigger [simp]:
  "io_side (convert_trigger t a) = io_side a" "io_limit_px (convert_trigger t a) = io_limit_px a"
  "order_oid (convert_trigger t a) = order_oid a" "io_coin (convert_trigger t a) = io_coin a"
  "io_sz (convert_trigger t a) = io_sz a" "io_oid (convert_trigger t a) = io_oid a"
  by (simp_all add: convert_trigger_def order_oid_def)

text \<open>The size of an order as a number.\<close>

abbreviation order_szn :: "inner_l4_order \<Rightarrow> nat" where
  "order_szn o' \<equiv> szn (io_sz o')"

text \<open>A fill takes the same amount from both sides and leaves at least one of them empty.\<close>

lemma order_szn_decrement [word_arith]: "order_szn (decrement_sz d a) = order_szn a - szn d"
  by (simp add: decrement_sz_def szn_decrement)

lemma order_fill_sizes:
  assumes "order_fill t m = (s, t', m')"
  shows "szn s = min (order_szn t) (order_szn m)"
    and "order_szn t' = order_szn t - order_szn m"
    and "order_szn m' = order_szn m - order_szn t"
  using assms by (auto simp: order_fill_def Let_def word_arith szn_min)

lemma order_fill_same:
  assumes "order_fill t m = (s, t', m')"
  shows "same_order t t'" and "same_order m m'"
  using assms by (auto simp: order_fill_def Let_def)

end
