(* ===== verification/Fixed_Point.thy ===== *)
theory Fixed_Point
  imports Complex_Main "HOL-Library.Log_Nat" Order_Types
begin

text \<open>
  The text form of prices and sizes (\<open>order_book/types.rs\<close>): a decimal string on the wire, a
  \<open>u64\<close> count of \<open>10\<^sup>-\<^sup>8\<close> units in memory, and a double in between. The double is the standard
  library's and is modelled exactly: a finite value is the rational it stands for, an
  operation is the exact result rounded to nearest, ties to even, at 53 bits of precision
  with the subnormal and overflow thresholds of binary64. A signed zero is the rational 0,
  which no operation used here tells apart.

  \<^item> \<open>parse_f64\<close> is \<open>str::parse::<f64>\<close>: the documented grammar, correctly rounded.
  \<^item> \<open>parse_fixed_point\<close>, \<open>parse_from_str\<close>, \<open>to_str\<close>, \<open>band_parse\<close> are the code's functions.

  Shown: printing and reading back is the identity for every value below \<open>2\<^sup>5\<^sup>1\<close> (over 22
  million units of the coin's quote currency), the errors of the parser, and that the text
  that denotes \<open>2\<^sup>6\<^sup>4\<close> units exactly is accepted and saturates.
\<close>

section \<open>Doubles\<close>

datatype f64 = Fin rat | Inf bool | NaN

definition pow2 :: "int \<Rightarrow> rat" where
  "pow2 k = (if 0 \<le> k then 2 ^ nat k else 1 / 2 ^ nat (- k))"

definition pow10 :: "int \<Rightarrow> rat" where
  "pow10 k = (if 0 \<le> k then 10 ^ nat k else 1 / 10 ^ nat (- k))"

text \<open>The exponent of the leading bit of a positive rational.\<close>

definition floor_log2 :: "rat \<Rightarrow> int" where
  "floor_log2 x =
     (let (a, b) = quotient_of x; k = bitlen a - bitlen b
      in if pow2 k \<le> x then k else k - 1)"

definition rnd_even :: "rat \<Rightarrow> int" where
  "rnd_even q =
     (let f = \<lfloor>q\<rfloor>; d = q - of_int f
      in if d < 1 / 2 then f else if 1 / 2 < d then f + 1 else if even f then f else f + 1)"

definition f64_round_pos :: "rat \<Rightarrow> f64" where
  "f64_round_pos x =
     (let k = max (floor_log2 x - 52) (- 1074);
          r = of_int (rnd_even (x / pow2 k)) * pow2 k
      in if pow2 1024 \<le> r then Inf False else Fin r)"

fun f64_neg :: "f64 \<Rightarrow> f64" where
  "f64_neg (Fin r) = Fin (- r)"
| "f64_neg (Inf s) = Inf (\<not> s)"
| "f64_neg NaN = NaN"

definition f64_round :: "rat \<Rightarrow> f64" where
  "f64_round x =
     (if x = 0 then Fin 0 else if x < 0 then f64_neg (f64_round_pos (- x)) else f64_round_pos x)"

fun f64_less :: "f64 \<Rightarrow> f64 \<Rightarrow> bool" where
  "f64_less (Fin a) (Fin b) = (a < b)"
| "f64_less (Fin a) (Inf s) = (\<not> s)"
| "f64_less (Inf s) (Fin b) = s"
| "f64_less (Inf s) (Inf t) = (s \<and> \<not> t)"
| "f64_less _ _ = False"

fun f64_is_finite :: "f64 \<Rightarrow> bool" where
  "f64_is_finite (Fin _) = True"
| "f64_is_finite _ = False"

text \<open>Multiplication and division by a positive finite constant.\<close>

fun f64_scale :: "f64 \<Rightarrow> rat \<Rightarrow> f64" where
  "f64_scale (Fin a) c = f64_round (a * c)"
| "f64_scale v c = v"

text \<open>\<open>f64::round\<close>: to the nearest integer, halves away from zero.\<close>

definition round_half_away :: "rat \<Rightarrow> int" where
  "round_half_away q = (if q < 0 then - \<lfloor>- q + 1 / 2\<rfloor> else \<lfloor>q + 1 / 2\<rfloor>)"

fun f64_round_int :: "f64 \<Rightarrow> f64" where
  "f64_round_int (Fin a) = Fin (of_int (round_half_away a))"
| "f64_round_int v = v"

text \<open>The saturating cast \<open>as u64\<close> and the rounding cast \<open>as f64\<close>.\<close>

fun f64_as_u64 :: "f64 \<Rightarrow> u64" where
  "f64_as_u64 (Fin a) =
     (if a < 0 then 0 else if pow2 64 \<le> a then u64_max else word_of_int \<lfloor>a\<rfloor>)"
| "f64_as_u64 (Inf s) = (if s then 0 else u64_max)"
| "f64_as_u64 NaN = 0"

definition u64_as_f64 :: "u64 \<Rightarrow> f64" where
  "u64_as_f64 v = f64_round (of_int (uint v))"

section \<open>Decimal text\<close>

definition is_digit :: "char \<Rightarrow> bool" where
  "is_digit c \<longleftrightarrow> 48 \<le> (of_char c :: int) \<and> (of_char c :: int) \<le> 57"

definition digit_val :: "char \<Rightarrow> int" where
  "digit_val c = of_char c - 48"

definition digit_char :: "int \<Rightarrow> char" where
  "digit_char d = char_of (48 + d)"

definition digits_int :: "string \<Rightarrow> int" where
  "digits_int ds = foldl (\<lambda>a c. 10 * a + digit_val c) 0 ds"

definition strip_sign :: "string \<Rightarrow> bool \<times> string" where
  "strip_sign s =
     (case s of [] \<Rightarrow> (False, [])
      | c # r \<Rightarrow> if c = CHR ''-'' then (True, r) else if c = CHR ''+'' then (False, r) else (False, s))"

definition to_ascii_lower :: "char \<Rightarrow> char" where
  "to_ascii_lower c =
     (let n = of_char c :: int in if 65 \<le> n \<and> n \<le> 90 then char_of (n + 32) else c)"

text \<open>The exponent part: nothing, or \<open>e\<close>, an optional sign and at least one digit.\<close>

definition parse_exp :: "string \<Rightarrow> int option" where
  "parse_exp r =
     (case r of [] \<Rightarrow> Some 0
      | c # t \<Rightarrow>
        if to_ascii_lower c = CHR ''e'' then
          (let (neg, ds) = strip_sign t
           in if ds \<noteq> [] \<and> list_all is_digit ds
              then Some (if neg then - digits_int ds else digits_int ds) else None)
        else None)"

definition parse_number :: "string \<Rightarrow> rat option" where
  "parse_number s =
     (let ip = takeWhile is_digit s; r = dropWhile is_digit s;
          (fp, r2) = (case r of [] \<Rightarrow> ([], [])
                      | c # t \<Rightarrow> if c = CHR ''.'' then (takeWhile is_digit t, dropWhile is_digit t)
                                 else ([], r))
      in if ip = [] \<and> fp = [] then None
         else map_option
                (\<lambda>e. of_int (digits_int (ip @ fp)) * pow10 (e - int (length fp))) (parse_exp r2))"

definition parse_f64 :: "string \<Rightarrow> f64 option" where
  "parse_f64 s =
     (let (neg, t) = strip_sign s; l = map to_ascii_lower t
      in if l = ''inf'' \<or> l = ''infinity'' then Some (Inf neg)
         else if l = ''nan'' then Some NaN
         else map_option (\<lambda>q. f64_round (if neg then - q else q)) (parse_number t))"

function show_int :: "int \<Rightarrow> string" where
  "show_int n = (if n < 10 then [digit_char n] else show_int (n div 10) @ [digit_char (n mod 10)])"
  by auto
termination
  by (relation "measure nat") auto

declare show_int.simps [simp del]

fun pad_int :: "nat \<Rightarrow> int \<Rightarrow> string" where
  "pad_int 0 n = []"
| "pad_int (Suc k) n = pad_int k (n div 10) @ [digit_char (n mod 10)]"

text \<open>\<open>format!("{:.8}", x)\<close> of a non-negative double: its exact value rounded at the eighth digit.\<close>

definition format_8 :: "rat \<Rightarrow> string" where
  "format_8 x =
     (let n = rnd_even (x * 100000000)
      in show_int (n div 100000000) @ ''.'' @ pad_int 8 (n mod 100000000))"

definition trim_end_matches :: "char \<Rightarrow> string \<Rightarrow> string" where
  "trim_end_matches c s = rev (dropWhile (\<lambda>d. d = c) (rev s))"

section \<open>The code's parser and printer\<close>

datatype parse_error =
    ParseFloat
  | NonFinite string
  | NegativeInput string
  | OverflowsU64 string
  | InvertedBand "string option" "string option"

abbreviation multiplier :: rat where "multiplier \<equiv> 100000000"

definition parse_fixed_point :: "string \<Rightarrow> parse_error + u64" where
  "parse_fixed_point v =
     (case parse_f64 v of None \<Rightarrow> Inl ParseFloat
      | Some parsed \<Rightarrow>
        if \<not> f64_is_finite parsed then Inl (NonFinite v)
        else if f64_less parsed (Fin 0) then Inl (NegativeInput v)
        else (let scaled = f64_round_int (f64_scale parsed multiplier)
              in if f64_less (u64_as_f64 u64_max) scaled then Inl (OverflowsU64 v)
                 else Inr (f64_as_u64 scaled)))"

definition map_ok :: "('a \<Rightarrow> 'b) \<Rightarrow> 'e + 'a \<Rightarrow> 'e + 'b" where
  "map_ok f r = (case r of Inl e \<Rightarrow> Inl e | Inr x \<Rightarrow> Inr (f x))"

definition px_parse_from_str :: "string \<Rightarrow> parse_error + px" where
  "px_parse_from_str v = map_ok Px (parse_fixed_point v)"

definition sz_parse_from_str :: "string \<Rightarrow> parse_error + sz" where
  "sz_parse_from_str v = map_ok Sz (parse_fixed_point v)"

text \<open>Both \<open>to_str\<close> functions have this body; the double is finite for every \<open>u64\<close>.\<close>

definition fixed_to_str :: "u64 \<Rightarrow> string" where
  "fixed_to_str v =
     (case f64_scale (u64_as_f64 v) (1 / multiplier) of
        Fin x \<Rightarrow> trim_end_matches CHR ''.'' (trim_end_matches CHR ''0'' (format_8 x))
      | Inf _ \<Rightarrow> ''inf''
      | NaN \<Rightarrow> ''NaN'')"

definition px_to_str :: "px \<Rightarrow> string" where
  "px_to_str p = fixed_to_str (px_value p)"

definition sz_to_str :: "sz \<Rightarrow> string" where
  "sz_to_str s = fixed_to_str (sz_value s)"

text \<open>\<open>Option::map(parse).transpose()?\<close> for the two bounds, in order.\<close>

definition opt_px_parse :: "string option \<Rightarrow> parse_error + px option" where
  "opt_px_parse o1 = (case o1 of None \<Rightarrow> Inr None | Some s \<Rightarrow> map_ok Some (px_parse_from_str s))"

definition band_parse :: "string option \<Rightarrow> string option \<Rightarrow> parse_error + px_band" where
  "band_parse min_px max_px =
     (case opt_px_parse min_px of Inl e \<Rightarrow> Inl e
      | Inr lo \<Rightarrow>
        (case opt_px_parse max_px of Inl e \<Rightarrow> Inl e
         | Inr hi \<Rightarrow>
           (let band = \<lparr>band_min = lo, band_max = hi\<rparr>
            in if band_is_inverted band then Inl (InvertedBand min_px max_px) else Inr band)))"

section \<open>Rounding facts\<close>

lemma pow2_powi: "pow2 k = 2 powi k"
  unfolding pow2_def power_int_def by (simp only: divide_inverse mult_1_left power_inverse)

lemma pow2_pos [simp]: "0 < pow2 k"
  by (simp add: pow2_def)

lemma pow2_add: "pow2 (a + b) = pow2 a * pow2 b"
  by (simp add: pow2_powi power_int_add)

lemma pow2_diff: "pow2 (a - b) = pow2 a / pow2 b"
  by (simp add: pow2_powi power_int_diff)

lemma pow2_mono: "a \<le> b \<Longrightarrow> pow2 a \<le> pow2 b"
  by (simp add: pow2_powi power_int_increasing)

lemma pow2_less: "pow2 a < pow2 b \<Longrightarrow> a < b"
  using pow2_mono [of b a] by (meson not_less)

lemma pow2_nat: "0 \<le> k \<Longrightarrow> pow2 k = 2 ^ nat k"
  by (simp add: pow2_def)

lemma bitlen_pow2:
  assumes "0 < a"
  shows "pow2 (bitlen a - 1) \<le> of_int a" and "of_int a < pow2 (bitlen a)"
proof -
  have b: "2 ^ nat (bitlen a - 1) \<le> a" "a < 2 ^ nat (bitlen a)"
    using bitlen_bounds [OF assms] by auto
  have "1 \<le> bitlen a"
    using assms bitlen_eq_zero_iff [of a] bitlen_nonneg [of a] by linarith
  then show "pow2 (bitlen a - 1) \<le> of_int a" "of_int a < pow2 (bitlen a)"
    using b(1) [folded of_int_le_iff [where 'a = rat]] b(2) [folded of_int_less_iff [where 'a = rat]]
    by (simp_all add: pow2_nat)
qed

lemma floor_log2_bounds:
  assumes "0 < x"
  shows "pow2 (floor_log2 x) \<le> x" and "x < pow2 (floor_log2 x + 1)"
proof -
  obtain a b where q: "quotient_of x = (a, b)"
    by (cases "quotient_of x")
  have b: "0 < b"
    using quotient_of_denom_pos [OF q] .
  have x: "x = of_int a / of_int b"
    using quotient_of_div [OF q] .
  have a: "0 < a"
    using assms b by (simp add: x zero_less_divide_iff)
  note A = bitlen_pow2 [OF a] and B = bitlen_pow2 [OF b]
  have "pow2 (bitlen a - bitlen b - 1) = pow2 (bitlen a - 1) / pow2 (bitlen b)"
    by (simp add: pow2_diff [symmetric] algebra_simps)
  also have "\<dots> \<le> x"
    unfolding x using A(1) B(2) a b by (intro frac_le) auto
  finally have lo: "pow2 (bitlen a - bitlen b - 1) \<le> x" .
  have "x < pow2 (bitlen a) / pow2 (bitlen b - 1)"
    unfolding x using A(2) B(1) a by (intro frac_less) auto
  also have "\<dots> = pow2 (bitlen a - bitlen b + 1)"
    by (simp add: pow2_diff [symmetric] algebra_simps)
  finally have hi: "x < pow2 (bitlen a - bitlen b + 1)" .
  show "pow2 (floor_log2 x) \<le> x" "x < pow2 (floor_log2 x + 1)"
    using lo hi by (auto simp: floor_log2_def q Let_def)
qed

lemma floor_log2_unique:
  assumes "pow2 e \<le> x" and "x < pow2 (e + 1)"
  shows "floor_log2 x = e"
proof -
  have "0 < x"
    using assms(1) pow2_pos [of e] by linarith
  note B = floor_log2_bounds [OF this]
  have "floor_log2 x < e + 1" "e < floor_log2 x + 1"
    by (rule pow2_less, use assms B in linarith)+
  then show ?thesis by simp
qed

lemma rnd_even_near: "\<bar>of_int (rnd_even q) - q\<bar> \<le> 1 / 2"
proof -
  have "of_int \<lfloor>q\<rfloor> \<le> q" "q < of_int \<lfloor>q\<rfloor> + 1"
    by linarith+
  then show ?thesis
    by (auto simp: rnd_even_def Let_def)
qed

lemma rnd_even_eqI:
  assumes "\<bar>q - of_int n\<bar> < 1 / 2"
  shows "rnd_even q = n"
proof -
  have "\<bar>of_int (rnd_even q) - of_int n :: rat\<bar> < 1"
    using rnd_even_near [of q] assms by linarith
  then have "\<bar>rnd_even q - n\<bar> < 1"
    by (metis of_int_abs of_int_diff of_int_less_1_iff)
  then show ?thesis by simp
qed

lemma f64_round_pos_eqI:
  assumes "pow2 e \<le> x" and "x < pow2 (e + 1)" and "-1022 \<le> e" and "e < 1023"
    and "\<bar>x / pow2 (e - 52) - of_int m\<bar> < 1 / 2"
  shows "f64_round_pos x = Fin (of_int m * pow2 (e - 52))"
proof -
  have k: "max (floor_log2 x - 52) (- 1074) = e - 52"
    using assms(3) floor_log2_unique [OF assms(1,2)] by simp
  have "x / pow2 (e - 52) < pow2 53"
    using assms(2) pow2_diff [of "e + 1" "e - 52"] by (simp add: divide_strict_right_mono)
  then have "of_int m < pow2 53 + 1"
    using assms(5) by (simp add: abs_if split: if_splits)
  then have "of_int m < pow2 54"
    by (simp add: pow2_def)
  then have "of_int m * pow2 (e - 52) < pow2 54 * pow2 (e - 52)"
    by (simp add: mult_strict_right_mono)
  also have "\<dots> \<le> pow2 1024"
    using assms(4) by (simp only: pow2_add [symmetric]) (rule pow2_mono, simp)
  finally have "of_int m * pow2 (e - 52) < pow2 1024" .
  then show ?thesis
    using rnd_even_eqI [OF assms(5)] by (simp add: f64_round_pos_def k Let_def)
qed

lemma abs_scaled: "0 < p \<Longrightarrow> \<bar>m * p - x\<bar> = \<bar>m - x / p\<bar> * p" for p :: rat
proof -
  assume "0 < p"
  then have "m * p - x = (m - x / p) * p"
    by (simp add: field_simps)
  then show ?thesis
    using \<open>0 < p\<close> by (simp add: abs_mult)
qed

lemma f64_round_pos_near:
  assumes "pow2 (- 1000) \<le> x" and "x < pow2 1000"
  obtains r where "f64_round_pos x = Fin r" and "\<bar>r - x\<bar> \<le> x / pow2 53"
proof -
  let ?e = "floor_log2 x" and ?k = "floor_log2 x - 52"
  have x: "0 < x"
    using assms(1) pow2_pos [of "-1000"] by linarith
  note B = floor_log2_bounds [OF x]
  have "?e < 1000" "- 1000 < ?e + 1"
    by (rule pow2_less, use assms B in linarith)+
  then have k: "max ?k (- 1074) = ?k" by simp
  let ?r = "of_int (rnd_even (x / pow2 ?k)) * pow2 ?k"
  have "\<bar>?r - x\<bar> = \<bar>of_int (rnd_even (x / pow2 ?k)) - x / pow2 ?k\<bar> * pow2 ?k"
    by (rule abs_scaled) simp
  also have "\<dots> \<le> 1 / 2 * pow2 ?k"
    by (intro mult_right_mono rnd_even_near) (simp add: less_imp_le)
  also have "\<dots> = pow2 ?e / pow2 53"
    by (simp add: pow2_diff) (simp add: pow2_def)
  also have "\<dots> \<le> x / pow2 53"
    using B(1) by (intro divide_right_mono) (auto simp: less_imp_le)
  finally have near: "\<bar>?r - x\<bar> \<le> x / pow2 53" .
  have "x / pow2 53 \<le> x"
    using x by (simp add: pow2_def)
  then have "?r \<le> 2 * x"
    using near by linarith
  also have "\<dots> < pow2 1 * pow2 1000"
    using assms(2) by (simp add: pow2_def)
  also have "\<dots> \<le> pow2 1024"
    by (simp only: pow2_add [symmetric]) (rule pow2_mono, simp)
  finally have "f64_round_pos x = Fin ?r"
    by (simp add: f64_round_pos_def k Let_def)
  then show ?thesis
    using near that by blast
qed

section \<open>Printing and reading decimal text\<close>

lemma digits_int_Nil [simp]: "digits_int [] = 0"
  by (simp add: digits_int_def)

lemma digits_int_snoc [simp]: "digits_int (ds @ [c]) = 10 * digits_int ds + digit_val c"
  by (simp add: digits_int_def)

lemma digits_int_append: "digits_int (ds @ es) = digits_int ds * 10 ^ length es + digits_int es"
  by (induction es rule: rev_induct) (simp_all flip: append_assoc add: algebra_simps)

lemma digit_char_props:
  assumes "0 \<le> d" and "d < 10"
  shows "is_digit (digit_char d)" and "digit_val (digit_char d) = d"
proof -
  have "(of_char (digit_char d) :: int) = (48 + d) mod 256"
    by (simp add: digit_char_def)
  then have "(of_char (digit_char d) :: int) = 48 + d"
    using assms by simp
  then show "is_digit (digit_char d)" "digit_val (digit_char d) = d"
    using assms by (simp_all add: is_digit_def digit_val_def)
qed

lemma show_int_digits:
  assumes "0 \<le> n"
  shows "list_all is_digit (show_int n) \<and> show_int n \<noteq> [] \<and> digits_int (show_int n) = n"
  using assms
proof (induction n rule: show_int.induct)
  case (1 n)
  show ?case
  proof (cases "n < 10")
    case True
    with 1(2) show ?thesis
      by (simp add: show_int.simps [of n] digit_char_props digits_int_def)
  next
    case False
    with 1 show ?thesis
      by (simp add: show_int.simps [of n] digit_char_props)
  qed
qed

lemma pad_int_digits:
  assumes "0 \<le> n"
  shows "list_all is_digit (pad_int k n)" and "length (pad_int k n) = k"
    and "digits_int (pad_int k n) = n mod 10 ^ k"
  using assms
proof (induction k arbitrary: n)
  case (Suc k)
  { case 1 then show ?case using Suc by (simp add: digit_char_props)
  next
    case 2 then show ?case using Suc by simp
  next
    case 3
    then have "digits_int (pad_int (Suc k) n) = 10 * (n div 10 mod 10 ^ k) + n mod 10"
      using Suc(3) [of "n div 10"] by (simp add: digit_char_props)
    also have "\<dots> = n mod 10 ^ Suc k"
      using zmod_zmult2_eq [of "10 ^ k" n 10] by simp
    finally show ?case . }
qed simp_all

lemma dot_not_digit [simp]: "\<not> is_digit CHR ''.''" and zero_is_digit [simp]: "is_digit CHR ''0''"
  by (simp_all add: is_digit_def)

lemma digit_val_zero [simp]: "digit_val CHR ''0'' = 0"
  by (simp add: digit_val_def)

lemma trim_end_snoc [simp]:
  "trim_end_matches c [] = []"
  "trim_end_matches c (s @ [d]) = (if d = c then trim_end_matches c s else s @ [d])"
  by (simp_all add: trim_end_matches_def)

lemma trim_end_last: "s \<noteq> [] \<Longrightarrow> last s \<noteq> c \<Longrightarrow> trim_end_matches c s = s"
  by (cases s rule: rev_cases) simp_all

text \<open>Dropping trailing zeros of the fraction, then the point when nothing is left.\<close>

lemma trim_fraction:
  assumes "list_all is_digit ip" and "ip \<noteq> []" and "list_all is_digit fp"
  obtains k fp' where "fp = fp' @ replicate k CHR ''0''"
    and "trim_end_matches CHR ''.'' (trim_end_matches CHR ''0'' (ip @ ''.'' @ fp))
          = ip @ (if fp' = [] then [] else ''.'' @ fp')"
  using assms(3)
proof (induction fp arbitrary: thesis rule: rev_induct)
  case Nil
  have "last ip \<noteq> CHR ''.''"
    using assms(1) last_in_set [OF assms(2)] dot_not_digit by (metis list_all_iff)
  then show ?case
    using Nil(1) [of "[]" 0] trim_end_snoc(2) [of _ ip] by (simp add: trim_end_last assms(2))
next
  case (snoc c fp)
  show ?case
  proof (cases "c = CHR ''0''")
    case True
    from snoc.prems(2) have d: "list_all is_digit fp" by simp
    obtain k fp' where *: "fp = fp' @ replicate k CHR ''0''"
      "trim_end_matches CHR ''.'' (trim_end_matches CHR ''0'' (ip @ ''.'' @ fp))
        = ip @ (if fp' = [] then [] else ''.'' @ fp')"
      using snoc.IH [OF _ d] by metis
    have "trim_end_matches CHR ''0'' (ip @ ''.'' @ fp @ [c])
        = trim_end_matches CHR ''0'' (ip @ ''.'' @ fp)"
      using trim_end_snoc(2) [of _ "ip @ ''.'' @ fp"] True by simp
    moreover have "fp @ [c] = fp' @ replicate (Suc k) CHR ''0''"
      using *(1) True by (simp add: replicate_append_same)
    ultimately show ?thesis
      using snoc.prems(1) [of fp' "Suc k"] *(2) by simp
  next
    case False
    have "c \<noteq> CHR ''.''"
      using snoc.prems(2) by auto
    then have "trim_end_matches d (ip @ ''.'' @ fp @ [c]) = ip @ ''.'' @ fp @ [c]"
      if "d = CHR ''0'' \<or> d = CHR ''.''" for d
      using that False trim_end_snoc(2) [of d "ip @ ''.'' @ fp" c] by auto
    then show ?thesis
      using snoc.prems(1) [of "fp @ [c]" 0] by simp
  qed
qed

lemma digits_int_replicate: "digits_int (replicate k CHR ''0'') = 0"
proof (induction k)
  case (Suc k)
  have "replicate (Suc k) CHR ''0'' = replicate k CHR ''0'' @ [CHR ''0'']"
    by (simp add: replicate_append_same)
  with Suc show ?case by (simp only: digits_int_snoc digit_val_zero)
qed simp

lemma parse_exp_Nil [simp]: "parse_exp [] = Some 0"
  by (simp add: parse_exp_def)

lemma pow10_minus: "pow10 (- int n) = 1 / 10 ^ n"
  by (auto simp: pow10_def)

lemma parse_number_decimal:
  assumes "list_all is_digit ip" and "ip \<noteq> []" and "list_all is_digit fp"
  shows "parse_number (ip @ (if fp = [] then [] else ''.'' @ fp))
           = Some (of_int (digits_int (ip @ fp)) / 10 ^ length fp)"
proof -
  have all: "\<And>xs. list_all is_digit xs \<Longrightarrow> takeWhile is_digit xs = xs \<and> dropWhile is_digit xs = []"
    by (simp add: list_all_iff)
  have ip: "takeWhile is_digit (ip @ CHR ''.'' # fp) = ip" "dropWhile is_digit (ip @ CHR ''.'' # fp) = CHR ''.'' # fp"
    using assms(1) by (simp_all add: list_all_iff takeWhile_append2 dropWhile_append2)
  show ?thesis
    using all [OF assms(1)] all [OF assms(3)] assms(2) ip
    by (auto simp add: parse_number_def pow10_minus simp del: takeWhile_eq_all_conv dropWhile_eq_Nil_conv)
       (simp add: pow10_def)
qed

lemma strip_sign_digit:
  assumes "list_all is_digit ip" and "ip \<noteq> []"
  shows "strip_sign (ip @ r) = (False, ip @ r)"
  using assms by (cases ip) (auto simp: strip_sign_def is_digit_def)

lemma parse_f64_decimal:
  assumes "list_all is_digit ip" and "ip \<noteq> []" and "list_all is_digit fp"
  shows "parse_f64 (ip @ (if fp = [] then [] else ''.'' @ fp))
           = Some (f64_round (of_int (digits_int (ip @ fp)) / 10 ^ length fp))"
proof -
  obtain c t where ip: "ip = c # t" "is_digit c"
    using assms(1,2) by (cases ip) auto
  then have "to_ascii_lower c = c" "c \<noteq> CHR ''i''" "c \<noteq> CHR ''n''"
    by (auto simp: to_ascii_lower_def is_digit_def)
  then have "map to_ascii_lower (ip @ r) \<noteq> ''inf'' \<and> map to_ascii_lower (ip @ r) \<noteq> ''infinity'' \<and>
      map to_ascii_lower (ip @ r) \<noteq> ''nan''" for r
    by (simp add: ip(1))
  then show ?thesis
    unfolding parse_f64_def strip_sign_digit [OF assms(1,2)] Let_def prod.case
      parse_number_decimal [OF assms] by simp
qed

text \<open>The text of \<open>n\<close> units is the shortest decimal of \<open>n / 10\<^sup>8\<close>, and reads back as the nearest double.\<close>

lemma parse_trimmed_decimal:
  assumes "0 \<le> n"
  shows "parse_f64 (trim_end_matches CHR ''.'' (trim_end_matches CHR ''0''
           (show_int (n div 100000000) @ ''.'' @ pad_int 8 (n mod 100000000))))
         = Some (f64_round (of_int n / multiplier))"
proof -
  let ?ip = "show_int (n div 100000000)" and ?fp = "pad_int 8 (n mod 100000000)"
  have ip: "list_all is_digit ?ip" "?ip \<noteq> []" "digits_int ?ip = n div 100000000"
    using show_int_digits [of "n div 100000000"] assms by auto
  have fp: "list_all is_digit ?fp" "length ?fp = 8" "digits_int ?fp = n mod 100000000"
    using pad_int_digits [of "n mod 100000000" 8] by simp_all
  obtain k fp' where f: "?fp = fp' @ replicate k CHR ''0''"
    and t: "trim_end_matches CHR ''.'' (trim_end_matches CHR ''0'' (?ip @ ''.'' @ ?fp))
      = ?ip @ (if fp' = [] then [] else ''.'' @ fp')"
    by (rule trim_fraction [OF ip(1,2) fp(1)])
  have fp': "list_all is_digit fp'"
    using fp(1) unfolding f by simp
  have len: "length fp' + k = 8"
    using fp(2) unfolding f by simp
  have "digits_int (?ip @ ?fp) = digits_int (?ip @ fp') * 10 ^ k"
    unfolding f append_assoc [symmetric]
    by (simp only: digits_int_append [of _ "replicate k _"] digits_int_replicate length_replicate add_0_right)
  moreover have "digits_int (?ip @ ?fp) = n"
    by (simp add: digits_int_append ip(3) fp(2,3))
  ultimately have n: "n = digits_int (?ip @ fp') * 10 ^ k" by simp
  have "of_int n / multiplier = of_int (digits_int (?ip @ fp')) * 10 ^ k / 10 ^ (length fp' + k)"
    by (subst n) (simp add: len)
  also have "\<dots> = of_int (digits_int (?ip @ fp')) / 10 ^ length fp'"
    by (simp add: power_add)
  finally show ?thesis
    unfolding t parse_f64_decimal [OF ip(1,2) fp'] by simp
qed

section \<open>Reading back what was printed\<close>

lemma round_half_away_eqI:
  assumes "\<bar>q - of_int n\<bar> < 1 / 2" and "0 \<le> n"
  shows "round_half_away q = n"
proof (cases "q < 0")
  case True
  then have "(of_int n :: rat) < 1 / 2"
    using assms(1) by linarith
  then have n: "n = 0"
    using assms(2) by linarith
  then have "\<lfloor>- q + 1 / 2\<rfloor> = 0"
    using True assms(1) by (intro floor_unique) (auto simp: n)
  then show ?thesis
    using True n by (simp add: round_half_away_def)
next
  case False
  have "\<lfloor>q + 1 / 2\<rfloor> = n"
    using assms(1) by (intro floor_unique) (simp_all add: abs_if split: if_splits)
  with False show ?thesis by (simp add: round_half_away_def)
qed

lemma round_half_away_zero [simp]: "round_half_away 0 = 0"
  by (rule round_half_away_eqI) simp_all

text \<open>A positive integer below \<open>2\<^sup>5\<^sup>3\<close> is a double.\<close>

lemma f64_round_int_exact:
  assumes "0 < n" and "n < 2 ^ 53"
  shows "f64_round (of_int n) = Fin (of_int n)"
proof -
  let ?e = "floor_log2 (of_int n)"
  note B = floor_log2_bounds [of "of_int n"]
  have pos: "(0 :: rat) < of_int n" using assms(1) by simp
  have "(of_int n :: rat) < of_int (2 ^ 53)"
    using assms(2) by (simp only: of_int_less_iff)
  then have n53: "of_int n < pow2 53"
    by (simp add: pow2_def)
  have "1 \<le> (of_int n :: rat)" using assms(1) by simp
  then have n0: "pow2 0 \<le> of_int n" by (simp add: pow2_def)
  have e: "?e < 53" "0 < ?e + 1"
    by (rule pow2_less, use n53 n0 B [OF pos] in linarith)+
  let ?m = "n * 2 ^ nat (52 - ?e)"
  have "(of_int n :: rat) / pow2 (?e - 52) = of_int n * pow2 (52 - ?e)"
    by (simp add: pow2_diff)
  also have "\<dots> = of_int ?m"
    using e by (simp add: pow2_nat)
  finally have m: "(of_int n :: rat) / pow2 (?e - 52) = of_int ?m" .
  have "f64_round_pos (of_int n) = Fin (of_int ?m * pow2 (?e - 52))"
    by (rule f64_round_pos_eqI) (use B [OF pos] e m in auto)
  also have "of_int ?m * pow2 (?e - 52) = of_int n"
    unfolding m [symmetric] using pow2_pos [of "?e - 52"] by (simp add: less_imp_neq [symmetric])
  finally show ?thesis
    using pos by (simp add: f64_round_def)
qed

lemma u64_max_as_f64: "u64_as_f64 u64_max = Fin (pow2 64)"
proof -
  have "f64_round_pos 18446744073709551615 = Fin (of_int 9007199254740992 * pow2 (63 - 52))"
    by (rule f64_round_pos_eqI) (simp_all add: pow2_def)
  then show ?thesis
    by (simp add: u64_as_f64_def f64_round_def pow2_def)
qed

lemma pow2_range:
  assumes "1 / 100000000 \<le> x" and "x \<le> 2 ^ 60"
  shows "0 < x" and "pow2 (- 1000) \<le> x" and "x < pow2 1000"
proof -
  have "pow2 (- 1000) \<le> pow2 (- 30)" "pow2 60 < pow2 61" "pow2 61 \<le> pow2 1000"
    by (rule pow2_mono, simp) (simp add: pow2_def, rule pow2_mono, simp)
  moreover have "pow2 (- 30) \<le> 1 / 100000000" "pow2 60 = 2 ^ 60"
    by (simp_all add: pow2_def)
  ultimately show "0 < x" "pow2 (- 1000) \<le> x" "x < pow2 1000"
    using assms by linarith+
qed

lemma f64_round_near:
  assumes "1 / 100000000 \<le> x" and "x \<le> 2 ^ 60"
  obtains r where "f64_round x = Fin r" and "\<bar>r - x\<bar> \<le> x / 2 ^ 53"
proof -
  note R = pow2_range [OF assms]
  obtain r where "f64_round_pos x = Fin r" "\<bar>r - x\<bar> \<le> x / pow2 53"
    by (rule f64_round_pos_near [OF R(2,3)])
  then show ?thesis
    using that R(1) by (simp add: f64_round_def pow2_def)
qed

text \<open>
  The two roundings of the round trip stay on the safe side: the double nearest to \<open>n / 10\<^sup>8\<close>
  prints as \<open>n\<close> units, and scaled back it is closer to \<open>n\<close> than to any other integer.
\<close>

lemma scaled_double_near:
  assumes "0 < n" and "n < 2 ^ 51"
  obtains x r where "f64_round (of_int n / multiplier) = Fin x" and "0 \<le> x"
    and "rnd_even (x * multiplier) = n"
    and "f64_round (x * multiplier) = Fin r" and "round_half_away r = n"
proof -
  have n1: "1 \<le> (of_int n :: rat)" using assms(1) by simp
  have "n \<le> 2 ^ 51 - 1" using assms(2) by simp
  then have "(of_int n :: rat) \<le> of_int (2 ^ 51 - 1)" by (simp only: of_int_le_iff)
  then have n51: "(of_int n :: rat) \<le> 2251799813685247" by simp
  obtain x where x: "f64_round (of_int n / multiplier) = Fin x"
      "\<bar>x - of_int n / multiplier\<bar> \<le> of_int n / multiplier / 2 ^ 53"
    by (rule f64_round_near [of "of_int n / multiplier"]) (use n1 n51 in simp_all)
  then have near: "\<bar>x * multiplier - of_int n\<bar> \<le> of_int n / 2 ^ 53"
    by (simp add: abs_if field_simps split: if_splits)
  also have small: "\<dots> \<le> 2251799813685247 / 2 ^ 53"
    by (rule divide_right_mono [OF n51]) simp
  finally have near2: "\<bar>x * multiplier - of_int n\<bar> \<le> 2251799813685247 / 2 ^ 53" .
  then have xm: "1 / 2 \<le> x * multiplier" "x * multiplier \<le> 2251799813685247 + 1 / 4"
    using n1 n51 by (simp_all add: abs_if split: if_splits)
  obtain r where r: "f64_round (x * multiplier) = Fin r"
      "\<bar>r - x * multiplier\<bar> \<le> x * multiplier / 2 ^ 53"
    by (rule f64_round_near [of "x * multiplier"]) (use xm in simp_all)
  have "\<bar>r - x * multiplier\<bar> \<le> (2251799813685247 + 1 / 4) / 2 ^ 53"
    using r(2) divide_right_mono [OF xm(2), of "2 ^ 53"] by simp
  then have "\<bar>r - of_int n\<bar> < 1 / 2"
    using near2 by (simp add: abs_if split: if_splits)
  moreover have "\<bar>x * multiplier - of_int n\<bar> < 1 / 2"
    using near2 by simp
  moreover have "0 \<le> x"
    using xm(1) by simp
  ultimately show ?thesis
    using that [OF x(1) _ _ r(1)] assms(1) round_half_away_eqI [of r n] rnd_even_eqI by simp
qed

lemma fixed_to_str_decimal:
  assumes "uint v < 2 ^ 51"
  shows "fixed_to_str v = trim_end_matches CHR ''.'' (trim_end_matches CHR ''0''
           (show_int (uint v div 100000000) @ ''.'' @ pad_int 8 (uint v mod 100000000)))"
proof (cases "uint v = 0")
  case True
  then show ?thesis
    by (simp add: fixed_to_str_def u64_as_f64_def f64_round_def format_8_def Let_def rnd_even_def)
next
  case False
  then have v: "0 < uint v" by (simp add: less_le)
  have "u64_as_f64 v = Fin (of_int (uint v))"
    using f64_round_int_exact [OF v] assms by (simp add: u64_as_f64_def)
  moreover obtain x where "f64_round (of_int (uint v) / multiplier) = Fin x"
      "rnd_even (x * multiplier) = uint v"
    by (rule scaled_double_near [OF v assms])
  ultimately show ?thesis
    by (simp add: fixed_to_str_def format_8_def Let_def)
qed

lemma unsigned_rat_facts [simp]:
  "\<lfloor>unsigned (v :: u64) :: rat\<rfloor> = uint v" "\<not> (unsigned v :: rat) < 0"
proof -
  have "(unsigned v :: rat) = of_int (uint v)" by simp
  then show "\<lfloor>unsigned v :: rat\<rfloor> = uint v" "\<not> (unsigned v :: rat) < 0"
    by (metis floor_of_int, metis of_int_0_less_iff of_int_less_0_iff uint_lt_0)
qed

lemma parse_fixed_to_str:
  assumes "v < 2251799813685248"
  shows "parse_fixed_point (fixed_to_str v) = Inr v"
proof -
  have v: "uint v < 2 ^ 51"
    using assms by (simp add: word_less_def)
  have p: "parse_f64 (fixed_to_str v) = Some (f64_round (of_int (uint v) / multiplier))"
    unfolding fixed_to_str_decimal [OF v] by (rule parse_trimmed_decimal) simp
  show ?thesis
  proof (cases "uint v = 0")
    case True
    then have "v = 0" by (simp add: uint_0_iff)
    with p True show ?thesis
      by (simp add: parse_fixed_point_def f64_round_def u64_max_as_f64 pow2_def)
  next
    case False
    then have v0: "0 < uint v" by (simp add: less_le)
    obtain x r where x: "f64_round (of_int (uint v) / multiplier) = Fin x" "0 \<le> x"
      "f64_round (x * multiplier) = Fin r" "round_half_away r = uint v"
      by (rule scaled_double_near [OF v0 v])
    have "(of_int (uint v) :: rat) < of_int (2 ^ 51)"
      using v by (simp only: of_int_less_iff)
    then have "\<not> pow2 64 \<le> of_int (uint v)" "\<not> pow2 64 < of_int (uint v)"
      by (simp_all add: pow2_def)
    with x p show ?thesis
      by (simp add: parse_fixed_point_def u64_max_as_f64 Let_def)
  qed
qed

section \<open>Properties\<close>

text \<open>
  C34. Printing a price or size below \<open>2\<^sup>5\<^sup>1\<close> units (22517998.13685248) and parsing the text gives
  the same value back: neither of the two roundings through a double loses a unit.
\<close>

theorem fixed_text_roundtrip:
  assumes "v < 2251799813685248"
  shows "px_parse_from_str (px_to_str (Px v)) = Inr (Px v)
    \<and> sz_parse_from_str (sz_to_str (Sz v)) = Inr (Sz v)"
  using parse_fixed_to_str [OF assms]
  by (simp add: px_parse_from_str_def px_to_str_def sz_parse_from_str_def sz_to_str_def map_ok_def)

theorem fixed_text_roundtrip_witness:
  "px_parse_from_str (px_to_str (Px 123456789)) = Inr (Px 123456789)
    \<and> sz_parse_from_str (sz_to_str (Sz 123456789)) = Inr (Sz 123456789)"
  by (rule fixed_text_roundtrip) simp

lemma parse_f64_2_64:
  "parse_f64 ''184467440737.09551616'' = Some (Fin (6044629098073146 / 32768))"
proof -
  let ?x = "18446744073709551616 / 10 ^ 8 :: rat"
  have ip: "digits_int (''184467440737'' @ ''09551616'') = 18446744073709551616"
    by (simp add: digits_int_def digit_val_def)
  have "f64_round_pos ?x = Fin (of_int 6044629098073146 * pow2 (37 - 52))"
    by (rule f64_round_pos_eqI) (simp_all add: pow2_def)
  then have r: "f64_round ?x = Fin (6044629098073146 / 32768)"
    by (simp add: f64_round_def pow2_def)
  have "parse_f64 (''184467440737'' @ (if ''09551616'' = [] then [] else ''.'' @ ''09551616''))
      = Some (f64_round (of_int (digits_int (''184467440737'' @ ''09551616'')) / 10 ^ length ''09551616''))"
    by (rule parse_f64_decimal) (simp_all add: is_digit_def)
  then show ?thesis
    using r unfolding ip by simp
qed

text \<open>
  The text of exactly \<open>2\<^sup>6\<^sup>4\<close> units, which no \<open>u64\<close> holds, is accepted: the bound it is
  compared with, \<open>u64::MAX as f64\<close>, rounds up to \<open>2\<^sup>6\<^sup>4\<close>, and the cast saturates.
\<close>

theorem text_of_2_64_saturates:
  "parse_fixed_point ''184467440737.09551616'' = Inr u64_max"
proof -
  have "f64_round_pos (6044629098073146 / 32768 * multiplier)
      = Fin (of_int 4503599627370496 * pow2 (64 - 52))"
    by (rule f64_round_pos_eqI) (simp_all add: pow2_def)
  then have s: "f64_scale (Fin (6044629098073146 / 32768)) multiplier = Fin (of_int 18446744073709551616)"
    by (simp add: f64_round_def pow2_def)
  have i: "round_half_away (of_int 18446744073709551616) = 18446744073709551616"
    by (rule round_half_away_eqI) simp_all
  show ?thesis
    unfolding parse_fixed_point_def parse_f64_2_64 option.case s f64_round_int.simps i
    by (simp add: u64_max_as_f64 pow2_def)
qed

text \<open>
  A parsed band is never inverted, so the range query of the book, which panics on an
  inverted range, is safe for every accepted pair of bounds; and an omitted bound stays open.
\<close>

theorem band_parse_not_inverted:
  assumes "band_parse lo hi = Inr band"
  shows "\<not> band_is_inverted band
    \<and> (band_min band = None \<longleftrightarrow> lo = None) \<and> (band_max band = None \<longleftrightarrow> hi = None)"
  using assms
  by (auto simp: band_parse_def opt_px_parse_def map_ok_def Let_def
      split: sum.splits option.splits if_splits)

theorem band_parse_not_inverted_witness:
  "let b = \<lparr>band_min = None, band_max = Some (Px 0)\<rparr>
   in band_parse None (Some ''0'') = Inr b \<and> \<not> band_is_inverted b"
proof -
  have "parse_f64 ''0'' = Some (Fin 0)"
    using parse_f64_decimal [of "''0''" "[]"] by (simp add: digits_int_def f64_round_def)
  then have z: "px_parse_from_str ''0'' = Inr (Px 0)"
    by (simp add: px_parse_from_str_def map_ok_def parse_fixed_point_def f64_round_def u64_max_as_f64 pow2_def)
  have "band_parse None (Some ''0'') = Inr \<lparr>band_min = None, band_max = Some (Px 0)\<rparr>"
    by (simp add: band_parse_def opt_px_parse_def map_ok_def z band_is_inverted_def)
  then show ?thesis
    using band_parse_not_inverted by (auto simp: Let_def)
qed

end
