(* ===== verification/Linked_List.thy ===== *)
theory Linked_List
  imports Prelude
begin

text \<open>
  \<open>server/src/order_book/linked_list.rs\<close>: the doubly linked list with a key index that holds
  the orders of one price level in time priority. Its nodes live in a \<open>Slab\<close> of the crate
  \<open>slab\<close>, which is not part of the repository: it is the parameter \<open>S\<close> of every operation
  (\<open>slab_ops\<close>), and the locale \<open>slab_laws\<close> states the documented behaviour the list relies
  on. An index into a vacant slot panics; the operations return \<open>None\<close> then.

  The contract of the list is a plain sequence of key-value pairs: \<open>q_push_back\<close>,
  \<open>q_insert_before\<close>, \<open>q_remove_front\<close>, \<open>q_remove_node\<close>, \<open>q_set_value\<close>. The refinement
  relation \<open>ll_rel\<close> says that the links, both ends and the index of a list represent a
  sequence; every operation returns (it never panics), gives the contract's answer, and
  keeps the relation. The price levels of the development are built on the contract.
\<close>

section \<open>The slab\<close>

record ('s, 'n) slab_ops =
  slab_new :: 's
  slab_with_capacity :: "nat \<Rightarrow> 's"
  slab_insert :: "'n \<Rightarrow> 's \<Rightarrow> nat \<times> 's"
  slab_remove :: "nat \<Rightarrow> 's \<Rightarrow> ('n \<times> 's) option"
  slab_get :: "'s \<Rightarrow> nat \<Rightarrow> 'n option"
  slab_set :: "nat \<Rightarrow> 'n \<Rightarrow> 's \<Rightarrow> 's"
  slab_len :: "'s \<Rightarrow> nat"
  slab_capacity :: "'s \<Rightarrow> nat"

locale slab_laws =
  fixes S :: "('s, 'n) slab_ops"
  assumes get_new: "slab_get S (slab_new S) = Map.empty"
    and get_with_capacity: "slab_get S (slab_with_capacity S c) = Map.empty"
    and insert_vacant: "slab_insert S n s = (i, s') \<Longrightarrow> slab_get S s i = None"
    and get_insert: "slab_insert S n s = (i, s') \<Longrightarrow> slab_get S s' = (slab_get S s)(i \<mapsto> n)"
    and remove_occupied: "slab_get S s i = Some n \<Longrightarrow>
          \<exists>s'. slab_remove S i s = Some (n, s') \<and> slab_get S s' = (slab_get S s)(i := None)"
    and remove_vacant: "slab_get S s i = None \<Longrightarrow> slab_remove S i s = None"
    and get_set: "slab_get S s i \<noteq> None \<Longrightarrow>
          slab_get S (slab_set S i n s) = (slab_get S s)(i \<mapsto> n)"
    and len_card: "finite (dom (slab_get S s)) \<and> slab_len S s = card (dom (slab_get S s))"

section \<open>The list\<close>

record ('k, 't) node =
  nd_key :: 'k
  nd_value :: 't
  nd_next :: "nat option"
  nd_prev :: "nat option"

record ('k, 's) linked_list =
  key_to_sid :: "('k, nat) hash_map"
  slab :: 's
  head :: "nat option"
  tail :: "nat option"

type_synonym ('k, 't, 's) node_slab = "('s, ('k, 't) node) slab_ops"

definition node_new :: "'k \<Rightarrow> 't \<Rightarrow> ('k, 't) node" where
  "node_new k v = \<lparr>nd_key = k, nd_value = v, nd_next = None, nd_prev = None\<rparr>"

definition ll_new :: "('k, 't, 's) node_slab \<Rightarrow> ('k, 's) linked_list" where
  "ll_new S = \<lparr>key_to_sid = [], slab = slab_new S, head = None, tail = None\<rparr>"

text \<open>
  \<open>self.slab[i].next = x\<close> and \<open>self.slab[i].prev = x\<close>: a read-modify-write through
  \<open>IndexMut\<close>, which panics on a vacant slot.
\<close>

definition slab_modify :: "('s, 'n) slab_ops \<Rightarrow> nat \<Rightarrow> ('n \<Rightarrow> 'n) \<Rightarrow> 's \<Rightarrow> 's option" where
  "slab_modify S i f s =
     (case slab_get S s i of None \<Rightarrow> None | Some n \<Rightarrow> Some (slab_set S i (f n) s))"

definition set_next :: "nat option \<Rightarrow> ('k, 't) node \<Rightarrow> ('k, 't) node" where
  "set_next x n = n\<lparr>nd_next := x\<rparr>"

definition set_prev :: "nat option \<Rightarrow> ('k, 't) node \<Rightarrow> ('k, 't) node" where
  "set_prev x n = n\<lparr>nd_prev := x\<rparr>"

definition ll_push_back ::
  "('k, 't, 's) node_slab \<Rightarrow> 'k \<Rightarrow> 't \<Rightarrow> ('k, 's) linked_list \<Rightarrow> (bool \<times> ('k, 's) linked_list) option" where
  "ll_push_back S k v l =
     (if hm_contains (key_to_sid l) k then Some (False, l)
      else let (sid, s1) = slab_insert S (node_new k v) (slab l);
               idx = hm_insert k sid (key_to_sid l)
           in case tail l of
                None \<Rightarrow> Some (True, \<lparr>key_to_sid = idx, slab = s1, head = Some sid, tail = Some sid\<rparr>)
              | Some t \<Rightarrow>
                  Option.bind (slab_modify S t (set_next (Some sid)) s1) (\<lambda>s2.
                  Option.bind (slab_modify S sid (set_prev (Some t)) s2) (\<lambda>s3.
                  Some (True, \<lparr>key_to_sid = idx, slab = s3, head = head l, tail = Some sid\<rparr>))))"

definition ll_insert_before ::
  "('k, 't, 's) node_slab \<Rightarrow> 'k \<Rightarrow> 'k \<Rightarrow> 't \<Rightarrow> ('k, 's) linked_list
     \<Rightarrow> (bool \<times> ('k, 's) linked_list) option" where
  "ll_insert_before S anchor k v l =
     (if hm_contains (key_to_sid l) k then Some (False, l)
      else case hm_get (key_to_sid l) anchor of
             None \<Rightarrow> Some (False, l)
           | Some anchor_sid \<Rightarrow>
               Option.bind (slab_get S (slab l) anchor_sid) (\<lambda>bn.
               let prv = nd_prev bn;
                   n = (node_new k v)\<lparr>nd_prev := prv, nd_next := Some anchor_sid\<rparr>;
                   (sid, s1) = slab_insert S n (slab l);
                   idx = hm_insert k sid (key_to_sid l)
               in Option.bind (slab_modify S anchor_sid (set_prev (Some sid)) s1) (\<lambda>s2.
                  case prv of
                    Some p \<Rightarrow>
                      Option.bind (slab_modify S p (set_next (Some sid)) s2) (\<lambda>s3.
                      Some (True, \<lparr>key_to_sid = idx, slab = s3, head = head l, tail = tail l\<rparr>))
                  | None \<Rightarrow>
                      Some (True, \<lparr>key_to_sid = idx, slab = s2, head = Some sid, tail = tail l\<rparr>))))"

definition ll_contains_key :: "'k \<Rightarrow> ('k, 's) linked_list \<Rightarrow> bool" where
  "ll_contains_key k l \<longleftrightarrow> hm_contains (key_to_sid l) k"

definition ll_is_empty :: "('k, 's) linked_list \<Rightarrow> bool" where
  "ll_is_empty l \<longleftrightarrow> head l = None"

definition ll_len :: "('k, 's) linked_list \<Rightarrow> nat" where
  "ll_len l = length (key_to_sid l)"

text \<open>
  \<open>head_value_ref_mut_unsafe\<close> hands out a reference to the first value; reading it is
  \<open>ll_head_value\<close> (outer \<open>None\<close>: panic) and writing through it is \<open>ll_set_head_value\<close>.
\<close>

definition ll_head_value :: "('k, 't, 's) node_slab \<Rightarrow> ('k, 's) linked_list \<Rightarrow> 't option option" where
  "ll_head_value S l =
     (case head l of None \<Rightarrow> Some None
      | Some h \<Rightarrow> map_option (\<lambda>n. Some (nd_value n)) (slab_get S (slab l) h))"

definition ll_set_head_value ::
  "('k, 't, 's) node_slab \<Rightarrow> 't \<Rightarrow> ('k, 's) linked_list \<Rightarrow> ('k, 's) linked_list option" where
  "ll_set_head_value S v l =
     (case head l of None \<Rightarrow> Some l
      | Some h \<Rightarrow> map_option (\<lambda>s. l\<lparr>slab := s\<rparr>)
                   (slab_modify S h (\<lambda>n. n\<lparr>nd_value := v\<rparr>) (slab l)))"

text \<open>\<open>remove_front\<close>: \<open>Inl ()\<close> is the error \<^verbatim>\<open>List is empty\<close>.\<close>

definition ll_remove_front ::
  "('k, 't, 's) node_slab \<Rightarrow> ('k, 's) linked_list \<Rightarrow> (unit + ('k, 's) linked_list) option" where
  "ll_remove_front S l =
     (case head l of
        None \<Rightarrow> Some (Inl ())
      | Some h \<Rightarrow>
          Option.bind (slab_remove S h (slab l)) (\<lambda>(n, s1).
          let idx = hm_remove (nd_key n) (key_to_sid l)
          in case nd_next n of
               None \<Rightarrow> Some (Inr \<lparr>key_to_sid = idx, slab = s1, head = None, tail = None\<rparr>)
             | Some j \<Rightarrow>
                 Option.bind (slab_modify S j (set_prev None) s1) (\<lambda>s2.
                 Some (Inr \<lparr>key_to_sid = idx, slab = s2, head = Some j, tail = tail l\<rparr>))))"

definition ll_remove_node ::
  "('k, 't, 's) node_slab \<Rightarrow> 'k \<Rightarrow> ('k, 's) linked_list \<Rightarrow> ('t option \<times> ('k, 's) linked_list) option" where
  "ll_remove_node S k l =
     (case hm_get (key_to_sid l) k of
        None \<Rightarrow> Some (None, l)
      | Some sid \<Rightarrow>
          let idx = hm_remove k (key_to_sid l) in
          Option.bind (slab_remove S sid (slab l)) (\<lambda>(n, s1).
          Option.bind
            (case nd_prev n of
               Some p \<Rightarrow> map_option (\<lambda>s. (s, head l)) (slab_modify S p (set_next (nd_next n)) s1)
             | None \<Rightarrow> Some (s1, nd_next n)) (\<lambda>(s2, hd').
          Option.bind
            (case nd_next n of
               Some j \<Rightarrow> map_option (\<lambda>s. (s, tail l)) (slab_modify S j (set_prev (nd_prev n)) s2)
             | None \<Rightarrow> Some (s2, nd_prev n)) (\<lambda>(s3, tl').
          Some (Some (nd_value n), \<lparr>key_to_sid = idx, slab = s3, head = hd', tail = tl'\<rparr>)))))"

text \<open>
  \<open>node_value_mut\<close>, read and written through: \<open>ll_node_value\<close> and \<open>ll_set_node_value\<close> (the
  latter reports whether the key was there).
\<close>

definition ll_node_value ::
  "('k, 't, 's) node_slab \<Rightarrow> 'k \<Rightarrow> ('k, 's) linked_list \<Rightarrow> 't option option" where
  "ll_node_value S k l =
     (case hm_get (key_to_sid l) k of None \<Rightarrow> Some None
      | Some sid \<Rightarrow> map_option (\<lambda>n. Some (nd_value n)) (slab_get S (slab l) sid))"

definition ll_set_node_value ::
  "('k, 't, 's) node_slab \<Rightarrow> 'k \<Rightarrow> 't \<Rightarrow> ('k, 's) linked_list \<Rightarrow> (bool \<times> ('k, 's) linked_list) option" where
  "ll_set_node_value S k v l =
     (case hm_get (key_to_sid l) k of None \<Rightarrow> Some (False, l)
      | Some sid \<Rightarrow> map_option (\<lambda>s. (True, l\<lparr>slab := s\<rparr>))
                     (slab_modify S sid (\<lambda>n. n\<lparr>nd_value := v\<rparr>) (slab l)))"

text \<open>
  The walk \<open>while let Some(c) = cur\<close> from \<open>head\<close> along the \<open>next\<close> links, as \<open>to_vec\<close>, \<open>fold\<close>
  and \<open>compact\<close> run it. On a corrupt list it may run forever, so it has fuel; a list that
  represents a sequence is walked with one unit per live node and one for the end.
\<close>

fun ll_walk :: "nat \<Rightarrow> ('s \<Rightarrow> nat \<Rightarrow> ('k, 't) node option) \<Rightarrow> 's \<Rightarrow> nat option \<Rightarrow> ('k \<times> 't) list option" where
  "ll_walk fuel g s None = Some []"
| "ll_walk 0 g s (Some c) = None"
| "ll_walk (Suc fuel) g s (Some c) =
     Option.bind (g s c) (\<lambda>n.
     map_option (\<lambda>xs. (nd_key n, nd_value n) # xs) (ll_walk fuel g s (nd_next n)))"

definition ll_items :: "('k, 't, 's) node_slab \<Rightarrow> ('k, 's) linked_list \<Rightarrow> ('k \<times> 't) list option" where
  "ll_items S l = ll_walk (slab_len S (slab l)) (slab_get S) (slab l) (head l)"

definition ll_to_vec :: "('k, 't, 's) node_slab \<Rightarrow> ('k, 's) linked_list \<Rightarrow> 't list option" where
  "ll_to_vec S l = map_option (map snd) (ll_items S l)"

definition ll_fold :: "('k, 't, 's) node_slab \<Rightarrow> ('t \<Rightarrow> 'acc \<Rightarrow> 'acc) \<Rightarrow> ('k, 's) linked_list \<Rightarrow> 'acc \<Rightarrow> 'acc option" where
  "ll_fold S f l init = map_option (\<lambda>xs. fold f (map snd xs) init) (ll_items S l)"

text \<open>The rebuild loop of \<open>compact\<close>: push every saved item into the fresh list.\<close>

fun ll_push_all ::
  "('k, 't, 's) node_slab \<Rightarrow> ('k \<times> 't) list \<Rightarrow> ('k, 's) linked_list \<Rightarrow> ('k, 's) linked_list option" where
  "ll_push_all S [] l = Some l"
| "ll_push_all S ((k, v) # xs) l =
     Option.bind (ll_push_back S k v l) (\<lambda>(b, l'). ll_push_all S xs l')"

definition ll_compact ::
  "('k, 't, 's) node_slab \<Rightarrow> ('k, 's) linked_list \<Rightarrow> (bool \<times> ('k, 's) linked_list) option" where
  "ll_compact S l =
     (if slab_capacity S (slab l) \<le> 2 * slab_len S (slab l) + 64 then Some (False, l)
      else let live = slab_len S (slab l) in
           Option.bind (ll_items S l) (\<lambda>items.
           map_option (\<lambda>l'. (True, l'))
             (ll_push_all S items
                \<lparr>key_to_sid = [], slab = slab_with_capacity S live, head = None, tail = None\<rparr>)))"

section \<open>The contract: a sequence of key-value pairs\<close>

type_synonym ('k, 't) queue = "('k \<times> 't) list"

definition q_push_back :: "'k \<Rightarrow> 't \<Rightarrow> ('k, 't) queue \<Rightarrow> bool \<times> ('k, 't) queue" where
  "q_push_back k v q = (if hm_contains q k then (False, q) else (True, q @ [(k, v)]))"

fun splice_before :: "'k \<Rightarrow> 'k \<Rightarrow> 't \<Rightarrow> ('k, 't) queue \<Rightarrow> ('k, 't) queue" where
  "splice_before b k v [] = []"
| "splice_before b k v ((k', v') # q) =
     (if k' = b then (k, v) # (k', v') # q else (k', v') # splice_before b k v q)"

definition q_insert_before :: "'k \<Rightarrow> 'k \<Rightarrow> 't \<Rightarrow> ('k, 't) queue \<Rightarrow> bool \<times> ('k, 't) queue" where
  "q_insert_before b k v q =
     (if hm_contains q k then (False, q)
      else if hm_contains q b then (True, splice_before b k v q) else (False, q))"

definition q_remove_front :: "('k, 't) queue \<Rightarrow> unit + ('k, 't) queue" where
  "q_remove_front q = (case q of [] \<Rightarrow> Inl () | x # q' \<Rightarrow> Inr q')"

definition q_remove_node :: "'k \<Rightarrow> ('k, 't) queue \<Rightarrow> 't option \<times> ('k, 't) queue" where
  "q_remove_node k q = (map_of q k, AList.delete k q)"

definition q_set_value :: "'k \<Rightarrow> 't \<Rightarrow> ('k, 't) queue \<Rightarrow> bool \<times> ('k, 't) queue" where
  "q_set_value k v q = (if hm_contains q k then (True, AList.update k v q) else (False, q))"

definition q_set_front :: "'t \<Rightarrow> ('k, 't) queue \<Rightarrow> ('k, 't) queue" where
  "q_set_front v q = (case q of [] \<Rightarrow> [] | (k, v') # q' \<Rightarrow> (k, v) # q')"

section \<open>Representation\<close>

text \<open>
  \<open>dseg g p js nx xs\<close>: the nodes at the slots \<open>js\<close> hold the pairs \<open>xs\<close> in order, linked both ways,
  with \<open>p\<close> before the first and \<open>nx\<close> after the last. \<open>ll_rep\<close> adds that these are exactly the occupied
  slots, that \<open>head\<close> and \<open>tail\<close> are the ends, and that the index maps every key to its slot.
\<close>

fun first_or :: "nat list \<Rightarrow> nat option \<Rightarrow> nat option" where
  "first_or [] x = x"
| "first_or (i # js) x = Some i"

fun last_or :: "nat option \<Rightarrow> nat list \<Rightarrow> nat option" where
  "last_or x [] = x"
| "last_or x (i # js) = last_or (Some i) js"

fun dseg :: "(nat \<Rightarrow> ('k, 't) node option) \<Rightarrow> nat option \<Rightarrow> nat list \<Rightarrow> nat option \<Rightarrow> ('k \<times> 't) list \<Rightarrow> bool" where
  "dseg g p [] nx xs = (xs = [])"
| "dseg g p (i # js) nx xs =
     (\<exists>k v ys. xs = (k, v) # ys \<and>
        g i = Some \<lparr>nd_key = k, nd_value = v, nd_next = first_or js nx, nd_prev = p\<rparr> \<and>
        dseg g (Some i) js nx ys)"

definition ll_rep :: "('k, 't, 's) node_slab \<Rightarrow> ('k, 's) linked_list \<Rightarrow> nat list \<Rightarrow> ('k \<times> 't) list \<Rightarrow> bool" where
  "ll_rep S l js xs \<longleftrightarrow>
     dseg (slab_get S (slab l)) None js None xs \<and> distinct js \<and>
     dom (slab_get S (slab l)) = set js \<and>
     head l = first_or js None \<and> tail l = last_or None js \<and>
     distinct (map fst xs) \<and> hm_ok (key_to_sid l) \<and>
     map_of (key_to_sid l) = map_of (zip (map fst xs) js)"

definition ll_rel :: "('k, 't, 's) node_slab \<Rightarrow> ('k, 's) linked_list \<Rightarrow> ('k, 't) queue \<Rightarrow> bool" where
  "ll_rel S l xs \<longleftrightarrow> (\<exists>js. ll_rep S l js xs)"

lemma dseg_length: "dseg g p js nx xs \<Longrightarrow> length js = length xs"
  by (induction js arbitrary: p xs) auto

lemma first_or_append [simp]: "first_or (as @ bs) nx = first_or as (first_or bs nx)"
  by (cases as) auto

lemma last_or_append [simp]: "last_or p (as @ bs) = last_or (last_or p as) bs"
  by (induction as arbitrary: p) auto

lemma dseg_append:
  "length as = length xs \<Longrightarrow>
     dseg g p (as @ bs) nx (xs @ ys) \<longleftrightarrow>
     dseg g p as (first_or bs nx) xs \<and> dseg g (last_or p as) bs nx ys"
  by (induction as xs arbitrary: p rule: list_induct2) auto

lemma dseg_upd [simp]: "i \<notin> set js \<Longrightarrow> dseg (g(i := y)) p js nx xs = dseg g p js nx xs"
  by (induction js arbitrary: p xs) auto

lemma dseg_dom: "dseg g p js nx xs \<Longrightarrow> set js \<subseteq> dom g"
  by (induction js arbitrary: p xs) auto

lemma dseg_frame:
  "dseg g p js nx xs \<Longrightarrow> \<forall>i \<in> set js. g' i = g i \<Longrightarrow> dseg g' p js nx xs"
  by (induction js arbitrary: p xs) auto

text \<open>Walking a represented list needs one unit of fuel per node.\<close>

lemma ll_walk_dseg:
  "dseg (g s) p js None xs \<Longrightarrow> length js \<le> fuel \<Longrightarrow> ll_walk fuel g s (first_or js None) = Some xs"
proof (induction js arbitrary: p xs fuel)
  case (Cons i js)
  then obtain fuel' where "fuel = Suc fuel'" by (cases fuel) auto
  with Cons show ?case by auto
qed simp

lemma map_of_zip_None: "k \<notin> set ks \<Longrightarrow> map_of (zip ks js) k = None"
  by (auto simp: map_of_eq_None_iff dest: set_zip_leftD)

context slab_laws
begin

lemma slab_modify_ok:
  assumes "slab_get S s i = Some n"
  obtains s' where "slab_modify S i f s = Some s'" "slab_get S s' = (slab_get S s)(i \<mapsto> f n)"
  using assms get_set [of s i "f n"] by (simp add: slab_modify_def)

lemma slab_remove_ok:
  assumes "slab_get S s i = Some n"
  obtains s' where "slab_remove S i s = Some (n, s')" "slab_get S s' = (slab_get S s)(i := None)"
  using assms remove_occupied by blast

end

lemma ll_rep_split:
  assumes "ll_rep S l js xs" and "map_of (key_to_sid l) k = Some sid"
  obtains as bs ys v zs where "js = as @ sid # bs" "xs = ys @ (k, v) # zs" "length as = length ys"
proof -
  have len: "length js = length xs"
    using assms(1) by (auto simp: ll_rep_def dest: dseg_length)
  have "map_of (zip (map fst xs) js) k = Some sid"
    using assms by (simp add: ll_rep_def)
  then have "(k, sid) \<in> set (zip (map fst xs) js)"
    by (rule map_of_SomeD)
  then obtain n where n: "n < length xs" "fst (xs ! n) = k" "js ! n = sid"
    using len by (auto simp: in_set_zip)
  show thesis
  proof (rule that [of "take n js" "drop (Suc n) js" "take n xs" "snd (xs ! n)" "drop (Suc n) xs"])
    show "js = take n js @ sid # drop (Suc n) js"
      using n len by (metis id_take_nth_drop)
    show "xs = take n xs @ (k, snd (xs ! n)) # drop (Suc n) xs"
      using n by (metis id_take_nth_drop prod.collapse)
  qed (use n len in auto)
qed

lemma ll_rep_contains:
  assumes "ll_rep S l js xs"
  shows "map_of (key_to_sid l) k = None \<longleftrightarrow> map_of xs k = None"
proof -
  have "length js = length xs"
    using assms by (auto simp: ll_rep_def dest: dseg_length)
  then have "fst ` set (zip (map fst xs) js) = fst ` set xs"
    by (metis length_map map_fst_zip set_map)
  then show ?thesis
    using assms by (simp add: ll_rep_def map_of_eq_None_iff)
qed

lemma last_or_Some: "last_or None js = Some t \<Longrightarrow> \<exists>as. js = as @ [t]"
  by (cases js rule: rev_cases) auto

lemma last_or_None: "last_or None js = None \<longleftrightarrow> js = []"
  by (cases js rule: rev_cases) auto

text \<open>The index of a sequence, with one pair cut out.\<close>

lemma map_of_zip_cut:
  assumes "k \<notin> fst ` set ys" and "length as = length ys"
  shows "map_of (zip (map fst (ys @ (k, v) # zs)) (as @ i # bs)) =
           (map_of (zip (map fst (ys @ zs)) (as @ bs)))(k \<mapsto> i)"
  using assms(2,1) by (induction as ys rule: list_induct2) auto

lemma splice_before_cut:
  "b \<notin> fst ` set ys \<Longrightarrow> splice_before b k v (ys @ (b, w) # zs) = ys @ (k, v) # (b, w) # zs"
  by (induction ys) auto

lemma delete_cut:
  "k \<notin> fst ` set ys \<Longrightarrow> k \<notin> fst ` set zs \<Longrightarrow> AList.delete k (ys @ (k, v) # zs) = ys @ zs"
  by (induction ys) (auto simp: delete_idem)

lemma update_cut: "k \<notin> fst ` set ys \<Longrightarrow> AList.update k v (ys @ (k, w) # zs) = ys @ (k, v) # zs"
  by (induction ys) auto

lemma ll_rep_length: "ll_rep S l js xs \<Longrightarrow> length js = length xs"
  by (auto simp: ll_rep_def dest: dseg_length)

lemma ll_rep_nodup: "ll_rep S l js xs \<Longrightarrow> distinct js \<and> distinct (map fst xs)"
  by (simp add: ll_rep_def)

text \<open>The two sequences of a representation, cut at one node.\<close>

lemma dseg_cut:
  assumes "dseg g None (as @ i # bs) None (ys @ (k, v) # zs)" and "length as = length ys"
  shows "dseg g None as (Some i) ys" and "dseg g (Some i) bs None zs"
    and "g i = Some \<lparr>nd_key = k, nd_value = v, nd_next = first_or bs None, nd_prev = last_or None as\<rparr>"
  using assms by (auto simp: dseg_append)

text \<open>Replacing the link into or out of a segment.\<close>

lemma dseg_relink_last:
  assumes "dseg g p (as @ [t]) nx ys" and "distinct (as @ [t])" and "g t = Some n"
  shows "dseg (g(t \<mapsto> set_next nx' n)) p (as @ [t]) nx' ys"
proof -
  obtain ys' k v where ys: "ys = ys' @ [(k, v)]" "length as = length ys'"
    using dseg_length [OF assms(1)] by (cases ys rule: rev_cases) auto
  then show ?thesis
    using assms by (auto simp: dseg_append set_next_def)
qed

lemma dseg_relink_first:
  assumes "dseg g p (j # bs) nx zs" and "distinct (j # bs)" and "g j = Some n"
  shows "dseg (g(j \<mapsto> set_prev p' n)) p' (j # bs) nx zs"
  using assms by (auto simp: set_prev_def)

section \<open>Operation sequences\<close>

datatype ('k, 't) q_op =
    PushBack 'k 't | InsertBefore 'k 'k 't | RemoveFront | RemoveNode 'k
  | SetValue 'k 't | SetFront 't | Compact | ToVec

datatype 't q_answer = ABool bool | AValue "'t option" | AVec "'t list" | ADone

text \<open>
  One call on the list, and on the contract. Whether \<open>compact\<close> rebuilt the list depends on the
  slab's capacity and is not part of the contract.
\<close>

fun ll_step ::
  "('k, 't, 's) node_slab \<Rightarrow> ('k, 't) q_op \<Rightarrow> ('k, 's) linked_list
     \<Rightarrow> ('t q_answer \<times> ('k, 's) linked_list) option" where
  "ll_step S (PushBack k v) l = map_option (\<lambda>(b, l'). (ABool b, l')) (ll_push_back S k v l)"
| "ll_step S (InsertBefore b k v) l = map_option (\<lambda>(r, l'). (ABool r, l')) (ll_insert_before S b k v l)"
| "ll_step S RemoveFront l =
     map_option (\<lambda>r. case r of Inl _ \<Rightarrow> (ABool False, l) | Inr l' \<Rightarrow> (ABool True, l')) (ll_remove_front S l)"
| "ll_step S (RemoveNode k) l = map_option (\<lambda>(v, l'). (AValue v, l')) (ll_remove_node S k l)"
| "ll_step S (SetValue k v) l = map_option (\<lambda>(b, l'). (ABool b, l')) (ll_set_node_value S k v l)"
| "ll_step S (SetFront v) l =
     Option.bind (ll_head_value S l) (\<lambda>old. map_option (\<lambda>l'. (AValue old, l')) (ll_set_head_value S v l))"
| "ll_step S Compact l = map_option (\<lambda>(b, l'). (ADone, l')) (ll_compact S l)"
| "ll_step S ToVec l = map_option (\<lambda>vs. (AVec vs, l)) (ll_to_vec S l)"

fun q_step :: "('k, 't) q_op \<Rightarrow> ('k, 't) queue \<Rightarrow> 't q_answer \<times> ('k, 't) queue" where
  "q_step (PushBack k v) q = (let (b, q') = q_push_back k v q in (ABool b, q'))"
| "q_step (InsertBefore b k v) q = (let (r, q') = q_insert_before b k v q in (ABool r, q'))"
| "q_step RemoveFront q = (case q_remove_front q of Inl _ \<Rightarrow> (ABool False, q) | Inr q' \<Rightarrow> (ABool True, q'))"
| "q_step (RemoveNode k) q = (let (v, q') = q_remove_node k q in (AValue v, q'))"
| "q_step (SetValue k v) q = (let (b, q') = q_set_value k v q in (ABool b, q'))"
| "q_step (SetFront v) q = (AValue (map_option snd (first_opt q)), q_set_front v q)"
| "q_step Compact q = (ADone, q)"
| "q_step ToVec q = (AVec (map snd q), q)"

section \<open>Every operation refines the contract\<close>

locale node_slab_laws = slab_laws S
  for S :: "('s, ('k, 't) node) slab_ops"
begin

lemma rel_new: "ll_rel S (ll_new S) []"
  by (auto simp: ll_rel_def ll_rep_def ll_new_def get_new intro!: exI [of _ "[]"])

lemma rep_push_back:
  assumes rep: "ll_rep S l js xs" and new: "map_of xs k = None"
  shows "\<exists>l' sid. ll_push_back S k v l = Some (True, l') \<and> ll_rep S l' (js @ [sid]) (xs @ [(k, v)])"
proof -
  let ?g = "slab_get S (slab l)"
  obtain sid s1 where ins: "slab_insert S (node_new k v) (slab l) = (sid, s1)"
    by fastforce
  have g1: "slab_get S s1 = ?g(sid \<mapsto> node_new k v)" and vac: "?g sid = None"
    using get_insert [OF ins] insert_vacant [OF ins] by auto
  have idx: "map_of (key_to_sid l) k = None" and len: "length js = length xs"
    using ll_rep_contains [OF rep] new ll_rep_length [OF rep] by auto
  have fresh: "sid \<notin> set js"
    using rep vac by (metis domIff ll_rep_def)
  show ?thesis
  proof (cases "tail l")
    case None
    then have "last_or None js = None"
      using rep by (simp add: ll_rep_def)
    then have "js = []" "xs = []"
      using len by (simp_all add: last_or_None)
    then show ?thesis
      using None rep idx ins g1
      by (auto simp: ll_push_back_def ll_rep_def node_new_def update_conv' distinct_update)
  next
    case (Some t)
    then have "last_or None js = Some t"
      using rep by (simp add: ll_rep_def)
    then obtain as where js: "js = as @ [t]"
      using last_or_Some by blast
    have seg: "dseg ?g None (as @ [t]) None xs" and dist: "distinct (as @ [t])"
      using rep js by (auto simp: ll_rep_def)
    obtain n where n: "?g t = Some n"
      using dseg_dom [OF seg] by auto
    obtain s2 where s2: "slab_modify S t (set_next (Some sid)) s1 = Some s2"
      "slab_get S s2 = (slab_get S s1)(t \<mapsto> set_next (Some sid) n)"
      using slab_modify_ok [of s1 t n] n fresh js by (metis g1 fun_upd_other in_set_conv_decomp)
    obtain s3 where s3: "slab_modify S sid (set_prev (Some t)) s2 = Some s3"
      "slab_get S s3 = (slab_get S s2)(sid \<mapsto> set_prev (Some t) (node_new k v))"
      using slab_modify_ok [of s2 sid "node_new k v"] fresh js
      by (metis s2(2) g1 fun_upd_other fun_upd_same in_set_conv_decomp)
    have g3: "slab_get S s3 = (?g(t \<mapsto> set_next (Some sid) n))(sid \<mapsto> set_prev (Some t) (node_new k v))"
      using fresh js by (auto simp: s2 s3 g1 fun_eq_iff)
    have "dseg (slab_get S s3) None (js @ [sid]) None (xs @ [(k, v)])"
      using dseg_relink_last [OF seg dist n, of "Some sid"] fresh js len
      by (simp add: g3 dseg_append set_prev_def node_new_def del: append_assoc)
    moreover have "map_of (hm_insert k sid (key_to_sid l)) = map_of (zip (map fst (xs @ [(k, v)])) (js @ [sid]))"
      using rep len new by (auto simp: ll_rep_def update_conv' map_add_def fun_eq_iff map_of_eq_None_iff split: option.splits dest: set_zip_leftD)
    moreover have "dom (slab_get S s3) = set (js @ [sid])"
      using rep js by (auto simp: ll_rep_def g3)
    ultimately have "ll_rep S \<lparr>key_to_sid = hm_insert k sid (key_to_sid l), slab = s3, head = head l,
        tail = Some sid\<rparr> (js @ [sid]) (xs @ [(k, v)])"
      unfolding ll_rep_def linked_list.simps using rep fresh new js
      by (simp add: ll_rep_def distinct_update map_of_eq_None_iff)
    then show ?thesis
      using Some idx ins s2(1) s3(1) by (auto simp: ll_push_back_def)
  qed
qed

lemma rel_push_back:
  assumes "ll_rel S l q"
  shows "\<exists>l'. ll_push_back S k v l = Some (fst (q_push_back k v q), l') \<and> ll_rel S l' (snd (q_push_back k v q))"
proof (cases "map_of q k")
  case None
  obtain js where "ll_rep S l js q" using assms by (auto simp: ll_rel_def)
  from rep_push_back [OF this None, of v] None show ?thesis
    by (auto simp: ll_rel_def q_push_back_def)
next
  case (Some w)
  obtain js where "ll_rep S l js q" using assms by (auto simp: ll_rel_def)
  then show ?thesis
    using Some ll_rep_contains [of S l js q k] assms by (auto simp: ll_push_back_def q_push_back_def)
qed

text \<open>Rewriting the link at the end of the part before a node, and at the start of the part
  after it, as \<open>insert_before\<close> and \<open>remove_node\<close> do.\<close>

lemma modify_next_of:
  assumes "dseg (slab_get S s) None as nx ys" "distinct as" "last_or None as = Some p"
  obtains s' where "slab_modify S p (set_next nx') s = Some s'"
    "dseg (slab_get S s') None as nx' ys" "dom (slab_get S s') = dom (slab_get S s)"
    "\<forall>i. i \<notin> set as \<longrightarrow> slab_get S s' i = slab_get S s i"
proof -
  obtain as' where as: "as = as' @ [p]"
    using last_or_Some [OF assms(3)] by blast
  then obtain n where n: "slab_get S s p = Some n"
    using dseg_dom [OF assms(1)] by auto
  obtain s' where s': "slab_modify S p (set_next nx') s = Some s'"
    "slab_get S s' = (slab_get S s)(p \<mapsto> set_next nx' n)"
    using slab_modify_ok [OF n] by blast
  show thesis
  proof (rule that [OF s'(1)])
    show "dseg (slab_get S s') None as nx' ys"
      using dseg_relink_last [of "slab_get S s" None as' p nx ys n nx'] assms n as by (simp add: s'(2))
  qed (use n as in \<open>auto simp: s'(2)\<close>)
qed

lemma modify_prev_of:
  assumes "dseg (slab_get S s) pv (j # bs) None zs" "distinct (j # bs)"
  obtains s' where "slab_modify S j (set_prev pv') s = Some s'"
    "dseg (slab_get S s') pv' (j # bs) None zs" "dom (slab_get S s') = dom (slab_get S s)"
    "\<forall>i. i \<notin> set (j # bs) \<longrightarrow> slab_get S s' i = slab_get S s i"
proof -
  obtain n where n: "slab_get S s j = Some n"
    using dseg_dom [OF assms(1)] by auto
  obtain s' where s': "slab_modify S j (set_prev pv') s = Some s'"
    "slab_get S s' = (slab_get S s)(j \<mapsto> set_prev pv' n)"
    using slab_modify_ok [OF n] by blast
  show thesis
  proof (rule that [OF s'(1)])
    show "dseg (slab_get S s') pv' (j # bs) None zs"
      using dseg_relink_first [OF assms n, of pv'] by (simp add: s'(2))
  qed (use n in \<open>auto simp: s'(2)\<close>)
qed

lemma rep_insert_before:
  assumes rep: "ll_rep S l (as @ b # bs) (ys @ (before, w) # zs)" and len: "length as = length ys"
    and new: "k \<notin> fst ` set (ys @ (before, w) # zs)"
  shows "\<exists>l' sid. ll_insert_before S before k v l = Some (True, l') \<and>
           ll_rep S l' (as @ sid # b # bs) (ys @ (k, v) # (before, w) # zs)"
proof -
  let ?g = "slab_get S (slab l)"
  let ?n = "(node_new k v)\<lparr>nd_prev := last_or None as, nd_next := Some b\<rparr>"
  have seg: "dseg ?g None (as @ b # bs) None (ys @ (before, w) # zs)" and dist: "distinct (as @ b # bs)"
    and dom: "dom ?g = set (as @ b # bs)" and len2: "length bs = length zs"
    using rep ll_rep_length [OF rep] len by (auto simp: ll_rep_def)
  obtain sid s1 where ins: "slab_insert S ?n (slab l) = (sid, s1)"
    by fastforce
  have g1: "slab_get S s1 = ?g(sid \<mapsto> ?n)" and vac: "?g sid = None"
    using get_insert [OF ins] insert_vacant [OF ins] by auto
  have fresh: "sid \<notin> set (as @ b # bs)"
    using dom vac by (metis domIff)
  have seg1: "dseg (slab_get S s1) None as (Some b) ys"
    "dseg (slab_get S s1) (last_or None as) (b # bs) None ((before, w) # zs)"
    using seg fresh len by (auto simp: g1 dseg_append)
  obtain s2 where s2: "slab_modify S b (set_prev (Some sid)) s1 = Some s2"
    "dseg (slab_get S s2) (Some sid) (b # bs) None ((before, w) # zs)"
    "dom (slab_get S s2) = dom (slab_get S s1)"
    "\<forall>i. i \<notin> set (b # bs) \<longrightarrow> slab_get S s2 i = slab_get S s1 i"
    using modify_prev_of [OF seg1(2), of "Some sid"] dist by auto
  have as2: "dseg (slab_get S s2) None as (Some b) ys"
    using s2(4) dist by (intro dseg_frame [OF seg1(1)]) auto
  have bn: "\<exists>bn. ?g b = Some bn \<and> nd_prev bn = last_or None as"
    using dseg_cut [OF seg len] by auto
  have kys: "before \<notin> fst ` set ys"
    using ll_rep_nodup [OF rep] by auto
  have index: "map_of (key_to_sid l) = (map_of (zip (map fst (ys @ zs)) (as @ bs)))(before \<mapsto> b)"
    using rep map_of_zip_cut [OF kys len] by (simp add: ll_rep_def del: zip_append map_append)
  have idx: "map_of (key_to_sid l) k = None" "map_of (key_to_sid l) before = Some b"
    using ll_rep_contains [OF rep, of k] new by (auto simp: map_of_eq_None_iff index)
  have idx': "map_of (hm_insert k sid (key_to_sid l)) =
       map_of (zip (map fst (ys @ (k, v) # (before, w) # zs)) (as @ sid # b # bs))"
    using map_of_zip_cut [of k ys as v "(before, w) # zs" sid "b # bs"] new len
      map_of_zip_cut [OF kys len, of w zs b bs]
    by (simp add: update_conv' index image_Un del: zip_append map_append)
  have fin: "\<exists>s3 h. (case last_or None as of
        Some p \<Rightarrow> map_option (\<lambda>s. (s, head l)) (slab_modify S p (set_next (Some sid)) s2)
      | None \<Rightarrow> Some (s2, Some sid)) = Some (s3, h) \<and>
      dseg (slab_get S s3) None (as @ sid # b # bs) None (ys @ (k, v) # (before, w) # zs) \<and>
      dom (slab_get S s3) = set (as @ sid # b # bs) \<and> h = first_or (as @ sid # b # bs) None"
    (is "\<exists>s3 h. ?step s3 h \<and> _")
  proof (cases "last_or None as")
    case None
    then show ?thesis
      using s2 dom len fresh by (auto simp: last_or_None g1 node_new_def)
  next
    case (Some p)
    obtain s3 where s3: "slab_modify S p (set_next (Some sid)) s2 = Some s3"
      "dseg (slab_get S s3) None as (Some sid) ys" "dom (slab_get S s3) = dom (slab_get S s2)"
      "\<forall>i. i \<notin> set as \<longrightarrow> slab_get S s3 i = slab_get S s2 i"
      using modify_next_of [OF as2 _ Some, of "Some sid"] dist by auto
    have "dseg (slab_get S s3) (Some sid) (b # bs) None ((before, w) # zs)"
      using s3(4) dist by (intro dseg_frame [OF s2(2)]) auto
    moreover have "slab_get S s3 sid = Some ?n"
      using s3(4) s2(4) fresh by (simp add: g1)
    ultimately have "dseg (slab_get S s3) None (as @ sid # b # bs) None (ys @ (k, v) # (before, w) # zs)"
      using s3(2) len by (simp add: dseg_append node_new_def)
    moreover have "head l = first_or (as @ sid # b # bs) None"
      using rep Some by (cases as) (auto simp: ll_rep_def)
    ultimately show ?thesis
      using s3 s2(3) Some dom by (auto simp: g1)
  qed
  then obtain s3 h where s3: "?step s3 h"
    "dseg (slab_get S s3) None (as @ sid # b # bs) None (ys @ (k, v) # (before, w) # zs)"
    "dom (slab_get S s3) = set (as @ sid # b # bs)" "h = first_or (as @ sid # b # bs) None"
    by blast
  let ?l = "\<lparr>key_to_sid = hm_insert k sid (key_to_sid l), slab = s3, head = h, tail = tail l\<rparr>"
  have "ll_insert_before S before k v l = Some (True, ?l)"
    using s3(1) ins idx bn s2(1)
    by (cases "last_or None as") (auto simp: ll_insert_before_def)
  moreover have "ll_rep S ?l (as @ sid # b # bs) (ys @ (k, v) # (before, w) # zs)"
    unfolding ll_rep_def linked_list.simps using s3(2-4) idx' rep fresh new
    by (simp add: ll_rep_def distinct_update image_Un)
  ultimately show ?thesis
    by blast
qed

lemma rep_remove_node:
  assumes rep: "ll_rep S l (as @ sid # bs) (ys @ (k, v) # zs)" and len: "length as = length ys"
  shows "\<exists>l'. ll_remove_node S k l = Some (Some v, l') \<and> ll_rep S l' (as @ bs) (ys @ zs)"
proof -
  let ?g = "slab_get S (slab l)"
  let ?nx = "first_or bs None" and ?pv = "last_or None as"
  have seg: "dseg ?g None (as @ sid # bs) None (ys @ (k, v) # zs)" and dist: "distinct (as @ sid # bs)"
    and dom: "dom ?g = set (as @ sid # bs)" and len2: "length bs = length zs"
    using rep ll_rep_length [OF rep] len by (auto simp: ll_rep_def)
  note cut = dseg_cut [OF seg len]
  obtain s1 where s1: "slab_remove S sid (slab l) =
      Some (\<lparr>nd_key = k, nd_value = v, nd_next = ?nx, nd_prev = ?pv\<rparr>, s1)"
    "slab_get S s1 = ?g(sid := None)"
    using slab_remove_ok [OF cut(3)] by blast
  have seg1: "dseg (slab_get S s1) None as (Some sid) ys" "dseg (slab_get S s1) (Some sid) bs None zs"
    using cut dist by (simp_all add: s1(2))
  have "\<exists>s2 h. (case ?pv of
        Some p \<Rightarrow> map_option (\<lambda>s. (s, head l)) (slab_modify S p (set_next ?nx) s1)
      | None \<Rightarrow> Some (s1, ?nx)) = Some (s2, h) \<and>
      dseg (slab_get S s2) None as ?nx ys \<and> dseg (slab_get S s2) (Some sid) bs None zs \<and>
      dom (slab_get S s2) = set (as @ bs) \<and> h = first_or (as @ bs) None" (is "\<exists>s2 h. ?step1 s2 h \<and> _")
  proof (cases ?pv)
    case None
    then show ?thesis
      using seg1 dom dist len by (auto simp: last_or_None s1(2))
  next
    case (Some p)
    obtain s2 where s2: "slab_modify S p (set_next ?nx) s1 = Some s2"
      "dseg (slab_get S s2) None as ?nx ys" "dom (slab_get S s2) = dom (slab_get S s1)"
      "\<forall>i. i \<notin> set as \<longrightarrow> slab_get S s2 i = slab_get S s1 i"
      using modify_next_of [OF seg1(1) _ Some, of ?nx] dist by auto
    moreover have "dseg (slab_get S s2) (Some sid) bs None zs"
      using s2(4) dist by (intro dseg_frame [OF seg1(2)]) auto
    moreover have "head l = first_or (as @ bs) None"
      using rep Some by (cases as) (auto simp: ll_rep_def)
    ultimately show ?thesis
      using Some dom dist by (auto simp: s1(2))
  qed
  then obtain s2 h where s2: "?step1 s2 h" "dseg (slab_get S s2) None as ?nx ys"
    "dseg (slab_get S s2) (Some sid) bs None zs" "dom (slab_get S s2) = set (as @ bs)"
    "h = first_or (as @ bs) None"
    by blast
  have "\<exists>s3 t. (case ?nx of
        Some j \<Rightarrow> map_option (\<lambda>s. (s, tail l)) (slab_modify S j (set_prev ?pv) s2)
      | None \<Rightarrow> Some (s2, ?pv)) = Some (s3, t) \<and>
      dseg (slab_get S s3) None (as @ bs) None (ys @ zs) \<and>
      dom (slab_get S s3) = set (as @ bs) \<and> t = last_or None (as @ bs)" (is "\<exists>s3 t. ?step2 s3 t \<and> _")
  proof (cases bs)
    case Nil
    then show ?thesis
      using s2 len len2 by (auto simp: dseg_append)
  next
    case (Cons j bs')
    obtain s3 where s3: "slab_modify S j (set_prev ?pv) s2 = Some s3"
      "dseg (slab_get S s3) ?pv (j # bs') None zs" "dom (slab_get S s3) = dom (slab_get S s2)"
      "\<forall>i. i \<notin> set (j # bs') \<longrightarrow> slab_get S s3 i = slab_get S s2 i"
      using modify_prev_of [OF s2(3) [unfolded Cons], of ?pv] dist Cons
      by (metis distinct_append distinct.simps(2))
    moreover have "dseg (slab_get S s3) None as ?nx ys"
      using s3(4) dist Cons by (intro dseg_frame [OF s2(2)]) auto
    moreover have "tail l = last_or None (as @ bs)"
      using rep Cons by (auto simp: ll_rep_def)
    ultimately show ?thesis
      using Cons s2(4) len by (auto simp: dseg_append)
  qed
  then obtain s3 t where s3: "?step2 s3 t" "dseg (slab_get S s3) None (as @ bs) None (ys @ zs)"
    "dom (slab_get S s3) = set (as @ bs)" "t = last_or None (as @ bs)"
    by blast
  have kys: "k \<notin> fst ` set ys" "k \<notin> fst ` set zs"
    using ll_rep_nodup [OF rep] by auto
  then have "map_of (zip (map fst (ys @ zs)) (as @ bs)) k = None"
    by (intro map_of_zip_None) auto
  with kys have idx: "map_of (key_to_sid l) k = Some sid"
    "map_of (hm_remove k (key_to_sid l)) = map_of (zip (map fst (ys @ zs)) (as @ bs))"
    using rep len
    by (simp_all add: ll_rep_def delete_conv' map_of_zip_cut fun_upd_idem del: zip_append map_append)
  let ?l = "\<lparr>key_to_sid = hm_remove k (key_to_sid l), slab = s3, head = h, tail = t\<rparr>"
  have "ll_remove_node S k l = Some (Some v, ?l)"
    using s1(1) s2(1) s3(1) idx(1)
    by (simp add: ll_remove_node_def cong: option.case_cong)
  moreover have "ll_rep S ?l (as @ bs) (ys @ zs)"
    unfolding ll_rep_def linked_list.simps using s3(2-4) s2(5) idx(2) rep
    by (auto simp: ll_rep_def distinct_delete)
  ultimately show ?thesis
    by blast
qed

lemma rel_cases:
  assumes "ll_rel S l q" and "map_of q k = Some v"
  obtains as sid bs ys zs where "ll_rep S l (as @ sid # bs) (ys @ (k, v) # zs)" "q = ys @ (k, v) # zs"
    "length as = length ys" "k \<notin> fst ` set ys" "k \<notin> fst ` set zs" "map_of (key_to_sid l) k = Some sid"
proof -
  obtain js where rep: "ll_rep S l js q"
    using assms(1) by (auto simp: ll_rel_def)
  obtain sid where sid: "map_of (key_to_sid l) k = Some sid"
    using ll_rep_contains [OF rep, of k] assms(2) by auto
  obtain as bs ys v' zs where cut: "js = as @ sid # bs" "q = ys @ (k, v') # zs" "length as = length ys"
    using ll_rep_split [OF rep sid] by blast
  have "k \<notin> fst ` set ys" "k \<notin> fst ` set zs"
    using ll_rep_nodup [OF rep] cut by auto
  moreover from this have "v' = v"
    using assms(2) cut map_of_eq_None_iff [of ys k] by (auto simp: map_add_def split: option.splits)
  ultimately show thesis
    using that rep cut sid by blast
qed

lemma rel_index: "ll_rel S l q \<Longrightarrow> map_of (key_to_sid l) k = None \<longleftrightarrow> map_of q k = None"
  by (auto simp only: ll_rel_def ll_rep_contains)

lemma rel_insert_before:
  assumes rel: "ll_rel S l q"
  shows "\<exists>l'. ll_insert_before S b k v l = Some (fst (q_insert_before b k v q), l') \<and>
           ll_rel S l' (snd (q_insert_before b k v q))"
proof (cases "map_of q k = None \<and> map_of q b \<noteq> None")
  case True
  then obtain w where "map_of q b = Some w" by auto
  from rel_cases [OF rel this] obtain as sid bs ys zs where
    cut: "ll_rep S l (as @ sid # bs) (ys @ (b, w) # zs)" "q = ys @ (b, w) # zs"
      "length as = length ys" "b \<notin> fst ` set ys" by metis
  have "splice_before b k v q = ys @ (k, v) # (b, w) # zs"
    using splice_before_cut cut by simp
  moreover have new: "k \<notin> fst ` set (ys @ (b, w) # zs)"
    using True cut(2) by (metis map_of_eq_None_iff)
  ultimately show ?thesis
    using rep_insert_before [OF cut(1,3) new, of v] True by (auto simp: q_insert_before_def ll_rel_def)
next
  case False
  then have "ll_insert_before S b k v l = Some (False, l)"
    using rel_index [OF rel, of k] rel_index [OF rel, of b] by (auto simp: ll_insert_before_def)
  then show ?thesis
    using False rel by (auto simp: q_insert_before_def)
qed

lemma rel_remove_node:
  assumes rel: "ll_rel S l q"
  shows "\<exists>l'. ll_remove_node S k l = Some (fst (q_remove_node k q), l') \<and>
           ll_rel S l' (snd (q_remove_node k q))"
proof (cases "map_of q k")
  case None
  then show ?thesis
    using rel rel_index [OF rel, of k]
    by (simp add: ll_remove_node_def q_remove_node_def delete_idem map_of_eq_None_iff [symmetric])
next
  case (Some v)
  from rel_cases [OF rel this] obtain as sid bs ys zs where
    cut: "ll_rep S l (as @ sid # bs) (ys @ (k, v) # zs)" "q = ys @ (k, v) # zs"
      "length as = length ys" "k \<notin> fst ` set ys" "k \<notin> fst ` set zs" by metis
  have "AList.delete k q = ys @ zs"
    using cut by (simp add: delete_cut)
  then show ?thesis
    using rep_remove_node [OF cut(1,3)] Some by (auto simp: q_remove_node_def ll_rel_def)
qed

text \<open>\<open>remove_front\<close> unlinks the head exactly as \<open>remove_node\<close> would.\<close>

lemma rel_remove_front:
  assumes rel: "ll_rel S l q"
  shows "\<exists>r. ll_remove_front S l = Some r \<and>
    (case (r, q_remove_front q) of (Inl _, Inl _) \<Rightarrow> True | (Inr l', Inr q') \<Rightarrow> ll_rel S l' q' | _ \<Rightarrow> False)"
proof (cases q)
  case Nil
  then show ?thesis
    using rel dseg_length by (fastforce simp: ll_rel_def ll_rep_def ll_remove_front_def q_remove_front_def)
next
  case (Cons kv zs)
  obtain k v where kv: "kv = (k, v)" by fastforce
  have "map_of q k = Some v" using Cons kv by simp
  from rel_cases [OF rel this] obtain as sid bs ys zs' where
    cut: "ll_rep S l (as @ sid # bs) (ys @ (k, v) # zs')" "q = ys @ (k, v) # zs'"
      "length as = length ys" "k \<notin> fst ` set ys" "map_of (key_to_sid l) k = Some sid" by metis
  have nil: "ys = []" "as = []" "zs' = zs"
    using cut(2-4) Cons kv by (cases ys; auto)+
  obtain l' where l': "ll_remove_node S k l = Some (Some v, l')" "ll_rep S l' bs zs"
    using rep_remove_node [OF cut(1,3)] nil by auto
  have node: "slab_get S (slab l) sid =
      Some \<lparr>nd_key = k, nd_value = v, nd_next = first_or bs None, nd_prev = None\<rparr>" "head l = Some sid"
    using cut(1) nil by (auto simp: ll_rep_def)
  obtain s1 where "slab_remove S sid (slab l) =
      Some (\<lparr>nd_key = k, nd_value = v, nd_next = first_or bs None, nd_prev = None\<rparr>, s1)"
    using remove_occupied [OF node(1)] by blast
  then have "ll_remove_front S l = Some (Inr l')"
    using l'(1) cut(5) node(2)
    by (cases bs; cases "slab_modify S (hd bs) (set_prev None) s1")
      (auto simp: ll_remove_node_def ll_remove_front_def)
  then show ?thesis
    using l' Cons kv by (auto simp: q_remove_front_def ll_rel_def)
qed

lemma rel_read_node:
  assumes rel: "ll_rel S l q"
  shows "ll_node_value S k l = Some (map_of q k)"
proof (cases "map_of q k")
  case None
  then show ?thesis
    using rel_index [OF rel, of k] by (simp add: ll_node_value_def)
next
  case (Some v)
  from rel_cases [OF rel this] obtain as sid bs ys zs where
    cut: "ll_rep S l (as @ sid # bs) (ys @ (k, v) # zs)" "length as = length ys"
      "map_of (key_to_sid l) k = Some sid" by metis
  have "\<exists>n. slab_get S (slab l) sid = Some n \<and> nd_value n = v"
    using dseg_cut(3) [OF _ cut(2)] cut(1) by (fastforce simp: ll_rep_def)
  then show ?thesis
    using Some cut(3) by (auto simp: ll_node_value_def)
qed

lemma rep_set_value:
  assumes rep: "ll_rep S l (as @ sid # bs) (ys @ (k, w) # zs)" and len: "length as = length ys"
  shows "\<exists>s'. slab_modify S sid (\<lambda>n. n\<lparr>nd_value := v\<rparr>) (slab l) = Some s' \<and>
           ll_rep S (l\<lparr>slab := s'\<rparr>) (as @ sid # bs) (ys @ (k, v) # zs)"
proof -
  have seg: "dseg (slab_get S (slab l)) None (as @ sid # bs) None (ys @ (k, w) # zs)"
    and dist: "distinct (as @ sid # bs)"
    using rep by (auto simp: ll_rep_def)
  note cut = dseg_cut [OF seg len]
  obtain s' where s': "slab_modify S sid (\<lambda>n. n\<lparr>nd_value := v\<rparr>) (slab l) = Some s'"
    "slab_get S s' = (slab_get S (slab l))(sid \<mapsto>
       \<lparr>nd_key = k, nd_value = v, nd_next = first_or bs None, nd_prev = last_or None as\<rparr>)"
    using slab_modify_ok [OF cut(3), of "\<lambda>n. n\<lparr>nd_value := v\<rparr>"] by auto
  have "dseg (slab_get S s') None (as @ sid # bs) None (ys @ (k, v) # zs)"
    using cut(1,2) dist len by (simp add: s'(2) dseg_append)
  then show ?thesis
    using s' rep by (auto simp: ll_rep_def)
qed

lemma rel_set_value:
  assumes rel: "ll_rel S l q"
  shows "\<exists>l'. ll_set_node_value S k v l = Some (fst (q_set_value k v q), l') \<and>
           ll_rel S l' (snd (q_set_value k v q))"
proof (cases "map_of q k")
  case None
  then show ?thesis
    using rel rel_index [OF rel, of k] by (simp add: ll_set_node_value_def q_set_value_def)
next
  case (Some w)
  from rel_cases [OF rel this] obtain as sid bs ys zs where
    cut: "ll_rep S l (as @ sid # bs) (ys @ (k, w) # zs)" "q = ys @ (k, w) # zs"
      "length as = length ys" "k \<notin> fst ` set ys" "map_of (key_to_sid l) k = Some sid" by metis
  have "AList.update k v q = ys @ (k, v) # zs"
    using cut by (simp add: update_cut)
  then show ?thesis
    using rep_set_value [OF cut(1,3), of v] Some cut(5)
    by (auto simp: ll_set_node_value_def q_set_value_def ll_rel_def)
qed

lemma rel_head:
  assumes "ll_rel S l q"
  shows "ll_head_value S l = Some (map_option snd (first_opt q))"
proof -
  obtain js where "ll_rep S l js q" using assms by (auto simp: ll_rel_def)
  then show ?thesis
    by (cases js) (auto simp: ll_rep_def ll_head_value_def)
qed

lemma rel_set_front:
  assumes rel: "ll_rel S l q"
  shows "\<exists>l'. ll_set_head_value S v l = Some l' \<and> ll_rel S l' (q_set_front v q)"
proof -
  obtain js where rep: "ll_rep S l js q" using rel by (auto simp: ll_rel_def)
  show ?thesis
  proof (cases js)
    case Nil
    then show ?thesis
      using rep rel by (auto simp: ll_rep_def ll_set_head_value_def q_set_front_def)
  next
    case (Cons sid bs)
    then obtain k w zs where q: "q = (k, w) # zs" "head l = Some sid"
      using rep by (auto simp: ll_rep_def)
    show ?thesis
      using rep_set_value [of l "[]" sid bs "[]" k w zs v] rep Cons q
      by (auto simp: ll_set_head_value_def q_set_front_def ll_rel_def)
  qed
qed

text \<open>The walk reads the whole sequence: the fuel is the number of live nodes.\<close>

lemma rel_items:
  assumes "ll_rel S l q"
  shows "ll_items S l = Some q"
proof -
  obtain js where rep: "ll_rep S l js q" using assms by (auto simp: ll_rel_def)
  then have "slab_len S (slab l) = length js"
    using len_card [of "slab l"] by (simp add: ll_rep_def distinct_card)
  then show ?thesis
    using rep ll_walk_dseg [of "slab_get S" "slab l" None js q] by (simp add: ll_items_def ll_rep_def)
qed

lemma rel_push_all:
  "ll_rel S l q \<Longrightarrow> distinct (map fst (q @ xs)) \<Longrightarrow> \<exists>l'. ll_push_all S xs l = Some l' \<and> ll_rel S l' (q @ xs)"
proof (induction xs arbitrary: l q)
  case (Cons kv xs)
  obtain k v where kv: "kv = (k, v)" by fastforce
  have "map_of q k = None"
    using Cons.prems kv by (auto simp: map_of_eq_None_iff)
  then obtain l' where "ll_push_back S k v l = Some (True, l')" "ll_rel S l' (q @ [(k, v)])"
    using rel_push_back [OF Cons.prems(1), of k v] by (auto simp: q_push_back_def)
  with Cons.IH [of l' "q @ [(k, v)]"] Cons.prems kv show ?case
    by simp
qed simp

lemma rel_compact:
  assumes "ll_rel S l q"
  shows "\<exists>b l'. ll_compact S l = Some (b, l') \<and> ll_rel S l' q"
proof -
  let ?l = "\<lparr>key_to_sid = [], slab = slab_with_capacity S (slab_len S (slab l)), head = None, tail = None\<rparr>"
  have "ll_rel S ?l []"
    by (auto simp: ll_rel_def ll_rep_def get_with_capacity intro!: exI [of _ "[]"])
  moreover have "distinct (map fst q)"
    using assms by (auto simp: ll_rel_def ll_rep_def)
  ultimately obtain l' where "ll_push_all S q ?l = Some l'" "ll_rel S l' q"
    using rel_push_all [of ?l "[]" q] by auto
  then show ?thesis
    using assms rel_items [OF assms] by (auto simp: ll_compact_def Let_def)
qed

lemma rel_len:
  assumes "ll_rel S l q"
  shows "ll_len l = length q" and "ll_is_empty l \<longleftrightarrow> q = []" and "ll_contains_key k l \<longleftrightarrow> hm_contains q k"
proof -
  obtain js where rep: "ll_rep S l js q" using assms by (auto simp: ll_rel_def)
  have "dom (map_of (key_to_sid l)) = dom (map_of q)"
    using rel_index [OF assms] by (auto simp: dom_def)
  then have "card (fst ` set (key_to_sid l)) = card (fst ` set q)"
    by (simp add: dom_map_of_conv_image_fst)
  then have "card (set (map fst (key_to_sid l))) = card (set (map fst q))"
    by simp
  then show "ll_len l = length q"
    using rep by (simp add: ll_len_def ll_rep_def distinct_card del: set_map)
  show "ll_is_empty l \<longleftrightarrow> q = []"
    using rep ll_rep_length [OF rep] by (cases js) (auto simp: ll_is_empty_def ll_rep_def)
  show "ll_contains_key k l \<longleftrightarrow> hm_contains q k"
    using rel_index [OF assms, of k] by (simp add: ll_contains_key_def)
qed

text \<open>All operations together.\<close>

lemma rel_step:
  assumes "ll_rel S l q"
  shows "\<exists>l'. ll_step S x l = Some (fst (q_step x q), l') \<and> ll_rel S l' (snd (q_step x q))"
proof (cases x)
  case (PushBack k v)
  then show ?thesis using rel_push_back [OF assms, of k v] by (auto simp: split_beta)
next
  case (InsertBefore b k v)
  then show ?thesis using rel_insert_before [OF assms, of b k v] by (auto simp: split_beta)
next
  case RemoveFront
  obtain r where r: "ll_remove_front S l = Some r" and
    "case (r, q_remove_front q) of (Inl _, Inl _) \<Rightarrow> True | (Inr l', Inr q') \<Rightarrow> ll_rel S l' q' | _ \<Rightarrow> False"
    using rel_remove_front [OF assms] by blast
  then show ?thesis
    using assms RemoveFront by (cases r; cases "q_remove_front q") auto
next
  case (RemoveNode k)
  then show ?thesis using rel_remove_node [OF assms, of k] by (auto simp: split_beta)
next
  case (SetValue k v)
  then show ?thesis using rel_set_value [OF assms, of k v] by (auto simp: split_beta)
next
  case (SetFront v)
  then show ?thesis
    using rel_head [OF assms] rel_set_front [OF assms, of v] by auto
next
  case Compact
  then show ?thesis using rel_compact [OF assms] by auto
next
  case ToVec
  then show ?thesis using rel_items [OF assms] assms by (simp add: ll_to_vec_def)
qed

end

sublocale node_slab_laws \<subseteq> ll: simulation "ll_step S" q_step "ll_rel S"
  by unfold_locales (rule rel_step)

context node_slab_laws
begin

lemma run_refines:
  "\<exists>l. run_impl (ll_step S) ops (ll_new S) = Some (fst (run_spec q_step ops []), l) \<and>
     ll_rel S l (snd (run_spec q_step ops []))"
  using ll.run [OF rel_new] .

end

section \<open>A slab\<close>

text \<open>
  A vector of optional entries: it allocates at the end and never reuses a slot. It satisfies the laws,
  so the refinement holds for at least one slab.
\<close>

definition vec_slab :: "('n option list, 'n) slab_ops" where
  "vec_slab = \<lparr>slab_new = [], slab_with_capacity = (\<lambda>c. []),
     slab_insert = (\<lambda>n s. (length s, s @ [Some n])),
     slab_remove = (\<lambda>i s. if i < length s then map_option (\<lambda>n. (n, s[i := None])) (s ! i) else None),
     slab_get = (\<lambda>s i. if i < length s then s ! i else None),
     slab_set = (\<lambda>i n s. s[i := Some n]),
     slab_len = (\<lambda>s. length (filter (\<lambda>x. x \<noteq> None) s)),
     slab_capacity = length\<rparr>"

lemma vec_slab_laws: "slab_laws vec_slab"
proof unfold_locales
  fix s :: "'n option list"
  have "dom (slab_get vec_slab s) = {i. i < length s \<and> s ! i \<noteq> None}"
    by (auto simp: vec_slab_def dom_def split: if_splits)
  then show "finite (dom (slab_get vec_slab s)) \<and> slab_len vec_slab s = card (dom (slab_get vec_slab s))"
    by (simp add: vec_slab_def length_filter_conv_card)
qed (auto simp: vec_slab_def fun_eq_iff nth_append less_Suc_eq split: if_splits)

interpretation vec: node_slab_laws vec_slab
  by (intro node_slab_laws.intro vec_slab_laws)

section \<open>The refinement theorem\<close>

text \<open>
  C12. For every slab that satisfies the documented laws and every sequence of calls on a fresh
  list, no call panics, every call returns what it returns on a plain sequence of key-value pairs,
  and afterwards \<open>to_vec\<close>, \<open>len\<close>, \<open>is_empty\<close> and \<open>contains_key\<close> read that sequence.
\<close>

theorem ll_refines_queue:
  assumes "slab_laws S"
  shows "\<exists>l. run_impl (ll_step S) ops (ll_new S) = Some (fst (run_spec q_step ops []), l) \<and>
    (let q = snd (run_spec q_step ops []) in
       ll_to_vec S l = Some (map snd q) \<and> ll_len l = length q \<and> (ll_is_empty l \<longleftrightarrow> q = []) \<and>
       (\<forall>k. ll_contains_key k l \<longleftrightarrow> k \<in> fst ` set q))"
proof -
  have L: "node_slab_laws S"
    using assms by (rule node_slab_laws.intro)
  obtain l where l: "run_impl (ll_step S) ops (ll_new S) = Some (fst (run_spec q_step ops []), l)"
    "ll_rel S l (snd (run_spec q_step ops []))"
    using node_slab_laws.run_refines [OF L] by blast
  then show ?thesis
    using node_slab_laws.rel_items [OF L l(2)] node_slab_laws.rel_len [OF L l(2)]
    by (auto simp: Let_def ll_to_vec_def map_of_eq_None_iff)
qed

theorem ll_refines_queue_witness:
  "\<exists>l. run_impl (ll_step vec_slab) [PushBack 1 10, PushBack 2 20, InsertBefore 2 (3::nat) (30::nat), RemoveNode 1]
         (ll_new vec_slab) = Some ([ABool True, ABool True, ABool True, AValue (Some 10)], l) \<and>
       ll_to_vec vec_slab l = Some [30, 20]"
  using ll_refines_queue [OF vec_slab_laws, of "[PushBack 1 10, PushBack 2 20, InsertBefore 2 (3::nat) (30::nat), RemoveNode 1]"]
  by (auto simp: q_push_back_def q_insert_before_def q_remove_node_def Let_def)

end
