(* ===== verification/Price_Level.thy ===== *)
theory Price_Level
  imports Linked_List Order_Types "HOL-Library.Multiset"
begin

text \<open>
  \<open>server/src/order_book/price_level.rs\<close>: one price level, the queue of its orders in time
  priority and a running sum of their sizes. The queue is the sequence of \<open>Linked_List\<close>'s
  contract. Shown here: the level keeps its well-formedness through every operation, the running
  sum is the sum of the sizes as long as that fits in 64 bits, matching terminates, is first come
  first served, and conserves size.
\<close>

record price_level =
  orders :: "(oid, inner_l4_order) queue"
  total_sz :: u64

definition level_new :: price_level where
  "level_new = \<lparr>orders = [], total_sz = 0\<rparr>"

definition level_push_back :: "oid \<Rightarrow> inner_l4_order \<Rightarrow> price_level \<Rightarrow> bool \<times> price_level" where
  "level_push_back k o' l =
     (let s = sz_value (io_sz o'); (inserted, q) = q_push_back k o' (orders l)
      in (inserted, l\<lparr>orders := q,
                      total_sz := if inserted then saturating_add (total_sz l) s else total_sz l\<rparr>))"

definition level_insert_before ::
  "oid \<Rightarrow> oid \<Rightarrow> inner_l4_order \<Rightarrow> price_level \<Rightarrow> bool \<times> price_level" where
  "level_insert_before anchor k o' l =
     (let s = sz_value (io_sz o'); (inserted, q) = q_insert_before anchor k o' (orders l)
      in (inserted, l\<lparr>orders := q,
                      total_sz := if inserted then saturating_add (total_sz l) s else total_sz l\<rparr>))"

definition level_contains :: "oid \<Rightarrow> price_level \<Rightarrow> bool" where
  "level_contains k l \<longleftrightarrow> hm_contains (orders l) k"

definition level_remove :: "oid \<Rightarrow> price_level \<Rightarrow> inner_l4_order option \<times> price_level" where
  "level_remove k l =
     (let (removed, q) = q_remove_node k (orders l)
      in (removed, l\<lparr>orders := q,
                     total_sz := (case removed of None \<Rightarrow> total_sz l
                                  | Some o' \<Rightarrow> saturating_sub (total_sz l) (sz_value (io_sz o')))\<rparr>))"

definition level_modify_sz :: "oid \<Rightarrow> sz \<Rightarrow> price_level \<Rightarrow> bool \<times> price_level" where
  "level_modify_sz k s l =
     (case map_of (orders l) k of
        None \<Rightarrow> (False, l)
      | Some o' \<Rightarrow>
          let old = sz_value (io_sz o'); o'' = order_modify_sz s o'; new = sz_value (io_sz o'')
          in (True, l\<lparr>orders := snd (q_set_value k o'' (orders l)),
                      total_sz := saturating_add (saturating_sub (total_sz l) old) new\<rparr>))"

lemma fill_nonzero_taker:
  assumes "order_fill t m = (s, t', m')" and "\<not> sz_is_zero (io_sz t')"
  shows "sz_is_zero (io_sz m')"
  using order_fill_sizes [OF assms(1)] assms(2) by (simp add: sz_zero_iff)

text \<open>
  The loop of \<open>match_against\<close>: fill against the head, drop the head when it is empty, stop when
  the taker is. It goes round again only with a non-empty taker, and then the head was dropped.
\<close>

function match_against ::
  "inner_l4_order \<Rightarrow> price_level \<Rightarrow> oid list \<Rightarrow> inner_l4_order \<times> price_level \<times> oid list" where
  "match_against taker l filled =
     (case orders l of
        [] \<Rightarrow> (taker, l, filled)
      | (k, maker) # rest \<Rightarrow>
          let sz_before = sz_value (io_sz maker);
              (matched, taker', maker') = order_fill taker maker;
              sz_after = sz_value (io_sz maker');
              maker_filled = sz_is_zero (io_sz maker');
              maker_oid = order_oid maker';
              total' = saturating_sub (total_sz l) (saturating_sub sz_before sz_after);
              q = q_set_front maker' (orders l);
              filled' = (if maker_filled then filled @ [maker_oid] else filled);
              q' = (if maker_filled then case q_remove_front q of Inl _ \<Rightarrow> q | Inr r \<Rightarrow> r else q);
              l' = l\<lparr>orders := q', total_sz := total'\<rparr>
          in if sz_is_zero (io_sz taker') then (taker', l', filled') else match_against taker' l' filled')"
  by pat_completeness auto

termination
proof (relation "measure (\<lambda>(t, l, f). length (orders l))", goal_cases)
  case (2 taker l filled kv rest k maker before x matched y taker' maker')
  then show ?case
    using fill_nonzero_taker [of taker maker matched taker' maker']
    by (auto simp: q_set_front_def q_remove_front_def)
qed simp

definition level_len :: "price_level \<Rightarrow> nat" where
  "level_len l = length (orders l)"

definition level_is_empty :: "price_level \<Rightarrow> bool" where
  "level_is_empty l \<longleftrightarrow> orders l = []"

definition level_to_vec :: "price_level \<Rightarrow> inner_l4_order list" where
  "level_to_vec l = map snd (orders l)"

definition level_fold :: "price_level \<Rightarrow> u64" where
  "level_fold l = fold (\<lambda>o' acc. saturating_add acc (sz_value (io_sz o'))) (level_to_vec l) 0"

text \<open>The assertion of \<open>debug_validate\<close>.\<close>

definition debug_validate :: "price_level \<Rightarrow> bool" where
  "debug_validate l \<longleftrightarrow> level_fold l = total_sz l"

definition aggregate_entry :: "px \<times> price_level \<Rightarrow> px \<times> sz \<times> u32" where
  "aggregate_entry e =
     (fst e, Sz (total_sz (snd e)), case u32_try_from (level_len (snd e)) of Some n \<Rightarrow> n | None \<Rightarrow> - 1)"

section \<open>Well-formed levels\<close>

text \<open>
  The sum of the sizes of a queue, as a number, and the invariant: every order is filed under its
  own id, no id twice.
\<close>

definition qsum :: "(oid, inner_l4_order) queue \<Rightarrow> nat" where
  "qsum q = sum_list (map (\<lambda>e. order_szn (snd e)) q)"

lemma qsum_simps [simp]:
  "qsum [] = 0" "qsum (e # q) = order_szn (snd e) + qsum q" "qsum (q @ q') = qsum q + qsum q'"
  by (simp_all add: qsum_def)

definition queue_ok :: "(oid, inner_l4_order) queue \<Rightarrow> bool" where
  "queue_ok q \<longleftrightarrow> distinct (map fst q) \<and> (\<forall>(k, o') \<in> set q. k = order_oid o')"

definition level_wf :: "price_level \<Rightarrow> bool" where
  "level_wf l \<longleftrightarrow> queue_ok (orders l)"

text \<open>The running sum is the true sum.\<close>

definition agg_exact :: "price_level \<Rightarrow> bool" where
  "agg_exact l \<longleftrightarrow> unat (total_sz l) = qsum (orders l)"

lemma queue_ok_simps [simp]:
  "queue_ok []"
  "queue_ok ((k, o') # q) \<longleftrightarrow> k = order_oid o' \<and> k \<notin> fst ` set q \<and> queue_ok q"
  by (auto simp: queue_ok_def)

lemma queue_ok_append:
  "queue_ok (q @ q') \<longleftrightarrow> queue_ok q \<and> queue_ok q' \<and> fst ` set q \<inter> fst ` set q' = {}"
  by (auto simp: queue_ok_def)

lemma splice_before_perm:
  "b \<in> fst ` set q \<Longrightarrow> mset (splice_before b k v q) = add_mset (k, v) (mset q)"
  by (induction b k v q rule: splice_before.induct) auto

lemma splice_before_set [simp]:
  "b \<in> fst ` set q \<Longrightarrow> set (splice_before b k v q) = insert (k, v) (set q)"
  by (induction b k v q rule: splice_before.induct) auto

lemma splice_before_distinct:
  "distinct (map fst q) \<Longrightarrow> k \<notin> fst ` set q \<Longrightarrow> distinct (map fst (splice_before b k v q))"
proof (induction b k v q rule: splice_before.induct)
  case (2 b k v k' v' q)
  have "fst ` set (splice_before b k v q) \<subseteq> insert k (fst ` set q)"
    by (induction b k v q rule: splice_before.induct) auto
  with 2 show ?case by auto
qed simp

lemma qsum_mset: "qsum q = \<Sum>\<^sub># (image_mset (\<lambda>e. order_szn (snd e)) (mset q))"
  by (simp add: qsum_def flip: sum_mset_sum_list)

lemma qsum_splice: "b \<in> fst ` set q \<Longrightarrow> qsum (splice_before b k v q) = order_szn v + qsum q"
  by (simp add: qsum_mset splice_before_perm)

lemma qsum_delete:
  "distinct (map fst q) \<Longrightarrow> map_of q k = Some v \<Longrightarrow> qsum q = order_szn v + qsum (AList.delete k q)"
  by (induction q) (auto simp: delete_idem split: if_splits)

lemma qsum_update:
  "map_of q k = Some w \<Longrightarrow> qsum (AList.update k v q) + order_szn w = qsum q + order_szn v"
  by (induction q) (auto split: if_splits)

lemma queue_ok_delete [simp]: "queue_ok q \<Longrightarrow> queue_ok (AList.delete k q)"
proof -
  assume "queue_ok q"
  moreover have "set (AList.delete k q) \<subseteq> set q"
    by (auto simp: AList.delete_eq)
  ultimately show ?thesis
    by (auto simp: queue_ok_def distinct_delete)
qed

lemma queue_ok_update:
  "queue_ok q \<Longrightarrow> k = order_oid v \<Longrightarrow> queue_ok (AList.update k v q)"
  by (induction q) (force simp: dom_update)+

lemma qsum_member: "map_of q k = Some v \<Longrightarrow> order_szn v \<le> qsum q"
  by (induction q) (auto split: if_splits)

lemma level_wf_new [simp]: "level_wf level_new" "agg_exact level_new"
  by (simp_all add: level_wf_def level_new_def agg_exact_def)

lemma level_push_back_wf:
  assumes "level_wf l" and "k = order_oid o'"
  shows "level_wf (snd (level_push_back k o' l))"
  using assms by (auto simp: level_push_back_def q_push_back_def level_wf_def Let_def queue_ok_append
      map_of_eq_None_iff)

lemma level_insert_before_wf:
  assumes "level_wf l" and "k = order_oid o'"
  shows "level_wf (snd (level_insert_before b k o' l))"
proof -
  have "map_of (orders l) k = None \<Longrightarrow> map_of (orders l) b \<noteq> None \<Longrightarrow>
      queue_ok (splice_before b k o' (orders l))"
    using assms splice_before_distinct [of "orders l" k b o']
    by (auto simp: queue_ok_def level_wf_def map_of_eq_None_iff)
  then show ?thesis
    using assms by (auto simp: level_insert_before_def q_insert_before_def level_wf_def Let_def)
qed

lemma level_remove_wf: "level_wf l \<Longrightarrow> level_wf (snd (level_remove k l))"
  by (simp add: level_remove_def q_remove_node_def level_wf_def Let_def)

lemma level_modify_wf:
  assumes "level_wf l" shows "level_wf (snd (level_modify_sz k s l))"
proof (cases "map_of (orders l) k")
  case (Some o')
  then have "k = order_oid o'"
    using assms map_of_SomeD [OF Some] by (auto simp: level_wf_def queue_ok_def)
  then show ?thesis
    using assms Some by (simp add: level_modify_sz_def q_set_value_def level_wf_def Let_def queue_ok_update)
qed (use assms in \<open>simp add: level_modify_sz_def\<close>)

text \<open>
  The running sum: removals keep it exact unconditionally, insertions and size changes as long as
  the new sum fits in 64 bits.
\<close>

lemma saturating_add_fits:
  "unat a + unat b < 2 ^ 64 \<Longrightarrow> unat (saturating_add a (b :: u64)) = unat a + unat b"
  by (simp add: unat_saturating_add)

lemma level_push_back_agg:
  assumes "agg_exact l" and "qsum (orders l) + order_szn o' < 2 ^ 64"
  shows "agg_exact (snd (level_push_back k o' l))"
  using assms by (auto simp: level_push_back_def q_push_back_def agg_exact_def Let_def saturating_add_fits)

lemma level_insert_before_agg:
  assumes "agg_exact l" and "qsum (orders l) + order_szn o' < 2 ^ 64"
  shows "agg_exact (snd (level_insert_before b k o' l))"
  using assms by (auto simp: level_insert_before_def q_insert_before_def agg_exact_def Let_def
      saturating_add_fits qsum_splice map_of_eq_None_iff)

lemma level_remove_agg:
  assumes "level_wf l" and "agg_exact l"
  shows "agg_exact (snd (level_remove k l))"
  using assms qsum_delete [of "orders l" k]
  by (auto simp: level_remove_def q_remove_node_def agg_exact_def level_wf_def queue_ok_def Let_def
      unat_saturating_sub delete_idem map_of_eq_None_iff split: option.splits)

lemma level_modify_agg:
  assumes "agg_exact l" and "map_of (orders l) k = Some o'"
    and "qsum (orders l) - order_szn o' + szn s < 2 ^ 64"
  shows "agg_exact (snd (level_modify_sz k s l))"
  using assms qsum_update [OF assms(2), of "order_modify_sz s o'"] qsum_member [OF assms(2)]
  by (simp add: level_modify_sz_def q_set_value_def agg_exact_def Let_def unat_saturating_sub
      saturating_add_fits)

section \<open>Matching\<close>

declare match_against.simps [simp del]

lemma match_against_empty: "orders l = [] \<Longrightarrow> match_against t l f = (t, l, f)"
  by (simp add: match_against.simps)

text \<open>The three outcomes of one round, by the sizes of the taker and of the head.\<close>

lemma match_against_partial:
  assumes "orders l = (k, m) # q" and "order_szn t < order_szn m"
  shows "match_against t l f =
    (decrement_sz (io_sz t) t,
     l\<lparr>orders := (k, decrement_sz (io_sz t) m) # q,
       total_sz := saturating_sub (total_sz l) (sz_value (io_sz t))\<rparr>, f)"
proof -
  have "min (io_sz t) (io_sz m) = io_sz t"
    using assms(2) by (simp add: min_def less_eq_sz_def word_le_nat_alt)
  moreover have "saturating_sub (sz_value (io_sz m)) (sz_value (io_sz (decrement_sz (io_sz t) m))) = sz_value (io_sz t)"
    using assms(2) by (simp add: unat_eq_iff word_arith)
  ultimately show ?thesis
    using assms by (simp add: match_against.simps [of t l f] order_fill_def Let_def word_arith q_set_front_def)
qed

lemma match_against_full:
  assumes "orders l = (k, m) # q" and "order_szn m \<le> order_szn t"
  shows "match_against t l f =
    (let t' = decrement_sz (io_sz m) t;
         l' = l\<lparr>orders := q, total_sz := saturating_sub (total_sz l) (sz_value (io_sz m))\<rparr>
     in if order_szn t = order_szn m then (t', l', f @ [order_oid m])
        else match_against t' l' (f @ [order_oid m]))"
proof -
  have "min (io_sz t) (io_sz m) = io_sz m"
    using assms(2) by (simp add: min_def less_eq_sz_def word_le_nat_alt unat_eq_iff sz.expand)
  moreover have "saturating_sub (sz_value (io_sz m)) (sz_value (io_sz (decrement_sz (io_sz m) m))) = sz_value (io_sz m)"
    by (simp add: unat_eq_iff word_arith)
  ultimately show ?thesis
    using assms
    by (auto simp: match_against.simps [of t l f] order_fill_def Let_def word_arith q_set_front_def q_remove_front_def)
qed

text \<open>
  What a match does to a level. The queue splits into a filled prefix \<open>ys\<close>, reported in order, and
  a remainder \<open>zs\<close> of which at most the first order is touched: it gives up what is left of the
  taker. The running sum drops by exactly what was matched.
\<close>

definition drop_from_head :: "u64 \<Rightarrow> (oid, inner_l4_order) queue \<Rightarrow> (oid, inner_l4_order) queue" where
  "drop_from_head d q = (case q of [] \<Rightarrow> [] | (k, m) # q' \<Rightarrow> (k, decrement_sz (Sz d) m) # q')"

lemma drop_from_head_simps [simp]:
  "drop_from_head d [] = []" "drop_from_head 0 q = q"
  "drop_from_head d ((k, m) # q) = (k, decrement_sz (Sz d) m) # q"
  by (auto simp: drop_from_head_def decrement_sz_def sz_decrement_def split: list.splits)

definition is_match :: "nat \<Rightarrow> (oid, inner_l4_order) queue \<Rightarrow> oid list \<Rightarrow> (oid, inner_l4_order) queue \<Rightarrow> bool" where
  "is_match t q filled q' \<longleftrightarrow>
     (\<exists>ys zs d. q = ys @ zs \<and> filled = map (\<lambda>e. order_oid (snd e)) ys \<and> q' = drop_from_head d zs \<and>
        qsum ys + unat d = min t (qsum q) \<and> (\<forall>(k, m) \<in> set (take 1 zs). unat d < order_szn m))"

lemma is_match_Cons:
  assumes "is_match t q g q'"
  shows "is_match (order_szn m + t) ((k, m) # q) (order_oid m # g) q'"
proof -
  obtain ys zs d where "q = ys @ zs" "g = map (\<lambda>e. order_oid (snd e)) ys" "q' = drop_from_head d zs"
    "qsum ys + unat d = min t (qsum q)" "\<forall>(k, m) \<in> set (take 1 zs). unat d < order_szn m"
    using assms unfolding is_match_def by blast
  then show ?thesis
    unfolding is_match_def by (intro exI [of _ "(k, m) # ys"] exI [of _ zs] exI [of _ d]) auto
qed

lemma is_match_qsum: "is_match t q g q' \<Longrightarrow> qsum q' = qsum q - t"
proof -
  assume "is_match t q g q'"
  then obtain ys zs d where m: "q = ys @ zs" "q' = drop_from_head d zs"
    "qsum ys + unat d = min t (qsum q)" "\<forall>(k, m) \<in> set (take 1 zs). unat d < order_szn m"
    unfolding is_match_def by blast
  then have "qsum q' = qsum zs - unat d"
    by (cases zs) (auto simp: word_arith)
  then show ?thesis
    using m by (auto simp: min_def split: if_splits)
qed

lemma is_match_zero: "(\<forall>(k, m) \<in> set q. 0 < order_szn m) \<Longrightarrow> is_match 0 q [] q"
  unfolding is_match_def
  by (intro exI [of _ "[]"] exI [of _ q] exI [of _ 0]) (auto dest: in_set_takeD)

lemma match_against_spec:
  assumes "match_against t l f = (t', l', f')" and "\<forall>(k, m) \<in> set (orders l). 0 < order_szn m"
  shows "\<exists>g. f' = f @ g \<and> is_match (order_szn t) (orders l) g (orders l') \<and>
     (unat (total_sz l) = qsum (orders l) \<longrightarrow> unat (total_sz l') = qsum (orders l) - order_szn t) \<and>
     same_order t t' \<and> order_szn t' = order_szn t - qsum (orders l)"
  using assms
proof (induction "orders l" arbitrary: t l f)
  case Nil
  then show ?case
    using is_match_zero [of "[]"] by (auto simp: match_against_empty is_match_def)
next
  case (Cons e q)
  obtain k m where e: "e = (k, m)" by fastforce
  note ord = Cons.hyps(2) [symmetric, unfolded e]
  let ?l = "l\<lparr>orders := q, total_sz := saturating_sub (total_sz l) (sz_value (io_sz m))\<rparr>"
  consider "order_szn t < order_szn m" | "order_szn t = order_szn m" | "order_szn m < order_szn t"
    by linarith
  then show ?case
  proof cases
    case 1
    then have "is_match (order_szn t) (orders l) [] ((k, decrement_sz (io_sz t) m) # q)"
      unfolding is_match_def ord
      by (intro exI [of _ "[]"] exI [of _ "(k, m) # q"] exI [of _ "sz_value (io_sz t)"]) auto
    then show ?thesis
      using Cons.prems match_against_partial [OF ord 1, of f] 1 ord by (auto simp: word_arith)
  next
    case 2
    then have "is_match (order_szn t) (orders l) [order_oid m] q"
      using Cons.prems(2) unfolding is_match_def ord
      by (intro exI [of _ "[(k, m)]"] exI [of _ q] exI [of _ 0])
        (auto dest!: in_set_takeD)
    then show ?thesis
      using Cons.prems match_against_full [OF ord, of t f] 2 ord by (auto simp: word_arith Let_def)
  next
    case 3
    have "match_against (decrement_sz (io_sz m) t) ?l (f @ [order_oid m]) = (t', l', f')"
      using Cons.prems(1) match_against_full [OF ord, of t f] 3 by (simp add: Let_def)
    from Cons.hyps(1) [OF _ this] Cons.prems(2) ord obtain g where
      g: "f' = f @ order_oid m # g" "is_match (order_szn t - order_szn m) q g (orders l')"
        "unat (total_sz l) - order_szn m = qsum q \<longrightarrow> unat (total_sz l') = qsum q - (order_szn t - order_szn m)"
        "same_order (decrement_sz (io_sz m) t) t'" "order_szn t' = order_szn t - order_szn m - qsum q"
      by (auto simp: word_arith)
    have "is_match (order_szn t) (orders l) (order_oid m # g) (orders l')"
      using is_match_Cons [OF g(2), of m k] 3 ord by simp
    moreover have "same_order t t'"
      using g(4) by (simp add: same_order_def decrement_sz_def)
    ultimately show ?thesis
      using g 3 ord by auto
  qed
qed

text \<open>Matching a longer queue: either the first part absorbs the taker, or it is used up.\<close>

lemma is_match_append_stop:
  assumes "is_match t q g q'" "t \<le> qsum q" "\<forall>(k, m) \<in> set r. 0 < order_szn m"
  shows "is_match t (q @ r) g (q' @ r)"
proof -
  obtain ys zs d where m: "q = ys @ zs" "g = map (\<lambda>e. order_oid (snd e)) ys" "q' = drop_from_head d zs"
    "qsum ys + unat d = min t (qsum q)" "\<forall>(k, m) \<in> set (take 1 zs). unat d < order_szn m"
    using assms(1) unfolding is_match_def by blast
  show ?thesis
  proof (cases zs)
    case Nil
    then have "d = 0"
      using m assms(2) by (simp add: unat_eq_iff)
    then show ?thesis
      using m assms(2,3) Nil unfolding is_match_def
      by (intro exI [of _ ys] exI [of _ r] exI [of _ d]) (auto dest: in_set_takeD)
  next
    case (Cons e zs')
    then show ?thesis
      using m assms(2) unfolding is_match_def
      by (intro exI [of _ ys] exI [of _ "zs @ r"] exI [of _ d]) (auto split: prod.splits)
  qed
qed

lemma is_match_used_up:
  assumes "is_match t q g q'" "qsum q \<le> t" "\<forall>(k, m) \<in> set q. 0 < order_szn m"
  shows "q' = []" and "g = map (\<lambda>e. order_oid (snd e)) q"
proof -
  obtain ys zs d where m: "q = ys @ zs" "g = map (\<lambda>e. order_oid (snd e)) ys" "q' = drop_from_head d zs"
    "qsum ys + unat d = min t (qsum q)" "\<forall>(k, m) \<in> set (take 1 zs). unat d < order_szn m"
    using assms(1) unfolding is_match_def by blast
  then have "zs = []"
    using assms(2) by (cases zs) auto
  then show "q' = []" and "g = map (\<lambda>e. order_oid (snd e)) q"
    using m by auto
qed

lemma is_match_append_go:
  assumes "is_match t q g q'" "qsum q \<le> t" "is_match (t - qsum q) r h r'"
    "\<forall>(k, m) \<in> set q. 0 < order_szn m"
  shows "is_match t (q @ r) (g @ h) (q' @ r')"
proof -
  obtain ys zs d where m: "r = ys @ zs" "h = map (\<lambda>e. order_oid (snd e)) ys" "r' = drop_from_head d zs"
    "qsum ys + unat d = min (t - qsum q) (qsum r)" "\<forall>(k, m) \<in> set (take 1 zs). unat d < order_szn m"
    using assms(3) unfolding is_match_def by blast
  then show ?thesis
    using is_match_used_up [OF assms(1,2,4)] assms(2) unfolding is_match_def
    by (intro exI [of _ "q @ ys"] exI [of _ zs] exI [of _ d]) auto
qed

text \<open>What a match leaves behind: the filled ids are cut off the front, the others keep their order,
  their data and a positive size.\<close>

lemma is_match_keys:
  assumes "is_match t q g q'" "\<forall>(k, m) \<in> set q. k = order_oid m"
  shows "map fst q = g @ map fst q'"
proof -
  obtain ys zs d where m: "q = ys @ zs" "g = map (\<lambda>e. order_oid (snd e)) ys" "q' = drop_from_head d zs"
    using assms(1) unfolding is_match_def by blast
  moreover have "map fst (drop_from_head d zs) = map fst zs"
    by (auto simp: drop_from_head_def split: list.splits)
  moreover have "map (\<lambda>e. order_oid (snd e)) ys = map fst ys"
    using assms(2) m by (intro map_cong) force+
  ultimately show ?thesis
    by simp
qed

lemma is_match_orders:
  assumes "is_match t q g q'" "(k, m') \<in> set q'" "\<forall>(k, m) \<in> set q. 0 < order_szn m"
  obtains m where "(k, m) \<in> set q" "same_order m m'" "0 < order_szn m'"
proof -
  obtain ys zs d where m: "q = ys @ zs" "q' = drop_from_head d zs"
    "\<forall>(k, m) \<in> set (take 1 zs). unat d < order_szn m"
    using assms(1) unfolding is_match_def by blast
  show thesis
  proof (cases zs)
    case (Cons e zs')
    obtain j n where e: "e = (j, n)" by fastforce
    then have "(k, m') = (j, decrement_sz (Sz d) n) \<or> (k, m') \<in> set zs'"
      using m(2) assms(2) Cons by auto
    then show thesis
    proof
      assume "(k, m') = (j, decrement_sz (Sz d) n)"
      then show thesis
        using that [of n] m Cons e by (simp add: word_arith)
    next
      assume "(k, m') \<in> set zs'"
      then have "(k, m') \<in> set q" using m Cons by simp
      then show thesis
        using that [of m'] assms(3) by fastforce
    qed
  qed (use m assms(2) in simp)
qed

end
