(* ===== verification/Order_Book.thy ===== *)
theory Order_Book
  imports Price_Level
begin

text \<open>
  \<open>server/src/order_book/mod.rs\<close>: the book of one coin, its two sides as ordered maps from price
  to level and the index from order id to side and price; matching, resting, cancelling and
  resizing orders, the best bid and offer, and the snapshots.

  \<open>book_ok\<close> is the invariant: both sides are sorted and hold no empty level, every order lies on
  its own side at its own price with a positive size, the index lists exactly the resting orders,
  and the best bid is below the best ask. Every operation keeps it.
\<close>

section \<open>The book and its operations\<close>

type_synonym book_side = "(px, price_level) btree_map"

record order_book =
  oid_to_side_px :: "(oid, side \<times> px) hash_map"
  bids :: book_side
  asks :: book_side

text \<open>A snapshot: the orders of the bid side and of the ask side.\<close>

type_synonym 'o snapshot = "'o list \<times> 'o list"

definition snapshot_truncate :: "nat \<Rightarrow> 'o snapshot \<Rightarrow> 'o snapshot" where
  "snapshot_truncate n s = (take n (fst s), take n (snd s))"

text \<open>The loop of \<open>extract_triggers\<close> on one side: pop from the end while the id is in both sets.\<close>

fun pop_while :: "('o \<Rightarrow> bool) \<Rightarrow> 'o list \<Rightarrow> 'o list \<times> 'o list" where
  "pop_while P xs =
     (if xs = [] then ([], [])
      else if P (last xs)
           then let (rest, popped) = pop_while P (butlast xs) in (rest, last xs # popped)
           else (xs, []))"

declare pop_while.simps [simp del]

definition extract_triggers ::
  "inner_l4_order snapshot \<Rightarrow> inner_l4_order list \<times> inner_l4_order snapshot" where
  "extract_triggers s =
     (let bid_oids = order_oid ` set (fst s);
          ask_oids = order_oid ` set (snd s);
          shared = (\<lambda>o'. order_oid o' \<in> bid_oids \<and> order_oid o' \<in> ask_oids);
          (b, tb) = pop_while shared (fst s);
          (a, ta) = pop_while shared (snd s)
      in (tb @ ta, (b, a)))"

definition remove_triggers :: "inner_l4_order snapshot \<Rightarrow> inner_l4_order snapshot" where
  "remove_triggers s = snd (extract_triggers s)"

definition book_new :: order_book where
  "book_new = \<lparr>oid_to_side_px = [], bids = [], asks = []\<rparr>"

definition order_count :: "order_book \<Rightarrow> nat" where
  "order_count b = length (oid_to_side_px b)"

definition add_order_to_book ::
  "book_side \<Rightarrow> inner_l4_order \<Rightarrow> oid option \<Rightarrow> bool \<times> book_side" where
  "add_order_to_book m o' insert_before =
     (let k = order_oid o'; p = io_limit_px o';
          l = (case bt_get m p of None \<Rightarrow> level_new | Some l \<Rightarrow> l)
      in case insert_before of
           None \<Rightarrow> (False, bt_insert p (snd (level_push_back k o' l)) m)
         | Some anchor \<Rightarrow>
             if level_contains anchor l
             then (False, bt_insert p (snd (level_insert_before anchor k o' l)) m)
             else (True, bt_insert p (snd (level_push_back k o' l)) m))"

text \<open>
  The loop of \<open>match_order\<close> over the levels in priority order. It returns the taker, the levels, the
  ids filled and the prices of the levels left empty.
\<close>

fun match_levels ::
  "(px \<Rightarrow> bool) \<Rightarrow> (px \<times> price_level) list \<Rightarrow> inner_l4_order \<Rightarrow> oid list \<Rightarrow> px list
     \<Rightarrow> inner_l4_order \<times> (px \<times> price_level) list \<times> oid list \<times> px list" where
  "match_levels crosses [] taker filled ks = (taker, [], filled, ks)"
| "match_levels crosses ((p, l) # ls) taker filled ks =
     (if \<not> crosses p then (taker, (p, l) # ls, filled, ks)
      else let (taker', l', filled') = match_against taker l filled;
               ks' = (if level_is_empty l' then ks @ [p] else ks)
           in if sz_is_zero (io_sz taker') then (taker', (p, l') # ls, filled', ks')
              else let (taker'', ls', filled'', ks'') = match_levels crosses ls taker' filled' ks'
                   in (taker'', (p, l') # ls', filled'', ks''))"

definition px_crosses :: "side \<Rightarrow> px \<Rightarrow> px \<Rightarrow> bool" where
  "px_crosses taker_side limit_px p = (case taker_side of Ask \<Rightarrow> limit_px \<le> p | Bid \<Rightarrow> p \<le> limit_px)"

definition match_order ::
  "book_side \<Rightarrow> inner_l4_order \<Rightarrow> oid list \<times> inner_l4_order \<times> book_side" where
  "match_order m taker =
     (let taker_side = io_side taker;
          it = (case taker_side of Ask \<Rightarrow> rev m | Bid \<Rightarrow> m);
          (taker', it', filled, ks) = match_levels (px_crosses taker_side (io_limit_px taker)) it taker [] [];
          m' = (case taker_side of Ask \<Rightarrow> rev it' | Bid \<Rightarrow> it')
      in (filled, taker', fold bt_remove ks m'))"

definition add_order_before :: "inner_l4_order \<Rightarrow> oid option \<Rightarrow> order_book \<Rightarrow> bool \<times> order_book" where
  "add_order_before o' insert_before b =
     (if hm_contains (oid_to_side_px b) (order_oid o') then (False, b)
      else let maker = (case io_side o' of Ask \<Rightarrow> bids b | Bid \<Rightarrow> asks b);
               (oids, taker, maker') = match_order maker o';
               idx = fold hm_remove oids (oid_to_side_px b);
               b' = (case io_side o' of Ask \<Rightarrow> b\<lparr>oid_to_side_px := idx, bids := maker'\<rparr>
                                      | Bid \<Rightarrow> b\<lparr>oid_to_side_px := idx, asks := maker'\<rparr>)
           in if sz_is_positive (io_sz taker)
              then let idx' = hm_insert (order_oid taker) (io_side taker, io_limit_px taker) idx
                   in case io_side o' of
                        Ask \<Rightarrow> (let (fell, m) = add_order_to_book (asks b') taker insert_before
                                 in (fell, b'\<lparr>oid_to_side_px := idx', asks := m\<rparr>))
                      | Bid \<Rightarrow> (let (fell, m) = add_order_to_book (bids b') taker insert_before
                                 in (fell, b'\<lparr>oid_to_side_px := idx', bids := m\<rparr>))
              else (False, b'))"

definition add_order :: "inner_l4_order \<Rightarrow> order_book \<Rightarrow> order_book" where
  "add_order o' b = snd (add_order_before o' None b)"

text \<open>The removal of an id from the levels of one side, with the level itself when it gets empty.\<close>

definition cancel_in_side :: "oid \<Rightarrow> px \<Rightarrow> book_side \<Rightarrow> bool \<times> book_side" where
  "cancel_in_side k p m =
     (case bt_get m p of
        None \<Rightarrow> (False, m)
      | Some l \<Rightarrow>
          let (removed, l') = level_remove k l;
              m' = (if level_is_empty l' then bt_remove p m else bt_insert p l' m)
          in (removed \<noteq> None, m'))"

definition cancel_order :: "oid \<Rightarrow> order_book \<Rightarrow> bool \<times> order_book" where
  "cancel_order k b =
     (case hm_get (oid_to_side_px b) k of
        None \<Rightarrow> (False, b)
      | Some (sd, p) \<Rightarrow>
          let b' = b\<lparr>oid_to_side_px := hm_remove k (oid_to_side_px b)\<rparr>
          in case sd of
               Ask \<Rightarrow> (let (r, m) = cancel_in_side k p (asks b') in (r, b'\<lparr>asks := m\<rparr>))
             | Bid \<Rightarrow> (let (r, m) = cancel_in_side k p (bids b') in (r, b'\<lparr>bids := m\<rparr>)))"

definition modify_in_side :: "oid \<Rightarrow> sz \<Rightarrow> px \<Rightarrow> book_side \<Rightarrow> bool \<times> book_side" where
  "modify_in_side k s p m =
     (case bt_get m p of
        None \<Rightarrow> (False, m)
      | Some l \<Rightarrow> let (r, l') = level_modify_sz k s l in (r, bt_insert p l' m))"

definition book_modify_sz :: "oid \<Rightarrow> sz \<Rightarrow> order_book \<Rightarrow> bool \<times> order_book" where
  "book_modify_sz k s b =
     (if sz_is_zero s then cancel_order k b
      else case hm_get (oid_to_side_px b) k of
             None \<Rightarrow> (False, b)
           | Some (sd, p) \<Rightarrow>
               (case sd of
                  Ask \<Rightarrow> (let (r, m) = modify_in_side k s p (asks b) in (r, b\<lparr>asks := m\<rparr>))
                | Bid \<Rightarrow> (let (r, m) = modify_in_side k s p (bids b) in (r, b\<lparr>bids := m\<rparr>))))"

definition get_bbo :: "order_book \<Rightarrow> (px \<times> sz \<times> u32) option \<times> (px \<times> sz \<times> u32) option" where
  "get_bbo b = (map_option aggregate_entry (last_opt (bids b)), map_option aggregate_entry (first_opt (asks b)))"

text \<open>
  \<open>compact\<close> rebuilds the storage of the levels that \<open>fragmented\<close> selects (the slab's business) and
  counts them; the orders stay as they are. \<open>slab_stats\<close> adds up live nodes and capacities.
\<close>

definition book_compact :: "(price_level \<Rightarrow> bool) \<Rightarrow> order_book \<Rightarrow> nat \<times> order_book" where
  "book_compact fragmented b =
     (length (filter fragmented (map snd (bids b) @ map snd (asks b))), b)"

definition slab_stats :: "(price_level \<Rightarrow> nat) \<Rightarrow> order_book \<Rightarrow> nat \<times> nat" where
  "slab_stats capacity b =
     fold (\<lambda>l (live, cap). (live + level_len l, cap + capacity l)) (map snd (bids b) @ map snd (asks b)) (0, 0)"

definition to_snapshot_in_band :: "px_band \<Rightarrow> order_book \<Rightarrow> inner_l4_order snapshot" where
  "to_snapshot_in_band band b =
     (if band_is_inverted band then ([], [])
      else let r = range_bounds band in
        (concat (map (\<lambda>(p, l). level_to_vec l) (rev (filter (\<lambda>(p, l). in_range r p) (bids b)))),
         concat (map (\<lambda>(p, l). level_to_vec l) (filter (\<lambda>(p, l). in_range r p) (asks b)))))"

definition to_snapshot :: "order_book \<Rightarrow> inner_l4_order snapshot" where
  "to_snapshot b = to_snapshot_in_band px_band_default b"

definition from_snapshot :: "inner_l4_order snapshot \<Rightarrow> bool \<Rightarrow> order_book" where
  "from_snapshot s ignore_triggers =
     (let s' = (if ignore_triggers then remove_triggers s else s)
      in fold add_order (snd s') (fold add_order (fst s') book_new))"

section \<open>Levels in priority order\<close>

definition flat :: "(px \<times> price_level) list \<Rightarrow> (oid, inner_l4_order) queue" where
  "flat ls = concat (map (\<lambda>e. orders (snd e)) ls)"

lemma flat_simps [simp]:
  "flat [] = []" "flat (e # ls) = orders (snd e) @ flat ls" "flat (ls @ ls') = flat ls @ flat ls'"
  by (simp_all add: flat_def)

definition level_ok :: "side \<Rightarrow> px \<Rightarrow> price_level \<Rightarrow> bool" where
  "level_ok sd p l \<longleftrightarrow> level_wf l \<and>
     (\<forall>(k, o') \<in> set (orders l). io_side o' = sd \<and> io_limit_px o' = p \<and> 0 < order_szn o')"

definition levels_ok :: "side \<Rightarrow> (px \<times> price_level) list \<Rightarrow> bool" where
  "levels_ok sd ls \<longleftrightarrow> (\<forall>(p, l) \<in> set ls. level_ok sd p l \<and> orders l \<noteq> [])"

lemma levels_ok_simps [simp]:
  "levels_ok sd []"
  "levels_ok sd ((p, l) # ls) \<longleftrightarrow> level_ok sd p l \<and> orders l \<noteq> [] \<and> levels_ok sd ls"
  "levels_ok sd (rev ls) \<longleftrightarrow> levels_ok sd ls"
  by (auto simp: levels_ok_def)

lemma level_ok_facts:
  assumes "level_ok sd p l"
  shows "\<forall>(k, m) \<in> set (orders l). 0 < order_szn m" and "\<forall>(k, m) \<in> set (orders l). k = order_oid m"
    and "distinct (map fst (orders l))"
  using assms by (auto simp: level_ok_def level_wf_def queue_ok_def)

lemma levels_ok_flat:
  assumes "levels_ok sd ls"
  shows "\<forall>(k, m) \<in> set (flat ls). 0 < order_szn m" and "\<forall>(k, m) \<in> set (flat ls). k = order_oid m"
  using assms level_ok_facts unfolding levels_ok_def flat_def by fastforce+

text \<open>How a level may change under matching: orders go from the front, none is replaced.\<close>

definition shrinks :: "side \<Rightarrow> px \<times> price_level \<Rightarrow> px \<times> price_level \<Rightarrow> bool" where
  "shrinks sd e e' \<longleftrightarrow> fst e' = fst e \<and> level_ok sd (fst e) (snd e') \<and>
     fst ` set (orders (snd e')) \<subseteq> fst ` set (orders (snd e)) \<and> (agg_exact (snd e) \<longrightarrow> agg_exact (snd e'))"

lemma shrinks_refl: "level_ok sd (fst e) (snd e) \<Longrightarrow> shrinks sd e e"
  by (simp add: shrinks_def)

lemma match_against_level:
  assumes "match_against t l f = (t', l', f')" and ok: "level_ok sd p l"
  shows "shrinks sd (p, l) (p, l')" and "same_order t t'" and "order_szn t' = order_szn t - qsum (orders l)"
    and "\<exists>g. f' = f @ g \<and> is_match (order_szn t) (orders l) g (orders l')"
proof -
  from match_against_spec [OF assms(1) level_ok_facts(1) [OF ok]] obtain g where
    g: "f' = f @ g" "is_match (order_szn t) (orders l) g (orders l')" "same_order t t'"
      "unat (total_sz l) = qsum (orders l) \<longrightarrow> unat (total_sz l') = qsum (orders l) - order_szn t"
      "order_szn t' = order_szn t - qsum (orders l)" by blast
  note keys = is_match_keys [OF g(2) level_ok_facts(2) [OF ok]]
  have ent: "\<exists>m. (k, m) \<in> set (orders l) \<and> same_order m m' \<and> 0 < order_szn m'"
    if mem: "(k, m') \<in> set (orders l')" for k m'
    using is_match_orders [OF g(2) mem level_ok_facts(1) [OF ok]] by metis
  have "k = order_oid m' \<and> io_side m' = sd \<and> io_limit_px m' = p \<and> 0 < order_szn m'"
    if mem: "(k, m') \<in> set (orders l')" for k m'
  proof -
    obtain m where "(k, m) \<in> set (orders l)" "same_order m m'" "0 < order_szn m'"
      using ent [OF mem] by blast
    then show ?thesis
      using ok same_order_fields [of m m'] by (auto simp: level_ok_def level_wf_def queue_ok_def)
  qed
  moreover have "distinct (map fst (orders l'))"
    using level_ok_facts(3) [OF ok] keys by (metis distinct_append)
  ultimately have "level_ok sd p l'"
    by (auto simp: level_ok_def level_wf_def queue_ok_def)
  moreover have "set (map fst (orders l')) \<subseteq> set (map fst (orders l))"
    using keys by simp
  ultimately show "shrinks sd (p, l) (p, l')"
    using g(4) is_match_qsum [OF g(2)] by (simp add: shrinks_def agg_exact_def)
qed (use match_against_spec [OF assms(1) level_ok_facts(1) [OF ok]] in blast)+

text \<open>The whole loop, seen on the crossing levels laid end to end.\<close>

lemma match_levels_spec:
  assumes "match_levels c ls t f ks = (t', ls', f', ks')" and "levels_ok sd ls"
  shows "same_order t t' \<and> list_all2 (shrinks sd) ls ls' \<and>
    order_szn t' = order_szn t - qsum (flat (takeWhile (\<lambda>a. c (fst a)) ls)) \<and>
    (\<exists>g. f' = f @ g \<and>
       is_match (order_szn t) (flat (takeWhile (\<lambda>a. c (fst a)) ls)) g (flat (takeWhile (\<lambda>a. c (fst a)) ls'))) \<and>
    dropWhile (\<lambda>a. c (fst a)) ls' = dropWhile (\<lambda>a. c (fst a)) ls \<and>
    set ks' = set ks \<union> {p. \<exists>l. (p, l) \<in> set ls' \<and> orders l = []}"
  using assms
proof (induction ls arbitrary: t f ks t' ls' f' ks')
  case Nil
  then show ?case
    using is_match_zero [of "[]"] by (auto simp: is_match_def)
next
  case (Cons e ls)
  obtain p l where e: "e = (p, l)" by fastforce
  have ok: "level_ok sd p l" "orders l \<noteq> []" "levels_ok sd ls"
    using Cons.prems(2) e by auto
  have refl: "list_all2 (shrinks sd) ls ls"
    using ok(3) by (force simp: list_all2_same levels_ok_def intro!: shrinks_refl)
  show ?case
  proof (cases "c p")
    case False
    then show ?thesis
      using Cons.prems ok refl is_match_zero [of "[]"] e
      by (auto simp: shrinks_refl is_match_def levels_ok_def)
  next
    case True
    obtain t1 l1 f1 where m: "match_against t l f = (t1, l1, f1)"
      by (metis prod_cases3)
    note lev = match_against_level [OF m ok(1)]
    obtain g1 where g1: "f1 = f @ g1" "is_match (order_szn t) (orders l) g1 (orders l1)"
      using lev(4) by blast
    have pos: "\<forall>(k, m) \<in> set (flat (takeWhile (\<lambda>a. c (fst a)) ls)). 0 < order_szn m"
      using levels_ok_flat(1) [of sd "takeWhile (\<lambda>a. c (fst a)) ls"] ok(3)
      by (auto simp: levels_ok_def dest: set_takeWhileD)
    define ks1 where "ks1 = (if level_is_empty l1 then ks @ [p] else ks)"
    show ?thesis
    proof (cases "sz_is_zero (io_sz t1)")
      case zero: True
      then have le: "order_szn t \<le> qsum (orders l)"
        using lev(3) by (simp add: sz_zero_iff)
      have res: "t' = t1" "ls' = (p, l1) # ls" "f' = f1" "ks' = ks1"
        using Cons.prems(1) True m zero e by (auto simp: ks1_def Let_def)
      have "is_match (order_szn t) (orders l @ flat (takeWhile (\<lambda>a. c (fst a)) ls)) g1
          (orders l1 @ flat (takeWhile (\<lambda>a. c (fst a)) ls))"
        using is_match_append_stop [OF g1(2) le pos] .
      moreover have "order_szn t1 = order_szn t - (qsum (orders l) + qsum (flat (takeWhile (\<lambda>a. c (fst a)) ls)))"
        using lev(3) le by simp
      moreover have "set ks1 = set ks \<union> {q. \<exists>l'. (q, l') \<in> set ls' \<and> orders l' = []}"
        using ok(3) res(2) by (auto simp: ks1_def level_is_empty_def levels_ok_def)
      ultimately show ?thesis
        using lev(1,2) refl g1(1) True res e by auto
    next
      case nz: False
      then have le: "qsum (orders l) \<le> order_szn t"
        using lev(3) by (simp add: sz_zero_iff)
      obtain ls2 where rec: "match_levels c ls t1 f1 ks1 = (t', ls2, f', ks')" "ls' = (p, l1) # ls2"
        using Cons.prems(1) True m nz e by (auto simp: ks1_def Let_def split: prod.splits)
      from Cons.IH [OF rec(1) ok(3)] obtain g2 where
        IH: "same_order t1 t'" "list_all2 (shrinks sd) ls ls2" "f' = f1 @ g2"
          "order_szn t' = order_szn t1 - qsum (flat (takeWhile (\<lambda>a. c (fst a)) ls))"
          "is_match (order_szn t1) (flat (takeWhile (\<lambda>a. c (fst a)) ls)) g2 (flat (takeWhile (\<lambda>a. c (fst a)) ls2))"
          "dropWhile (\<lambda>a. c (fst a)) ls2 = dropWhile (\<lambda>a. c (fst a)) ls"
          "set ks' = set ks1 \<union> {p. \<exists>l. (p, l) \<in> set ls2 \<and> orders l = []}"
        by blast
      have "is_match (order_szn t) (orders l @ flat (takeWhile (\<lambda>a. c (fst a)) ls)) (g1 @ g2)
          (orders l1 @ flat (takeWhile (\<lambda>a. c (fst a)) ls2))"
        using is_match_append_go [OF g1(2) le _ level_ok_facts(1) [OF ok(1)]] IH(5) lev(3) by simp
      moreover have "same_order t t'"
        using lev(2) IH(1) by (rule same_order_trans)
      moreover have "set ks' = set ks \<union> {q. \<exists>l'. (q, l') \<in> set ls' \<and> orders l' = []}"
        using IH(7) rec(2) by (auto simp: ks1_def level_is_empty_def)
      ultimately show ?thesis
        using lev(1,3) IH(2-4,6) g1(1) True rec(2) e by auto
    qed
  qed
qed

lemma match_levels_facts:
  assumes "match_levels c ls t f ks = (t', ls', f', ks')" and "levels_ok sd ls"
  shows "same_order t t'" and "list_all2 (shrinks sd) ls ls'"
    and "order_szn t' = order_szn t - qsum (flat (takeWhile (\<lambda>a. c (fst a)) ls))"
    and "\<exists>g. f' = f @ g \<and> is_match (order_szn t) (flat (takeWhile (\<lambda>a. c (fst a)) ls)) g
           (flat (takeWhile (\<lambda>a. c (fst a)) ls'))"
    and "dropWhile (\<lambda>a. c (fst a)) ls' = dropWhile (\<lambda>a. c (fst a)) ls"
    and "set ks' = set ks \<union> {p. \<exists>l. (p, l) \<in> set ls' \<and> orders l = []}"
  by (insert match_levels_spec [OF assms], elim conjE, assumption)+

subsection \<open>Sorted sides\<close>

text \<open>The side an order trades against, and the levels of a side from the best price on.\<close>

definition other_side :: "side \<Rightarrow> side" where
  "other_side sd = (case sd of Ask \<Rightarrow> Bid | Bid \<Rightarrow> Ask)"

definition prio :: "side \<Rightarrow> book_side \<Rightarrow> (px \<times> price_level) list" where
  "prio sd m = (case sd of Bid \<Rightarrow> rev m | Ask \<Rightarrow> m)"

definition better :: "side \<Rightarrow> px \<Rightarrow> px \<Rightarrow> bool" where
  "better sd p q = (case sd of Bid \<Rightarrow> q < p | Ask \<Rightarrow> p < q)"

definition side_ok :: "side \<Rightarrow> book_side \<Rightarrow> bool" where
  "side_ok sd m \<longleftrightarrow> bt_ok m \<and> levels_ok sd m"

lemma set_prio [simp]: "set (prio sd m) = set m"
  by (cases sd) (auto simp: prio_def)

lemma levels_ok_prio [simp]: "levels_ok sd (prio sd' m) \<longleftrightarrow> levels_ok sd m"
  by (cases sd') (auto simp: prio_def)

lemma prio_filter: "prio sd (filter P m) = filter P (prio sd m)"
  by (cases sd) (auto simp: prio_def rev_filter)

lemma better_simps: "better Ask = (<)" "better Bid = (\<lambda>p q. q < p)"
  by (simp_all add: better_def fun_eq_iff)

lemma sorted_prio: "bt_ok m \<Longrightarrow> sorted_wrt (better sd) (map fst (prio sd m))"
  by (cases sd) (auto simp: prio_def bt_ok_def sorted_wrt_rev rev_map [symmetric] better_simps)

lemma sorted_prio_inv: "sorted_wrt (better sd) (map fst (prio sd m)) \<Longrightarrow> bt_ok m"
  by (cases sd) (auto simp: prio_def bt_ok_def sorted_wrt_rev rev_map [symmetric] better_simps)

lemma prio_prio [simp]: "prio sd (prio sd m) = m"
  by (cases sd) (auto simp: prio_def)

lemma takeWhile_sorted:
  assumes "sorted_wrt R (map fst xs)" and "\<And>x y. R x y \<Longrightarrow> c y \<Longrightarrow> c x"
  shows "takeWhile (\<lambda>a. c (fst a)) xs = filter (\<lambda>a. c (fst a)) xs"
    and "dropWhile (\<lambda>a. c (fst a)) xs = filter (\<lambda>a. \<not> c (fst a)) xs"
  using assms(1) by (induction xs) (auto simp: filter_empty_conv eq_commute [of "[]"] dest: assms(2) intro!: sym [OF filter_True])

lemma px_crosses_better:
  "better (other_side sd) p q \<Longrightarrow> px_crosses sd limit q \<Longrightarrow> px_crosses sd limit p"
  by (cases sd) (auto simp: better_def px_crosses_def other_side_def)

lemma fold_bt_remove: "fold bt_remove ks m = filter (\<lambda>e. fst e \<notin> set ks) m"
proof (induction ks arbitrary: m)
  case (Cons k ks)
  then show ?case
    by (auto simp: AList.delete_eq case_prod_beta intro!: filter_cong)
qed simp

lemma filter_commute: "filter P (filter Q xs) = filter Q (filter P xs)"
  by (simp add: conj_commute)

lemma flat_filter_nonempty: "flat (filter (\<lambda>e. orders (snd e) \<noteq> []) ls) = flat ls"
  by (induction ls) auto

subsection \<open>One side under matching\<close>

lemma match_order_iter:
  "match_order m t =
     (let c = px_crosses (io_side t) (io_limit_px t);
          (t', it', filled, ks) = match_levels c (prio (other_side (io_side t)) m) t [] []
      in (filled, t', fold bt_remove ks (prio (other_side (io_side t)) it')))"
  by (cases "io_side t") (simp_all add: match_order_def Let_def prio_def other_side_def split: prod.splits)

lemma list_all2_shrinks_fst: "list_all2 (shrinks sd) ls ls' \<Longrightarrow> map fst ls' = map fst ls"
  by (induction rule: list_all2_induct) (auto simp: shrinks_def)

lemma list_all2_member2: "list_all2 R xs ys \<Longrightarrow> y \<in> set ys \<Longrightarrow> \<exists>x \<in> set xs. R x y"
  by (induction rule: list_all2_induct) auto

text \<open>
  Matching an order against a side: the crossing orders in price-time priority are matched as one
  queue, the other levels stay, no empty level remains, and a taker with something left leaves no
  crossing level behind.
\<close>

definition crossing :: "inner_l4_order \<Rightarrow> book_side \<Rightarrow> (oid, inner_l4_order) queue" where
  "crossing t m =
     flat (filter (\<lambda>e. px_crosses (io_side t) (io_limit_px t) (fst e)) (prio (other_side (io_side t)) m))"

definition non_crossing :: "inner_l4_order \<Rightarrow> book_side \<Rightarrow> book_side" where
  "non_crossing t m = filter (\<lambda>e. \<not> px_crosses (io_side t) (io_limit_px t) (fst e)) m"

lemma match_order_spec:
  assumes mo: "match_order m t = (filled, t', m')" and ok: "side_ok (other_side (io_side t)) m"
  shows "side_ok (other_side (io_side t)) m'"
    and "same_order t t'" and "order_szn t' = order_szn t - qsum (crossing t m)"
    and "is_match (order_szn t) (crossing t m) filled (crossing t m')"
    and "non_crossing t m' = non_crossing t m"
    and "\<And>p l'. (p, l') \<in> set m' \<Longrightarrow> \<exists>l. (p, l) \<in> set m \<and> shrinks (other_side (io_side t)) (p, l) (p, l')"
proof -
  let ?sd = "other_side (io_side t)" and ?c = "px_crosses (io_side t) (io_limit_px t)"
  obtain it' ks where ml: "match_levels ?c (prio ?sd m) t [] [] = (t', it', filled, ks)"
    and m': "m' = fold bt_remove ks (prio ?sd it')"
    using mo by (auto simp: match_order_iter Let_def split: prod.splits)
  have bt: "bt_ok m" and lv: "levels_ok ?sd (prio ?sd m)"
    using ok by (auto simp: side_ok_def)
  note spec = match_levels_facts [OF ml lv]
  note srt = sorted_prio [OF bt, of ?sd]
  have keys: "map fst it' = map fst (prio ?sd m)"
    by (rule list_all2_shrinks_fst [OF spec(2)])
  then have srt': "sorted_wrt (better ?sd) (map fst it')"
    using srt by simp
  have bt': "bt_ok (prio ?sd it')"
    using srt' by (intro sorted_prio_inv [of ?sd]) simp
  have mono: "\<And>x y. better ?sd x y \<Longrightarrow> ?c y \<Longrightarrow> ?c x"
    by (rule px_crosses_better)
  note tw = takeWhile_sorted [where c = ?c, OF srt mono] takeWhile_sorted [where c = ?c, OF srt' mono]
  have m'_eq: "m' = filter (\<lambda>e. orders (snd e) \<noteq> []) (prio ?sd it')"
  proof -
    have "fst e \<notin> set ks \<longleftrightarrow> orders (snd e) \<noteq> []" if "e \<in> set it'" for e
    proof -
      have "fst e \<in> set ks \<longleftrightarrow> (\<exists>l. (fst e, l) \<in> set it' \<and> orders l = [])"
        using spec(6) by simp
      also have "\<dots> \<longleftrightarrow> orders (snd e) = []"
        using distinct_map_fst_mem [OF bt_ok_distinct [OF bt'], of "fst e"] that
        by (metis prod.collapse set_prio)
      finally show ?thesis by simp
    qed
    then show ?thesis
      unfolding m' fold_bt_remove by (intro filter_cong) auto
  qed
  have prio_m': "prio ?sd m' = filter (\<lambda>e. orders (snd e) \<noteq> []) it'"
    by (simp add: m'_eq prio_filter)
  show shr: "\<exists>l. (p, l) \<in> set m \<and> shrinks ?sd (p, l) (p, l')" if mem: "(p, l') \<in> set m'" for p l'
  proof -
    have "(p, l') \<in> set it'" using mem by (simp add: m'_eq)
    then obtain e where "e \<in> set (prio ?sd m)" "shrinks ?sd e (p, l')"
      using list_all2_member2 [OF spec(2)] by blast
    moreover from this have "e = (p, snd e)"
      by (simp add: shrinks_def prod_eq_iff)
    ultimately show ?thesis
      by (metis set_prio)
  qed
  show "side_ok ?sd m'"
  proof -
    have "level_ok ?sd p l \<and> orders l \<noteq> []" if "(p, l) \<in> set m'" for p l
      using shr [OF that] that by (auto simp: m'_eq shrinks_def)
    then show ?thesis
      using bt_ok_filter [OF bt'] by (auto simp: side_ok_def levels_ok_def m'_eq)
  qed
  show "same_order t t'" "order_szn t' = order_szn t - qsum (crossing t m)"
    using spec(1,3) by (simp_all add: crossing_def tw)
  have "flat (filter (\<lambda>a. ?c (fst a)) it') = crossing t m'"
    unfolding crossing_def prio_m' by (subst filter_commute) (simp only: flat_filter_nonempty)
  then show "is_match (order_szn t) (crossing t m) filled (crossing t m')"
    using spec(4) by (auto simp: crossing_def tw)
  have "filter (\<lambda>a. \<not> ?c (fst a)) it' = filter (\<lambda>a. \<not> ?c (fst a)) (prio ?sd m)"
    using spec(5) by (simp add: tw)
  then have "prio ?sd (non_crossing t m') = filter (\<lambda>e. orders (snd e) \<noteq> []) (prio ?sd (non_crossing t m))"
    unfolding non_crossing_def m'_eq prio_filter prio_prio
    by (subst filter_commute) simp
  also have "\<dots> = prio ?sd (non_crossing t m)"
    using ok by (intro filter_True) (auto simp: side_ok_def levels_ok_def non_crossing_def)
  finally show "non_crossing t m' = non_crossing t m"
    by (metis prio_prio)
qed

section \<open>The invariant of the book\<close>

definition side_levels :: "side \<Rightarrow> order_book \<Rightarrow> book_side" where
  "side_levels sd b = (case sd of Bid \<Rightarrow> bids b | Ask \<Rightarrow> asks b)"

definition set_side :: "side \<Rightarrow> book_side \<Rightarrow> order_book \<Rightarrow> order_book" where
  "set_side sd m b = (case sd of Bid \<Rightarrow> b\<lparr>bids := m\<rparr> | Ask \<Rightarrow> b\<lparr>asks := m\<rparr>)"

definition rests :: "order_book \<Rightarrow> oid \<Rightarrow> side \<Rightarrow> px \<Rightarrow> bool" where
  "rests b k sd p \<longleftrightarrow> (\<exists>l. map_of (side_levels sd b) p = Some l \<and> k \<in> fst ` set (orders l))"

definition index_ok :: "order_book \<Rightarrow> bool" where
  "index_ok b \<longleftrightarrow> hm_ok (oid_to_side_px b) \<and>
     (\<forall>k sd p. hm_get (oid_to_side_px b) k = Some (sd, p) \<longleftrightarrow> rests b k sd p)"

definition uncrossed :: "order_book \<Rightarrow> bool" where
  "uncrossed b \<longleftrightarrow> (\<forall>p \<in> fst ` set (bids b). \<forall>q \<in> fst ` set (asks b). p < q)"

definition book_ok :: "order_book \<Rightarrow> bool" where
  "book_ok b \<longleftrightarrow> side_ok Bid (bids b) \<and> side_ok Ask (asks b) \<and> index_ok b \<and> uncrossed b"

text \<open>The running sums of all levels are exact.\<close>

definition side_agg :: "book_side \<Rightarrow> bool" where
  "side_agg m \<longleftrightarrow> (\<forall>(p, l) \<in> set m. agg_exact l)"

definition book_agg :: "order_book \<Rightarrow> bool" where
  "book_agg b \<longleftrightarrow> side_agg (bids b) \<and> side_agg (asks b)"

lemma side_levels_simps [simp]:
  "side_levels sd (set_side sd m b) = m"
  "side_levels sd (b\<lparr>oid_to_side_px := x\<rparr>) = side_levels sd b"
  "side_levels Bid b = bids b" "side_levels Ask b = asks b"
  "oid_to_side_px (set_side sd m b) = oid_to_side_px b"
  by (cases sd; simp add: side_levels_def set_side_def)+

lemma side_levels_other:
  "sd' \<noteq> sd \<Longrightarrow> side_levels sd' (set_side sd m b) = side_levels sd' b"
  by (cases sd; cases sd') (auto simp: set_side_def)

lemma other_side_simps [simp]:
  "other_side Ask = Bid" "other_side Bid = Ask" "other_side (other_side sd) = sd"
  "other_side sd \<noteq> sd" "sd \<noteq> other_side sd"
  by (cases sd; simp add: other_side_def)+

lemma side_neq_other: "sd' \<noteq> sd \<longleftrightarrow> sd' = other_side sd"
  by (cases sd; cases sd') (auto simp: other_side_def)

lemma rests_index [simp]:
  "rests (set_side sd m (b\<lparr>oid_to_side_px := x\<rparr>)) = rests (set_side sd m b)"
  by (cases sd) (simp_all add: fun_eq_iff rests_def side_levels_def set_side_def cong: side.case_cong)

lemma book_ok_sides: "book_ok b \<longleftrightarrow> (\<forall>sd. side_ok sd (side_levels sd b)) \<and> index_ok b \<and> uncrossed b"
  unfolding book_ok_def by (metis side.exhaust side_levels_simps(3,4))

lemma book_agg_sides: "book_agg b \<longleftrightarrow> (\<forall>sd. side_agg (side_levels sd b))"
  unfolding book_agg_def by (metis side.exhaust side_levels_simps(3,4))

text \<open>No price of one side crosses a price of the other.\<close>

lemma uncrossed_sides:
  "uncrossed b \<longleftrightarrow> (\<forall>p \<in> fst ` set (side_levels sd b). \<forall>q \<in> fst ` set (side_levels (other_side sd) b).
     \<not> px_crosses sd p q)"
  by (cases sd) (auto simp: uncrossed_def px_crosses_def not_le)

lemma index_okD: "index_ok b \<Longrightarrow> hm_get (oid_to_side_px b) k = Some (sd, p) \<longleftrightarrow> rests b k sd p"
  by (simp add: index_ok_def)

lemma rests_unique:
  assumes "index_ok b" "rests b k sd p" "rests b k sd' p'"
  shows "sd' = sd \<and> p' = p"
  using assms by (metis index_okD option.inject prod.inject)

lemma index_none: "index_ok b \<Longrightarrow> hm_get (oid_to_side_px b) k = None \<longleftrightarrow> (\<forall>sd p. \<not> rests b k sd p)"
  by (metis index_okD not_None_eq prod.exhaust)

text \<open>No id lies in levels of two prices; then the ids of the levels, laid end to end, are distinct.\<close>

definition keys_apart :: "(px \<times> price_level) list \<Rightarrow> bool" where
  "keys_apart ls \<longleftrightarrow> (\<forall>e \<in> set ls. \<forall>e' \<in> set ls.
     fst ` set (orders (snd e)) \<inter> fst ` set (orders (snd e')) \<noteq> {} \<longrightarrow> fst e = fst e')"

lemma keys_apart_subset: "keys_apart ls \<Longrightarrow> set ls' \<subseteq> set ls \<Longrightarrow> keys_apart ls'"
  unfolding keys_apart_def by blast

lemma flat_keys_UN: "fst ` set (flat ls) = (\<Union>e \<in> set ls. fst ` set (orders (snd e)))"
  by (auto simp: flat_def image_UN)

lemma side_keys_distinct:
  assumes "distinct (map fst ls)" "levels_ok sd ls" "keys_apart ls"
  shows "distinct (map fst (flat ls))"
  using assms
proof (induction ls)
  case (Cons e ls)
  have "keys_apart ls"
    using Cons.prems(3) by (rule keys_apart_subset) auto
  then have "distinct (map fst (flat ls))"
    using Cons by (cases e) auto
  moreover have "fst ` set (orders (snd e)) \<inter> fst ` set (flat ls) = {}"
  proof -
    have "fst ` set (orders (snd e)) \<inter> fst ` set (orders (snd e')) = {}" if e': "e' \<in> set ls" for e'
    proof -
      have "fst e \<noteq> fst e'"
        using Cons.prems(1) e' by (auto simp: image_iff)
      then show ?thesis
        using Cons.prems(3) e' unfolding keys_apart_def by (meson list.set_intros)
    qed
    then show ?thesis
      unfolding flat_keys_UN by blast
  qed
  moreover have "distinct (map fst (orders (snd e)))"
    using Cons.prems(2) level_ok_facts(3) by (cases e) auto
  ultimately show ?case
    by simp
qed simp

lemma flat_keys: "k \<in> fst ` set (flat m) \<longleftrightarrow> (\<exists>p l. (p, l) \<in> set m \<and> k \<in> fst ` set (orders l))"
  by (force simp: flat_def)

lemma rests_iff:
  "bt_ok (side_levels sd b) \<Longrightarrow>
     rests b k sd p \<longleftrightarrow> (\<exists>l. (p, l) \<in> set (side_levels sd b) \<and> k \<in> fst ` set (orders l))"
  unfolding rests_def by (metis bt_ok_distinct map_of_Some_set)

lemma flat_prio_keys [simp]: "fst ` set (flat (prio sd m)) = fst ` set (flat m)"
  by (auto simp: flat_def)

text \<open>Matching removes exactly the filled ids from the side it runs against.\<close>

lemma match_order_keys:
  assumes mo: "match_order m t = (filled, t', m')" and ok: "side_ok (other_side (io_side t)) m"
    and apart: "keys_apart m"
  shows "fst ` set (flat m') = fst ` set (flat m) - set filled" and "set filled \<subseteq> fst ` set (flat m)"
proof -
  note spec = match_order_spec [OF mo ok]
  let ?sd = "other_side (io_side t)"
  let ?c = "\<lambda>e. px_crosses (io_side t) (io_limit_px t) (fst e)"
  have parts: "fst ` set (flat x) = fst ` set (crossing t x) \<union> fst ` set (flat (non_crossing t x))" for x
    by (auto simp: crossing_def non_crossing_def flat_keys_UN)
  have lv: "levels_ok ?sd (filter ?c (prio ?sd m))"
    using ok by (auto simp: side_ok_def levels_ok_def)
  have keys: "map fst (crossing t m) = filled @ map fst (crossing t m')"
    using is_match_keys [OF spec(4)] levels_ok_flat(2) [OF lv] by (simp add: crossing_def)
  have "distinct (map fst (crossing t m))"
    unfolding crossing_def
  proof (rule side_keys_distinct [OF _ lv])
    show "keys_apart (filter ?c (prio ?sd m))"
      using apart by (rule keys_apart_subset) auto
    have "distinct (map fst (prio ?sd m))"
      using bt_ok_distinct [of m] ok by (cases ?sd) (auto simp: prio_def side_ok_def rev_map [symmetric])
    then show "distinct (map fst (filter ?c (prio ?sd m)))"
      by (rule distinct_map_filter)
  qed
  then have "set filled \<inter> fst ` set (crossing t m') = {}"
    unfolding keys by simp
  moreover have "fst ` set (crossing t m) \<inter> fst ` set (flat (non_crossing t m)) = {}"
  proof -
    have "fst ` set (orders (snd e)) \<inter> fst ` set (orders (snd e')) = {}"
      if "e \<in> set m" "?c e" "e' \<in> set m" "\<not> ?c e'" for e e'
      using apart that unfolding keys_apart_def by metis
    then show ?thesis
      unfolding crossing_def non_crossing_def flat_keys_UN by (simp only: set_filter set_prio) blast
  qed
  moreover have "fst ` set (crossing t m) = set filled \<union> fst ` set (crossing t m')"
    by (metis keys set_append set_map)
  ultimately show "fst ` set (flat m') = fst ` set (flat m) - set filled" "set filled \<subseteq> fst ` set (flat m)"
    using parts [of m] parts [of m'] spec(5) by auto
qed

lemma side_ok_insert:
  assumes "side_ok sd m" "level_ok sd p l" "orders l \<noteq> []"
  shows "side_ok sd (bt_insert p l m)"
proof -
  have "set (bt_insert p l m) \<subseteq> insert (p, l) (set m)"
    by (induction p l m rule: bt_insert.induct) auto
  then show ?thesis
    using assms by (auto simp: side_ok_def levels_ok_def bt_ok_insert)
qed

lemma side_ok_remove: "side_ok sd m \<Longrightarrow> side_ok sd (bt_remove p m)"
  using bt_ok_remove [of m p] by (auto simp: side_ok_def levels_ok_def AList.delete_eq)

lemma side_ok_get: "side_ok sd m \<Longrightarrow> map_of m p = Some l \<Longrightarrow> level_ok sd p l \<and> orders l \<noteq> []"
  by (auto simp: side_ok_def levels_ok_def dest!: map_of_SomeD)

lemma book_keys_apart:
  assumes "book_ok b" shows "keys_apart (side_levels sd b)"
proof -
  have "bt_ok (side_levels sd b)" "index_ok b"
    using assms by (auto simp: book_ok_sides side_ok_def)
  then have "p = p'" if "(p, l) \<in> set (side_levels sd b)" "(p', l') \<in> set (side_levels sd b)"
    "k \<in> fst ` set (orders l)" "k \<in> fst ` set (orders l')" for p l p' l' k
    using rests_unique [of b k sd p sd p'] that rests_iff by blast
  then show ?thesis
    unfolding keys_apart_def by (metis disjoint_iff prod.collapse)
qed

lemma match_order_rests:
  assumes ok: "book_ok b" and mo: "match_order (side_levels (other_side (io_side o')) b) o' = (filled, t, m')"
  shows "rests (set_side (other_side (io_side o')) m' b) k sd p \<longleftrightarrow> rests b k sd p \<and> k \<notin> set filled"
proof -
  let ?sd = "other_side (io_side o')"
  let ?m = "side_levels ?sd b" and ?b = "set_side ?sd m' b"
  have sok: "side_ok ?sd ?m" and idx: "index_ok b" and bt: "bt_ok ?m"
    using ok by (auto simp: book_ok_sides side_ok_def)
  note spec = match_order_spec [OF mo sok]
  note keys = match_order_keys [OF mo sok book_keys_apart [OF ok]]
  have bt': "bt_ok m'"
    using spec(1) by (simp add: side_ok_def)
  have same: "rests ?b k ?sd p \<longleftrightarrow> (\<exists>l'. (p, l') \<in> set m' \<and> k \<in> fst ` set (orders l'))" for p
    using rests_iff [of ?sd ?b] bt' by simp
  have sub: "rests ?b k ?sd p \<Longrightarrow> rests b k ?sd p" for p
  proof -
    assume "rests ?b k ?sd p"
    then obtain l' where "(p, l') \<in> set m'" "k \<in> fst ` set (orders l')"
      unfolding same by blast
    moreover from this obtain l where "(p, l) \<in> set ?m" "shrinks ?sd (p, l) (p, l')"
      using spec(6) by blast
    ultimately have "(p, l) \<in> set ?m" "k \<in> fst ` set (orders l)"
      by (auto simp: shrinks_def)
    then show ?thesis
      unfolding rests_iff [OF bt] by blast
  qed
  have ex: "k \<in> fst ` set (flat m') \<longleftrightarrow> (\<exists>p. rests ?b k ?sd p)"
    "k \<in> fst ` set (flat ?m) \<longleftrightarrow> (\<exists>p. rests b k ?sd p)"
    unfolding same rests_iff [OF bt] flat_keys by auto
  show ?thesis
  proof (cases "sd = ?sd")
    case True
    show ?thesis
    proof
      assume "rests ?b k sd p"
      then show "rests b k sd p \<and> k \<notin> set filled"
        using sub ex(1) keys(1) True by blast
    next
      assume r: "rests b k sd p \<and> k \<notin> set filled"
      then obtain p' where "rests ?b k ?sd p'"
        using ex keys(1) True by blast
      then show "rests ?b k sd p"
        using sub rests_unique [OF idx, of k sd p ?sd p'] r True by blast
    qed
  next
    case False
    then have "rests ?b k sd p \<longleftrightarrow> rests b k sd p"
      by (simp add: rests_def side_levels_other)
    moreover have "k \<notin> set filled" if "rests b k sd p"
    proof
      assume "k \<in> set filled"
      then obtain p' where "rests b k ?sd p'"
        using keys(2) ex(2) by blast
      then show False
        using rests_unique [OF idx that] False by blast
    qed
    ultimately show ?thesis
      by blast
  qed
qed

lemma match_step_ok:
  assumes ok: "book_ok b" and mo: "match_order (side_levels (other_side (io_side o')) b) o' = (filled, t, m')"
  shows "book_ok (set_side (other_side (io_side o')) m'
           (b\<lparr>oid_to_side_px := fold hm_remove filled (oid_to_side_px b)\<rparr>))" (is "book_ok ?b")
proof -
  let ?sd = "other_side (io_side o')"
  have sok: "\<forall>sd. side_ok sd (side_levels sd b)" and idx: "index_ok b" and unc: "uncrossed b"
    using ok unfolding book_ok_sides by blast+
  note spec = match_order_spec [OF mo sok [rule_format]]
  have sides: "side_ok sd (side_levels sd ?b)" for sd
  proof (cases "sd = ?sd")
    case True
    then show ?thesis using spec(1) by simp
  next
    case False
    then show ?thesis using sok by (simp add: side_levels_other)
  qed
  have rests: "rests ?b k sd p \<longleftrightarrow> rests b k sd p \<and> k \<notin> set filled" for k sd p
    unfolding rests_index by (rule match_order_rests [OF ok mo])
  have hm: "hm_ok (oid_to_side_px b)"
    using idx by (simp add: index_ok_def)
  have "hm_ok (oid_to_side_px ?b)"
    using hm.inv_fold_remove [OF hm] by simp
  moreover have "hm_get (oid_to_side_px ?b) k = Some (sd, p) \<longleftrightarrow> rests ?b k sd p" for k sd p
    unfolding rests index_okD [OF idx, symmetric] using hm.get_fold_remove [OF hm, of filled k] by simp
  ultimately have index: "index_ok ?b"
    unfolding index_ok_def by blast
  have sub: "fst ` set m' \<subseteq> fst ` set (side_levels ?sd b)"
  proof (rule image_subsetI)
    fix e assume "e \<in> set m'"
    then obtain l where "(fst e, l) \<in> set (side_levels ?sd b)"
      using spec(6) [of "fst e" "snd e"] by auto
    then show "fst e \<in> fst ` set (side_levels ?sd b)"
      by (metis fst_conv imageI)
  qed
  have levs: "side_levels ?sd ?b = m'" "side_levels (other_side ?sd) ?b = side_levels (other_side ?sd) b"
    by (simp_all add: side_levels_other)
  have "uncrossed ?b"
    unfolding uncrossed_sides [where sd = ?sd] levs
    using unc [unfolded uncrossed_sides [where sd = ?sd]] sub by blast
  then show ?thesis
    unfolding book_ok_sides using sides index by blast
qed

text \<open>A taker with something left has cleared every price it crosses.\<close>

lemma match_clears:
  assumes mo: "match_order m o' = (filled, t, m')" and ok: "side_ok (other_side (io_side o')) m"
    and left: "0 < order_szn t" and q: "q \<in> fst ` set m'"
  shows "\<not> px_crosses (io_side o') (io_limit_px o') q"
proof
  assume c: "px_crosses (io_side o') (io_limit_px o') q"
  let ?sd = "other_side (io_side o')"
  note spec = match_order_spec [OF mo ok]
  have lv: "levels_ok ?sd (filter (\<lambda>e. px_crosses (io_side o') (io_limit_px o') (fst e)) (prio ?sd m))"
    using ok by (auto simp: side_ok_def levels_ok_def)
  have "qsum (crossing o' m) \<le> order_szn o'"
    using spec(3) left by simp
  then have "crossing o' m' = []"
    using is_match_used_up(1) [OF spec(4)] levels_ok_flat(1) [OF lv] by (simp add: crossing_def)
  moreover obtain l where "(q, l) \<in> set m'"
    using q by auto
  moreover from this have "orders l \<noteq> []"
    using spec(1) by (auto simp: side_ok_def levels_ok_def)
  ultimately show False
    using c by (auto simp: crossing_def flat_def)
qed

text \<open>Resting an order: its level, old or new, gains it; everything else stays.\<close>

lemma add_order_to_book_spec:
  assumes ok: "side_ok sd m" and o: "io_side o' = sd" "0 < order_szn o'"
    and fresh: "\<And>l. map_of m (io_limit_px o') = Some l \<Longrightarrow> order_oid o' \<notin> fst ` set (orders l)"
  shows "\<exists>l'. snd (add_order_to_book m o' ib) = bt_insert (io_limit_px o') l' m \<and>
    level_ok sd (io_limit_px o') l' \<and> orders l' \<noteq> [] \<and>
    fst ` set (orders l') = insert (order_oid o')
      (case map_of m (io_limit_px o') of None \<Rightarrow> {} | Some l \<Rightarrow> fst ` set (orders l))"
proof -
  let ?k = "order_oid o'" and ?p = "io_limit_px o'"
  define l where "l = (case map_of m ?p of None \<Rightarrow> level_new | Some l \<Rightarrow> l)"
  have lok: "level_ok sd ?p l"
    using ok side_ok_get [OF ok, of ?p]
    by (auto simp: l_def level_ok_def level_new_def level_wf_def split: option.splits)
  have new: "map_of (orders l) ?k = None"
    using fresh by (auto simp: l_def level_new_def map_of_eq_None_iff split: option.splits)
  have keys: "(case map_of m ?p of None \<Rightarrow> {} | Some l \<Rightarrow> fst ` set (orders l)) = fst ` set (orders l)"
    by (auto simp: l_def level_new_def split: option.splits)
  have push: "level_ok sd ?p (snd (level_push_back ?k o' l))"
    "orders (snd (level_push_back ?k o' l)) = orders l @ [(?k, o')]"
    using lok new o level_push_back_wf [of l ?k o']
    by (auto simp: level_ok_def level_push_back_def q_push_back_def)
  have ins: "level_ok sd ?p (snd (level_insert_before c ?k o' l))"
    "set (orders (snd (level_insert_before c ?k o' l))) = insert (?k, o') (set (orders l))"
    if "level_contains c l" for c
    using lok new o that level_insert_before_wf [of l ?k o' c]
    by (auto simp: level_ok_def level_insert_before_def q_insert_before_def level_contains_def map_of_eq_None_iff)
  define l' where "l' = (case ib of None \<Rightarrow> snd (level_push_back ?k o' l)
     | Some c \<Rightarrow> if level_contains c l then snd (level_insert_before c ?k o' l) else snd (level_push_back ?k o' l))"
  have "snd (add_order_to_book m o' ib) = bt_insert ?p l' m"
    by (auto simp: add_order_to_book_def Let_def l_def [symmetric] l'_def split: option.splits)
  moreover have "level_ok sd ?p l' \<and> set (orders l') = insert (?k, o') (set (orders l))"
    using push ins by (auto simp: l'_def split: option.splits)
  ultimately show ?thesis
    unfolding keys by (intro exI [of _ l']) auto
qed

text \<open>Putting a level at a price: what the side then holds.\<close>

lemma rests_insert:
  assumes "bt_ok (side_levels sd b)"
  shows "rests (set_side sd (bt_insert p l (side_levels sd b)) b) k sd' p' \<longleftrightarrow>
     (if sd' = sd \<and> p' = p then k \<in> fst ` set (orders l) else rests b k sd' p')"
  using assms by (cases "sd' = sd") (auto simp: rests_def side_levels_other map_of_bt_insert)

lemma rests_remove:
  "rests (set_side sd (bt_remove p (side_levels sd b)) b) k sd' p' \<longleftrightarrow>
     (if sd' = sd \<and> p' = p then False else rests b k sd' p')"
  by (cases "sd' = sd") (auto simp: rests_def side_levels_other delete_conv')

lemma rest_step_ok:
  assumes ok: "book_ok b" and new: "hm_get (oid_to_side_px b) (order_oid o') = None" and pos: "0 < order_szn o'"
    and clear: "\<forall>q \<in> fst ` set (side_levels (other_side (io_side o')) b).
        \<not> px_crosses (io_side o') (io_limit_px o') q"
  shows "book_ok (set_side (io_side o') (snd (add_order_to_book (side_levels (io_side o') b) o' ib))
           (b\<lparr>oid_to_side_px := hm_insert (order_oid o') (io_side o', io_limit_px o') (oid_to_side_px b)\<rparr>))"
    (is "book_ok ?b")
proof -
  let ?sd = "io_side o'" and ?p = "io_limit_px o'" and ?k = "order_oid o'"
  let ?m = "side_levels ?sd b"
  have sok: "\<forall>sd. side_ok sd (side_levels sd b)" and idx: "index_ok b" and unc: "uncrossed b"
    using ok unfolding book_ok_sides by blast+
  have bt: "bt_ok ?m"
    using sok by (auto simp: side_ok_def)
  have nor: "\<not> rests b ?k sd p" for sd p
    using new index_none [OF idx] by blast
  then have "\<And>l. map_of ?m ?p = Some l \<Longrightarrow> ?k \<notin> fst ` set (orders l)"
    unfolding rests_def by blast
  from add_order_to_book_spec [OF sok [rule_format] refl pos this, of ib] obtain l' where
    l': "snd (add_order_to_book ?m o' ib) = bt_insert ?p l' ?m" "level_ok ?sd ?p l'" "orders l' \<noteq> []"
      "fst ` set (orders l') = insert ?k (case map_of ?m ?p of None \<Rightarrow> {} | Some l \<Rightarrow> fst ` set (orders l))"
    by blast
  have sides: "side_ok sd (side_levels sd ?b)" for sd
  proof (cases "sd = ?sd")
    case True
    then show ?thesis using side_ok_insert [OF sok [rule_format] l'(2,3)] l'(1) by simp
  next
    case False
    then show ?thesis using sok by (simp add: side_levels_other)
  qed
  have rests: "rests ?b k sd p \<longleftrightarrow> k = ?k \<and> sd = ?sd \<and> p = ?p \<or> rests b k sd p" for k sd p
  proof -
    have "rests b k ?sd ?p \<longleftrightarrow> k \<in> (case map_of ?m ?p of None \<Rightarrow> {} | Some l \<Rightarrow> fst ` set (orders l))"
      by (auto simp: rests_def split: option.splits)
    then show ?thesis
      unfolding rests_index l'(1) rests_insert [OF bt] l'(4) by auto
  qed
  have hm: "hm_ok (oid_to_side_px b)"
    using idx by (simp add: index_ok_def)
  have "hm_ok (oid_to_side_px ?b)"
    using hm.inv_insert [OF hm] by simp
  moreover have "hm_get (oid_to_side_px ?b) k = Some (sd, p) \<longleftrightarrow> rests ?b k sd p" for k sd p
    unfolding rests using nor [of sd p] index_okD [OF idx, of k sd p] by (auto simp: update_conv')
  ultimately have index: "index_ok ?b"
    unfolding index_ok_def by blast
  have levs: "side_levels ?sd ?b = bt_insert ?p l' ?m" "side_levels (other_side ?sd) ?b = side_levels (other_side ?sd) b"
    using l'(1) by (simp_all add: side_levels_other)
  have "uncrossed ?b"
    unfolding uncrossed_sides [where sd = ?sd] levs fst_set_bt_insert
    using unc [unfolded uncrossed_sides [where sd = ?sd]] clear by blast
  then show ?thesis
    unfolding book_ok_sides using sides index by blast
qed

lemma add_order_before_sides:
  "add_order_before o' ib b =
     (if hm_contains (oid_to_side_px b) (order_oid o') then (False, b)
      else let sd = io_side o';
               (filled, t, m) = match_order (side_levels (other_side sd) b) o';
               b' = set_side (other_side sd) m (b\<lparr>oid_to_side_px := fold hm_remove filled (oid_to_side_px b)\<rparr>)
           in if sz_is_positive (io_sz t)
              then (fst (add_order_to_book (side_levels sd b') t ib),
                    set_side sd (snd (add_order_to_book (side_levels sd b') t ib))
                      (b'\<lparr>oid_to_side_px := hm_insert (order_oid t) (io_side t, io_limit_px t) (oid_to_side_px b')\<rparr>))
              else (False, b'))"
  by (cases "io_side o'") (simp_all add: add_order_before_def set_side_def Let_def split_beta)

lemma add_order_before_ok:
  assumes ok: "book_ok b"
  shows "book_ok (snd (add_order_before o' ib b))"
proof (cases "hm_contains (oid_to_side_px b) (order_oid o')")
  case True
  then show ?thesis using ok by (simp add: add_order_before_def)
next
  case False
  let ?sd = "io_side o'"
  obtain filled t m where mo: "match_order (side_levels (other_side ?sd) b) o' = (filled, t, m)"
    by (metis prod_cases3)
  define b' where "b' = set_side (other_side ?sd) m (b\<lparr>oid_to_side_px := fold hm_remove filled (oid_to_side_px b)\<rparr>)"
  have ok': "book_ok b'"
    using match_step_ok [OF ok mo] by (simp add: b'_def)
  have sok: "side_ok (other_side ?sd) (side_levels (other_side ?sd) b)" and idx: "index_ok b"
    using ok unfolding book_ok_sides by blast+
  note spec = match_order_spec [OF mo sok]
  have t: "io_side t = ?sd" "io_limit_px t = io_limit_px o'" "order_oid t = order_oid o'"
    using same_order_fields [OF spec(2)] by simp_all
  show ?thesis
  proof (cases "sz_is_positive (io_sz t)")
    case True
    then have pos: "0 < order_szn t"
      by (simp add: sz_positive_iff sz_zero_iff)
    have "hm_ok (oid_to_side_px b)"
      using idx by (simp add: index_ok_def)
    from hm.get_fold_remove [OF this, of filled "order_oid o'"]
    have "hm_get (oid_to_side_px b') (order_oid t) = None"
      using False by (metis (no_types) b'_def order_book.select_convs(1) order_book.update_convs(1) side_levels_simps(5)
          order_book.surjective t(3))
    moreover have "\<forall>q \<in> fst ` set (side_levels (other_side (io_side t)) b').
        \<not> px_crosses (io_side t) (io_limit_px t) q"
      using match_clears [OF mo sok pos] t by (simp add: b'_def)
    ultimately show ?thesis
      using rest_step_ok [OF ok' _ pos, of ib] False True mo t
      by (simp add: add_order_before_sides Let_def b'_def)
  next
    case neg: False
    then show ?thesis
      using False mo ok' by (simp add: add_order_before_sides Let_def b'_def)
  qed
qed

text \<open>Cancelling: the index decides, and under the invariant its entry is always good.\<close>

lemma cancel_order_sides:
  "cancel_order k b =
     (case hm_get (oid_to_side_px b) k of
        None \<Rightarrow> (False, b)
      | Some (sd, p) \<Rightarrow>
          (fst (cancel_in_side k p (side_levels sd b)),
           set_side sd (snd (cancel_in_side k p (side_levels sd b)))
             (b\<lparr>oid_to_side_px := hm_remove k (oid_to_side_px b)\<rparr>)))"
  by (auto simp: cancel_order_def set_side_def Let_def split_beta split: option.splits side.splits)

lemma level_remove_ok:
  assumes "level_ok sd p l"
  shows "level_ok sd p (snd (level_remove k l))"
    and "orders (snd (level_remove k l)) = AList.delete k (orders l)"
  using assms level_remove_wf [of l k]
  by (auto simp: level_ok_def level_remove_def q_remove_node_def AList.delete_eq)

lemma cancel_in_side_spec:
  assumes ok: "side_ok sd m" and l: "map_of m p = Some l" and k: "k \<in> fst ` set (orders l)"
  shows "fst (cancel_in_side k p m)" and "side_ok sd (snd (cancel_in_side k p m))"
    and "snd (cancel_in_side k p m) =
      (let l' = snd (level_remove k l) in if orders l' = [] then bt_remove p m else bt_insert p l' m)"
proof -
  have lok: "level_ok sd p l"
    using side_ok_get [OF ok l] by simp
  have "map_of (orders l) k \<noteq> None"
    using k by (simp add: map_of_eq_None_iff)
  then show "fst (cancel_in_side k p m)"
    using l by (auto simp: cancel_in_side_def level_remove_def q_remove_node_def split_beta)
  show eq: "snd (cancel_in_side k p m) =
      (let l' = snd (level_remove k l) in if orders l' = [] then bt_remove p m else bt_insert p l' m)"
    using l by (simp add: cancel_in_side_def split_beta Let_def level_is_empty_def)
  show "side_ok sd (snd (cancel_in_side k p m))"
    unfolding eq Let_def using side_ok_remove [OF ok] side_ok_insert [OF ok level_remove_ok(1) [OF lok]] by auto
qed

lemma cancel_order_ok:
  assumes ok: "book_ok b"
  shows "book_ok (snd (cancel_order k b))" and "fst (cancel_order k b) \<longleftrightarrow> hm_contains (oid_to_side_px b) k"
    and "rests (snd (cancel_order k b)) j sd p \<longleftrightarrow> rests b j sd p \<and> j \<noteq> k"
proof -
  have sok: "\<forall>sd. side_ok sd (side_levels sd b)" and idx: "index_ok b" and unc: "uncrossed b"
    using ok unfolding book_ok_sides by blast+
  have hm: "hm_ok (oid_to_side_px b)"
    using idx by (simp add: index_ok_def)
  have main: "book_ok (snd (cancel_order k b)) \<and> (fst (cancel_order k b) \<longleftrightarrow> hm_contains (oid_to_side_px b) k) \<and>
     (\<forall>j sd p. rests (snd (cancel_order k b)) j sd p \<longleftrightarrow> rests b j sd p \<and> j \<noteq> k)"
  proof (cases "hm_get (oid_to_side_px b) k")
    case None
    then have "cancel_order k b = (False, b)" "\<forall>sd p. \<not> rests b k sd p"
      using index_none [OF idx, of k] by (simp_all add: cancel_order_sides)
    then show ?thesis
      using ok None by (simp only: fst_conv snd_conv) blast
  next
    case (Some e)
    obtain s q where e: "e = (s, q)" by fastforce
    then have res: "rests b k s q"
      using Some index_okD [OF idx] by simp
    then obtain l where l: "map_of (side_levels s b) q = Some l" "k \<in> fst ` set (orders l)"
      by (auto simp: rests_def)
    note spec = cancel_in_side_spec [OF sok [rule_format, of s] l]
    let ?m = "snd (cancel_in_side k q (side_levels s b))"
    define b' where "b' = set_side s ?m (b\<lparr>oid_to_side_px := hm_remove k (oid_to_side_px b)\<rparr>)"
    have can: "cancel_order k b = (True, b')"
      using Some e spec(1) by (simp add: cancel_order_sides b'_def)
    have bt: "bt_ok (side_levels s b)"
      using sok by (auto simp: side_ok_def)
    have lok: "level_ok s q l"
      using side_ok_get [OF sok [rule_format] l(1)] by simp
    have keys: "fst ` set (orders (snd (level_remove k l))) = fst ` set (orders l) - {k}"
      unfolding level_remove_ok(2) [OF lok] by (rule hm.keys_remove [OF level_ok_facts(3) [OF lok]])
    have here: "rests b j s q \<longleftrightarrow> j \<in> fst ` set (orders l)" for j
      using l(1) by (simp add: rests_def)
    have rests: "rests b' j sd p \<longleftrightarrow> rests b j sd p \<and> j \<noteq> k" for j sd p
    proof -
      have "rests b' j sd p \<longleftrightarrow> (if sd = s \<and> p = q then j \<in> fst ` set (orders l) - {k} else rests b j sd p)"
        unfolding b'_def rests_index spec(3) Let_def keys [symmetric]
        by (simp add: rests_insert [OF bt] rests_remove)
      moreover have "\<not> (sd = s \<and> p = q) \<Longrightarrow> rests b j sd p \<Longrightarrow> j \<noteq> k"
        using rests_unique [OF idx res, of sd p] by blast
      ultimately show ?thesis
        using here [of j] by (cases "sd = s \<and> p = q") (simp_all, blast)
    qed
    have sides: "side_ok sd (side_levels sd b')" for sd
    proof (cases "sd = s")
      case True
      then show ?thesis using spec(2) by (simp add: b'_def)
    next
      case False
      then show ?thesis using sok by (simp add: b'_def side_levels_other)
    qed
    have "hm_ok (oid_to_side_px b')"
      using hm.inv_remove [OF hm] by (simp add: b'_def)
    moreover have "hm_get (oid_to_side_px b') j = Some (sd, p) \<longleftrightarrow> rests b' j sd p" for j sd p
      unfolding rests index_okD [OF idx, symmetric] by (auto simp: b'_def delete_conv')
    ultimately have index: "index_ok b'"
      unfolding index_ok_def by blast
    have sub: "fst ` set ?m \<subseteq> fst ` set (side_levels s b)"
    proof -
      have "q \<in> fst ` set (side_levels s b)"
        using map_of_SomeD [OF l(1)] by (metis fst_conv imageI)
      moreover have "fst ` set (bt_remove q (side_levels s b)) \<subseteq> fst ` set (side_levels s b)"
        by (auto simp: AList.delete_eq)
      ultimately show ?thesis
        unfolding spec(3) Let_def by simp
    qed
    have levs: "side_levels s b' = ?m" "side_levels (other_side s) b' = side_levels (other_side s) b"
      by (simp_all add: b'_def side_levels_other)
    have "uncrossed b'"
      unfolding uncrossed_sides [where sd = s] levs
      using unc [unfolded uncrossed_sides [where sd = s]] sub by blast
    then have "book_ok b'"
      unfolding book_ok_sides using sides index by blast
    then show ?thesis
      unfolding can fst_conv snd_conv using rests Some by simp
  qed
  show "book_ok (snd (cancel_order k b))" "fst (cancel_order k b) \<longleftrightarrow> hm_contains (oid_to_side_px b) k"
    by (rule main [THEN conjunct1], rule main [THEN conjunct2, THEN conjunct1])
  show "rests (snd (cancel_order k b)) j sd p \<longleftrightarrow> rests b j sd p \<and> j \<noteq> k"
    by (rule main [THEN conjunct2, THEN conjunct2, rule_format])
qed

text \<open>Resizing: zero cancels; any other size is set in place and the queue keeps its order.\<close>

lemma book_modify_sz_sides:
  "book_modify_sz k s b =
     (if sz_is_zero s then cancel_order k b
      else case hm_get (oid_to_side_px b) k of
             None \<Rightarrow> (False, b)
           | Some (sd, p) \<Rightarrow>
               (fst (modify_in_side k s p (side_levels sd b)),
                set_side sd (snd (modify_in_side k s p (side_levels sd b))) b))"
  by (auto simp: book_modify_sz_def set_side_def Let_def split_beta split: option.splits side.splits)

lemma set_update_subset: "set (AList.update k v q) \<subseteq> insert (k, v) (set q)"
  by (induction q) auto

lemma level_modify_ok:
  assumes lok: "level_ok sd p l" and k: "map_of (orders l) k = Some o'" and s: "0 < szn s"
  shows "level_ok sd p (snd (level_modify_sz k s l))"
    and "orders (snd (level_modify_sz k s l)) = AList.update k (order_modify_sz s o') (orders l)"
    and "fst ` set (orders (snd (level_modify_sz k s l))) = fst ` set (orders l)"
    and "fst (level_modify_sz k s l)"
proof -
  show upd: "orders (snd (level_modify_sz k s l)) = AList.update k (order_modify_sz s o') (orders l)"
    and "fst (level_modify_sz k s l)"
    using k by (simp_all add: level_modify_sz_def q_set_value_def Let_def)
  have mem: "(k, o') \<in> set (orders l)"
    using k by (rule map_of_SomeD)
  have ent: "\<forall>(j, o'') \<in> set (orders l). io_side o'' = sd \<and> io_limit_px o'' = p \<and> 0 < order_szn o''"
    using lok by (simp add: level_ok_def)
  have "\<forall>(j, o'') \<in> set (orders (snd (level_modify_sz k s l))).
      io_side o'' = sd \<and> io_limit_px o'' = p \<and> 0 < order_szn o''"
    unfolding upd using ent mem s set_update_subset [of k "order_modify_sz s o'" "orders l"] by fastforce
  then show "level_ok sd p (snd (level_modify_sz k s l))"
    using level_modify_wf [of l k s] lok by (simp add: level_ok_def)
  show "fst ` set (orders (snd (level_modify_sz k s l))) = fst ` set (orders l)"
    unfolding upd dom_update using mem by force
qed

lemma modify_in_side_spec:
  assumes ok: "side_ok sd m" and l: "map_of m p = Some l" and k: "map_of (orders l) k = Some o'" and s: "0 < szn s"
  shows "fst (modify_in_side k s p m)" and "side_ok sd (snd (modify_in_side k s p m))"
    and "snd (modify_in_side k s p m) = bt_insert p (snd (level_modify_sz k s l)) m"
proof -
  have lok: "level_ok sd p l" "orders l \<noteq> []"
    using side_ok_get [OF ok l] by auto
  note mod = level_modify_ok [OF lok(1) k s]
  show "fst (modify_in_side k s p m)"
    and eq: "snd (modify_in_side k s p m) = bt_insert p (snd (level_modify_sz k s l)) m"
    using l mod(4) by (simp_all add: modify_in_side_def split_beta)
  have "orders (snd (level_modify_sz k s l)) \<noteq> []"
    using mod(3) lok(2) by (metis image_is_empty set_empty)
  then show "side_ok sd (snd (modify_in_side k s p m))"
    unfolding eq by (rule side_ok_insert [OF ok mod(1)])
qed

lemma book_modify_sz_ok:
  assumes ok: "book_ok b" and s: "0 < szn s"
  shows "book_ok (snd (book_modify_sz k s b))"
    and "fst (book_modify_sz k s b) \<longleftrightarrow> hm_contains (oid_to_side_px b) k"
    and "rests (snd (book_modify_sz k s b)) = rests b"
proof -
  have sok: "\<forall>sd. side_ok sd (side_levels sd b)" and idx: "index_ok b" and unc: "uncrossed b"
    using ok unfolding book_ok_sides by blast+
  have nz: "\<not> sz_is_zero s"
    using s by (simp add: sz_zero_iff)
  have main: "book_ok (snd (book_modify_sz k s b)) \<and>
    (fst (book_modify_sz k s b) \<longleftrightarrow> hm_contains (oid_to_side_px b) k) \<and> rests (snd (book_modify_sz k s b)) = rests b"
  proof (cases "hm_get (oid_to_side_px b) k")
    case None
    then show ?thesis
      using ok nz by (simp add: book_modify_sz_sides)
  next
    case (Some e)
    obtain sd p where e: "e = (sd, p)" by fastforce
    then obtain l where l: "map_of (side_levels sd b) p = Some l" "k \<in> fst ` set (orders l)"
      using Some index_okD [OF idx, of k sd p] by (auto simp: rests_def)
    then obtain o' where o': "map_of (orders l) k = Some o'"
      by (metis map_of_eq_None_iff not_None_eq)
    note spec = modify_in_side_spec [OF sok [rule_format] l(1) o' s]
    have lok: "level_ok sd p l"
      using side_ok_get [OF sok [rule_format] l(1)] by simp
    have bt: "bt_ok (side_levels sd b)"
      using sok by (auto simp: side_ok_def)
    define b' where "b' = set_side sd (snd (modify_in_side k s p (side_levels sd b))) b"
    have mod: "book_modify_sz k s b = (True, b')"
      using Some e nz spec(1) by (simp add: book_modify_sz_sides b'_def)
    have rests: "rests b' = rests b"
    proof (intro ext)
      fix j sd' p'
      have "rests b j sd p \<longleftrightarrow> j \<in> fst ` set (orders l)"
        using l(1) by (simp add: rests_def)
      then show "rests b' j sd' p' = rests b j sd' p'"
        unfolding b'_def spec(3) rests_insert [OF bt] level_modify_ok(3) [OF lok o' s] by auto
    qed
    have "side_ok sd' (side_levels sd' b')" for sd'
      using spec(2) sok by (cases "sd' = sd") (simp_all add: b'_def side_levels_other)
    moreover have "index_ok b'"
      using idx by (simp add: index_ok_def rests) (simp add: b'_def)
    moreover have "p \<in> fst ` set (side_levels sd b)"
      using map_of_SomeD [OF l(1)] by (metis fst_conv imageI)
    then have levs: "fst ` set (side_levels sd b') = fst ` set (side_levels sd b)"
      "side_levels (other_side sd) b' = side_levels (other_side sd) b"
      by (auto simp: b'_def side_levels_other spec(3))
    have "uncrossed b'"
      using unc unfolding uncrossed_sides [where sd = sd] levs .
    ultimately have "book_ok b'"
      unfolding book_ok_sides by blast
    then show ?thesis
      unfolding mod fst_conv snd_conv using rests Some by simp
  qed
  show "book_ok (snd (book_modify_sz k s b))" "fst (book_modify_sz k s b) \<longleftrightarrow> hm_contains (oid_to_side_px b) k"
    "rests (snd (book_modify_sz k s b)) = rests b"
    by (rule main [THEN conjunct1], rule main [THEN conjunct2, THEN conjunct1],
        rule main [THEN conjunct2, THEN conjunct2])
qed

section \<open>Queues in price-time priority\<close>

text \<open>One side of the book as a single queue, best price first, oldest order first within a price.\<close>

definition book_queue :: "side \<Rightarrow> order_book \<Rightarrow> (oid, inner_l4_order) queue" where
  "book_queue sd b = flat (prio sd (side_levels sd b))"

lemma bt_insert_split:
  "bt_ok m \<Longrightarrow> bt_insert p l m = filter (\<lambda>e. fst e < p) m @ (p, l) # filter (\<lambda>e. p < fst e) m"
proof (induction p l m rule: bt_insert.induct)
  case (2 k v k' v' m)
  have none: "filter (\<lambda>e. fst e < k) m = []" "filter (\<lambda>e. k < fst e) m = m" if "k \<le> k'"
    using 2(2) that by (auto simp: bt_ok_Cons filter_empty_conv filter_id_conv)
  show ?case
    using 2 none by (auto simp: bt_ok_Cons)
qed simp

lemma bt_split:
  "bt_ok m \<Longrightarrow> m = filter (\<lambda>e. fst e < p) m @
     (case map_of m p of None \<Rightarrow> [] | Some l \<Rightarrow> [(p, l)]) @ filter (\<lambda>e. p < fst e) m"
proof (induction m)
  case (Cons e m)
  obtain q l where e: "e = (q, l)" by fastforce
  have above: "\<forall>e \<in> set m. q < fst e" and ok: "bt_ok m"
    using Cons.prems by (auto simp: e bt_ok_Cons)
  have "map_of m p = None \<and> filter (\<lambda>e. fst e < p) m = [] \<and> filter (\<lambda>e. p < fst e) m = m" if "p \<le> q"
    using above that by (force simp: map_of_eq_None_iff filter_empty_conv filter_id_conv)
  then show ?case
    using Cons.IH [OF ok] by (cases "p < q"; cases "p = q") (auto simp: e)
qed simp

lemma rev_filter': "filter P (rev xs) = rev (filter P xs)"
  by (simp add: rev_filter)

text \<open>
  Appending an order to its level puts it behind every order of a better or equal price and ahead of
  every order of a worse price.
\<close>

definition at_least_as_good :: "side \<Rightarrow> px \<Rightarrow> px \<Rightarrow> bool" where
  "at_least_as_good sd p q \<longleftrightarrow> q = p \<or> better sd q p"

lemma flat_insert_level:
  assumes bt: "bt_ok m"
  shows "flat (prio sd (bt_insert p l' m)) =
      flat (filter (\<lambda>e. better sd (fst e) p) (prio sd m)) @ orders l' @
      flat (filter (\<lambda>e. better sd p (fst e)) (prio sd m))"
  by (cases sd) (simp_all add: bt_insert_split [OF bt] prio_def better_simps rev_filter')

lemma flat_at_level:
  assumes bt: "bt_ok m"
  shows "flat (prio sd m) =
      flat (filter (\<lambda>e. better sd (fst e) p) (prio sd m)) @
      (case map_of m p of None \<Rightarrow> [] | Some l \<Rightarrow> orders l) @
      flat (filter (\<lambda>e. better sd p (fst e)) (prio sd m))"
  by (subst bt_split [OF bt, of p], cases sd)
    (auto simp: prio_def better_simps rev_filter' split: option.splits)

lemma book_queue_member:
  assumes "levels_ok sd ls" and "(k, o') \<in> set (flat ls)"
  shows "\<exists>l. (io_limit_px o', l) \<in> set ls \<and> (k, o') \<in> set (orders l)"
  using assms by (fastforce simp: flat_def levels_ok_def level_ok_def)

lemma filter_flat:
  assumes "levels_ok sd ls"
  shows "filter (\<lambda>e. P (io_limit_px (snd e))) (flat ls) = flat (filter (\<lambda>e. P (fst e)) ls)"
  using assms
proof (induction ls)
  case (Cons e ls)
  then have "\<forall>x \<in> set (orders (snd e)). io_limit_px (snd x) = fst e"
    by (cases e) (auto simp: level_ok_def)
  then have "filter (\<lambda>x. P (io_limit_px (snd x))) (orders (snd e)) = (if P (fst e) then orders (snd e) else [])"
    by (auto simp: filter_id_conv filter_empty_conv)
  then show ?case
    using Cons by (cases e) auto
qed simp

text \<open>The place of a new order: after all at least as good, before all worse.\<close>

definition enqueue :: "side \<Rightarrow> inner_l4_order \<Rightarrow> (oid, inner_l4_order) queue \<Rightarrow> (oid, inner_l4_order) queue" where
  "enqueue sd o' q =
     filter (\<lambda>e. at_least_as_good sd (io_limit_px o') (io_limit_px (snd e))) q @
     (order_oid o', o') # filter (\<lambda>e. \<not> at_least_as_good sd (io_limit_px o') (io_limit_px (snd e))) q"

lemma better_total: "\<not> at_least_as_good sd p q \<longleftrightarrow> better sd p q"
  by (cases sd) (auto simp: at_least_as_good_def better_simps)

lemma filter_as_good_split:
  assumes bt: "bt_ok m"
  shows "flat (filter (\<lambda>e. at_least_as_good sd p (fst e)) (prio sd m)) =
     flat (filter (\<lambda>e. better sd (fst e) p) (prio sd m)) @ (case map_of m p of None \<Rightarrow> [] | Some l \<Rightarrow> orders l)"
proof -
  have absorb: "x < p \<and> (x = p \<or> x < p) \<longleftrightarrow> x < p" "p < x \<and> (x = p \<or> x < p) \<longleftrightarrow> False"
    "p < x \<and> (x = p \<or> p < x) \<longleftrightarrow> p < x" "x < p \<and> (x = p \<or> p < x) \<longleftrightarrow> False" for x :: px
    by auto
  show ?thesis
    by (subst (1) bt_split [OF bt, of p], cases sd)
      (auto simp: prio_def better_simps at_least_as_good_def rev_filter' absorb split: option.splits)
qed

lemma enqueue_at_level:
  assumes "side_ok sd m"
  shows "enqueue sd o' (flat (prio sd m)) =
     flat (filter (\<lambda>e. better sd (fst e) (io_limit_px o')) (prio sd m)) @
     (case map_of m (io_limit_px o') of None \<Rightarrow> [] | Some l \<Rightarrow> orders l) @ [(order_oid o', o')] @
     flat (filter (\<lambda>e. better sd (io_limit_px o') (fst e)) (prio sd m))"
proof -
  have bt: "bt_ok m" and lv: "levels_ok sd (prio sd m)"
    using assms by (auto simp: side_ok_def)
  show ?thesis
    unfolding enqueue_def filter_flat [OF lv] filter_as_good_split [OF bt] better_total by simp
qed

lemma add_to_book_queue:
  assumes ok: "side_ok sd m"
    and fresh: "\<And>l. map_of m (io_limit_px o') = Some l \<Longrightarrow> order_oid o' \<notin> fst ` set (orders l)"
  shows "flat (prio sd (snd (add_order_to_book m o' None))) = enqueue sd o' (flat (prio sd m))"
proof -
  let ?p = "io_limit_px o'" and ?k = "order_oid o'"
  define l where "l = (case map_of m ?p of None \<Rightarrow> level_new | Some l \<Rightarrow> l)"
  have bt: "bt_ok m"
    using ok by (simp add: side_ok_def)
  have old: "orders l = (case map_of m ?p of None \<Rightarrow> [] | Some l \<Rightarrow> orders l)"
    by (auto simp: l_def level_new_def split: option.splits)
  have "map_of (orders l) ?k = None"
    using fresh by (auto simp: l_def level_new_def map_of_eq_None_iff split: option.splits)
  then have "orders (snd (level_push_back ?k o' l)) = orders l @ [(?k, o')]"
    by (simp add: level_push_back_def q_push_back_def)
  moreover have "snd (add_order_to_book m o' None) = bt_insert ?p (snd (level_push_back ?k o' l)) m"
    by (simp add: add_order_to_book_def Let_def l_def)
  ultimately show ?thesis
    unfolding enqueue_at_level [OF ok] old [symmetric] by (simp add: flat_insert_level [OF bt])
qed

lemma add_to_book_anchor:
  assumes ok: "side_ok sd m" and l: "map_of m (io_limit_px o') = Some l" and c: "map_of (orders l) c = Some a"
    and fresh: "order_oid o' \<notin> fst ` set (orders l)"
  shows "fst (add_order_to_book m o' (Some c)) = False"
    and "\<exists>xs ys. flat (prio sd m) = xs @ (c, a) # ys \<and>
      flat (prio sd (snd (add_order_to_book m o' (Some c)))) = xs @ (order_oid o', o') # (c, a) # ys"
proof -
  let ?p = "io_limit_px o'" and ?k = "order_oid o'"
  have bt: "bt_ok m" and lok: "level_ok sd ?p l"
    using ok side_ok_get [OF ok l] by (auto simp: side_ok_def)
  have cont: "level_contains c l"
    using c by (simp add: level_contains_def)
  then show "fst (add_order_to_book m o' (Some c)) = False"
    using l by (simp add: add_order_to_book_def Let_def)
  have eq: "snd (add_order_to_book m o' (Some c)) = bt_insert ?p (snd (level_insert_before c ?k o' l)) m"
    using l cont by (simp add: add_order_to_book_def Let_def)
  obtain us vs where uv: "orders l = us @ (c, a) # vs"
    using split_list [OF map_of_SomeD [OF c]] by blast
  have "c \<notin> fst ` set us"
    using level_ok_facts(3) [OF lok] uv by auto
  moreover have "map_of (orders l) ?k = None"
    using fresh by (simp add: map_of_eq_None_iff)
  then have "orders (snd (level_insert_before c ?k o' l)) = splice_before c ?k o' (orders l)"
    using c by (simp add: level_insert_before_def q_insert_before_def)
  ultimately have "orders (snd (level_insert_before c ?k o' l)) = us @ (?k, o') # (c, a) # vs"
    using uv by (simp add: splice_before_cut)
  then show "\<exists>xs ys. flat (prio sd m) = xs @ (c, a) # ys \<and>
      flat (prio sd (snd (add_order_to_book m o' (Some c)))) = xs @ (?k, o') # (c, a) # ys"
    unfolding eq flat_insert_level [OF bt] using flat_at_level [OF bt, of sd ?p] l uv
    by (intro exI [of _ "flat (filter (\<lambda>e. better sd (fst e) ?p) (prio sd m)) @ us"]
        exI [of _ "vs @ flat (filter (\<lambda>e. better sd ?p (fst e)) (prio sd m))"]) simp
qed

section \<open>What the operations do to the queues\<close>

lemma book_queue_set_side:
  "book_queue sd (set_side sd m b) = flat (prio sd m)"
  "sd' \<noteq> sd \<Longrightarrow> book_queue sd' (set_side sd m b) = book_queue sd' b"
  "book_queue sd (b\<lparr>oid_to_side_px := x\<rparr>) = book_queue sd b"
  by (simp_all add: book_queue_def side_levels_other)

lemma side_okI: "book_ok b \<Longrightarrow> side_ok sd (side_levels sd b)"
  unfolding book_ok_sides by blast

lemma book_hm_ok: "book_ok b \<Longrightarrow> hm_ok (oid_to_side_px b)"
  by (simp add: book_ok_def index_ok_def)

text \<open>
  The whole of \<open>add_order_before\<close> for an order the book does not hold: the crossing part of the other
  side is matched as one queue, the rest of that side stays, and what is left of the order rests.
\<close>

lemma add_order_before_parts:
  assumes ok: "book_ok b" and new: "hm_get (oid_to_side_px b) (order_oid o') = None"
    and add: "add_order_before o' ib b = (fell, b')"
  defines "sd \<equiv> io_side o'"
  shows "\<exists>filled t.
      is_match (order_szn o') (crossing o' (side_levels (other_side sd) b)) filled
        (crossing o' (side_levels (other_side sd) b')) \<and>
      non_crossing o' (side_levels (other_side sd) b') = non_crossing o' (side_levels (other_side sd) b) \<and>
      same_order o' t \<and> order_szn t = order_szn o' - qsum (crossing o' (side_levels (other_side sd) b)) \<and>
      (if order_szn t = 0 then \<not> fell \<and> side_levels sd b' = side_levels sd b
       else (fell, side_levels sd b') = add_order_to_book (side_levels sd b) t ib)"
proof -
  obtain filled t m where mo: "match_order (side_levels (other_side sd) b) o' = (filled, t, m)"
    by (metis prod_cases3)
  note spec = match_order_spec [OF mo [unfolded sd_def] side_okI [OF ok]]
  have zero: "sz_is_positive (io_sz t) \<longleftrightarrow> order_szn t \<noteq> 0"
    by (simp add: sz_positive_iff sz_zero_iff)
  have opp: "side_levels (other_side sd) b' = m"
    using add new mo by (auto simp: add_order_before_sides Let_def sd_def [symmetric] side_levels_other split: if_splits)
  have own: "if order_szn t = 0 then \<not> fell \<and> side_levels sd b' = side_levels sd b
       else (fell, side_levels sd b') = add_order_to_book (side_levels sd b) t ib"
    using add new mo by (auto simp: add_order_before_sides Let_def sd_def [symmetric] side_levels_other zero
        prod_eq_iff split: if_splits)
  show ?thesis
    using spec(2-5) own unfolding opp sd_def [symmetric] by blast
qed

lemma fresh_at_level:
  assumes ok: "book_ok b" and new: "hm_get (oid_to_side_px b) k = None"
    and l: "map_of (side_levels sd b) p = Some l"
  shows "k \<notin> fst ` set (orders l)"
  using new index_none [of b k] ok l by (auto simp: book_ok_def rests_def)

lemma add_order_queue:
  assumes "book_ok b" and "hm_get (oid_to_side_px b) (order_oid o') = None"
  shows "\<exists>filled t. let sd = io_side o'; b' = add_order o' b in
      is_match (order_szn o') (crossing o' (side_levels (other_side sd) b)) filled
        (crossing o' (side_levels (other_side sd) b')) \<and>
      non_crossing o' (side_levels (other_side sd) b') = non_crossing o' (side_levels (other_side sd) b) \<and>
      same_order o' t \<and> order_szn t = order_szn o' - qsum (crossing o' (side_levels (other_side sd) b)) \<and>
      book_queue sd b' = (if order_szn t = 0 then book_queue sd b else enqueue sd t (book_queue sd b))"
proof -
  let ?sd = "io_side o'"
  obtain fell b' where add: "add_order_before o' None b = (fell, b')" by fastforce
  from add_order_before_parts [OF assms add] obtain filled t where
    t: "is_match (order_szn o') (crossing o' (side_levels (other_side ?sd) b)) filled
        (crossing o' (side_levels (other_side ?sd) b'))"
      "non_crossing o' (side_levels (other_side ?sd) b') = non_crossing o' (side_levels (other_side ?sd) b)"
      "same_order o' t" "order_szn t = order_szn o' - qsum (crossing o' (side_levels (other_side ?sd) b))"
      "if order_szn t = 0 then \<not> fell \<and> side_levels ?sd b' = side_levels ?sd b
       else (fell, side_levels ?sd b') = add_order_to_book (side_levels ?sd b) t None"
    by blast
  have fresh: "order_oid t \<notin> fst ` set (orders l)" if "map_of (side_levels ?sd b) (io_limit_px t) = Some l" for l
    using fresh_at_level [OF assms that] same_order_fields [OF t(3)] by simp
  have "book_queue ?sd b' = (if order_szn t = 0 then book_queue ?sd b else enqueue ?sd t (book_queue ?sd b))"
    using t(5) add_to_book_queue [OF side_okI [OF assms(1)] fresh]
    by (auto simp: book_queue_def dest: arg_cong [where f = snd] split: if_splits)
  then show ?thesis
    using t(1-4) add by (intro exI [of _ filled] exI [of _ t]) (simp add: Let_def add_order_def)
qed

text \<open>An order that crosses nothing leaves the other side alone.\<close>

lemma crossing_Nil_iff:
  assumes "side_ok (other_side (io_side o')) m"
  shows "crossing o' m = [] \<longleftrightarrow> non_crossing o' m = m"
proof -
  have "\<forall>e \<in> set m. orders (snd e) \<noteq> []"
    using assms by (auto simp: side_ok_def levels_ok_def)
  then show ?thesis
    by (auto simp: crossing_def non_crossing_def flat_def filter_id_conv)
qed

lemma add_order_resting:
  assumes ok: "book_ok b" and new: "hm_get (oid_to_side_px b) (order_oid o') = None" and pos: "0 < order_szn o'"
    and clear: "crossing o' (side_levels (other_side (io_side o')) b) = []"
  shows "side_levels (other_side (io_side o')) (add_order o' b) = side_levels (other_side (io_side o')) b"
    and "book_queue (io_side o') (add_order o' b) = enqueue (io_side o') o' (book_queue (io_side o') b)"
proof -
  let ?sd = "io_side o'" and ?b = "add_order o' b"
  from add_order_queue [OF ok new] obtain filled t where
    t: "is_match (order_szn o') (crossing o' (side_levels (other_side ?sd) b)) filled
        (crossing o' (side_levels (other_side ?sd) ?b))"
      "non_crossing o' (side_levels (other_side ?sd) ?b) = non_crossing o' (side_levels (other_side ?sd) b)"
      "same_order o' t" "order_szn t = order_szn o' - qsum (crossing o' (side_levels (other_side ?sd) b))"
      "book_queue ?sd ?b = (if order_szn t = 0 then book_queue ?sd b else enqueue ?sd t (book_queue ?sd b))"
    unfolding Let_def by blast
  have ok': "book_ok ?b"
    using add_order_before_ok [OF ok] by (simp add: add_order_def)
  have "crossing o' (side_levels (other_side ?sd) ?b) = []"
    using t(1) clear is_match_used_up(1) [OF t(1)] by simp
  then show "side_levels (other_side ?sd) ?b = side_levels (other_side ?sd) b"
    using crossing_Nil_iff [OF side_okI [OF ok]] crossing_Nil_iff [OF side_okI [OF ok']] clear t(2) by metis
  have "order_szn t = order_szn o'"
    using t(4) clear by simp
  then have "t = o'"
    using t(3) by (simp add: same_order_def szn_inject)
  then show "book_queue ?sd ?b = enqueue ?sd o' (book_queue ?sd b)"
    using t(5) pos by simp
qed

section \<open>Snapshots\<close>

lemma to_snapshot_queues: "to_snapshot b = (map snd (book_queue Bid b), map snd (book_queue Ask b))"
proof -
  have "\<not> band_is_inverted px_band_default"
    by (simp add: band_is_inverted_def px_band_default_def)
  moreover have "(\<lambda>(p :: px, l). level_to_vec l) = (\<lambda>e. map snd (orders (snd e)))"
    by (auto simp: fun_eq_iff level_to_vec_def)
  ultimately show ?thesis
    by (simp add: to_snapshot_def to_snapshot_in_band_def book_queue_def prio_def flat_def map_concat comp_def)
qed

lemma enqueue_last:
  assumes "\<forall>e \<in> set q. at_least_as_good sd (io_limit_px o') (io_limit_px (snd e))"
  shows "enqueue sd o' q = q @ [(order_oid o', o')]"
  using assms by (simp add: enqueue_def filter_id_conv filter_empty_conv)

lemma crossing_clear:
  assumes "\<forall>q \<in> fst ` set m. \<not> px_crosses (io_side o') (io_limit_px o') q"
  shows "crossing o' m = []"
proof -
  have "filter (\<lambda>e. px_crosses (io_side o') (io_limit_px o') (fst e)) (prio (other_side (io_side o')) m) = []"
    using assms by (auto simp: filter_empty_conv)
  then show ?thesis
    by (simp add: crossing_def)
qed

lemma book_queue_keys:
  "book_ok b \<Longrightarrow> k \<in> fst ` set (book_queue sd b) \<longleftrightarrow> (\<exists>p. rests b k sd p)"
  using rests_iff [of sd b k] side_okI [of b sd] by (simp add: book_queue_def flat_keys side_ok_def)

lemma index_from_queues:
  assumes "book_ok b"
  shows "hm_get (oid_to_side_px b) k = None \<longleftrightarrow>
    k \<notin> fst ` set (book_queue Bid b) \<and> k \<notin> fst ` set (book_queue Ask b)"
proof -
  have "hm_get (oid_to_side_px b) k = None \<longleftrightarrow> (\<forall>sd p. \<not> rests b k sd p)"
    using assms index_none by (simp add: book_ok_def)
  also have "\<dots> \<longleftrightarrow> (\<forall>p. \<not> rests b k Bid p) \<and> (\<forall>p. \<not> rests b k Ask p)"
    by (metis side.exhaust)
  finally show ?thesis
    unfolding book_queue_keys [OF assms] by blast
qed

text \<open>
  Feeding the orders of one side in priority order into a book whose side holds only orders at least as
  good, with nothing to match: they line up behind one another.
\<close>

lemma fold_add_order:
  assumes "book_ok b" and "\<forall>x \<in> set os. io_side x = sd \<and> 0 < order_szn x"
    and "distinct (map order_oid os)" and "\<forall>x \<in> set os. hm_get (oid_to_side_px b) (order_oid x) = None"
    and "sorted_wrt (\<lambda>x y. at_least_as_good sd (io_limit_px y) (io_limit_px x)) os"
    and "\<forall>e \<in> set (book_queue sd b). \<forall>x \<in> set os. at_least_as_good sd (io_limit_px x) (io_limit_px (snd e))"
    and "\<forall>q \<in> fst ` set (side_levels (other_side sd) b). \<forall>x \<in> set os. \<not> px_crosses sd (io_limit_px x) q"
  shows "book_ok (fold add_order os b) \<and>
    side_levels (other_side sd) (fold add_order os b) = side_levels (other_side sd) b \<and>
    book_queue sd (fold add_order os b) = book_queue sd b @ map (\<lambda>x. (order_oid x, x)) os"
  using assms
proof (induction os arbitrary: b)
  case (Cons x os)
  have x: "io_side x = sd" "0 < order_szn x" "hm_get (oid_to_side_px b) (order_oid x) = None"
    using Cons.prems by auto
  have clear: "crossing x (side_levels (other_side (io_side x)) b) = []"
    using Cons.prems(7) x(1) by (intro crossing_clear) auto
  note add = add_order_resting [OF Cons.prems(1) x(3,2) clear, unfolded x(1)]
  let ?b = "add_order x b"
  have ok': "book_ok ?b"
    using add_order_before_ok [OF Cons.prems(1)] by (simp add: add_order_def)
  have q: "book_queue sd ?b = book_queue sd b @ [(order_oid x, x)]"
    unfolding add(2) using Cons.prems(6) by (intro enqueue_last) auto
  have opp: "book_queue (other_side sd) ?b = book_queue (other_side sd) b"
    unfolding book_queue_def add(1) ..
  have fresh: "hm_get (oid_to_side_px ?b) (order_oid y) = None" if y: "y \<in> set os" for y
  proof -
    have "order_oid y \<noteq> order_oid x" "hm_get (oid_to_side_px b) (order_oid y) = None"
      using Cons.prems(3,4) y by (auto simp: image_iff)
    then show ?thesis
      using q opp unfolding index_from_queues [OF ok'] index_from_queues [OF Cons.prems(1)]
      by (cases sd) auto
  qed
  have "book_ok (fold add_order os ?b) \<and>
    side_levels (other_side sd) (fold add_order os ?b) = side_levels (other_side sd) ?b \<and>
    book_queue sd (fold add_order os ?b) = book_queue sd ?b @ map (\<lambda>x. (order_oid x, x)) os"
    using Cons.prems fresh add(1) q by (intro Cons.IH ok') auto
  then show ?case
    unfolding add(1) q by simp
qed simp

lemma book_queue_sorted:
  assumes "book_ok b"
  shows "sorted_wrt (\<lambda>x y. at_least_as_good sd (io_limit_px y) (io_limit_px x)) (map snd (book_queue sd b))"
    and "distinct (map fst (book_queue sd b))"
    and "\<forall>(k, x) \<in> set (book_queue sd b). k = order_oid x \<and> io_side x = sd \<and> 0 < order_szn x \<and>
           io_limit_px x \<in> fst ` set (side_levels sd b)"
proof -
  let ?ls = "prio sd (side_levels sd b)"
  have bt: "bt_ok (side_levels sd b)" and lv: "levels_ok sd ?ls"
    using side_okI [OF assms] by (auto simp: side_ok_def)
  have "sorted_wrt (\<lambda>x y. at_least_as_good sd (io_limit_px y) (io_limit_px x)) (map snd (flat ls))"
    if "sorted_wrt (better sd) (map fst ls)" "levels_ok sd ls" for ls
    using that
  proof (induction ls)
    case (Cons e ls)
    have own: "\<forall>x \<in> snd ` set (orders (snd e)). io_limit_px x = fst e"
      using Cons.prems(2) by (cases e) (auto simp: level_ok_def)
    have rest: "\<forall>x \<in> snd ` set (flat ls). better sd (fst e) (io_limit_px x)"
    proof
      fix x assume "x \<in> snd ` set (flat ls)"
      then obtain k where "(k, x) \<in> set (flat ls)" by auto
      then obtain l where "(io_limit_px x, l) \<in> set ls"
        using book_queue_member [of sd ls k x] Cons.prems(2) by (cases e) auto
      then show "better sd (fst e) (io_limit_px x)"
        using Cons.prems(1) by force
    qed
    have "sorted_wrt (\<lambda>x y. at_least_as_good sd (io_limit_px y) (io_limit_px x)) (map snd (orders (snd e)))"
      using own by (auto simp: sorted_wrt_iff_nth_less at_least_as_good_def)
    then show ?case
      using Cons own rest by (cases e) (auto simp: sorted_wrt_append at_least_as_good_def)
  qed simp
  then show "sorted_wrt (\<lambda>x y. at_least_as_good sd (io_limit_px y) (io_limit_px x)) (map snd (book_queue sd b))"
    using sorted_prio [OF bt] lv by (simp add: book_queue_def)
  have "distinct (map fst ?ls)"
    using bt_ok_distinct [OF bt] by (cases sd) (auto simp: prio_def rev_map [symmetric])
  moreover have "keys_apart ?ls"
    using book_keys_apart [OF assms, of sd] by (rule keys_apart_subset) simp
  ultimately show "distinct (map fst (book_queue sd b))"
    unfolding book_queue_def by (intro side_keys_distinct [OF _ lv])
  show "\<forall>(k, x) \<in> set (book_queue sd b). k = order_oid x \<and> io_side x = sd \<and> 0 < order_szn x \<and>
           io_limit_px x \<in> fst ` set (side_levels sd b)"
  proof (intro ballI, clarify)
    fix k x assume "(k, x) \<in> set (book_queue sd b)"
    then obtain l where l: "(io_limit_px x, l) \<in> set ?ls" "(k, x) \<in> set (orders l)"
      using book_queue_member [OF lv] by (auto simp: book_queue_def)
    then have "level_ok sd (io_limit_px x) l"
      using lv by (auto simp: levels_ok_def)
    with l(2) have "k = order_oid x \<and> io_side x = sd \<and> 0 < order_szn x"
      by (auto simp: level_ok_def level_wf_def queue_ok_def)
    moreover have "io_limit_px x \<in> fst ` set (side_levels sd b)"
      using imageI [OF l(1), of fst] by simp
    ultimately show "k = order_oid x \<and> io_side x = sd \<and> 0 < order_szn x \<and>
        io_limit_px x \<in> fst ` set (side_levels sd b)"
      by blast
  qed
qed

lemma book_new_ok: "book_ok book_new"
  by (auto simp: book_ok_def book_new_def side_ok_def index_ok_def uncrossed_def rests_def side_levels_def
      split: side.splits)

lemma queue_of_orders:
  assumes "\<forall>(k, x) \<in> set q. k = order_oid x"
  shows "map (\<lambda>x. (order_oid x, x)) (map snd q) = q"
  using assms by (induction q) auto

lemma side_prices:
  assumes "book_ok b"
  shows "fst ` set (side_levels sd b) = io_limit_px ` snd ` set (book_queue sd b)"
proof -
  have *: "orders (snd e) \<noteq> [] \<and> (\<forall>x \<in> set (orders (snd e)). io_limit_px (snd x) = fst e)"
    if "e \<in> set (side_levels sd b)" for e
  proof -
    have "level_ok sd (fst e) (snd e) \<and> orders (snd e) \<noteq> []"
      using side_okI [OF assms, of sd] that by (auto simp: side_ok_def levels_ok_def)
    then show ?thesis
      by (auto simp: level_ok_def)
  qed
  have "io_limit_px ` snd ` set (orders (snd e)) = {fst e}" if e: "e \<in> set (side_levels sd b)" for e
  proof -
    obtain x where "x \<in> set (orders (snd e))"
      using * [OF e] by (cases "orders (snd e)") auto
    then show ?thesis
      using * [OF e] by (force simp: image_image)
  qed
  then have "(\<Union>e \<in> set (side_levels sd b). io_limit_px ` snd ` set (orders (snd e))) = fst ` set (side_levels sd b)"
    by blast
  then show ?thesis
    by (simp add: book_queue_def flat_def image_UN)
qed

lemma queue_oids:
  assumes "book_ok b"
  shows "map order_oid (map snd (book_queue sd b)) = map fst (book_queue sd b)"
    and "map (\<lambda>x. (order_oid x, x)) (map snd (book_queue sd b)) = book_queue sd b"
    and "\<forall>x \<in> set (map snd (book_queue sd b)). io_side x = sd \<and> 0 < order_szn x"
proof -
  have *: "\<forall>(k, x) \<in> set (book_queue sd b). k = order_oid x \<and> io_side x = sd \<and> 0 < order_szn x"
    using book_queue_sorted(3) [OF assms, of sd] by auto
  show "map (\<lambda>x. (order_oid x, x)) (map snd (book_queue sd b)) = book_queue sd b"
    using * by (intro queue_of_orders) auto
  show "\<forall>x \<in> set (map snd (book_queue sd b)). io_side x = sd \<and> 0 < order_szn x"
    using * by auto
  show "map order_oid (map snd (book_queue sd b)) = map fst (book_queue sd b)"
    unfolding map_map using * by (intro map_cong) auto
qed

text \<open>The bid half of \<open>from_snapshot\<close>, then the ask half.\<close>

lemma from_snapshot_bids:
  assumes ok: "book_ok b"
  defines "b1 \<equiv> fold add_order (map snd (book_queue Bid b)) book_new"
  shows "book_ok b1" and "side_levels Ask b1 = []" and "book_queue Bid b1 = book_queue Bid b"
proof -
  let ?bs = "map snd (book_queue Bid b)"
  have empty: "book_queue sd book_new = []" "side_levels sd book_new = []" for sd
    by (cases sd; simp add: book_queue_def book_new_def prio_def)+
  have "book_ok (fold add_order ?bs book_new) \<and>
      side_levels (other_side Bid) (fold add_order ?bs book_new) = side_levels (other_side Bid) book_new \<and>
      book_queue Bid (fold add_order ?bs book_new) = book_queue Bid book_new @ map (\<lambda>x. (order_oid x, x)) ?bs"
  proof (rule fold_add_order [OF book_new_ok])
    show "distinct (map order_oid ?bs)"
      unfolding queue_oids(1) [OF ok] by (rule book_queue_sorted(2) [OF ok])
    show "\<forall>x \<in> set ?bs. hm_get (oid_to_side_px book_new) (order_oid x) = None"
      by (simp add: book_new_def)
  qed (use empty queue_oids(3) [OF ok] book_queue_sorted(1) [OF ok] in simp_all)
  note main = this [folded b1_def, unfolded empty other_side_simps queue_oids(2) [OF ok] append_Nil]
  show "book_ok b1" "side_levels Ask b1 = []" "book_queue Bid b1 = book_queue Bid b"
    by (rule main [THEN conjunct1], rule main [THEN conjunct2, THEN conjunct1],
        rule main [THEN conjunct2, THEN conjunct2])
qed

lemma queues_disjoint:
  assumes ok: "book_ok b"
  shows "fst ` set (book_queue Ask b) \<inter> fst ` set (book_queue Bid b) = {}"
proof (rule ccontr)
  assume "\<not> ?thesis"
  then obtain k p p' where "rests b k Ask p" "rests b k Bid p'"
    unfolding disjoint_iff book_queue_keys [OF ok] by blast
  then show False
    using rests_unique [of b k Ask p Bid p'] ok by (simp add: book_ok_def)
qed

lemma from_snapshot_queues:
  assumes ok: "book_ok b"
  defines "b' \<equiv> from_snapshot (to_snapshot b) False"
  shows "book_queue Bid b' = book_queue Bid b" and "book_queue Ask b' = book_queue Ask b" and "book_ok b'"
proof -
  let ?as = "map snd (book_queue Ask b)"
  define b1 where "b1 = fold add_order (map snd (book_queue Bid b)) book_new"
  note b1 = from_snapshot_bids [OF ok, folded b1_def]
  have b': "b' = fold add_order ?as b1"
    by (simp add: b'_def from_snapshot_def to_snapshot_queues b1_def)
  have q1: "book_queue Ask b1 = []"
    using b1(2) by (simp add: book_queue_def prio_def)
  have keys1: "fst ` set (side_levels Bid b1) = fst ` set (side_levels Bid b)"
    unfolding side_prices [OF ok] side_prices [OF b1(1)] b1(3) ..
  have main: "book_ok b' \<and> side_levels (other_side Ask) b' = side_levels (other_side Ask) b1 \<and>
      book_queue Ask b' = book_queue Ask b1 @ map (\<lambda>x. (order_oid x, x)) ?as"
    unfolding b'
  proof (rule fold_add_order [OF b1(1)])
    show "distinct (map order_oid ?as)"
      unfolding queue_oids(1) [OF ok] by (rule book_queue_sorted(2) [OF ok])
    show "\<forall>x \<in> set ?as. hm_get (oid_to_side_px b1) (order_oid x) = None"
    proof
      fix x assume "x \<in> set ?as"
      then have "order_oid x \<in> set (map order_oid ?as)"
        unfolding set_map [of order_oid] by (rule imageI)
      then have "order_oid x \<in> fst ` set (book_queue Ask b)"
        unfolding queue_oids(1) [OF ok] by simp
      then show "hm_get (oid_to_side_px b1) (order_oid x) = None"
        unfolding index_from_queues [OF b1(1)] b1(3) q1 using queues_disjoint [OF ok] by auto
    qed
    show "\<forall>q \<in> fst ` set (side_levels (other_side Ask) b1). \<forall>x \<in> set ?as. \<not> px_crosses Ask (io_limit_px x) q"
      using ok uncrossed_sides [of b Ask] unfolding book_ok_def other_side_simps keys1 side_prices [OF ok, of Ask]
      by simp
  qed (use q1 queue_oids(3) [OF ok] book_queue_sorted(1) [OF ok] in simp_all)
  show "book_ok b'"
    using main by (rule conjunct1)
  have "side_levels Bid b' = side_levels Bid b1"
    using main [THEN conjunct2, THEN conjunct1] unfolding other_side_simps .
  then show "book_queue Bid b' = book_queue Bid b"
    unfolding b1(3) [symmetric] by (simp only: book_queue_def)
  show "book_queue Ask b' = book_queue Ask b"
    using main [THEN conjunct2, THEN conjunct2] unfolding q1 queue_oids(2) [OF ok] append_Nil .
qed

section \<open>Runs of operations\<close>

datatype book_op = AddBefore inner_l4_order "oid option" | CancelOid oid | ModifySz oid sz

fun book_step :: "book_op \<Rightarrow> order_book \<Rightarrow> order_book" where
  "book_step (AddBefore o' ib) b = snd (add_order_before o' ib b)"
| "book_step (CancelOid k) b = snd (cancel_order k b)"
| "book_step (ModifySz k s) b = snd (book_modify_sz k s b)"

lemma book_step_ok: "book_ok b \<Longrightarrow> book_ok (book_step x b)"
proof (cases x)
  case (ModifySz k s)
  assume ok: "book_ok b"
  show ?thesis
  proof (cases "sz_is_zero s")
    case True
    then show ?thesis
      using ModifySz cancel_order_ok(1) [OF ok] by (simp add: book_modify_sz_def)
  next
    case False
    then show ?thesis
      using ModifySz book_modify_sz_ok(1) [OF ok] by (simp add: sz_zero_iff)
  qed
qed (simp_all add: add_order_before_ok cancel_order_ok)

interpretation book: invariant_system book_step book_ok book_new
  by unfold_locales (rule book_new_ok, rule book_step_ok)

lemma fold_add_order_ok: "book_ok b \<Longrightarrow> book_ok (fold add_order os b)"
  by (induction os arbitrary: b) (simp_all add: add_order_def add_order_before_ok)

lemma from_snapshot_ok: "book_ok (from_snapshot s t)"
  by (simp add: from_snapshot_def Let_def fold_add_order_ok book_new_ok)

section \<open>Exact running sums\<close>

text \<open>The resting sizes at one price.\<close>

definition px_sum :: "side \<Rightarrow> px \<Rightarrow> order_book \<Rightarrow> nat" where
  "px_sum sd p b = (case map_of (side_levels sd b) p of None \<Rightarrow> 0 | Some l \<Rightarrow> qsum (orders l))"

lemma side_agg_insert:
  "side_agg m \<Longrightarrow> agg_exact l \<Longrightarrow> side_agg (bt_insert p l m)"
proof -
  assume "side_agg m" "agg_exact l"
  moreover have "set (bt_insert p l m) \<subseteq> insert (p, l) (set m)"
    by (induction p l m rule: bt_insert.induct) auto
  ultimately show ?thesis
    by (auto simp: side_agg_def)
qed

lemma side_agg_remove: "side_agg m \<Longrightarrow> side_agg (bt_remove p m)"
  by (auto simp: side_agg_def AList.delete_eq)

lemma side_agg_get: "side_agg m \<Longrightarrow> map_of m p = Some l \<Longrightarrow> agg_exact l"
  by (auto simp: side_agg_def dest!: map_of_SomeD)

lemma match_order_agg:
  assumes mo: "match_order m t = (filled, t', m')" and ok: "side_ok (other_side (io_side t)) m" and agg: "side_agg m"
  shows "side_agg m'"
proof -
  have "agg_exact l'" if "(p, l') \<in> set m'" for p l'
    using match_order_spec(6) [OF mo ok that] agg by (auto simp: shrinks_def side_agg_def)
  then show ?thesis
    by (auto simp: side_agg_def)
qed

lemma add_order_to_book_agg:
  assumes agg: "side_agg m" and fits: "(case map_of m (io_limit_px o') of None \<Rightarrow> 0 | Some l \<Rightarrow> qsum (orders l)) + order_szn o' < 2 ^ 64"
  shows "side_agg (snd (add_order_to_book m o' ib))"
proof -
  define l where "l = (case map_of m (io_limit_px o') of None \<Rightarrow> level_new | Some l \<Rightarrow> l)"
  have "agg_exact l"
    using side_agg_get [OF agg] by (auto simp: l_def split: option.splits)
  moreover have "qsum (orders l) + order_szn o' < 2 ^ 64"
    using fits by (auto simp: l_def level_new_def split: option.splits)
  ultimately show ?thesis
    using level_push_back_agg [of l o'] level_insert_before_agg [of l o'] agg
    by (auto simp: add_order_to_book_def Let_def l_def [symmetric] intro!: side_agg_insert split: option.splits)
qed

lemma add_order_before_agg:
  assumes ok: "book_ok b" and agg: "book_agg b"
    and fits: "px_sum (io_side o') (io_limit_px o') b + order_szn o' < 2 ^ 64"
  shows "book_agg (snd (add_order_before o' ib b))"
proof (cases "hm_get (oid_to_side_px b) (order_oid o')")
  case None
  let ?sd = "io_side o'"
  obtain filled t m where mo: "match_order (side_levels (other_side ?sd) b) o' = (filled, t, m)"
    by (metis prod_cases3)
  note spec = match_order_spec [OF mo side_okI [OF ok]]
  have aggs: "side_agg (side_levels sd b)" for sd
    using agg by (simp add: book_agg_sides)
  have m: "side_agg m"
    by (rule match_order_agg [OF mo side_okI [OF ok] aggs])
  have t: "io_side t = ?sd" "io_limit_px t = io_limit_px o'" "order_szn t \<le> order_szn o'"
    using same_order_fields [OF spec(2)] spec(3) by simp_all
  have r: "side_agg (snd (add_order_to_book (side_levels ?sd b) t ib))"
    using fits t by (intro add_order_to_book_agg aggs) (simp add: px_sum_def)
  have "side_agg (side_levels sd (snd (add_order_before o' ib b)))" for sd
    using None mo m r aggs [of sd] side_neq_other [of sd ?sd]
    by (cases "sd = ?sd") (auto simp: add_order_before_sides Let_def side_levels_other)
  then show ?thesis
    by (simp add: book_agg_sides)
qed (use agg in \<open>simp add: add_order_before_def\<close>)

lemma cancel_order_agg:
  assumes ok: "book_ok b" and agg: "book_agg b"
  shows "book_agg (snd (cancel_order k b))"
proof (cases "hm_get (oid_to_side_px b) k")
  case (Some e)
  obtain sd p where e: "e = (sd, p)" by fastforce
  have aggs: "side_agg (side_levels sd b)" for sd
    using agg by (simp add: book_agg_sides)
  have "side_agg (snd (cancel_in_side k p (side_levels sd b)))"
  proof (cases "map_of (side_levels sd b) p")
    case (Some l)
    have "level_wf l"
      using side_ok_get [OF side_okI [OF ok] Some] by (simp add: level_ok_def)
    then have "agg_exact (snd (level_remove k l))"
      using level_remove_agg side_agg_get [OF aggs Some] by blast
    then show ?thesis
      using aggs Some by (simp add: cancel_in_side_def split_beta side_agg_insert side_agg_remove)
  qed (simp add: cancel_in_side_def aggs)
  then have "side_agg (side_levels sd' (snd (cancel_order k b)))" for sd'
    using Some e aggs [of sd'] by (cases "sd' = sd") (simp_all add: cancel_order_sides side_levels_other)
  then show ?thesis
    by (simp add: book_agg_sides)
qed (use agg in \<open>simp add: cancel_order_sides\<close>)

section \<open>Best bid and offer\<close>

text \<open>
  The best entry of a queue, computed from the orders: the price of the first, the sum of the sizes
  and the number of the orders at that price.
\<close>

definition best_entry :: "(oid, inner_l4_order) queue \<Rightarrow> (px \<times> sz \<times> u32) option" where
  "best_entry q =
     (case q of [] \<Rightarrow> None
      | e # _ \<Rightarrow>
          let p = io_limit_px (snd e); here = filter (\<lambda>x. io_limit_px (snd x) = p) q
          in Some (p, Sz (word_of_nat (qsum here)),
                   case u32_try_from (length here) of Some n \<Rightarrow> n | None \<Rightarrow> - 1))"

lemma aggregate_entry_best:
  assumes lv: "levels_ok sd ((p, l) # ls)" and srt: "\<forall>e \<in> set ls. fst e \<noteq> p" and agg: "agg_exact l"
  shows "Some (aggregate_entry (p, l)) = best_entry (flat ((p, l) # ls))"
proof -
  have own: "\<forall>x \<in> set (orders l). io_limit_px (snd x) = p" and ne: "orders l \<noteq> []"
    using lv by (auto simp: level_ok_def)
  have "filter (\<lambda>x. io_limit_px (snd x) = p) (flat ls) = flat (filter (\<lambda>e. fst e = p) ls)"
    using filter_flat [of sd ls "\<lambda>q. q = p"] lv by simp
  also have "filter (\<lambda>e. fst e = p) ls = []"
    using srt by (simp add: filter_empty_conv)
  finally have "filter (\<lambda>x. io_limit_px (snd x) = p) (flat ((p, l) # ls)) = orders l"
    using own by (simp add: filter_id_conv)
  moreover have "io_limit_px (snd (hd (orders l))) = p"
    using own ne by simp
  moreover have "total_sz l = word_of_nat (qsum (orders l))"
    by (simp flip: agg [unfolded agg_exact_def])
  ultimately show ?thesis
    using ne by (cases "orders l") (auto simp: best_entry_def aggregate_entry_def level_len_def Let_def)
qed

lemma best_entry_prio:
  assumes ok: "side_ok sd m" and agg: "side_agg m"
  shows "map_option aggregate_entry (first_opt (prio sd m)) = best_entry (flat (prio sd m))"
proof (cases "prio sd m")
  case (Cons e ls)
  obtain p l where e: "e = (p, l)" by fastforce
  have "sorted_wrt (better sd) (map fst (prio sd m))" "levels_ok sd (prio sd m)"
    using ok sorted_prio by (auto simp: side_ok_def)
  then have "\<forall>e \<in> set ls. fst e \<noteq> p" "levels_ok sd ((p, l) # ls)"
    using Cons e by (cases sd; auto simp: better_simps)+
  moreover have "agg_exact l"
    using agg Cons e set_prio [of sd m] by (auto simp: side_agg_def)
  ultimately show ?thesis
    using aggregate_entry_best [of sd p l ls] Cons e by simp
qed (simp add: best_entry_def)

lemma get_bbo_prio:
  "get_bbo b = (map_option aggregate_entry (first_opt (prio Bid (bids b))),
                map_option aggregate_entry (first_opt (prio Ask (asks b))))"
  by (simp add: get_bbo_def prio_def last_opt_rev)

section \<open>Properties\<close>

text \<open>
  C2. Every book the operations can reach is well formed, whatever the order of insertions (with or
  without an anchor), cancellations and resizings: sorted sides without empty levels, every order
  filed once, on its side, at its price, with a positive size, an index that agrees with the levels,
  and a best bid below the best ask.
\<close>

theorem book_always_ok: "book_ok (fold book_step ops book_new)"
  by (rule book.run_inv [OF book_new_ok])

text \<open>
  C1. Adding an order the book does not hold trades in price-time priority: the orders of the other
  side that its limit crosses are matched as one queue, best price and oldest first (\<open>is_match\<close>: a
  fully filled prefix, at most one partial fill, nothing else touched), the other levels stay as they
  are, and what is left of the order rests behind all orders of its side that are at least as good.
\<close>

theorem add_order_price_time:
  assumes "book_ok b" and "hm_get (oid_to_side_px b) (order_oid o') = None"
  shows "\<exists>filled t. let sd = io_side o'; b' = add_order o' b in
      is_match (order_szn o') (crossing o' (side_levels (other_side sd) b)) filled
        (crossing o' (side_levels (other_side sd) b')) \<and>
      non_crossing o' (side_levels (other_side sd) b') = non_crossing o' (side_levels (other_side sd) b) \<and>
      same_order o' t \<and> order_szn t = order_szn o' - qsum (crossing o' (side_levels (other_side sd) b)) \<and>
      book_queue sd b' = (if order_szn t = 0 then book_queue sd b else enqueue sd t (book_queue sd b))"
  by (rule add_order_queue [OF assms])

definition sample_order :: "u64 \<Rightarrow> side \<Rightarrow> u64 \<Rightarrow> u64 \<Rightarrow> inner_l4_order" where
  "sample_order k sd p s =
     \<lparr>io_user = [], io_coin = Coin ''BTC'', io_side = sd, io_limit_px = Px p, io_sz = Sz s, io_oid = k,
      io_timestamp = 0, io_trigger_condition = ''N/A'', io_is_trigger = False, io_trigger_px = ''0.0'',
      io_is_position_tpsl = False, io_reduce_only = False, io_order_type = ''Limit'',
      io_tif = Some ''Gtc'', io_cloid = None\<rparr>"

theorem add_order_price_time_witness:
  "\<exists>filled t. let o' = sample_order 2 Bid 110 9; b = add_order (sample_order 1 Ask 100 5) book_new;
       b' = add_order o' b in
     is_match (order_szn o') (crossing o' (side_levels Ask b)) filled (crossing o' (side_levels Ask b')) \<and>
     order_szn t = 4 \<and> book_queue Bid b' = enqueue Bid t []"
proof -
  let ?b = "add_order (sample_order 1 Ask 100 5) book_new" and ?o = "sample_order 2 Bid 110 9"
  have ok: "book_ok ?b"
    using fold_add_order_ok [OF book_new_ok, of "[sample_order 1 Ask 100 5]"] by simp
  have "hm_get (oid_to_side_px ?b) (order_oid ?o) = None" "crossing ?o (side_levels Ask ?b) = [(Oid 1, sample_order 1 Ask 100 5)]"
    "book_queue Bid ?b = []" "order_szn ?o = 9" "io_side ?o = Bid" "order_szn (sample_order 1 Ask 100 5) = 5"
    by code_simp+
  then show ?thesis
    using add_order_price_time [OF ok, of ?o] by (auto simp: Let_def split: if_splits)
qed

text \<open>
  C31. A new order whose anchor rests at its price on its side, and which crosses nothing, is queued
  directly in front of the anchor, and the divergence flag stays down.
\<close>

theorem add_order_in_front_of_anchor:
  assumes "book_ok b" and "hm_get (oid_to_side_px b) (order_oid o') = None" and "0 < order_szn o'"
    and "crossing o' (side_levels (other_side (io_side o')) b) = []"
    and "rests b c (io_side o') (io_limit_px o')"
  shows "\<not> fst (add_order_before o' (Some c) b) \<and>
    (\<exists>xs a ys. book_queue (io_side o') b = xs @ (c, a) # ys \<and>
       book_queue (io_side o') (snd (add_order_before o' (Some c) b)) = xs @ (order_oid o', o') # (c, a) # ys)"
proof -
  let ?sd = "io_side o'"
  obtain fell b' where add: "add_order_before o' (Some c) b = (fell, b')" by fastforce
  from add_order_before_parts [OF assms(1,2) add] assms(3,4) obtain t where
    t: "same_order o' t" "order_szn t = order_szn o'" "(fell, side_levels ?sd b') = add_order_to_book (side_levels ?sd b) t (Some c)"
    by (auto split: if_splits)
  then have "t = o'"
    by (simp add: same_order_def szn_inject)
  obtain l a where l: "map_of (side_levels ?sd b) (io_limit_px o') = Some l" "map_of (orders l) c = Some a"
    using assms(5) by (metis map_of_eq_None_iff not_None_eq rests_def)
  note anchor = add_to_book_anchor [OF side_okI [OF assms(1)] l fresh_at_level [OF assms(1,2) l(1)]]
  show ?thesis
    using anchor(1) anchor(2) t(3) unfolding add book_queue_def \<open>t = o'\<close>
    by (metis fst_conv snd_conv)
qed

theorem add_order_in_front_of_anchor_witness:
  "\<exists>xs a ys. let b = add_order (sample_order 1 Bid 100 5) book_new; o' = sample_order 2 Bid 100 7 in
     book_queue Bid b = xs @ (Oid 1, a) # ys \<and>
     book_queue Bid (snd (add_order_before o' (Some (Oid 1)) b)) = xs @ (Oid 2, o') # (Oid 1, a) # ys"
proof -
  let ?b = "add_order (sample_order 1 Bid 100 5) book_new" and ?o = "sample_order 2 Bid 100 7"
  have ok: "book_ok ?b"
    using fold_add_order_ok [OF book_new_ok, of "[sample_order 1 Bid 100 5]"] by simp
  have "hm_get (oid_to_side_px ?b) (order_oid ?o) = None" "0 < order_szn ?o"
    "crossing ?o (side_levels (other_side (io_side ?o)) ?b) = []"
    "hm_get (oid_to_side_px ?b) (Oid 1) = Some (Bid, Px 100)" "io_side ?o = Bid" "io_limit_px ?o = Px 100" "order_oid ?o = Oid 2"
    by code_simp+
  then show ?thesis
    using add_order_in_front_of_anchor [OF ok, of ?o "Oid 1"] index_okD [of ?b "Oid 1" Bid "Px 100"] ok
    by (auto simp: Let_def book_ok_def)
qed

text \<open>
  C32. A book is rebuilt from its own snapshot: loading \<open>to_snapshot\<close> back with \<open>from_snapshot\<close> gives a
  well-formed book with the same orders in the same priority on both sides.
\<close>

theorem snapshot_roundtrip:
  assumes "book_ok b"
  shows "book_ok (from_snapshot (to_snapshot b) False) \<and>
    to_snapshot (from_snapshot (to_snapshot b) False) = to_snapshot b"
  using from_snapshot_queues [OF assms] by (simp add: to_snapshot_queues [of "from_snapshot _ _"] to_snapshot_queues [of b])

theorem snapshot_roundtrip_witness:
  "let b = fold book_step [AddBefore (sample_order 1 Bid 100 5) None, AddBefore (sample_order 2 Ask 110 7) None] book_new in
     to_snapshot (from_snapshot (to_snapshot b) False) = to_snapshot b"
  unfolding Let_def by (rule snapshot_roundtrip [OF book.run_inv [OF book_new_ok], THEN conjunct2])



text \<open>
  The running sums stay exact under insertion as long as the sizes resting at the order's price,
  with the new order, sum to less than two to the 64th, and under cancellation always.
\<close>

theorem running_sums_exact:
  assumes "book_ok b" and "book_agg b" and "px_sum (io_side o') (io_limit_px o') b + order_szn o' < 2 ^ 64"
  shows "book_agg (snd (add_order_before o' ib b)) \<and> book_agg (snd (cancel_order k b))"
  using add_order_before_agg [OF assms] cancel_order_agg [OF assms(1,2)] by simp

theorem running_sums_exact_witness:
  "book_agg (snd (add_order_before (sample_order 1 Bid 100 5) None book_new))"
  using running_sums_exact [OF book_new_ok, of "sample_order 1 Bid 100 5" None]
  by (simp add: book_agg_def side_agg_def book_new_def px_sum_def sample_order_def)

text \<open>
  Once a sum has saturated it stays wrong: after orders of the largest size and of size five join a
  level and the large one leaves, the level still holds the small order but its running sum is zero, so
  the assertion of \<open>debug_validate\<close> fails.
\<close>

theorem saturated_sum_drifts:
  "let big = sample_order 1 Bid 100 18446744073709551615; small = sample_order 2 Bid 100 5;
       l = snd (level_remove (Oid 1) (snd (level_push_back (Oid 2) small (snd (level_push_back (Oid 1) big level_new)))))
   in level_to_vec l = [small] \<and> total_sz l = 0 \<and> \<not> debug_validate l"
  by code_simp

end
