(* ===== verification/Levels.thy ===== *)
theory Levels
  imports Order_Book
begin

text \<open>
  \<open>server/src/order_book/levels.rs\<close>: the aggregated (L2) view of a book. The price levels of a side are
  walked from the best price on and merged into buckets of \<open>n_sig_figs\<close> significant figures, up to
  \<open>n_levels\<close> of them.

  \<open>Px::num_digits\<close> takes the floor of an \<open>f64\<close> logarithm, whose precision the standard library leaves
  open: that floor is the parameter \<open>log10_floor\<close> of the definitions, and the theorems that need it to be
  right say so (\<open>log10_exact\<close>). A division by a zero increment panics; the operations return \<open>None\<close> then.

  Shown: a bounded view is a prefix of the unbounded one; for the parameters a subscription may ask for,
  the view never panics and its levels are exactly the buckets of the book's levels, each with the sum of
  the sizes and the counts of the levels that fall into it.
\<close>

section \<open>Definitions\<close>

record inner_level =
  il_px :: px
  il_sz :: sz
  il_n :: nat

definition num_digits :: "(u64 \<Rightarrow> nat) \<Rightarrow> px \<Rightarrow> nat" where
  "num_digits log10_floor p = (if px_value p = 0 then 1 else log10_floor (px_value p) + 1)"

definition div_ceil :: "u64 \<Rightarrow> u64 \<Rightarrow> u64" where
  "div_ceil a b = (if a mod b = 0 then a div b else a div b + 1)"

definition bucket :: "(u64 \<Rightarrow> nat) \<Rightarrow> px \<Rightarrow> side \<Rightarrow> nat option \<Rightarrow> u64 option \<Rightarrow> px option" where
  "bucket log10_floor p sd n_sig_figs mantissa =
     (let m = (case mantissa of None \<Rightarrow> 1 | Some m \<Rightarrow> m)
      in case n_sig_figs of
           None \<Rightarrow> Some p
         | Some n \<Rightarrow>
             let digs = num_digits log10_floor p;
                 q = digs - n;
                 inc = m * 10 ^ q
             in if inc = 0 then None
                else Some (case sd of Ask \<Rightarrow> Px (div_ceil (px_value p) inc * inc)
                                    | Bid \<Rightarrow> Px (px_value p div inc * inc)))"

text \<open>
  \<open>build_l2_level\<close> takes one more level into the state (\<open>cur_level\<close>, \<open>levels\<close>); the flag says that the
  view is full. \<open>bk\<close> is \<open>bucket\<close> at the fixed parameters.
\<close>

definition beyond :: "side \<Rightarrow> px \<Rightarrow> px \<Rightarrow> bool" where
  "beyond sd p c = (case sd of Ask \<Rightarrow> px_value c < px_value p | Bid \<Rightarrow> px_value p < px_value c)"

definition build_l2_level ::
  "(px \<Rightarrow> px option) \<Rightarrow> nat option \<Rightarrow> side \<Rightarrow> inner_level option \<times> inner_level list \<Rightarrow> inner_level
     \<Rightarrow> (bool \<times> inner_level option \<times> inner_level list) option" where
  "build_l2_level bk n_levels sd st level =
     (let (cur_level, levels) = st;
          new_bucket = (case cur_level of None \<Rightarrow> True | Some c \<Rightarrow> beyond sd (il_px level) (il_px c))
      in if new_bucket
         then Option.bind (bk (il_px level)) (\<lambda>b.
              let levels' = (case cur_level of None \<Rightarrow> levels | Some c \<Rightarrow> levels @ [c])
              in if n_levels = Some (length levels') then Some (True, None, levels')
                 else Some (False, Some \<lparr>il_px = b, il_sz = il_sz level, il_n = il_n level\<rparr>, levels'))
         else case cur_level of
                None \<Rightarrow> Some (False, None, levels)
              | Some c \<Rightarrow> Some (False, Some (c\<lparr>il_sz := il_sz level + il_sz c, il_n := il_n c + il_n level\<rparr>), levels))"

text \<open>The loop, and what follows it: \<open>levels.extend(cur_level.take())\<close>.\<close>

fun l2_loop ::
  "(px \<Rightarrow> px option) \<Rightarrow> nat option \<Rightarrow> side \<Rightarrow> inner_level list \<Rightarrow> inner_level option \<times> inner_level list
     \<Rightarrow> inner_level list option" where
  "l2_loop bk n_levels sd [] (cur, levels) = Some (case cur of None \<Rightarrow> levels | Some c \<Rightarrow> levels @ [c])"
| "l2_loop bk n_levels sd (l # ls) (cur, levels) =
     Option.bind (build_l2_level bk n_levels sd (cur, levels) l) (\<lambda>(full, cur', levels').
       if full then Some (case cur' of None \<Rightarrow> levels' | Some c \<Rightarrow> levels' @ [c])
       else l2_loop bk n_levels sd ls (cur', levels'))"

definition l2_levels_to_l2_levels ::
  "(u64 \<Rightarrow> nat) \<Rightarrow> inner_level list \<Rightarrow> side \<Rightarrow> nat option \<Rightarrow> nat option \<Rightarrow> u64 option \<Rightarrow> inner_level list option" where
  "l2_levels_to_l2_levels log10_floor ls sd n_levels n_sig_figs mantissa =
     (if n_levels = Some 0 then Some []
      else l2_loop (\<lambda>p. bucket log10_floor p sd n_sig_figs mantissa) n_levels sd ls (None, []))"

definition level_entry :: "px \<times> price_level \<Rightarrow> inner_level" where
  "level_entry e = \<lparr>il_px = fst e, il_sz = Sz (total_sz (snd e)), il_n = level_len (snd e)\<rparr>"

definition map_to_l2_levels ::
  "(u64 \<Rightarrow> nat) \<Rightarrow> book_side \<Rightarrow> side \<Rightarrow> nat option \<Rightarrow> nat option \<Rightarrow> u64 option \<Rightarrow> inner_level list option" where
  "map_to_l2_levels log10_floor m sd n_levels n_sig_figs mantissa =
     (if n_levels = Some 0 then Some []
      else let it = (case sd of Ask \<Rightarrow> m | Bid \<Rightarrow> rev m)
           in l2_loop (\<lambda>p. bucket log10_floor p sd n_sig_figs mantissa) n_levels sd (map level_entry it) (None, []))"

definition to_l2_snapshot ::
  "(u64 \<Rightarrow> nat) \<Rightarrow> nat option \<Rightarrow> nat option \<Rightarrow> u64 option \<Rightarrow> order_book \<Rightarrow> inner_level snapshot option" where
  "to_l2_snapshot log10_floor n_levels n_sig_figs mantissa b =
     Option.bind (map_to_l2_levels log10_floor (bids b) Bid n_levels n_sig_figs mantissa) (\<lambda>bs.
     map_option (\<lambda>as. (bs, as)) (map_to_l2_levels log10_floor (asks b) Ask n_levels n_sig_figs mantissa))"

definition l2_reaggregate ::
  "(u64 \<Rightarrow> nat) \<Rightarrow> nat option \<Rightarrow> nat option \<Rightarrow> u64 option \<Rightarrow> inner_level snapshot \<Rightarrow> inner_level snapshot option" where
  "l2_reaggregate log10_floor n_levels n_sig_figs mantissa s =
     Option.bind (l2_levels_to_l2_levels log10_floor (fst s) Bid n_levels n_sig_figs mantissa) (\<lambda>bs.
     map_option (\<lambda>as. (bs, as)) (l2_levels_to_l2_levels log10_floor (snd s) Ask n_levels n_sig_figs mantissa))"

section \<open>Truncation\<close>

lemma l2_loop_extends:
  "l2_loop bk None sd ls (cur, levels) = Some r \<Longrightarrow>
     \<exists>t. r = (case cur of None \<Rightarrow> levels | Some c \<Rightarrow> levels) @ t"
proof (induction ls arbitrary: cur levels)
  case Nil
  then show ?case by (cases cur) auto
next
  case (Cons l ls)
  show ?case
  proof (cases cur)
    case None
    then obtain b where "l2_loop bk None sd ls (Some \<lparr>il_px = b, il_sz = il_sz l, il_n = il_n l\<rparr>, levels) = Some r"
      using Cons.prems by (auto simp: build_l2_level_def bind_eq_Some_conv)
    from Cons.IH [OF this] None show ?thesis by simp
  next
    case (Some c)
    show ?thesis
    proof (cases "beyond sd (il_px l) (il_px c)")
      case True
      then obtain b where "l2_loop bk None sd ls
          (Some \<lparr>il_px = b, il_sz = il_sz l, il_n = il_n l\<rparr>, levels @ [c]) = Some r"
        using Cons.prems Some by (auto simp: build_l2_level_def bind_eq_Some_conv)
      from Cons.IH [OF this] Some show ?thesis by auto
    next
      case False
      then have "l2_loop bk None sd ls
          (Some (c\<lparr>il_sz := il_sz l + il_sz c, il_n := il_n c + il_n l\<rparr>), levels) = Some r"
        using Cons.prems Some by (auto simp: build_l2_level_def)
      from Cons.IH [OF this] Some show ?thesis by simp
    qed
  qed
qed

lemma l2_loop_prefix:
  "l2_loop bk None sd ls (cur, levels) = Some r \<Longrightarrow> length levels < n \<Longrightarrow>
     l2_loop bk (Some n) sd ls (cur, levels) = Some (take n r)"
proof (induction ls arbitrary: cur levels)
  case Nil
  then show ?case by (cases cur) auto
next
  case (Cons l ls)
  show ?case
  proof (cases cur)
    case None
    then obtain b where b: "bk (il_px l) = Some b"
      "l2_loop bk None sd ls (Some \<lparr>il_px = b, il_sz = il_sz l, il_n = il_n l\<rparr>, levels) = Some r"
      using Cons.prems by (auto simp: build_l2_level_def bind_eq_Some_conv)
    then show ?thesis
      using Cons.IH [OF b(2)] Cons.prems(2) None by (simp add: build_l2_level_def)
  next
    case (Some c)
    show ?thesis
    proof (cases "beyond sd (il_px l) (il_px c)")
      case True
      then obtain b where b: "bk (il_px l) = Some b"
        "l2_loop bk None sd ls (Some \<lparr>il_px = b, il_sz = il_sz l, il_n = il_n l\<rparr>, levels @ [c]) = Some r"
        using Cons.prems Some by (auto simp: build_l2_level_def bind_eq_Some_conv)
      obtain t where "r = levels @ [c] @ t"
        using l2_loop_extends [OF b(2)] by auto
      then show ?thesis
        using Cons.IH [OF b(2)] Cons.prems(2) Some True b(1)
        by (cases "Suc (length levels) = n") (auto simp: build_l2_level_def)
    next
      case False
      then have "l2_loop bk None sd ls
          (Some (c\<lparr>il_sz := il_sz l + il_sz c, il_n := il_n c + il_n l\<rparr>), levels) = Some r"
        using Cons.prems Some by (auto simp: build_l2_level_def)
      from Cons.IH [OF this Cons.prems(2)] Some False show ?thesis
        by (simp add: build_l2_level_def)
    qed
  qed
qed

lemma map_to_l2_levels_prefix:
  assumes "map_to_l2_levels L m sd None nsf man = Some r"
  shows "map_to_l2_levels L m sd (Some n) nsf man = Some (take n r)"
  using assms l2_loop_prefix [of _ sd _ None "[]" r n]
  by (cases "n = 0") (auto simp: map_to_l2_levels_def Let_def)

section \<open>Grouping\<close>

text \<open>
  The reference: the distinct buckets in order, each with the levels that fall into it added up.
\<close>

definition l2_group :: "(px \<Rightarrow> px) \<Rightarrow> inner_level list \<Rightarrow> px \<Rightarrow> inner_level" where
  "l2_group b ls p =
     (let here = filter (\<lambda>l. b (il_px l) = p) ls
      in \<lparr>il_px = p, il_sz = sum_list (map il_sz here), il_n = sum_list (map il_n here)\<rparr>)"

definition l2_ref :: "(px \<Rightarrow> px) \<Rightarrow> inner_level list \<Rightarrow> inner_level list" where
  "l2_ref b ls = map (l2_group b ls) (remdups_adj (map (\<lambda>l. b (il_px l)) ls))"

text \<open>
  What the loop needs of a bucket function: on prices in walking order, a price is beyond the bucket
  of an earlier one exactly when its own bucket is another one, and buckets move in walking order.
\<close>

locale bucketing =
  fixes sd :: side and b :: "px \<Rightarrow> px" and ok :: "px \<Rightarrow> bool"
  assumes same_bucket: "ok p \<Longrightarrow> ok q \<Longrightarrow> p = q \<or> better sd p q \<Longrightarrow> beyond sd q (b p) \<longleftrightarrow> b q \<noteq> b p"
    and mono: "ok p \<Longrightarrow> ok q \<Longrightarrow> better sd p q \<Longrightarrow> b p = b q \<or> better sd (b p) (b q)"
begin

fun groups :: "inner_level \<Rightarrow> inner_level list \<Rightarrow> inner_level list" where
  "groups c [] = [c]"
| "groups c (l # ls) =
     (if b (il_px l) = il_px c then groups (c\<lparr>il_sz := il_sz l + il_sz c, il_n := il_n c + il_n l\<rparr>) ls
      else c # groups \<lparr>il_px = b (il_px l), il_sz = il_sz l, il_n = il_n l\<rparr> ls)"

lemma loop_groups:
  assumes "ok p0" "il_px c = b p0" "\<forall>l \<in> set ls. ok (il_px l) \<and> (p0 = il_px l \<or> better sd p0 (il_px l))"
    and "sorted_wrt (better sd) (map il_px ls)"
  shows "l2_loop (\<lambda>p. Some (b p)) None sd ls (Some c, levels) = Some (levels @ groups c ls)"
  using assms
proof (induction ls arbitrary: p0 c levels)
  case (Cons l ls)
  have test: "beyond sd (il_px l) (il_px c) \<longleftrightarrow> b (il_px l) \<noteq> il_px c"
    using same_bucket [of p0 "il_px l"] Cons.prems by simp
  have rest: "\<forall>x \<in> set ls. ok (il_px x) \<and> (il_px l = il_px x \<or> better sd (il_px l) (il_px x))"
    "sorted_wrt (better sd) (map il_px ls)" "ok (il_px l)"
    using Cons.prems by auto
  show ?case
    using test Cons.IH [of "il_px l"] rest by (auto simp: build_l2_level_def)
qed simp

lemma remdups_adj_same:
  "pre \<noteq> [] \<Longrightarrow> \<forall>x \<in> set pre. x = p \<Longrightarrow> xs = [] \<or> hd xs \<noteq> p \<Longrightarrow> remdups_adj (pre @ xs) = p # remdups_adj xs"
proof (induction pre)
  case (Cons y pre)
  then show ?case
    by (cases pre; cases xs) auto
qed simp

lemma groups_ref:
  assumes "pre \<noteq> []" "\<forall>l \<in> set pre. b (il_px l) = p"
    and "c = \<lparr>il_px = p, il_sz = sum_list (map il_sz pre), il_n = sum_list (map il_n pre)\<rparr>"
    and "sorted_wrt (\<lambda>x y. x = y \<or> better sd x y) (p # map (\<lambda>l. b (il_px l)) ls)"
  shows "groups c ls = l2_ref b (pre @ ls)"
  using assms
proof (induction ls arbitrary: pre p c)
  case Nil
  then have "remdups_adj (map (\<lambda>l. b (il_px l)) pre) = [p]"
    using remdups_adj_same [of "map (\<lambda>l. b (il_px l)) pre" p "[]"] by auto
  then show ?case
    using Nil by (simp add: l2_ref_def l2_group_def Let_def filter_id_conv)
next
  case (Cons l ls)
  show ?case
  proof (cases "b (il_px l) = p")
    case True
    then have "groups (c\<lparr>il_sz := il_sz l + il_sz c, il_n := il_n c + il_n l\<rparr>) ls = l2_ref b ((pre @ [l]) @ ls)"
      using Cons.prems by (intro Cons.IH [of _ p]) (auto simp: ac_simps)
    then show ?thesis
      using True Cons.prems(3) by simp
  next
    case False
    let ?q = "b (il_px l)"
    have anti: "\<And>x y. better sd x y \<Longrightarrow> \<not> better sd y x \<and> x \<noteq> y"
      by (cases sd) (auto simp: better_simps)
    have far: "\<forall>x \<in> set (l # ls). b (il_px x) \<noteq> p"
      using Cons.prems(4) False anti by auto
    have "groups \<lparr>il_px = ?q, il_sz = il_sz l, il_n = il_n l\<rparr> ls = l2_ref b ([l] @ ls)"
      using Cons.prems(4) by (intro Cons.IH [of _ ?q]) auto
    moreover have "l2_group b (pre @ l # ls) q = l2_group b (l # ls) q" if "q \<noteq> p" for q
      using that Cons.prems(2) by (simp add: l2_group_def filter_empty_conv)
    moreover have "l2_group b (pre @ l # ls) p = c"
      using far Cons.prems(2,3) by (simp add: l2_group_def Let_def filter_id_conv filter_empty_conv)
    moreover have "remdups_adj (map (\<lambda>x. b (il_px x)) (pre @ l # ls)) =
        p # remdups_adj (map (\<lambda>x. b (il_px x)) (l # ls))"
      using remdups_adj_same [of "map (\<lambda>x. b (il_px x)) pre" p "map (\<lambda>x. b (il_px x)) (l # ls)"]
        Cons.prems(1,2) False by auto
    ultimately show ?thesis
      using False far Cons.prems(3) by (auto simp: l2_ref_def)
  qed
qed

lemma loop_ref:
  assumes "\<forall>l \<in> set ls. ok (il_px l)" and "sorted_wrt (better sd) (map il_px ls)"
  shows "l2_loop (\<lambda>p. Some (b p)) None sd ls (None, []) = Some (l2_ref b ls)"
proof (cases ls)
  case (Cons l ls')
  let ?c = "\<lparr>il_px = b (il_px l), il_sz = il_sz l, il_n = il_n l\<rparr>"
  have "sorted_wrt (\<lambda>x y. x = y \<or> better sd x y) (map (\<lambda>l. b (il_px l)) ls)"
    using assms mono by (auto simp: sorted_wrt_map intro!: sorted_wrt_mono_rel [OF _ assms(2) [unfolded sorted_wrt_map]])
  then have "groups ?c ls' = l2_ref b ([l] @ ls')"
    using Cons by (intro groups_ref [of _ "b (il_px l)"]) auto
  moreover have "l2_loop (\<lambda>p. Some (b p)) None sd ls' (Some ?c, []) = Some ([] @ groups ?c ls')"
    using assms Cons by (intro loop_groups [of "il_px l"]) auto
  ultimately show ?thesis
    using Cons by (simp add: build_l2_level_def)
qed (simp add: l2_ref_def)

end

section \<open>Buckets\<close>

text \<open>Rounding on the numbers.\<close>

definition ceil_to :: "nat \<Rightarrow> nat \<Rightarrow> nat" where
  "ceil_to i v = (v + i - 1) div i * i"

definition floor_to :: "nat \<Rightarrow> nat \<Rightarrow> nat" where
  "floor_to i v = v div i * i"

lemma floor_to_bounds:
  assumes "0 < i" shows "floor_to i v \<le> v" and "v < floor_to i v + i"
  using div_mult_mod_eq [of v i] mod_less_divisor [OF assms, of v] unfolding floor_to_def by linarith+

lemma floor_to_dvd [simp]: "i dvd floor_to i v"
  by (simp add: floor_to_def)

lemma ceil_to_dvd [simp]: "i dvd ceil_to i v"
  by (simp add: ceil_to_def)

lemma ceil_to_bounds:
  assumes "0 < i"
  shows "v \<le> ceil_to i v" and "ceil_to i v < v + i"
  using floor_to_bounds [OF assms, of "v + i - 1"] assms unfolding floor_to_def ceil_to_def by linarith+

lemma multiple_near:
  assumes "i dvd (x :: nat)" "i dvd y" "x < y + i" "y < x + i" shows "x = y"
proof -
  obtain j k where xy: "x = i * j" "y = i * k"
    using assms(1,2) by (elim dvdE)
  have "i * j < i * Suc k" "i * k < i * Suc j"
    using assms(3,4) by (simp_all add: xy)
  then have "j < Suc k" "k < Suc j"
    by (metis mult_less_cancel1)+
  then show ?thesis
    by (simp add: xy)
qed

lemma multiple_gap:
  assumes "i dvd (x :: nat)" "i dvd y" "x < y" shows "x + i \<le> y"
  using dvd_imp_le [OF dvd_diff_nat [OF assms(2,1)]] assms(3) by simp

lemma floor_to_eq: "0 < i \<Longrightarrow> i dvd x \<Longrightarrow> x \<le> v \<Longrightarrow> v < x + i \<Longrightarrow> floor_to i v = x"
  using floor_to_bounds [of i v] by (intro multiple_near) auto

lemma ceil_to_eq: "0 < i \<Longrightarrow> i dvd x \<Longrightarrow> v \<le> x \<Longrightarrow> x < v + i \<Longrightarrow> ceil_to i v = x"
  using ceil_to_bounds [of i v] by (intro multiple_near) auto

lemma ceil_to_least: "0 < i \<Longrightarrow> i dvd x \<Longrightarrow> v \<le> x \<Longrightarrow> ceil_to i v \<le> x"
proof (rule ccontr)
  assume a: "0 < i" "i dvd x" "v \<le> x" "\<not> ceil_to i v \<le> x"
  then have "x + i \<le> ceil_to i v"
    using multiple_gap [of i x "ceil_to i v"] by simp
  then show False
    using ceil_to_bounds [OF a(1), of v] a(3) by simp
qed

lemma floor_to_greatest: "0 < i \<Longrightarrow> i dvd x \<Longrightarrow> x \<le> v \<Longrightarrow> x \<le> floor_to i v"
proof (rule ccontr)
  assume a: "0 < i" "i dvd x" "x \<le> v" "\<not> x \<le> floor_to i v"
  then have "floor_to i v + i \<le> x"
    using multiple_gap [of i "floor_to i v" x] by simp
  then show False
    using floor_to_bounds [OF a(1), of v] a(3) by simp
qed

text \<open>
  The increment of a price with \<open>d\<close> digits, for \<open>n\<close> significant figures and mantissa \<open>m\<close>, and the
  pairs a subscription may ask for (\<open>Subscription::validate\<close>).
\<close>

definition incr :: "nat \<Rightarrow> nat \<Rightarrow> nat \<Rightarrow> nat" where
  "incr n m d = m * 10 ^ (d - n)"

definition agg_params :: "nat \<Rightarrow> nat \<Rightarrow> bool" where
  "agg_params n m \<longleftrightarrow> 2 \<le> n \<and> n \<le> 5 \<and> (m = 1 \<or> n = 5 \<and> (m = 2 \<or> m = 5))"

lemma agg_params_dvd:
  assumes "agg_params n m" and "0 < k" shows "m dvd 10 ^ k"
proof -
  have "m dvd 10"
    using assms(1) by (auto simp: agg_params_def)
  then show ?thesis
    using assms(2) by (metis dvd_power dvd_trans)
qed

lemma incr_pos: "agg_params n m \<Longrightarrow> 0 < incr n m d"
  by (auto simp: agg_params_def incr_def)

lemma incr_dvd:
  assumes "agg_params n m" "2 \<le> d" shows "incr n m d dvd 10 ^ (d - 1)"
proof (cases "n \<le> d")
  case True
  have "n - 1 + (d - n) = d - 1"
    using True assms(1) by (auto simp: agg_params_def)
  then have "(10 :: nat) ^ (d - 1) = 10 ^ (n - 1) * 10 ^ (d - n)"
    by (metis power_add)
  moreover have "m dvd 10 ^ (n - 1)"
    using assms(1) by (intro agg_params_dvd) (auto simp: agg_params_def)
  ultimately show ?thesis
    by (simp add: incr_def mult_dvd_mono)
next
  case False
  then show ?thesis
    using agg_params_dvd [OF assms(1), of "d - 1"] assms(2) by (simp add: incr_def)
qed

lemma incr_dvd_next:
  assumes "agg_params n m" "1 \<le> d" shows "incr n m d dvd 10 ^ d"
proof -
  have "incr n m d dvd incr n m (d + 1)"
    by (simp add: incr_def power_le_dvd le_imp_power_dvd mult_dvd_mono)
  then show ?thesis
    using incr_dvd [OF assms(1), of "d + 1"] assms(2) by (auto intro: dvd_trans)
qed

text \<open>The number of decimal digits, as a relation.\<close>

definition has_digits :: "nat \<Rightarrow> nat \<Rightarrow> bool" where
  "has_digits v d \<longleftrightarrow> 1 \<le> d \<and> v < 10 ^ d \<and> (v = 0 \<and> d = 1 \<or> 10 ^ (d - 1) \<le> v)"

lemma has_digits_less: "has_digits v d \<Longrightarrow> has_digits w e \<Longrightarrow> d < e \<Longrightarrow> v < 10 ^ (e - 1) \<and> 10 ^ (e - 1) \<le> w \<and> 2 \<le> e"
proof -
  assume a: "has_digits v d" "has_digits w e" "d < e"
  then have "(10 :: nat) ^ d \<le> 10 ^ (e - 1)"
    by (intro power_increasing) auto
  moreover have "v < 10 ^ d" "10 ^ (e - 1) \<le> w" "2 \<le> e"
    using a by (auto simp: has_digits_def)
  ultimately show ?thesis
    by linarith
qed

lemma has_digits_mono: "has_digits v d \<Longrightarrow> has_digits w e \<Longrightarrow> v \<le> w \<Longrightarrow> d \<le> e"
  using has_digits_less [of w e v d] by (meson leD leI le_less_trans less_le_trans)

lemma ceil_same:
  assumes p: "agg_params n m" and v: "has_digits v d" and w: "has_digits w e" and vw: "v \<le> w"
  shows "w \<le> ceil_to (incr n m d) v \<longleftrightarrow> ceil_to (incr n m e) w = ceil_to (incr n m d) v"
proof -
  note pos = incr_pos [OF p]
  have "ceil_to (incr n m e) w = ceil_to (incr n m d) v" if le: "w \<le> ceil_to (incr n m d) v"
  proof (cases "d = e")
    case True
    then show ?thesis
      using le vw ceil_to_bounds [of "incr n m e" v] pos by (intro ceil_to_eq) auto
  next
    case False
    then have de: "d < e"
      using has_digits_mono [OF v w vw] by simp
    have "ceil_to (incr n m d) v \<le> 10 ^ d"
      using v incr_dvd_next [OF p, of d] pos by (intro ceil_to_least) (auto simp: has_digits_def)
    moreover have "(10 :: nat) ^ d \<le> 10 ^ (e - 1)"
      using de by (intro power_increasing) auto
    ultimately have eq: "w = 10 ^ (e - 1)" "ceil_to (incr n m d) v = w" "2 \<le> e"
      using has_digits_less [OF v w de] le by linarith+
    have "ceil_to (incr n m e) w = w"
      using incr_dvd [OF p eq(3)] pos eq(1) by (intro ceil_to_eq) auto
    then show ?thesis
      using eq by simp
  qed
  moreover have "w \<le> ceil_to (incr n m e) w"
    by (rule ceil_to_bounds [OF pos])
  ultimately show ?thesis
    by auto
qed

lemma floor_same:
  assumes p: "agg_params n m" and v: "has_digits v d" and w: "has_digits w e" and vw: "w \<le> v"
  shows "floor_to (incr n m d) v \<le> w \<longleftrightarrow> floor_to (incr n m e) w = floor_to (incr n m d) v"
proof -
  note pos = incr_pos [OF p]
  have "floor_to (incr n m e) w = floor_to (incr n m d) v" if le: "floor_to (incr n m d) v \<le> w"
  proof (cases "d = e")
    case True
    then show ?thesis
      using le vw floor_to_bounds [of "incr n m e" v] pos by (intro floor_to_eq) auto
  next
    case False
    then have de: "e < d"
      using has_digits_mono [OF w v vw] by simp
    note l = has_digits_less [OF w v de]
    have "10 ^ (d - 1) \<le> floor_to (incr n m d) v"
      using l incr_dvd [OF p, of d] pos by (intro floor_to_greatest) auto
    then show ?thesis
      using l le by simp
  qed
  moreover have "floor_to (incr n m e) w \<le> w"
    by (rule floor_to_bounds [OF pos])
  ultimately show ?thesis
    by auto
qed

text \<open>The words compute the rounding on numbers: no wrap-around for prices below \<open>10 ^ 19\<close>.\<close>

lemma unat_word_of_nat: "x < 2 ^ 64 \<Longrightarrow> unat (word_of_nat x :: u64) = x"
  by (simp add: unsigned_of_nat take_bit_nat_eq_self)

lemma unat_incr:
  assumes "agg_params n (unat m)" and "d \<le> 19"
  shows "unat (m * 10 ^ (d - n) :: u64) = incr n (unat m) d" and "incr n (unat m) d \<le> 5 * 10 ^ 17"
proof -
  have "(10 :: nat) ^ (d - n) \<le> 10 ^ 17"
    using assms by (intro power_increasing) (auto simp: agg_params_def)
  moreover have "unat m \<le> 5"
    using assms(1) by (auto simp: agg_params_def)
  ultimately show le: "incr n (unat m) d \<le> 5 * 10 ^ 17"
    unfolding incr_def by (rule mult_le_mono [rotated])
  have "(m * 10 ^ (d - n) :: u64) = word_of_nat (incr n (unat m) d)"
    by (simp add: incr_def)
  then show "unat (m * 10 ^ (d - n) :: u64) = incr n (unat m) d"
    using le by (simp only: unat_word_of_nat) (simp add: unat_word_of_nat)
qed

lemma unat_floor:
  "unat (a div i * i :: u64) = floor_to (unat i) (unat a)"
proof -
  have "unat (a div i) * unat i \<le> unat a"
    by (simp add: unat_div_distrib)
  then have "unat (a div i) * unat i < 2 ^ 64"
    using unsigned_less [of a, where 'a = nat] by simp
  then have "unat (a div i * i) = unat (a div i) * unat i"
    using unat_mult_lem [of "a div i" i] by simp
  then show ?thesis
    by (simp add: unat_div_distrib floor_to_def)
qed

lemma unat_ceil:
  assumes "0 < unat i" and "unat a + unat i < 2 ^ 64"
  shows "unat (div_ceil a i * i :: u64) = ceil_to (unat i) (unat a)"
proof (cases "a mod i = 0")
  case True
  then have "unat i dvd unat a"
    by (metis dvd_eq_mod_eq_0 unat_mod_distrib unsigned_0)
  then have "ceil_to (unat i) (unat a) = unat a" "floor_to (unat i) (unat a) = unat a"
    using assms(1) by (auto intro!: ceil_to_eq floor_to_eq)
  then show ?thesis
    using True unat_floor [of a i] by (simp add: div_ceil_def)
next
  case False
  have nd: "unat a mod unat i \<noteq> 0"
    using False by (metis unat_eq_zero unat_mod_distrib)
  let ?f = "floor_to (unat i) (unat a)"
  have lt: "?f < unat a" "unat a < ?f + unat i"
    using floor_to_bounds(2) [OF assms(1), of "unat a"] nd div_mult_mod_eq [of "unat a" "unat i"]
    unfolding floor_to_def by linarith+
  have eq: "div_ceil a i * i = a div i * i + i"
    using False by (simp add: div_ceil_def algebra_simps)
  have "unat (a div i * i) + unat i < 2 ^ 64"
    using unat_floor [of a i] lt assms(2) by linarith
  then have "unat (a div i * i + i) = unat (a div i * i) + unat i"
    using unat_add_lem [of "a div i * i" i] by simp
  then have "unat (div_ceil a i * i) = ?f + unat i"
    unfolding eq unat_floor .
  moreover have "ceil_to (unat i) (unat a) = ?f + unat i"
    using lt assms(1) by (intro ceil_to_eq) auto
  ultimately show ?thesis
    by simp
qed

definition log10_exact :: "(u64 \<Rightarrow> nat) \<Rightarrow> px \<Rightarrow> bool" where
  "log10_exact L p \<longleftrightarrow> has_digits (unat (px_value p)) (num_digits L p)"

definition man_value :: "u64 option \<Rightarrow> nat" where
  "man_value man = (case man of None \<Rightarrow> 1 | Some m \<Rightarrow> unat m)"

definition px_ok :: "(u64 \<Rightarrow> nat) \<Rightarrow> px \<Rightarrow> bool" where
  "px_ok L p \<longleftrightarrow> log10_exact L p \<and> unat (px_value p) < 10 ^ 19"

lemma bucket_value:
  assumes "agg_params n (man_value man)" and "px_ok L p"
  defines "i \<equiv> incr n (man_value man) (num_digits L p)"
  shows "\<exists>b. bucket L p sd (Some n) man = Some b \<and>
    unat (px_value b) = (case sd of Ask \<Rightarrow> ceil_to i (unat (px_value p)) | Bid \<Rightarrow> floor_to i (unat (px_value p)))"
proof -
  let ?v = "unat (px_value p)" and ?d = "num_digits L p"
  define m :: u64 where "m = (case man of None \<Rightarrow> 1 | Some m \<Rightarrow> m)"
  have m: "man_value man = unat m"
    by (auto simp: man_value_def m_def split: option.splits)
  have "(10 :: nat) ^ (?d - 1) < 10 ^ 19 \<or> ?d = 1"
    using assms(2) unfolding px_ok_def log10_exact_def has_digits_def by linarith
  then have d: "?d \<le> 19"
    using power_less_imp_less_exp [of "10 :: nat" "?d - 1" 19] by linarith
  note inc = unat_incr [OF assms(1) [unfolded m] d]
  have pos: "0 < i"
    unfolding i_def by (rule incr_pos [OF assms(1)])
  then have nz: "m * 10 ^ (?d - n) \<noteq> 0"
    using inc(1) m by (auto simp: i_def)
  have "?v + i < 2 ^ 64"
    using assms(2) inc(2) m by (simp add: px_ok_def i_def)
  then have "unat (div_ceil (px_value p) (m * 10 ^ (?d - n)) * (m * 10 ^ (?d - n))) = ceil_to i ?v"
    using unat_ceil [of "m * 10 ^ (?d - n)" "px_value p"] pos inc(1) m by (simp add: i_def)
  moreover have "unat (px_value p div (m * 10 ^ (?d - n)) * (m * 10 ^ (?d - n))) = floor_to i ?v"
    using unat_floor [of "px_value p" "m * 10 ^ (?d - n)"] inc(1) m by (simp add: i_def)
  ultimately show ?thesis
    using nz by (cases sd) (simp_all add: bucket_def Let_def m_def [symmetric])
qed

text \<open>
  The parameters \<open>Subscription::validate\<close> lets through, and \<open>bucket\<close> at such parameters as a total
  function.
\<close>

definition valid_params :: "nat option \<Rightarrow> u64 option \<Rightarrow> bool" where
  "valid_params nsf man \<longleftrightarrow> (case nsf of None \<Rightarrow> man = None | Some n \<Rightarrow> agg_params n (man_value man))"

definition l2_bucket :: "(u64 \<Rightarrow> nat) \<Rightarrow> side \<Rightarrow> nat option \<Rightarrow> u64 option \<Rightarrow> px \<Rightarrow> px" where
  "l2_bucket L sd nsf man p = (if valid_params nsf man then the (bucket L p sd nsf man) else p)"

lemma l2_bucket_Some: "agg_params n (man_value man) \<Longrightarrow> px_ok L p \<Longrightarrow>
  bucket L p sd (Some n) man = Some (l2_bucket L sd (Some n) man p)"
  using bucket_value [of n man L p sd] by (auto simp: l2_bucket_def valid_params_def)

lemma bucket_total:
  "valid_params nsf man \<Longrightarrow> px_ok L p \<Longrightarrow> bucket L p sd nsf man = Some (l2_bucket L sd nsf man p)"
  by (cases nsf) (auto simp: l2_bucket_Some valid_params_def, simp_all add: bucket_def l2_bucket_def valid_params_def)

lemma px_eq_iff: "p = q \<longleftrightarrow> unat (px_value p) = unat (px_value q)"
  by (cases p; cases q) (simp add: unat_eq_iff)

lemma px_less_iff: "p < q \<longleftrightarrow> unat (px_value p) < unat (px_value q)"
  by (simp add: less_px_def word_less_nat_alt)

lemma l2_bucket_unat:
  assumes "agg_params n (man_value man)" "px_ok L p"
  shows "unat (px_value (l2_bucket L sd (Some n) man p)) =
    (case sd of Ask \<Rightarrow> ceil_to (incr n (man_value man) (num_digits L p)) (unat (px_value p))
              | Bid \<Rightarrow> floor_to (incr n (man_value man) (num_digits L p)) (unat (px_value p)))"
  using bucket_value [OF assms, of sd] l2_bucket_Some [OF assms, of sd] by auto

lemma l2_bucket_same:
  assumes "px_ok L p" "px_ok L q" "p = q \<or> better sd p q"
  shows "beyond sd q (l2_bucket L sd nsf man p) \<longleftrightarrow> l2_bucket L sd nsf man q \<noteq> l2_bucket L sd nsf man p"
proof (cases "valid_params nsf man \<and> nsf \<noteq> None")
  case True
  then obtain n where n: "nsf = Some n" "agg_params n (man_value man)"
    by (auto simp: valid_params_def)
  have dig: "has_digits (unat (px_value p)) (num_digits L p)" "has_digits (unat (px_value q)) (num_digits L q)"
    using assms by (auto simp: px_ok_def log10_exact_def)
  show ?thesis
  proof (cases sd)
    case Ask
    then have "unat (px_value p) \<le> unat (px_value q)"
      using assms(3) by (auto simp: better_simps px_less_iff)
    from ceil_same [OF n(2) dig this] show ?thesis
      using l2_bucket_unat [OF n(2) assms(1), of sd] l2_bucket_unat [OF n(2) assms(2), of sd] Ask n(1)
      by (auto simp: beyond_def px_eq_iff word_less_nat_alt)
  next
    case Bid
    then have "unat (px_value q) \<le> unat (px_value p)"
      using assms(3) by (auto simp: better_simps px_less_iff)
    from floor_same [OF n(2) dig this] show ?thesis
      using l2_bucket_unat [OF n(2) assms(1), of sd] l2_bucket_unat [OF n(2) assms(2), of sd] Bid n(1)
      by (auto simp: beyond_def px_eq_iff word_less_nat_alt)
  qed
next
  case False
  then have "l2_bucket L sd nsf man x = x" for x
    by (auto simp: l2_bucket_def bucket_def)
  then show ?thesis
    using assms(3) by (cases sd) (auto simp: beyond_def better_simps less_px_def)
qed

interpretation bk: bucketing sd "l2_bucket L sd nsf man" "px_ok L" for sd L nsf man
proof unfold_locales
  fix p q assume ok: "px_ok L p" "px_ok L q"
  show "p = q \<or> better sd p q \<Longrightarrow>
      beyond sd q (l2_bucket L sd nsf man p) \<longleftrightarrow> l2_bucket L sd nsf man q \<noteq> l2_bucket L sd nsf man p"
    by (rule l2_bucket_same [OF ok])
  assume pq: "better sd p q"
  have "\<not> beyond sd q (l2_bucket L sd nsf man q)"
    using l2_bucket_same [OF ok(2,2), of sd nsf man] by simp
  moreover have "beyond sd q (l2_bucket L sd nsf man p) \<or> l2_bucket L sd nsf man q = l2_bucket L sd nsf man p"
    using l2_bucket_same [OF ok] pq by blast
  ultimately show "l2_bucket L sd nsf man p = l2_bucket L sd nsf man q \<or>
      better sd (l2_bucket L sd nsf man p) (l2_bucket L sd nsf man q)"
    by (cases sd) (auto simp: beyond_def better_simps less_px_def)
qed

lemma l2_loop_cong:
  "(\<And>l. l \<in> set ls \<Longrightarrow> bk (il_px l) = bk' (il_px l)) \<Longrightarrow> l2_loop bk n sd ls st = l2_loop bk' n sd ls st"
proof (induction ls arbitrary: st)
  case (Cons l ls)
  obtain cur levels where st: "st = (cur, levels)" by fastforce
  have "build_l2_level bk n sd st l = build_l2_level bk' n sd st l"
    using Cons.prems [of l] by (simp add: build_l2_level_def st)
  then show ?case
    using Cons by (auto simp: st intro!: Option.bind_cong)
qed (metis l2_loop.simps(1) prod.exhaust)

lemma level_entries_sorted:
  "side_ok sd m \<Longrightarrow> sorted_wrt (better sd) (map il_px (map level_entry (prio sd m)))"
  using sorted_prio [of m sd] by (simp add: side_ok_def level_entry_def comp_def)

lemma map_to_l2_levels_ref:
  assumes "valid_params nsf man" "side_ok sd m" "\<forall>e \<in> set m. px_ok L (fst e)"
  shows "map_to_l2_levels L m sd None nsf man = Some (l2_ref (l2_bucket L sd nsf man) (map level_entry (prio sd m)))"
proof -
  have ok: "\<forall>l \<in> set (map level_entry (prio sd m)). px_ok L (il_px l)"
    using assms(3) by (simp add: level_entry_def)
  have "map_to_l2_levels L m sd None nsf man =
      l2_loop (\<lambda>p. bucket L p sd nsf man) None sd (map level_entry (prio sd m)) (None, [])"
    by (cases sd) (simp_all add: map_to_l2_levels_def prio_def)
  also have "\<dots> = l2_loop (\<lambda>p. Some (l2_bucket L sd nsf man p)) None sd (map level_entry (prio sd m)) (None, [])"
    using ok bucket_total [OF assms(1)] by (intro l2_loop_cong) auto
  finally show ?thesis
    using bk.loop_ref [OF ok level_entries_sorted [OF assms(2)]] by simp
qed

text \<open>With no bucketing the view is the list of levels itself.\<close>

lemma l2_ref_id:
  assumes "distinct (map il_px ls)"
  shows "l2_ref (\<lambda>p. p) ls = ls"
proof -
  have "l2_group (\<lambda>p. p) ls (il_px l) = l" if "l \<in> set ls" for l
  proof -
    have "filter (\<lambda>x. il_px x = il_px l) ls = [l]"
      using assms that by (induction ls) (auto simp: filter_empty_conv image_iff)
    then show ?thesis
      by (simp add: l2_group_def)
  qed
  then show ?thesis
    using assms by (simp add: l2_ref_def remdups_adj_distinct map_idI)
qed

interpretation raw: bucketing sd "\<lambda>p. p" "\<lambda>p. True" for sd
  by unfold_locales (cases sd; auto simp: beyond_def better_simps less_px_def)+

lemma sorted_better_distinct: "sorted_wrt (better sd) ps \<Longrightarrow> distinct ps"
proof (induction ps)
  case (Cons p ps)
  then have "\<not> better sd p p"
    by (cases sd) (auto simp: better_simps)
  then show ?case
    using Cons by auto
qed simp

lemma raw_view:
  assumes "side_ok sd m"
  shows "map_to_l2_levels L m sd None None None = Some (map level_entry (prio sd m))"
proof -
  have "map_to_l2_levels L m sd None None None =
      l2_loop (\<lambda>p. Some p) None sd (map level_entry (prio sd m)) (None, [])"
    by (cases sd) (simp_all add: map_to_l2_levels_def prio_def bucket_def)
  also have "\<dots> = Some (l2_ref (\<lambda>p. p) (map level_entry (prio sd m)))"
    using level_entries_sorted [OF assms] by (intro raw.loop_ref) auto
  also have "l2_ref (\<lambda>p. p) (map level_entry (prio sd m)) = map level_entry (prio sd m)"
    using sorted_better_distinct [OF level_entries_sorted [OF assms]] by (rule l2_ref_id)
  finally show ?thesis .
qed

section \<open>Properties\<close>

text \<open>
  A view of at most \<open>n\<close> levels is the first \<open>n\<close> levels of the unbounded view, for every book side and
  every parameters: stopping the walk early loses nothing and cuts no bucket short.
\<close>

theorem l2_truncation:
  assumes "map_to_l2_levels L m sd None nsf man = Some r"
  shows "map_to_l2_levels L m sd (Some n) nsf man = Some (take n r)"
  by (rule map_to_l2_levels_prefix [OF assms])

theorem l2_truncation_witness:
  "map_to_l2_levels (\<lambda>v. 0) (bids (add_order (sample_order 1 Bid 7 5) (add_order (sample_order 2 Bid 6 4) book_new)))
     Bid (Some 1) None None = Some [\<lparr>il_px = Px 7, il_sz = Sz 5, il_n = 1\<rparr>]"
proof -
  let ?m = "bids (add_order (sample_order 1 Bid 7 5) (add_order (sample_order 2 Bid 6 4) book_new))"
  have "map_to_l2_levels (\<lambda>v. 0) ?m Bid None None None =
      Some [\<lparr>il_px = Px 7, il_sz = Sz 5, il_n = 1\<rparr>, \<lparr>il_px = Px 6, il_sz = Sz 4, il_n = 1\<rparr>]"
    by code_simp
  from l2_truncation [OF this, of 1] show ?thesis
    by simp
qed

text \<open>
  For every aggregation a subscription may ask for, on prices below \<open>10 ^ 19\<close> whose digit count is
  right, the walk does not panic and returns exactly the buckets of the side's levels in order, each with
  the sum of the sizes and of the counts of the levels in it, although it only compares every price with
  the bucket being filled.
\<close>

theorem l2_is_grouping:
  assumes "valid_params nsf man" and "side_ok sd m" and "\<forall>e \<in> set m. px_ok L (fst e)"
  shows "map_to_l2_levels L m sd None nsf man =
    Some (l2_ref (\<lambda>p. the (bucket L p sd nsf man)) (map level_entry (prio sd m)))"
proof -
  have "l2_bucket L sd nsf man = (\<lambda>p. the (bucket L p sd nsf man))"
    using assms(1) by (simp add: l2_bucket_def fun_eq_iff)
  then show ?thesis
    using map_to_l2_levels_ref [OF assms] by simp
qed

definition sample_log10 :: "u64 \<Rightarrow> nat" where
  "sample_log10 v = (if v < 10 then 0 else if v < 100 then 1 else if v < 1000 then 2 else 3)"

theorem l2_is_grouping_witness:
  "map_to_l2_levels sample_log10
     (asks (add_order (sample_order 1 Ask 991 5) (add_order (sample_order 2 Ask 1000 4) book_new))) Ask None (Some 2) None =
   Some [\<lparr>il_px = Px 1000, il_sz = Sz 9, il_n = 2\<rparr>]"
proof -
  let ?b = "add_order (sample_order 1 Ask 991 5) (add_order (sample_order 2 Ask 1000 4) book_new)"
  have "book_ok ?b"
    using fold_add_order_ok [OF book_new_ok, of "[sample_order 2 Ask 1000 4, sample_order 1 Ask 991 5]"] by simp
  then have ok: "side_ok Ask (asks ?b)"
    by (simp add: book_ok_def)
  have "map fst (asks ?b) = [Px 991, Px 1000]"
    by code_simp
  then have "fst ` set (asks ?b) = {Px 991, Px 1000}"
    by (metis list.set_map list.simps(15) empty_set)
  moreover have "px_ok sample_log10 (Px 991)" "px_ok sample_log10 (Px 1000)"
    by (simp_all add: px_ok_def log10_exact_def has_digits_def num_digits_def sample_log10_def)
  ultimately have "\<forall>e \<in> set (asks ?b). px_ok sample_log10 (fst e)"
    by (metis imageI insertE singletonD)
  moreover have "valid_params (Some 2) None"
    by (simp add: valid_params_def agg_params_def man_value_def)
  moreover have "l2_ref (\<lambda>p. the (bucket sample_log10 p Ask (Some 2) None)) (map level_entry (prio Ask (asks ?b))) =
      [\<lparr>il_px = Px 1000, il_sz = Sz 9, il_n = 2\<rparr>]"
    by code_simp
  ultimately show ?thesis
    using l2_is_grouping [OF _ ok, of "Some 2" None sample_log10] by simp
qed



text \<open>
  Without the bound on the price the rounding up wraps around: the largest price, asked for with two
  significant figures, lands in a bucket far below itself.
\<close>

theorem ask_bucket_wraps:
  "bucket (\<lambda>v. 19) (Px 18446744073709551615) Ask (Some 2) None = Some (Px 553255926290448384)"
  by code_simp

end
