(* ===== verification/Multi_Book.thy ===== *)
theory Multi_Book
  imports Wire_Types
begin

text \<open>
  All coins' books (\<open>order_book/multi_book.rs\<close>): the ordered map from coin to book, its operations, the
  snapshot map they are loaded from, and the reading of the node's dump.

  \<^item> \<open>order_books\<close> is the \<open>BTreeMap<Coin, OrderBook>\<close>; \<open>snapshots\<close> the \<open>HashMap<Coin, Snapshot>\<close>.
  \<^item> The conversion of a dump (\<open>convert_cli_snapshot\<close>) is generic in the raw order type and its
    \<open>TryFrom\<close>, as in the code. The two shapes of a market are read by \<open>visit_seq\<close> and \<open>visit_map\<close>
    from the elements the JSON reader hands over; the reader itself and the file are not modelled.

  Shown: the map of books is, for every operation, the total function from coins to books it stands
  for, so the eviction of empty books is invisible; coins do not interfere; every book satisfies the
  book invariant and holds only orders of its coin; a dump is converted completely or not at all.
\<close>

section \<open>Queues of one book under cancellation and resizing\<close>

lemma flat_remove_level:
  assumes bt: "bt_ok m"
  shows "flat (prio sd (bt_remove p m)) =
      flat (filter (\<lambda>e. better sd (fst e) p) (prio sd m)) @
      flat (filter (\<lambda>e. better sd p (fst e)) (prio sd m))"
proof -
  have "filter (\<lambda>e. better sd (fst e) p) (prio sd (bt_remove p m)) = filter (\<lambda>e. better sd (fst e) p) (prio sd m)"
    "filter (\<lambda>e. better sd p (fst e)) (prio sd (bt_remove p m)) = filter (\<lambda>e. better sd p (fst e)) (prio sd m)"
    unfolding AList.delete_eq prio_filter filter_filter
    by (rule filter_cong [OF refl]; cases sd; auto simp: better_simps)+
  then show ?thesis
    using flat_at_level [OF bt_ok_remove [OF bt], of sd p p] by (simp add: delete_conv')
qed

lemma queue_around_level:
  assumes ok: "book_ok b" and l: "map_of (side_levels sd b) p = Some l" and k: "k \<in> fst ` set (orders l)"
  obtains pre post where "book_queue sd b = pre @ orders l @ post"
    and "\<forall>l'. flat (prio sd (bt_insert p l' (side_levels sd b))) = pre @ orders l' @ post"
    and "flat (prio sd (bt_remove p (side_levels sd b))) = pre @ post"
    and "\<forall>e \<in> set (pre @ post). fst e \<noteq> k"
proof -
  let ?m = "side_levels sd b"
  let ?pre = "flat (filter (\<lambda>e. better sd (fst e) p) (prio sd ?m))"
  let ?post = "flat (filter (\<lambda>e. better sd p (fst e)) (prio sd ?m))"
  have bt: "bt_ok ?m"
    using side_okI [OF ok] by (simp add: side_ok_def)
  have apart: "fst e = p" if "e \<in> set ?m" "k \<in> fst ` set (orders (snd e))" for e
  proof -
    have "rests b k sd (fst e)"
      using that rests_iff [OF bt] by (metis prod.collapse)
    moreover have "rests b k sd p"
      using l k by (auto simp: rests_def)
    ultimately show ?thesis
      using rests_unique ok by (auto simp: book_ok_def)
  qed
  have "k \<notin> fst ` set (?pre @ ?post)"
  proof
    assume "k \<in> fst ` set (?pre @ ?post)"
    then obtain e where "e \<in> set ?m" "k \<in> fst ` set (orders (snd e))" "fst e \<noteq> p"
      unfolding set_append image_Un flat_keys_UN by (cases sd) (auto simp: better_simps simp del: split_paired_Ex)
    then show False using apart by blast
  qed
  then show ?thesis
    using that [of ?pre ?post] flat_at_level [OF bt, of sd p] flat_insert_level [OF bt, of sd p]
      flat_remove_level [OF bt, of sd p] l by (auto simp: book_queue_def)
qed

lemma set_side_queue:
  "book_queue sd' (set_side sd m b) = (if sd' = sd then flat (prio sd m) else book_queue sd' b)"
  by (cases sd; cases sd') (simp_all add: book_queue_def set_side_def side_levels_def)

lemma queue_index_irrelevant [simp]: "book_queue sd (b\<lparr>oid_to_side_px := i\<rparr>) = book_queue sd b"
  by (cases sd) (simp_all add: book_queue_def side_levels_def)

lemma queue_key_side:
  assumes ok: "book_ok b" and "hm_get (oid_to_side_px b) k = Some (sd, p)" and "sd' \<noteq> sd"
  shows "\<forall>e \<in> set (book_queue sd' b). fst e \<noteq> k"
proof -
  have "k \<notin> fst ` set (book_queue sd' b)"
    using assms book_queue_keys [OF ok] index_okD rests_unique
    by (metis book_ok_def)
  then show ?thesis by auto
qed

lemma index_level:
  assumes "book_ok b" and "hm_get (oid_to_side_px b) k = Some (sd, p)"
  obtains l where "map_of (side_levels sd b) p = Some l" and "k \<in> fst ` set (orders l)"
  using assms index_okD by (metis book_ok_def rests_def)

lemma cancel_order_queue:
  assumes ok: "book_ok b"
  shows "book_queue sd (snd (cancel_order k b)) = filter (\<lambda>e. fst e \<noteq> k) (book_queue sd b)"
proof (cases "hm_get (oid_to_side_px b) k")
  case None
  then have "\<forall>e \<in> set (book_queue sd b). fst e \<noteq> k"
    using index_from_queues [OF ok, of k] by (cases sd) auto
  with None show ?thesis
    by (simp add: cancel_order_def filter_id_conv)
next
  case (Some sp)
  obtain sd0 p where sp: "hm_get (oid_to_side_px b) k = Some (sd0, p)"
    using Some by (cases sp) auto
  obtain l where l: "map_of (side_levels sd0 b) p = Some l" "k \<in> fst ` set (orders l)"
    by (rule index_level [OF ok sp])
  obtain pre post where q: "book_queue sd0 b = pre @ orders l @ post"
    "\<forall>l'. flat (prio sd0 (bt_insert p l' (side_levels sd0 b))) = pre @ orders l' @ post"
    "flat (prio sd0 (bt_remove p (side_levels sd0 b))) = pre @ post"
    "\<forall>e \<in> set (pre @ post). fst e \<noteq> k"
    by (rule queue_around_level [OF ok l])
  have sok: "side_ok sd0 (side_levels sd0 b)" using side_okI [OF ok] .
  have rem: "orders (snd (level_remove k l)) = filter (\<lambda>e. fst e \<noteq> k) (orders l)"
    using level_remove_ok(2) [of sd0 p l k] side_ok_get [OF sok l(1)]
    by (auto simp: AList.delete_eq intro!: filter_cong)
  have "flat (prio sd0 (snd (cancel_in_side k p (side_levels sd0 b)))) = filter (\<lambda>e. fst e \<noteq> k) (book_queue sd0 b)"
    unfolding cancel_in_side_spec(3) [OF sok l] Let_def
    using q rem by (simp add: filter_id_conv)
  moreover have "filter (\<lambda>e. fst e \<noteq> k) (book_queue sd b) = book_queue sd b" if "sd \<noteq> sd0"
    using queue_key_side [OF ok sp that] by (simp add: filter_id_conv)
  ultimately show ?thesis
    using sp by (simp add: cancel_order_sides set_side_queue)
qed

definition resize :: "oid \<Rightarrow> sz \<Rightarrow> oid \<times> inner_l4_order \<Rightarrow> oid \<times> inner_l4_order" where
  "resize k s e = (if fst e = k then (k, order_modify_sz s (snd e)) else e)"

lemma update_map_resize:
  "distinct (map fst q) \<Longrightarrow> map_of q k = Some o' \<Longrightarrow>
     AList.update k (order_modify_sz s o') q = map (resize k s) q"
proof (induction q)
  case (Cons e q)
  obtain j v where e: "e = (j, v)" by (cases e)
  have "map (resize k s) q = q" if "j = k"
    using Cons.prems(1) that e by (intro map_idI) (force simp: resize_def)
  moreover have "resize k s e = (if j = k then (k, order_modify_sz s v) else e)"
    by (simp add: e resize_def)
  ultimately show ?case
    using Cons by (cases "j = k") (simp_all add: e)
qed simp

lemma modify_sz_queue:
  assumes ok: "book_ok b" and s: "0 < szn s"
  shows "book_queue sd (snd (book_modify_sz k s b)) = map (resize k s) (book_queue sd b)"
proof -
  have nz: "\<not> sz_is_zero s"
    using s by (simp add: sz_zero_iff)
  have same: "map (resize k s) q = q" if "\<forall>e \<in> set q. fst e \<noteq> k" for q
    using that by (intro map_idI) (simp add: resize_def)
  show ?thesis
  proof (cases "hm_get (oid_to_side_px b) k")
    case None
    then have "\<forall>e \<in> set (book_queue sd b). fst e \<noteq> k"
      using index_from_queues [OF ok, of k] by (cases sd) auto
    with None nz show ?thesis
      by (simp add: book_modify_sz_def same)
  next
    case (Some sp)
    obtain sd0 p where sp: "hm_get (oid_to_side_px b) k = Some (sd0, p)"
      using Some by (cases sp) auto
    obtain l where l: "map_of (side_levels sd0 b) p = Some l" "k \<in> fst ` set (orders l)"
      by (rule index_level [OF ok sp])
    obtain pre post where q: "book_queue sd0 b = pre @ orders l @ post"
      "\<forall>l'. flat (prio sd0 (bt_insert p l' (side_levels sd0 b))) = pre @ orders l' @ post"
      "flat (prio sd0 (bt_remove p (side_levels sd0 b))) = pre @ post"
      "\<forall>e \<in> set (pre @ post). fst e \<noteq> k"
      by (rule queue_around_level [OF ok l])
    have sok: "side_ok sd0 (side_levels sd0 b)" using side_okI [OF ok] .
    have lok: "level_ok sd0 p l" using side_ok_get [OF sok l(1)] by simp
    obtain o' where o': "map_of (orders l) k = Some o'"
      using l(2) by (metis map_of_eq_None_iff not_None_eq)
    have d: "distinct (map fst (orders l))"
      using lok by (simp add: level_ok_def level_wf_def queue_ok_def)
    have "orders (snd (level_modify_sz k s l)) = map (resize k s) (orders l)"
      using level_modify_ok(2) [OF lok o' s] update_map_resize [OF d o'] by simp
    then have "flat (prio sd0 (snd (modify_in_side k s p (side_levels sd0 b)))) = map (resize k s) (book_queue sd0 b)"
      using modify_in_side_spec(3) [OF sok l(1) o' s] q same [of pre] same [of post] by simp
    moreover have "map (resize k s) (book_queue sd b) = book_queue sd b" if "sd \<noteq> sd0"
      using same queue_key_side [OF ok sp that] by blast
    ultimately show ?thesis
      using sp nz by (simp add: book_modify_sz_sides set_side_queue)
  qed
qed

section \<open>All books\<close>

type_synonym snapshots = "(coin, inner_l4_order snapshot) hash_map"

definition snapshots_extract_triggers :: "snapshots \<Rightarrow> inner_l4_order list \<times> snapshots" where
  "snapshots_extract_triggers s =
     (concat (map (\<lambda>(c, b). fst (extract_triggers b)) s), map (\<lambda>(c, b). (c, snd (extract_triggers b))) s)"

type_synonym order_books = "(coin, order_book) btree_map"

definition books_order_count :: "order_books \<Rightarrow> nat" where
  "books_order_count m = sum_list (map (\<lambda>(c, b). order_count b) m)"

definition from_snapshots :: "snapshots \<Rightarrow> bool \<Rightarrow> order_books" where
  "from_snapshots s ignore_triggers =
     fold (\<lambda>(c, b). bt_insert c (from_snapshot b ignore_triggers)) s []"

definition books_add_order_before ::
  "inner_l4_order \<Rightarrow> oid option \<Rightarrow> order_books \<Rightarrow> bool \<times> order_books" where
  "books_add_order_before o' insert_before m =
     (let c = io_coin o'; b = (case bt_get m c of None \<Rightarrow> book_new | Some b \<Rightarrow> b);
          (fell, b') = add_order_before o' insert_before b
      in (fell, bt_insert c b' m))"

definition books_cancel_order :: "oid \<Rightarrow> coin \<Rightarrow> order_books \<Rightarrow> bool \<times> order_books" where
  "books_cancel_order k c m =
     (case bt_get m c of
        None \<Rightarrow> (False, m)
      | Some b \<Rightarrow>
          (let (success, b') = cancel_order k b
           in (success, if order_count b' = 0 then bt_remove c m else bt_insert c b' m)))"

definition books_modify_sz :: "oid \<Rightarrow> coin \<Rightarrow> sz \<Rightarrow> order_books \<Rightarrow> bool \<times> order_books" where
  "books_modify_sz k c s m =
     (case bt_get m c of
        None \<Rightarrow> (False, m)
      | Some b \<Rightarrow>
          (let (success, b') = book_modify_sz k s b
           in (success, if order_count b' = 0 then bt_remove c m else bt_insert c b' m)))"

type_synonym bbo_entry = "(px \<times> sz \<times> u32) option \<times> (px \<times> sz \<times> u32) option"

definition get_bbos_for_coins :: "coin list \<Rightarrow> order_books \<Rightarrow> (coin, bbo_entry) hash_map" where
  "get_bbos_for_coins coins m =
     map (\<lambda>c. (c, case bt_get m c of None \<Rightarrow> (None, None) | Some b \<Rightarrow> get_bbo b)) coins"

text \<open>\<open>fragmented\<close> and \<open>capacity\<close> are the slab's, as for one book.\<close>

definition compact_all :: "(price_level \<Rightarrow> bool) \<Rightarrow> order_books \<Rightarrow> nat \<times> order_books" where
  "compact_all fragmented m =
     (sum_list (map (\<lambda>(c, b). fst (book_compact fragmented b)) m),
      filter (\<lambda>(c, b). 0 < order_count b) (map (\<lambda>(c, b). (c, snd (book_compact fragmented b))) m))"

definition books_slab_stats :: "(price_level \<Rightarrow> nat) \<Rightarrow> order_books \<Rightarrow> nat \<times> nat" where
  "books_slab_stats capacity m =
     fold (\<lambda>(c, b) (live, cap). (let (l, p) = slab_stats capacity b in (live + l, cap + p))) m (0, 0)"

definition snapshot_for_coin :: "coin \<Rightarrow> px_band \<Rightarrow> order_books \<Rightarrow> inner_l4_order snapshot option" where
  "snapshot_for_coin c band m = map_option (to_snapshot_in_band band) (bt_get m c)"

section \<open>Reading a dump\<close>

datatype 'r cli_market =
    Sides "'r list" "'r list"
  | WithTriggers "'r list" "'r list" "'r list"

datatype de_error = InvalidLength nat | MissingField string | Invalid

text \<open>
  The two visitors. \<open>visit_seq\<close> takes the elements of the array, each read as a list of orders by
  \<open>orders\<close>, \<open>visit_map\<close> the entries of the object in document order; \<open>pair\<close> reads a two-element
  array of lists. A key that comes twice keeps its last value, any other key is skipped.
\<close>

definition visit_seq :: "(json \<Rightarrow> de_error + 'r list) \<Rightarrow> json list \<Rightarrow> de_error + 'r cli_market" where
  "visit_seq orders_of els =
     (case els of [] \<Rightarrow> Inl (InvalidLength 0)
      | b # more_els \<Rightarrow>
        (case orders_of b of Inl e \<Rightarrow> Inl e
         | Inr bs \<Rightarrow>
           (case more_els of [] \<Rightarrow> Inl (InvalidLength 1)
            | a # _ \<Rightarrow> (case orders_of a of Inl e \<Rightarrow> Inl e | Inr as \<Rightarrow> Inr (Sides bs as)))))"

fun visit_entries ::
  "(json \<Rightarrow> de_error + 'r list \<times> 'r list) \<Rightarrow> (json \<Rightarrow> de_error + 'r list) \<Rightarrow> (string \<times> json) list
     \<Rightarrow> ('r list \<times> 'r list) option \<times> 'r list option
     \<Rightarrow> de_error + ('r list \<times> 'r list) option \<times> 'r list option" where
  "visit_entries pair orders_of [] acc = Inr acc"
| "visit_entries pair orders_of ((key, v) # es) (book_orders, untriggered) =
     (if key = ''book_orders'' then
        (case pair v of Inl e \<Rightarrow> Inl e | Inr p \<Rightarrow> visit_entries pair orders_of es (Some p, untriggered))
      else if key = ''untriggered_orders'' then
        (case orders_of v of Inl e \<Rightarrow> Inl e | Inr u \<Rightarrow> visit_entries pair orders_of es (book_orders, Some u))
      else visit_entries pair orders_of es (book_orders, untriggered))"

definition visit_map ::
  "(json \<Rightarrow> de_error + 'r list \<times> 'r list) \<Rightarrow> (json \<Rightarrow> de_error + 'r list) \<Rightarrow> (string \<times> json) list
     \<Rightarrow> de_error + 'r cli_market" where
  "visit_map pair orders_of es =
     (case visit_entries pair orders_of es (None, None) of Inl e \<Rightarrow> Inl e
      | Inr (book_orders, untriggered) \<Rightarrow>
        (case book_orders of None \<Rightarrow> Inl (MissingField ''book_orders'')
         | Some (bs, as) \<Rightarrow> Inr (WithTriggers bs as (case untriggered of None \<Rightarrow> [] | Some u \<Rightarrow> u))))"

text \<open>\<open>collect::<Result<Vec<_>>>\<close>: the first error, or all values.\<close>

fun collect_ok :: "('a \<Rightarrow> 'e + 'b) \<Rightarrow> 'a list \<Rightarrow> 'e + 'b list" where
  "collect_ok f [] = Inr []"
| "collect_ok f (x # xs) =
     (case f x of Inl e \<Rightarrow> Inl e | Inr y \<Rightarrow> map_ok (\<lambda>ys. y # ys) (collect_ok f xs))"

text \<open>
  \<open>convert_loop\<close> returns the converted markets with the untriggered orders and the number of skipped
  ones so far; a book order that does not convert ends it.
\<close>

fun convert_loop ::
  "('r \<Rightarrow> 'e + inner_l4_order) \<Rightarrow> (string \<times> 'r cli_market) list \<Rightarrow> snapshots \<Rightarrow> inner_l4_order list \<Rightarrow> nat
     \<Rightarrow> 'e + snapshots \<times> inner_l4_order list \<times> nat" where
  "convert_loop try_from [] books untriggered skipped = Inr (books, untriggered, skipped)"
| "convert_loop try_from ((coin, market) # ms) books untriggered skipped =
     (let (bs, as, pending) =
            (case market of Sides b a \<Rightarrow> (b, a, []) | WithTriggers b a u \<Rightarrow> (b, a, u));
          good = concat (map (\<lambda>raw. case try_from raw of Inl _ \<Rightarrow> [] | Inr o' \<Rightarrow> [o']) pending);
          bad = length (filter (\<lambda>raw. case try_from raw of Inl _ \<Rightarrow> True | Inr _ \<Rightarrow> False) pending)
      in case collect_ok try_from bs of Inl e \<Rightarrow> Inl e
         | Inr bids' \<Rightarrow>
           (case collect_ok try_from as of Inl e \<Rightarrow> Inl e
            | Inr asks' \<Rightarrow>
              convert_loop try_from ms (hm_insert (Coin coin) (bids', asks') books)
                (untriggered @ good) (skipped + bad)))"

definition convert_cli_snapshot ::
  "('r \<Rightarrow> 'e + inner_l4_order) \<Rightarrow> (string \<times> 'r cli_market) list \<Rightarrow> u64
     \<Rightarrow> 'e + u64 \<times> snapshots \<times> inner_l4_order list" where
  "convert_cli_snapshot try_from snap height =
     map_ok (\<lambda>(books, untriggered, skipped). (height, books, untriggered))
       (convert_loop try_from snap [] [] 0)"

section \<open>Proofs\<close>

subsection \<open>Where the orders of a queue come from\<close>

lemma is_match_members:
  assumes "is_match n q g q'" and "e \<in> set q'"
  shows "\<exists>e0 \<in> set q. same_order (snd e0) (snd e)"
proof -
  obtain ys zs d where z: "q = ys @ zs" "q' = drop_from_head d zs"
    using assms(1) unfolding is_match_def by blast
  then have "\<exists>e0 \<in> set zs. same_order (snd e0) (snd e)"
    using assms(2) by (auto simp: drop_from_head_def split: list.splits intro: bexI [of _ e])
  then show ?thesis
    using z(1) by auto
qed

lemma add_to_book_members:
  assumes "side_ok sd m" and "e \<in> set (flat (snd (add_order_to_book m t ib)))"
  shows "e \<in> set (flat m) \<or> e = (order_oid t, t)"
proof -
  let ?p = "io_limit_px t"
  define l where "l = (case map_of m ?p of None \<Rightarrow> level_new | Some l \<Rightarrow> l)"
  have splice: "set (splice_before b k v q) \<subseteq> insert (k, v) (set q)" for b k v and q :: "(oid, inner_l4_order) queue"
    by (induction b k v q rule: splice_before.induct) auto
  obtain l' where l': "snd (add_order_to_book m t ib) = bt_insert ?p l' m"
      "set (orders l') \<subseteq> insert (order_oid t, t) (set (orders l))"
  proof -
    have "set (orders (snd (level_push_back (order_oid t) t l))) \<subseteq> insert (order_oid t, t) (set (orders l))"
      by (auto simp: level_push_back_def q_push_back_def)
    moreover have "set (orders (snd (level_insert_before a (order_oid t) t l))) \<subseteq> insert (order_oid t, t) (set (orders l))" for a
      using splice [of a "order_oid t" t "orders l"] by (auto simp: level_insert_before_def q_insert_before_def Let_def)
    moreover have "snd (add_order_to_book m t ib) = bt_insert ?p
        (case ib of None \<Rightarrow> snd (level_push_back (order_oid t) t l)
         | Some a \<Rightarrow> if level_contains a l then snd (level_insert_before a (order_oid t) t l)
                      else snd (level_push_back (order_oid t) t l)) m"
      by (simp add: add_order_to_book_def Let_def l_def split: option.split)
    ultimately show ?thesis
      using that by (simp split: option.splits if_splits)
  qed
  have "set (orders l) \<subseteq> set (flat m)"
    by (auto simp: l_def level_new_def flat_def dest!: map_of_SomeD split: option.splits)
  moreover have "set (bt_insert ?p l' m) \<subseteq> insert (?p, l') (set m)"
    using assms(1) by (auto simp: side_ok_def bt_insert_split)
  then have "set (flat (bt_insert ?p l' m)) \<subseteq> set (orders l') \<union> set (flat m)"
    by (auto simp: flat_def)
  ultimately show ?thesis
    using assms(2) l' by auto
qed

lemma add_order_members:
  assumes ok: "book_ok b" and e: "e \<in> set (book_queue sd (snd (add_order_before o' ib b)))"
  shows "(\<exists>e0 \<in> set (book_queue sd b). same_order (snd e0) (snd e)) \<or> same_order o' (snd e)"
proof (cases "hm_get (oid_to_side_px b) (order_oid o')")
  case (Some v)
  then have "snd (add_order_before o' ib b) = b"
    by (simp add: add_order_before_def)
  with e show ?thesis
    by (metis same_order_refl)
next
  case None
  obtain fell b' where add: "add_order_before o' ib b = (fell, b')" by fastforce
  let ?sd = "io_side o'"
  from add_order_before_parts [OF ok None add] obtain filled t where
    m: "is_match (order_szn o') (crossing o' (side_levels (other_side ?sd) b)) filled
        (crossing o' (side_levels (other_side ?sd) b'))" and
    n: "non_crossing o' (side_levels (other_side ?sd) b') = non_crossing o' (side_levels (other_side ?sd) b)" and
    t: "same_order o' t" and
    own: "if order_szn t = 0 then \<not> fell \<and> side_levels ?sd b' = side_levels ?sd b
       else (fell, side_levels ?sd b') = add_order_to_book (side_levels ?sd b) t ib"
    by blast
  have e': "e \<in> set (flat (side_levels sd b'))"
    using e add by (simp add: book_queue_def flat_def)
  have old: "set (book_queue sd b) = set (flat (side_levels sd b))"
    by (simp add: book_queue_def flat_def)
  show ?thesis
  proof (cases "sd = ?sd")
    case True
    then have "e \<in> set (flat (side_levels sd b)) \<or> e = (order_oid t, t)"
      using own e' add_to_book_members [OF side_okI [OF ok], of e ?sd t ib]
      by (metis snd_conv)
    then show ?thesis
      unfolding old using t same_order_refl by (metis snd_conv)
  next
    case False
    then have sd: "sd = other_side ?sd"
      by (cases sd; cases ?sd) auto
    have "set (flat (side_levels sd c)) \<subseteq> set (crossing o' (side_levels sd c)) \<union> set (flat (non_crossing o' (side_levels sd c)))" for c
      by (auto simp: flat_def crossing_def non_crossing_def)
    then have "e \<in> set (crossing o' (side_levels sd b')) \<or> e \<in> set (flat (non_crossing o' (side_levels sd b)))"
      using e' n sd by (metis (no_types, lifting) UnE subsetD)
    moreover have "set (crossing o' (side_levels sd b)) \<subseteq> set (flat (side_levels sd b))"
      "set (flat (non_crossing o' (side_levels sd b))) \<subseteq> set (flat (side_levels sd b))"
      by (auto simp: flat_def crossing_def non_crossing_def)
    ultimately show ?thesis
      unfolding old using is_match_members [OF m, of e] sd same_order_refl by (metis subsetD)
  qed
qed

subsection \<open>The books as a function of the coin\<close>

definition coin_book :: "coin \<Rightarrow> order_book \<Rightarrow> bool" where
  "coin_book c b \<longleftrightarrow> (\<forall>sd. \<forall>e \<in> set (book_queue sd b). io_coin (snd e) = c)"

definition books_ok :: "order_books \<Rightarrow> bool" where
  "books_ok m \<longleftrightarrow> bt_ok m \<and> (\<forall>(c, b) \<in> set m. book_ok b \<and> coin_book c b)"

definition book_of :: "order_books \<Rightarrow> coin \<Rightarrow> order_book" where
  "book_of m c = (case bt_get m c of None \<Rightarrow> book_new | Some b \<Rightarrow> b)"

lemma book_new_queue [simp]: "book_queue sd book_new = []"
  by (cases sd) (simp_all add: book_queue_def book_new_def prio_def)

lemma book_of_ok:
  assumes "books_ok m"
  shows "book_ok (book_of m c)" and "coin_book c (book_of m c)"
proof -
  have "book_ok (book_of m c) \<and> coin_book c (book_of m c)"
  proof (cases "bt_get m c")
    case None
    then show ?thesis
      using book_new_ok by (simp add: book_of_def coin_book_def)
  next
    case (Some b)
    then show ?thesis
      using assms map_of_SomeD [OF Some] by (auto simp: book_of_def books_ok_def)
  qed
  then show "book_ok (book_of m c)" "coin_book c (book_of m c)" by auto
qed

lemma empty_book_new:
  assumes ok: "book_ok b" and "order_count b = 0"
  shows "b = book_new"
proof -
  have idx: "oid_to_side_px b = []"
    using assms(2) by (simp add: order_count_def)
  have "side_levels sd b = []" for sd
  proof (rule ccontr)
    assume "side_levels sd b \<noteq> []"
    then obtain p l where l: "(p, l) \<in> set (side_levels sd b)"
      by (metis hd_in_set prod.collapse)
    have sok: "side_ok sd (side_levels sd b)"
      using side_okI [OF ok] .
    then have "map_of (side_levels sd b) p = Some l"
      using l by (simp add: side_ok_def bt_ok_distinct)
    then have "orders l \<noteq> []" "map_of (side_levels sd b) p = Some l"
      using side_ok_get [OF sok] by auto
    then have "rests b (fst (hd (orders l))) sd p"
      unfolding rests_def by (intro exI [of _ l]) simp
    then show False
      using index_okD [of b] ok idx by (simp add: book_ok_def)
  qed
  from this [of Bid] this [of Ask] have "bids b = []" "asks b = []"
    by (simp_all add: side_levels_def)
  with idx show ?thesis
    by (simp add: book_new_def)
qed

lemma book_of_insert: "bt_ok m \<Longrightarrow> book_of (bt_insert c b m) = (book_of m)(c := b)"
  by (auto simp: book_of_def fun_eq_iff map_of_bt_insert)

lemma book_of_remove: "book_of (bt_remove c m) = (book_of m)(c := book_new)"
  by (auto simp: book_of_def fun_eq_iff delete_conv')

lemma books_ok_insert: "books_ok m \<Longrightarrow> book_ok b \<Longrightarrow> coin_book c b \<Longrightarrow> books_ok (bt_insert c b m)"
proof -
  assume a: "books_ok m" "book_ok b" "coin_book c b"
  then have "set (bt_insert c b m) \<subseteq> insert (c, b) (set m)"
    by (auto simp: books_ok_def bt_insert_split)
  with a show "books_ok (bt_insert c b m)"
    by (auto simp: books_ok_def bt_ok_insert)
qed

lemma books_ok_remove: "books_ok m \<Longrightarrow> books_ok (bt_remove c m)"
  using bt_ok_remove [of m c] by (auto simp: books_ok_def AList.delete_eq)

lemma coin_bookI: "(\<And>sd e. e \<in> set (book_queue sd b) \<Longrightarrow> io_coin (snd e) = c) \<Longrightarrow> coin_book c b"
  by (simp add: coin_book_def)

lemma coin_bookD: "coin_book c b \<Longrightarrow> e \<in> set (book_queue sd b) \<Longrightarrow> io_coin (snd e) = c"
  by (simp add: coin_book_def)

lemma coin_book_add:
  assumes "book_ok b" and "coin_book (io_coin o') b"
  shows "coin_book (io_coin o') (snd (add_order_before o' ib b))"
  unfolding coin_book_def
proof (intro allI ballI)
  fix sd e
  assume "e \<in> set (book_queue sd (snd (add_order_before o' ib b)))"
  from add_order_members [OF assms(1) this] show "io_coin (snd e) = io_coin o'"
    using assms(2) same_order_fields by (metis coin_book_def)
qed

lemma coin_book_cancel: "book_ok b \<Longrightarrow> coin_book c b \<Longrightarrow> coin_book c (snd (cancel_order k b))"
  by (rule coin_bookI) (simp add: cancel_order_queue, elim conjE, erule (1) coin_bookD)

lemma book_modify_ok: "book_ok b \<Longrightarrow> book_ok (snd (book_modify_sz k s b))"
  using book_step_ok [of b "ModifySz k s"] by simp

lemma coin_book_modify:
  assumes "book_ok b" and "coin_book c b"
  shows "coin_book c (snd (book_modify_sz k s b))"
proof (cases "sz_is_zero s")
  case True
  then show ?thesis
    using coin_book_cancel [OF assms] by (simp add: book_modify_sz_def)
next
  case False
  then have "0 < szn s" by (simp add: sz_zero_iff)
  show ?thesis
  proof (rule coin_bookI)
    fix sd e
    assume "e \<in> set (book_queue sd (snd (book_modify_sz k s b)))"
    then obtain e0 where "e0 \<in> set (book_queue sd b)" "e = resize k s e0"
      using modify_sz_queue [OF assms(1) \<open>0 < szn s\<close>] by auto
    then show "io_coin (snd e) = c"
      using coin_bookD [OF assms(2)] by (simp add: resize_def)
  qed
qed

text \<open>Storing a book, or dropping it when it is empty, are the same for every reader.\<close>

lemma store_or_evict:
  assumes m: "books_ok m" and b: "book_ok b" "coin_book c b"
  defines "m' \<equiv> (if order_count b = 0 then bt_remove c m else bt_insert c b m)"
  shows "books_ok m'" and "book_of m' = (book_of m)(c := b)"
proof -
  show "books_ok m'"
    using m b by (simp add: m'_def books_ok_remove books_ok_insert)
  show "book_of m' = (book_of m)(c := b)"
    using m empty_book_new [OF b(1)]
    by (cases "order_count b = 0") (simp_all add: m'_def book_of_remove book_of_insert books_ok_def)
qed

lemma cancel_order_new: "cancel_order k book_new = (False, book_new)"
  by (simp add: cancel_order_def book_new_def)

lemma modify_sz_new: "book_modify_sz k s book_new = (False, book_new)"
  by (simp add: book_modify_sz_def cancel_order_new) (simp add: book_new_def)

lemma books_add_spec:
  fixes o' ib
  assumes "books_ok m"
  defines "r \<equiv> books_add_order_before o' ib m" and "c \<equiv> io_coin o'"
  shows "books_ok (snd r)" and "fst r = fst (add_order_before o' ib (book_of m c))"
    and "book_of (snd r) = (book_of m)(c := snd (add_order_before o' ib (book_of m c)))"
proof -
  have r: "r = (fst (add_order_before o' ib (book_of m c)), bt_insert c (snd (add_order_before o' ib (book_of m c))) m)"
    by (simp add: r_def c_def books_add_order_before_def book_of_def Let_def split_beta)
  note b = book_of_ok [OF assms(1), of c]
  show "books_ok (snd r)"
    unfolding r using add_order_before_ok [OF b(1)] coin_book_add [OF b(1)] b(2) assms(1)
    by (simp add: books_ok_insert c_def)
  show "fst r = fst (add_order_before o' ib (book_of m c))"
    "book_of (snd r) = (book_of m)(c := snd (add_order_before o' ib (book_of m c)))"
    unfolding r using assms(1) by (simp_all add: book_of_insert books_ok_def)
qed

lemma books_cancel_spec:
  fixes k c
  assumes m: "books_ok m"
  defines "r \<equiv> books_cancel_order k c m"
  shows "books_ok (snd r)" and "fst r = fst (cancel_order k (book_of m c))"
    and "book_of (snd r) = (book_of m)(c := snd (cancel_order k (book_of m c)))"
proof -
  note b = book_of_ok [OF m, of c]
  note s = store_or_evict [OF m cancel_order_ok(1) [OF b(1)] coin_book_cancel [OF b]]
  have "books_ok (snd r) \<and> fst r = fst (cancel_order k (book_of m c)) \<and>
      book_of (snd r) = (book_of m)(c := snd (cancel_order k (book_of m c)))"
  proof (cases "bt_get m c")
    case None
    then have "book_of m c = book_new" by (simp add: book_of_def)
    with None m show ?thesis
      by (simp add: r_def books_cancel_order_def cancel_order_new fun_upd_idem)
  next
    case (Some b0)
    then have b0: "b0 = book_of m c" by (simp add: book_of_def)
    have "r = (fst (cancel_order k (book_of m c)), if order_count (snd (cancel_order k (book_of m c))) = 0
        then bt_remove c m else bt_insert c (snd (cancel_order k (book_of m c))) m)"
      using Some by (simp add: r_def books_cancel_order_def split_beta Let_def b0)
    with s [of k] show ?thesis by (simp only: fst_conv snd_conv)
  qed
  then show "books_ok (snd r)" "fst r = fst (cancel_order k (book_of m c))"
    "book_of (snd r) = (book_of m)(c := snd (cancel_order k (book_of m c)))" by auto
qed

lemma books_modify_spec:
  fixes k c s
  assumes m: "books_ok m"
  defines "r \<equiv> books_modify_sz k c s m"
  shows "books_ok (snd r)" and "fst r = fst (book_modify_sz k s (book_of m c))"
    and "book_of (snd r) = (book_of m)(c := snd (book_modify_sz k s (book_of m c)))"
proof -
  note b = book_of_ok [OF m, of c]
  note st = store_or_evict [OF m book_modify_ok [OF b(1)] coin_book_modify [OF b]]
  have "books_ok (snd r) \<and> fst r = fst (book_modify_sz k s (book_of m c)) \<and>
      book_of (snd r) = (book_of m)(c := snd (book_modify_sz k s (book_of m c)))"
  proof (cases "bt_get m c")
    case None
    then have "book_of m c = book_new" by (simp add: book_of_def)
    with None m show ?thesis
      by (simp add: r_def books_modify_sz_def modify_sz_new fun_upd_idem)
  next
    case (Some b0)
    then have b0: "b0 = book_of m c" by (simp add: book_of_def)
    have "r = (fst (book_modify_sz k s (book_of m c)), if order_count (snd (book_modify_sz k s (book_of m c))) = 0
        then bt_remove c m else bt_insert c (snd (book_modify_sz k s (book_of m c))) m)"
      using Some by (simp add: r_def books_modify_sz_def split_beta Let_def b0)
    with st [of k s] show ?thesis by (simp only: fst_conv snd_conv)
  qed
  then show "books_ok (snd r)" "fst r = fst (book_modify_sz k s (book_of m c))"
    "book_of (snd r) = (book_of m)(c := snd (book_modify_sz k s (book_of m c)))" by auto
qed

lemma map_of_filter_value:
  "distinct (map fst m) \<Longrightarrow>
     map_of (filter (\<lambda>(k, v). P v) m) k = (case map_of m k of None \<Rightarrow> None | Some v \<Rightarrow> if P v then Some v else None)"
proof (induction m)
  case (Cons e m)
  have "map_of (filter (\<lambda>(k, v). P v) m) k = None" if "fst e = k"
    using Cons.prems that by (auto simp: map_of_eq_None_iff)
  with Cons show ?case by (cases e) auto
qed simp

lemma compact_all_spec:
  assumes m: "books_ok m"
  shows "books_ok (snd (compact_all f m))" and "book_of (snd (compact_all f m)) = book_of m"
proof -
  have eq: "snd (compact_all f m) = filter (\<lambda>(c, b). 0 < order_count b) m"
    by (simp add: compact_all_def book_compact_def case_prod_beta)
  show "books_ok (snd (compact_all f m))"
    using m by (auto simp: eq books_ok_def bt_ok_filter)
  have d: "distinct (map fst m)"
    using m by (simp add: books_ok_def bt_ok_distinct)
  show "book_of (snd (compact_all f m)) = book_of m"
  proof
    fix c
    show "book_of (snd (compact_all f m)) c = book_of m c"
      using empty_book_new [OF book_of_ok(1) [OF m, of c]]
      by (cases "bt_get m c") (auto simp: eq book_of_def map_of_filter_value [OF d])
  qed
qed

lemma pop_while_subset: "set (fst (pop_while P xs)) \<subseteq> set xs"
  by (induction P xs rule: pop_while.induct)
     (subst pop_while.simps, auto simp: Let_def split_beta dest: in_set_butlastD)

lemma extract_triggers_subset:
  "set (fst (snd (extract_triggers s))) \<subseteq> set (fst s)" "set (snd (snd (extract_triggers s))) \<subseteq> set (snd s)"
  by (simp_all add: extract_triggers_def Let_def split_beta pop_while_subset)

lemma coin_book_from_snapshot:
  assumes "\<forall>o' \<in> set (fst s) \<union> set (snd s). io_coin o' = c"
  shows "coin_book c (from_snapshot s t)"
proof -
  have fold: "coin_book c (fold add_order os b) \<and> book_ok (fold add_order os b)"
    if "book_ok b" "coin_book c b" "\<forall>o' \<in> set os. io_coin o' = c" for os b
    using that
  proof (induction os arbitrary: b)
    case (Cons o' os)
    then show ?case
      using coin_book_add [of b o' None] add_order_before_ok [of b o' None] by (auto simp: add_order_def)
  qed simp
  have "\<forall>o' \<in> set (fst (if t then remove_triggers s else s)) \<union> set (snd (if t then remove_triggers s else s)). io_coin o' = c"
    using assms extract_triggers_subset [of s] by (auto simp: remove_triggers_def)
  moreover have "coin_book c book_new"
    by (rule coin_bookI) simp
  ultimately show ?thesis
    unfolding from_snapshot_def Let_def by (intro fold [THEN conjunct1] fold [THEN conjunct1] fold [THEN conjunct2] book_new_ok) auto
qed

lemma from_snapshots_ok:
  assumes "\<forall>(c, b) \<in> set s. \<forall>o' \<in> set (fst b) \<union> set (snd b). io_coin o' = c"
  shows "books_ok (from_snapshots s t)"
proof -
  have "books_ok (fold (\<lambda>(c, b). bt_insert c (from_snapshot b t)) s m)" if "books_ok m" for m
    using assms that
  proof (induction s arbitrary: m)
    case (Cons e s)
    obtain c b where e: "e = (c, b)" by (cases e)
    have "books_ok (bt_insert c (from_snapshot b t) m)"
      using Cons.prems e by (intro books_ok_insert from_snapshot_ok coin_book_from_snapshot) auto
    then show ?case
      using Cons e by auto
  qed simp
  from this [of "[]"] show ?thesis
    by (simp add: from_snapshots_def) (simp add: books_ok_def)
qed

subsection \<open>Simulation\<close>

datatype books_op =
    BooksAdd inner_l4_order "oid option"
  | BooksCancel oid coin
  | BooksModify oid coin sz
  | BooksCompact "price_level \<Rightarrow> bool"

fun books_impl :: "books_op \<Rightarrow> order_books \<Rightarrow> (bool \<times> order_books) option" where
  "books_impl (BooksAdd o' ib) m = Some (books_add_order_before o' ib m)"
| "books_impl (BooksCancel k c) m = Some (books_cancel_order k c m)"
| "books_impl (BooksModify k c s) m = Some (books_modify_sz k c s m)"
| "books_impl (BooksCompact f) m = Some (True, snd (compact_all f m))"

fun books_spec :: "books_op \<Rightarrow> (coin \<Rightarrow> order_book) \<Rightarrow> bool \<times> (coin \<Rightarrow> order_book)" where
  "books_spec (BooksAdd o' ib) f =
     (let r = add_order_before o' ib (f (io_coin o')) in (fst r, f(io_coin o' := snd r)))"
| "books_spec (BooksCancel k c) f = (let r = cancel_order k (f c) in (fst r, f(c := snd r)))"
| "books_spec (BooksModify k c s) f = (let r = book_modify_sz k s (f c) in (fst r, f(c := snd r)))"
| "books_spec (BooksCompact _) f = (True, f)"

interpretation books: simulation books_impl books_spec "\<lambda>m f. books_ok m \<and> book_of m = f"
proof unfold_locales
  fix m f x
  assume "books_ok m \<and> book_of m = f"
  then have m: "books_ok m" and f: "f = book_of m" by auto
  show "\<exists>c'. books_impl x m = Some (fst (books_spec x f), c') \<and> books_ok c' \<and> book_of c' = snd (books_spec x f)"
    unfolding f
    using books_add_spec [OF m] books_cancel_spec [OF m] books_modify_spec [OF m] compact_all_spec [OF m]
    by (cases x) (auto simp: Let_def prod_eq_iff)
qed

lemma books_empty: "books_ok [] \<and> book_of [] = (\<lambda>c. book_new)"
  by (simp add: books_ok_def book_of_def fun_eq_iff)

subsection \<open>Conversion of a dump\<close>

definition all_ok :: "('r \<Rightarrow> 'e + 'b) \<Rightarrow> 'r list \<Rightarrow> bool" where
  "all_ok f xs \<longleftrightarrow> list_all (\<lambda>x. case f x of Inl _ \<Rightarrow> False | Inr _ \<Rightarrow> True) xs"

definition oks :: "('r \<Rightarrow> 'e + 'b) \<Rightarrow> 'r list \<Rightarrow> 'b list" where
  "oks f xs = concat (map (\<lambda>x. case f x of Inl _ \<Rightarrow> [] | Inr y \<Rightarrow> [y]) xs)"

fun market_sides :: "'r cli_market \<Rightarrow> 'r list \<times> 'r list" where
  "market_sides (Sides b a) = (b, a)"
| "market_sides (WithTriggers b a u) = (b, a)"

fun market_pending :: "'r cli_market \<Rightarrow> 'r list" where
  "market_pending (Sides b a) = []"
| "market_pending (WithTriggers b a u) = u"

lemma collect_ok_eq: "collect_ok f xs = Inr ys \<longleftrightarrow> all_ok f xs \<and> ys = oks f xs"
proof (induction xs arbitrary: ys)
  case (Cons x xs)
  show ?case
  proof (cases "f x")
    case (Inr y)
    have "collect_ok f (x # xs) = Inr ys \<longleftrightarrow> (\<exists>zs. collect_ok f xs = Inr zs \<and> ys = y # zs)"
      using Inr by (cases "collect_ok f xs") (auto simp: map_ok_def)
    then show ?thesis
      using Inr Cons by (auto simp: all_ok_def oks_def)
  qed (simp add: all_ok_def)
qed (auto simp: all_ok_def oks_def)

lemma convert_loop_eq:
  "convert_loop f ms books unt n = Inr (books', unt', n') \<longleftrightarrow>
     (\<forall>(c, m) \<in> set ms. all_ok f (fst (market_sides m)) \<and> all_ok f (snd (market_sides m))) \<and>
     books' = fold (\<lambda>(c, m). hm_insert (Coin c) (oks f (fst (market_sides m)), oks f (snd (market_sides m)))) ms books \<and>
     unt' = unt @ concat (map (\<lambda>(c, m). oks f (market_pending m)) ms) \<and>
     n' = n + sum_list (map (\<lambda>(c, m). length (filter (\<lambda>raw. case f raw of Inl _ \<Rightarrow> True | Inr _ \<Rightarrow> False) (market_pending m))) ms)"
proof (induction ms arbitrary: books unt n)
  case (Cons cm ms)
  obtain c m where cm: "cm = (c, m)" by (cases cm)
  obtain b a where s: "market_sides m = (b, a)" by fastforce
  have sides: "(case m of Sides b a \<Rightarrow> (b, a, []) | WithTriggers b a u \<Rightarrow> (b, a, u)) = (b, a, market_pending m)"
    using s by (cases m) auto
  show ?case
  proof (cases "all_ok f b \<and> all_ok f a")
    case True
    then have "collect_ok f b = Inr (oks f b)" "collect_ok f a = Inr (oks f a)"
      by (simp_all add: collect_ok_eq)
    then show ?thesis
      using True unfolding cm convert_loop.simps sides Let_def prod.case
      by (simp add: Cons s oks_def add.assoc)
  next
    case False
    then have "(\<exists>e. collect_ok f b = Inl e) \<or> (\<exists>e. collect_ok f a = Inl e)"
      by (metis collect_ok_eq sum.exhaust)
    then show ?thesis
      using False unfolding cm convert_loop.simps sides Let_def prod.case
      by (auto simp: s split: sum.splits)
  qed
qed auto

lemma fold_insert_markets:
  assumes "distinct (map fst ms)" and "(c, m) \<in> set ms"
  shows "map_of (fold (\<lambda>(c, m). hm_insert (Coin c) (g m)) ms books) (Coin c) = Some (g m)"
  using assms
proof (induction ms rule: rev_induct)
  case (snoc e ms)
  obtain c' m' where e: "e = (c', m')" by (cases e)
  show ?case
  proof (cases "(c, m) = e")
    case False
    then have "(c, m) \<in> set ms" using snoc.prems(2) by auto
    then have "c \<noteq> c'"
      using snoc.prems(1) e by (force simp: image_iff)
    then show ?thesis
      using snoc e False by (auto simp: update_conv')
  qed (auto simp: e update_conv')
qed simp

section \<open>Properties\<close>

text \<open>
  C13. The books of all coins behave as one independent book per coin: for every sequence of adds,
  cancels, resizings and maintenance passes from an empty start, every answer is the one the coin's own
  book gives, an operation on one coin leaves every other coin's book as it was, and the removal of
  empty books is not observable.
\<close>

theorem books_refine_one_book_per_coin:
  "\<exists>m. run_impl books_impl xs [] = Some (fst (run_spec books_spec xs (\<lambda>c. book_new)), m)
     \<and> books_ok m \<and> book_of m = snd (run_spec books_spec xs (\<lambda>c. book_new))"
  using books.run [OF books_empty, of xs] by simp

text \<open>
  The quotes of a set of coins are, for each coin of the set, the best bid and offer of its book;
  a coin whose book was evicted gets the empty quote instead of being left out.
\<close>

theorem get_bbos_complete:
  "map_of (get_bbos_for_coins coins m) c =
     (if c \<in> set coins then Some (get_bbo (book_of m c)) else None)"
proof -
  have "get_bbo (book_of m c) = (case bt_get m c of None \<Rightarrow> (None, None) | Some b \<Rightarrow> get_bbo b)" for c
    by (simp add: book_of_def get_bbo_def book_new_def split: option.split)
  then show ?thesis
    by (induction coins) (auto simp: get_bbos_for_coins_def)
qed

text \<open>
  A dump is taken over completely or rejected: the conversion succeeds exactly when every order of
  every book converts; then each coin has its bids and asks in the dump's order, and the pending trigger
  orders are exactly those that convert.
\<close>

theorem convert_cli_snapshot_complete:
  assumes "distinct (map fst snap)"
  shows "case convert_cli_snapshot f snap h of
      Inl e \<Rightarrow> \<not> (\<forall>(c, m) \<in> set snap. all_ok f (fst (market_sides m)) \<and> all_ok f (snd (market_sides m)))
    | Inr (h', books, unt) \<Rightarrow>
        (\<forall>(c, m) \<in> set snap. all_ok f (fst (market_sides m)) \<and> all_ok f (snd (market_sides m)))
        \<and> h' = h \<and> unt = oks f (concat (map (\<lambda>(c, m). market_pending m) snap))
        \<and> (\<forall>(c, m) \<in> set snap. map_of books (Coin c) =
              Some (oks f (fst (market_sides m)), oks f (snd (market_sides m))))"
proof (cases "convert_loop f snap [] [] 0")
  case (Inl e)
  then have "convert_cli_snapshot f snap h = Inl e"
    by (simp add: convert_cli_snapshot_def map_ok_def)
  moreover have "\<not> (\<forall>(c, m) \<in> set snap. all_ok f (fst (market_sides m)) \<and> all_ok f (snd (market_sides m)))"
    using Inl convert_loop_eq [of f snap "[]" "[]" 0] by auto
  ultimately show ?thesis by simp
next
  case (Inr r)
  obtain books unt n where r: "r = (books, unt, n)" by (cases r)
  let ?g = "\<lambda>m. (oks f (fst (market_sides m)), oks f (snd (market_sides m)))"
  note eq = Inr [unfolded r convert_loop_eq]
  have b: "books = fold (\<lambda>(c, m). hm_insert (Coin c) (?g m)) snap []"
    and u: "unt = concat (map (\<lambda>(c, m). oks f (market_pending m)) snap)"
    using eq by simp_all
  have "concat (map (\<lambda>(c, m). oks f (market_pending m)) snap)
      = oks f (concat (map (\<lambda>(c, m). market_pending m) snap))"
    by (induction snap) (auto simp: oks_def)
  moreover have "\<forall>(c, m) \<in> set snap. map_of books (Coin c) = Some (?g m)"
    unfolding b using fold_insert_markets [OF assms, of _ _ ?g] by auto
  ultimately show ?thesis
    using Inr r eq u by (simp add: convert_cli_snapshot_def map_ok_def)
qed

definition sample_try_from :: "u64 \<Rightarrow> unit + inner_l4_order" where
  "sample_try_from n = (if n = 0 then Inl () else Inr (sample_order n Bid 100 n))"

theorem convert_cli_snapshot_complete_witness:
  "case convert_cli_snapshot sample_try_from [(''BTC'', WithTriggers [1] [2] [0, 3])] 7 of
     Inl e \<Rightarrow> False
   | Inr (h', books, unt) \<Rightarrow> h' = 7 \<and> unt = [sample_order 3 Bid 100 3]
       \<and> map_of books (Coin ''BTC'') = Some ([sample_order 1 Bid 100 1], [sample_order 2 Bid 100 2])"
  using convert_cli_snapshot_complete [of "[(''BTC'', WithTriggers [1] [2] [0, 3])]" sample_try_from 7]
  by (auto simp: all_ok_def oks_def sample_try_from_def split: sum.splits)

end
