(* ===== verification/Pairing.thy ===== *)
theory Pairing
  imports Book_State
begin

text \<open>
  The pairing of the two streams (\<open>apply_order_statuses_hft\<close> and \<open>apply_order_diffs_hft\<close> of
  \<open>listeners/order_book/state.rs\<close>): an order's status and its diffs come from two files and in any
  relative order. The theory follows one order through the three phases it can be in (its \<open>New\<close>
  waiting, resting on the book, gone) and shows that the books end the same wherever the status falls.
\<close>

section \<open>Events\<close>

datatype book_event = EvStatus node_data_order_status | EvDiff node_data_order_diff

fun apply_event :: "instant \<Rightarrow> u64 \<Rightarrow> book_event \<Rightarrow> order_book_state \<Rightarrow> order_book_state option" where
  "apply_event now h (EvStatus s) st = Some (snd (apply_one_status now s st))"
| "apply_event now h (EvDiff d) st = map_option snd (apply_one_diff now h d st)"

fun run_events :: "instant \<Rightarrow> u64 \<Rightarrow> book_event list \<Rightarrow> order_book_state \<Rightarrow> order_book_state option" where
  "run_events now h [] st = Some st"
| "run_events now h (e # es) st = Option.bind (apply_event now h e st) (run_events now h es)"

lemma run_events_append:
  "run_events now h (xs @ ys) st = Option.bind (run_events now h xs st) (run_events now h ys)"
  by (induction xs arbitrary: st) (auto split: bind_splits)

section \<open>Where an order rests\<close>

lemma add_before_resting:
  fixes ib
  assumes ok: "book_ok b" and new: "hm_get (oid_to_side_px b) (order_oid o') = None" and pos: "0 < order_szn o'"
    and clear: "crossing o' (side_levels (other_side (io_side o')) b) = []"
  defines "b' \<equiv> snd (add_order_before o' ib b)"
  shows "side_levels (other_side (io_side o')) b' = side_levels (other_side (io_side o')) b"
    and "side_levels (io_side o') b' = snd (add_order_to_book (side_levels (io_side o') b) o' ib)"
proof -
  let ?sd = "io_side o'"
  obtain fell where add: "add_order_before o' ib b = (fell, b')"
    unfolding b'_def by (metis prod.collapse)
  from add_order_before_parts [OF ok new add] obtain filled t where
    t: "is_match (order_szn o') (crossing o' (side_levels (other_side ?sd) b)) filled
        (crossing o' (side_levels (other_side ?sd) b'))"
      "non_crossing o' (side_levels (other_side ?sd) b') = non_crossing o' (side_levels (other_side ?sd) b)"
      "same_order o' t" "order_szn t = order_szn o' - qsum (crossing o' (side_levels (other_side ?sd) b))"
      "if order_szn t = 0 then \<not> fell \<and> side_levels ?sd b' = side_levels ?sd b
       else (fell, side_levels ?sd b') = add_order_to_book (side_levels ?sd b) t ib"
    by blast
  have ok': "book_ok b'"
    unfolding b'_def by (rule add_order_before_ok [OF ok])
  have "crossing o' (side_levels (other_side ?sd) b') = []"
    using t(1) clear is_match_used_up(1) [OF t(1)] by simp
  then show "side_levels (other_side ?sd) b' = side_levels (other_side ?sd) b"
    using crossing_Nil_iff [OF side_okI [OF ok]] crossing_Nil_iff [OF side_okI [OF ok']] clear t(2) by metis
  have "order_szn t = order_szn o'"
    using t(4) clear by simp
  then have "t = o'"
    using t(3) by (simp add: same_order_def szn_inject)
  then show "side_levels ?sd b' = snd (add_order_to_book (side_levels ?sd b) o' ib)"
    using t(5) pos by (metis less_irrefl snd_conv)
qed

lemma splice_cut:
  assumes "hm_contains q a"
  obtains u v where "q = u @ v" and "\<forall>k x. splice_before a k x q = u @ (k, x) # v"
proof -
  obtain u e v where s: "q = u @ e # v" "fst e = a" "a \<notin> fst ` set u"
    using assms split_list_first_prop [of q "\<lambda>e. fst e = a"]
    by (auto simp: map_of_eq_None_iff) (metis fst_conv image_iff)
  then have "splice_before a k x q = u @ (k, x) # (e # v)" for k x
    using splice_before_cut [of a u k x "snd e" v] by (metis prod.collapse)
  then show ?thesis
    using that [of u "e # v"] s(1) by simp
qed

text \<open>The place in the queue depends on the price, the side and the anchor, not on the size.\<close>

lemma add_to_book_place:
  assumes bt: "bt_ok m"
    and fresh: "\<forall>l. map_of m p = Some l \<longrightarrow> k \<notin> fst ` set (orders l)"
  obtains pre post where "flat (prio sd m) = pre @ post"
    and "\<forall>o'. io_limit_px o' = p \<and> order_oid o' = k \<longrightarrow>
      flat (prio sd (snd (add_order_to_book m o' ib))) = pre @ (k, o') # post"
proof -
  define l where "l = (case map_of m p of None \<Rightarrow> level_new | Some l \<Rightarrow> l)"
  let ?A = "flat (filter (\<lambda>e. better sd (fst e) p) (prio sd m))"
  let ?B = "flat (filter (\<lambda>e. better sd p (fst e)) (prio sd m))"
  have q: "flat (prio sd m) = ?A @ orders l @ ?B"
    using flat_at_level [OF bt, of sd p] by (simp add: l_def level_new_def split: option.split)
  have k: "map_of (orders l) k = None"
    using fresh by (auto simp: l_def level_new_def map_of_eq_None_iff split: option.splits)
  have eq: "flat (prio sd (snd (add_order_to_book m o' ib))) =
      ?A @ (case ib of Some a \<Rightarrow> if hm_contains (orders l) a then splice_before a k o' (orders l)
                                  else orders l @ [(k, o')]
                     | None \<Rightarrow> orders l @ [(k, o')]) @ ?B"
    if "io_limit_px o' = p" "order_oid o' = k" for o'
  proof -
    have push: "orders (snd (level_push_back k o' l)) = orders l @ [(k, o')]"
      using k by (simp add: level_push_back_def q_push_back_def)
    have ins: "orders (snd (level_insert_before a k o' l)) = splice_before a k o' (orders l)"
      if "hm_contains (orders l) a" for a
      using k that by (simp add: level_insert_before_def q_insert_before_def Let_def)
    have "snd (add_order_to_book m o' ib) = bt_insert p
        (case ib of None \<Rightarrow> snd (level_push_back k o' l)
         | Some a \<Rightarrow> if level_contains a l then snd (level_insert_before a k o' l)
                      else snd (level_push_back k o' l)) m"
      using that by (simp add: add_order_to_book_def Let_def l_def split: option.split)
    then show ?thesis
      using push ins by (simp add: flat_insert_level [OF bt] level_contains_def split: option.split)
  qed
  show ?thesis
  proof (cases "\<exists>a. ib = Some a \<and> hm_contains (orders l) a")
    case True
    then obtain a where a: "ib = Some a" "hm_contains (orders l) a" by blast
    obtain u v where "orders l = u @ v" "\<forall>j x. splice_before a j x (orders l) = u @ (j, x) # v"
      by (rule splice_cut [OF a(2)])
    then show ?thesis
      using that [of "?A @ u" "v @ ?B"] q eq a by simp
  next
    case False
    then have "flat (prio sd (snd (add_order_to_book m o' ib))) = (?A @ orders l) @ (k, o') # ?B"
      if "io_limit_px o' = p" "order_oid o' = k" for o'
      using eq [OF that] by (auto split: option.splits)
    then show ?thesis
      using that [of "?A @ orders l" "?B"] q by simp
  qed
qed

text \<open>
  The queues of a book after \<open>o'\<close> rested there with size \<open>z\<close>: all resizings of the same order give the
  same queues up to that size, and taking the order out gives the queues from before.
\<close>

definition sized :: "u64 \<Rightarrow> inner_l4_order \<Rightarrow> sz \<Rightarrow> inner_l4_order" where
  "sized t inner z = convert_trigger t (order_modify_sz z inner)"

lemma sized_fields [simp]:
  "io_side (sized t o' z) = io_side o'" "io_limit_px (sized t o' z) = io_limit_px o'"
  "order_oid (sized t o' z) = order_oid o'" "io_coin (sized t o' z) = io_coin o'" "io_sz (sized t o' z) = z"
  by (simp_all add: sized_def)

lemma sized_resize [simp]: "order_modify_sz z' (sized t o' z) = sized t o' z'"
  by (simp add: sized_def convert_trigger_def order_modify_sz_def)

lemma crossing_sized [simp]: "crossing (sized t o' z) m = crossing o' m"
  by (simp add: crossing_def)

definition rested :: "u64 \<Rightarrow> inner_l4_order \<Rightarrow> oid option \<Rightarrow> order_book \<Rightarrow> sz \<Rightarrow> side \<Rightarrow> (oid, inner_l4_order) queue" where
  "rested t inner ib b z sd = book_queue sd (snd (add_order_before (sized t inner z) ib b))"

lemma rested_effects:
  assumes ok: "book_ok b" and new: "hm_get (oid_to_side_px b) (order_oid o') = None" and pos: "0 < szn z"
    and clear: "crossing o' (side_levels (other_side (io_side o')) b) = []"
  shows "filter (\<lambda>e. fst e \<noteq> order_oid o') (rested t o' ib b z sd) = book_queue sd b"
    and "0 < szn z' \<Longrightarrow> map (resize (order_oid o') z') (rested t o' ib b z sd) = rested t o' ib b z' sd"
proof -
  let ?sd = "io_side o'" and ?k = "order_oid o'"
  have bt: "bt_ok (side_levels ?sd b)"
    using side_okI [OF ok] by (simp add: side_ok_def)
  obtain pre post where q: "book_queue ?sd b = pre @ post"
    and pl: "\<forall>x. io_limit_px x = io_limit_px o' \<and> order_oid x = ?k \<longrightarrow>
      flat (prio ?sd (snd (add_order_to_book (side_levels ?sd b) x ib))) = pre @ (?k, x) # post"
    using add_to_book_place [OF bt, of "io_limit_px o'" ?k ?sd] fresh_at_level [OF ok new]
    unfolding book_queue_def by (metis (no_types, lifting))
  have r: "rested t o' ib b w ?sd = pre @ (?k, sized t o' w) # post"
    and r': "rested t o' ib b w (other_side ?sd) = book_queue (other_side ?sd) b" if "0 < szn w" for w
    using add_before_resting [OF ok, of "sized t o' w" ib] new clear that pl
    by (simp_all add: rested_def book_queue_def)
  have away: "\<forall>e \<in> set (book_queue sd b). fst e \<noteq> ?k" for sd
  proof -
    have "?k \<notin> fst ` set (book_queue sd b)"
      using new index_from_queues [OF ok, of ?k] by (cases sd) simp_all
    then show ?thesis by (metis image_eqI)
  qed
  then have f: "filter (\<lambda>e. fst e \<noteq> ?k) (book_queue sd b) = book_queue sd b"
    and m: "map (resize ?k z') (book_queue sd b) = book_queue sd b" for sd
    by (simp_all add: filter_id_conv map_idI resize_def)
  have pp: "\<forall>e \<in> set pre \<union> set post. fst e \<noteq> ?k"
    using away [of ?sd] unfolding q by auto
  have sd: "sd = ?sd \<or> sd = other_side ?sd"
    by (cases sd; cases ?sd) auto
  show "filter (\<lambda>e. fst e \<noteq> ?k) (rested t o' ib b z sd) = book_queue sd b"
    using sd r [OF pos] r' [OF pos] q f pp by (auto simp: filter_id_conv)
  assume z': "0 < szn z'"
  have "map (resize ?k z') pre = pre" "map (resize ?k z') post = post"
    using pp by (intro map_idI; simp add: resize_def)+
  then show "map (resize ?k z') (rested t o' ib b z sd) = rested t o' ib b z' sd"
    using sd r [OF pos] r' [OF pos] r [OF z'] r' [OF z'] m by (auto simp: resize_def)
qed

section \<open>The life of an order\<close>

text \<open>
  What the diffs after the \<open>New\<close> leave of an order of size \<open>z\<close>: its last size, or nothing once it was
  removed or reduced to zero.
\<close>

fun life :: "sz option \<Rightarrow> inner_order_diff list \<Rightarrow> sz option" where
  "life cur [] = cur"
| "life None (i # is) = life None is"
| "life (Some z) (IUpdate _ z' # is) = life (if 0 < szn z' then Some z' else None) is"
| "life (Some z) (IRemove # is) = life None is"
| "life (Some z) (INew _ _ # is) = life (Some z) is"

lemma life_None [simp]: "life None is = None"
  by (induction "is") auto

lemma life_append: "life cur (xs @ ys) = life (life cur xs) ys"
  by (induction cur xs rule: life.induct) auto

lemma life_positive: "(case cur of None \<Rightarrow> True | Some z \<Rightarrow> 0 < szn z) \<Longrightarrow> life cur is = Some z' \<Longrightarrow> 0 < szn z'"
  by (induction cur "is" rule: life.induct) (auto split: if_splits)

text \<open>The diffs that may follow the \<open>New\<close> of order \<open>k\<close>: updates and removals, readable, of its coin.\<close>

definition follow_up :: "oid \<Rightarrow> coin \<Rightarrow> node_data_order_diff \<Rightarrow> inner_order_diff \<Rightarrow> bool" where
  "follow_up k c d i \<longleftrightarrow> diff_oid d = k \<and> diff_coin d = c \<and> inner_diff_try_from (nd_raw_book_diff d) = Inr i
     \<and> (case i of INew _ _ \<Rightarrow> False | _ \<Rightarrow> True)"

text \<open>
  The three phases after the \<open>New\<close>, seen from the books. \<open>base\<close> are the books before the order, \<open>q\<close> the
  queues of its coin.
\<close>

definition apart :: "oid \<Rightarrow> coin \<Rightarrow> (side \<Rightarrow> (oid, inner_l4_order) queue) \<Rightarrow> (coin \<Rightarrow> order_book) \<Rightarrow> order_book_state \<Rightarrow> bool" where
  "apart k c q base st \<longleftrightarrow> state_ok st \<and> \<not> (coin_is_spot c \<and> st_ignore_spot st)
     \<and> hm_get (st_pending_news st) k = None
     \<and> (\<forall>sd. book_queue sd (book_of (st_order_book st) c) = q sd)
     \<and> (\<forall>c'. c' \<noteq> c \<longrightarrow> book_of (st_order_book st) c' = base c')"

definition absent :: "oid \<Rightarrow> order_book \<Rightarrow> bool" where
  "absent k b \<longleftrightarrow> hm_get (oid_to_side_px b) k = None"

definition waiting :: "oid \<Rightarrow> coin \<Rightarrow> (coin \<Rightarrow> order_book) \<Rightarrow> oid option \<Rightarrow> sz \<Rightarrow> order_book_state \<Rightarrow> bool" where
  "waiting k c base ib z st \<longleftrightarrow> state_ok st \<and> \<not> (coin_is_spot c \<and> st_ignore_spot st)
     \<and> book_of (st_order_book st) = base \<and> absent k (base c) \<and> k \<notin> st_zeroed_set st
     \<and> (\<exists>ts user. hm_get (st_pending_news st) k = Some (z, ib, ts, user))"

definition gone :: "oid \<Rightarrow> coin \<Rightarrow> (coin \<Rightarrow> order_book) \<Rightarrow> order_book_state \<Rightarrow> bool" where
  "gone k c base st \<longleftrightarrow> apart k c (\<lambda>sd. book_queue sd (base c)) base st \<and> absent k (book_of (st_order_book st) c)"

definition resting ::
  "oid \<Rightarrow> coin \<Rightarrow> (sz \<Rightarrow> side \<Rightarrow> (oid, inner_l4_order) queue) \<Rightarrow> (coin \<Rightarrow> order_book) \<Rightarrow> sz \<Rightarrow> order_book_state \<Rightarrow> bool" where
  "resting k c r base z st \<longleftrightarrow> apart k c (r z) base st \<and> \<not> absent k (book_of (st_order_book st) c)"

lemma cancel_absent: "hm_get (oid_to_side_px b) k = None \<Longrightarrow> cancel_order k b = (False, b)"
  by (simp add: cancel_order_def)

lemma modify_absent: "hm_get (oid_to_side_px b) k = None \<Longrightarrow> book_modify_sz k z b = (False, b)"
  by (simp add: book_modify_sz_def cancel_absent)

lemma modify_found:
  assumes "book_ok b"
  shows "fst (book_modify_sz k z b) \<longleftrightarrow> hm_contains (oid_to_side_px b) k"
proof (cases "sz_is_zero z")
  case True
  then show ?thesis
    using cancel_order_ok(2) [OF assms] by (simp add: book_modify_sz_def)
next
  case False
  then show ?thesis
    using book_modify_sz_ok(2) [OF assms] by (simp add: sz_zero_iff)
qed

text \<open>One follow-up diff, with the book operation's effect spelled out.\<close>

definition diff_effect :: "oid \<Rightarrow> inner_order_diff \<Rightarrow> order_book \<Rightarrow> order_book" where
  "diff_effect k i b =
     (case i of IUpdate _ z \<Rightarrow> snd (book_modify_sz k z b) | _ \<Rightarrow> snd (cancel_order k b))"

definition diff_size :: "inner_order_diff \<Rightarrow> sz option" where
  "diff_size i = (case i of IUpdate _ z \<Rightarrow> Some z | _ \<Rightarrow> None)"

definition step_facts :: "oid \<Rightarrow> coin \<Rightarrow> inner_order_diff \<Rightarrow> order_book_state \<Rightarrow> order_book_state \<Rightarrow> bool" where
  "step_facts k c i st st' \<longleftrightarrow>
     state_ok st' \<and> st_ignore_spot st' = st_ignore_spot st
     \<and> book_of (st_order_book st') = (book_of (st_order_book st))(c := diff_effect k i (book_of (st_order_book st) c))
     \<and> (let miss = absent k (book_of (st_order_book st) c)
        in (\<not> miss \<longrightarrow> st_pending_news st' = st_pending_news st)
         \<and> (hm_get (st_pending_news st) k = None \<longrightarrow> st_pending_news st' = st_pending_news st)
         \<and> (miss \<and> k \<notin> st_zeroed_set st \<longrightarrow> k \<notin> st_zeroed_set st'
              \<and> st_pending_news st' = st_pending_news (snd (apply_diff_to_pending_new k (diff_size i) st))))"

lemma apply_pending_news_cong:
  "st_pending_news st = st_pending_news st2 \<Longrightarrow>
     st_pending_news (snd (apply_diff_to_pending_new k z st)) = st_pending_news (snd (apply_diff_to_pending_new k z st2))"
  by (auto simp: apply_diff_to_pending_new_def split: option.split)

lemma apply_pending_unknown:
  "hm_get (st_pending_news st) k = None \<Longrightarrow> snd (apply_diff_to_pending_new k z st) = st"
  by (simp add: apply_diff_to_pending_new_def)

lemma diff_step:
  assumes ok: "state_ok st" and f: "follow_up k c d i" and ign: "\<not> (coin_is_spot c \<and> st_ignore_spot st)"
  obtains st' where "apply_event now h (EvDiff d) st = Some st'" and "step_facts k c i st st'"
proof -
  note D = state_okD [OF ok]
  let ?B = "st_order_book st" and ?b = "book_of (st_order_book st) c"
  have d: "diff_oid d = k" "diff_coin d = c" "inner_diff_try_from (nd_raw_book_diff d) = Inr i"
    using f by (auto simp: follow_up_def)
  have b: "book_ok ?b" using book_of_ok(1) [OF D(1)] .
  show ?thesis
  proof (cases i)
    case (INew z ib)
    then show ?thesis using f by (simp add: follow_up_def)
  next
    case (IUpdate z0 z)
    let ?st1 = "st\<lparr>st_order_book := snd (books_modify_sz k c z ?B)\<rparr>"
    define st' where "st' = (if fst (books_modify_sz k c z ?B)
        then (if sz_value z = 0 \<and> k \<notin> st_zeroed_set ?st1
              then ?st1\<lparr>st_zeroed_set := insert k (st_zeroed_set ?st1),
                        st_zeroed_recently := st_zeroed_recently ?st1 @ [(h, k)]\<rparr>
              else ?st1)
        else snd (apply_diff_to_pending_new k (Some z) ?st1))"
    have r: "apply_one_diff now h d st = Some (Inr {c}, st')"
      using d ign IUpdate by (simp add: apply_one_diff_def Let_def split_beta st'_def)
    have found: "fst (books_modify_sz k c z ?B) \<longleftrightarrow> hm_contains (oid_to_side_px ?b) k"
      using books_modify_spec(2) [OF D(1)] modify_found [OF b] by simp
    have book: "book_of (st_order_book st') = (book_of ?B)(c := diff_effect k i ?b)"
      using books_modify_spec(3) [OF D(1)] by (simp add: st'_def diff_effect_def IUpdate)
    have "step_facts k c i st st'"
      unfolding step_facts_def Let_def
      using book apply_one_diff_ok [OF ok r] apply_pending_unknown [of ?st1 k "Some z"]
        apply_pending_news_cong [of ?st1 st k "Some z"]
      by (simp add: st'_def found diff_size_def absent_def IUpdate)
    then show ?thesis using that r by simp
  next
    case IRemove
    let ?st1 = "st\<lparr>st_order_book := snd (books_cancel_order k c ?B)\<rparr>"
    define st' where "st' = (if fst (books_cancel_order k c ?B) then ?st1
        else if k \<in> st_zeroed_set ?st1 then ?st1\<lparr>st_zeroed_set := st_zeroed_set ?st1 - {k}\<rparr>
        else snd (apply_diff_to_pending_new k None ?st1))"
    have r: "apply_one_diff now h d st = Some (Inr {c}, st')"
      using d ign IRemove by (simp add: apply_one_diff_def Let_def split_beta st'_def)
    have found: "fst (books_cancel_order k c ?B) \<longleftrightarrow> hm_contains (oid_to_side_px ?b) k"
      using books_cancel_spec(2) [OF D(1)] cancel_order_ok(2) [OF b] by simp
    have book: "book_of (st_order_book st') = (book_of ?B)(c := diff_effect k i ?b)"
      using books_cancel_spec(3) [OF D(1)] by (simp add: st'_def diff_effect_def IRemove)
    have "step_facts k c i st st'"
      unfolding step_facts_def Let_def
      using book apply_one_diff_ok [OF ok r] apply_pending_unknown [of ?st1 k None]
        apply_pending_news_cong [of ?st1 st k None]
      by (simp add: st'_def found diff_size_def absent_def IRemove)
    then show ?thesis using that r by simp
  qed
qed

section \<open>The phases\<close>

lemma diff_effect_absent: "absent k b \<Longrightarrow> diff_effect k i b = b"
  by (simp add: absent_def diff_effect_def cancel_absent modify_absent split: inner_order_diff.split)

lemma absent_queues: "book_ok b \<Longrightarrow> absent k b \<longleftrightarrow> (\<forall>sd. k \<notin> fst ` set (book_queue sd b))"
  unfolding absent_def index_from_queues by (metis side.exhaust)

lemma gone_step:
  assumes g: "gone k c base st" and f: "follow_up k c d i"
  shows "\<exists>st'. apply_event now h (EvDiff d) st = Some st' \<and> gone k c base st'"
proof -
  have a: "apart k c (\<lambda>sd. book_queue sd (base c)) base st" "absent k (book_of (st_order_book st) c)"
    using g by (auto simp: gone_def)
  then obtain st' where st': "apply_event now h (EvDiff d) st = Some st'" "step_facts k c i st st'"
    using diff_step [OF _ f] unfolding apart_def by blast
  have "book_of (st_order_book st') = book_of (st_order_book st)"
    using st'(2) diff_effect_absent [OF a(2)] by (simp add: step_facts_def)
  then have "gone k c base st'"
    using a st'(2) by (simp add: gone_def apart_def step_facts_def Let_def)
  with st'(1) show ?thesis by blast
qed

lemma waiting_step:
  assumes w: "waiting k c base ib z st" and f: "follow_up k c d i"
  shows "\<exists>st'. apply_event now h (EvDiff d) st = Some st' \<and>
    (case life (Some z) [i] of Some z' \<Rightarrow> waiting k c base ib z' st' | None \<Rightarrow> gone k c base st')"
proof -
  obtain st' where st': "apply_event now h (EvDiff d) st = Some st'" "step_facts k c i st st'"
    using diff_step [OF _ f] w unfolding waiting_def by blast
  obtain ts user where p: "hm_get (st_pending_news st) k = Some (z, ib, ts, user)"
    using w by (auto simp: waiting_def)
  have b: "book_of (st_order_book st') = base"
    using st'(2) diff_effect_absent [of k "base c" i] w by (simp add: step_facts_def waiting_def)
  have n: "st_pending_news st' = st_pending_news (snd (apply_diff_to_pending_new k (diff_size i) st))"
    and z: "k \<notin> st_zeroed_set st'" and ok: "state_ok st'" "st_ignore_spot st' = st_ignore_spot st"
    using st'(2) w by (auto simp: step_facts_def waiting_def Let_def)
  have dead: "gone k c base st'" if "hm_get (st_pending_news st') k = None"
    using that b ok w by (simp add: gone_def apart_def waiting_def)
  have alive: "waiting k c base ib z' st'" if "hm_get (st_pending_news st') k = Some (z', ib, ts, user)" for z'
    using that b ok w z by (auto simp: waiting_def)
  show ?thesis
  proof (cases i)
    case (INew x y)
    then show ?thesis using f by (simp add: follow_up_def)
  next
    case (IUpdate z0 z')
    have pos: "0 < sz_value z' \<longleftrightarrow> 0 < szn z'"
      by (simp add: word_less_nat_alt)
    show ?thesis
    proof (cases "0 < szn z'")
      case True
      then have "hm_get (st_pending_news st') k = Some (z', ib, ts, user)"
        using p pos by (simp add: n apply_diff_to_pending_new_def diff_size_def IUpdate update_conv')
      with alive True st'(1) show ?thesis by (auto simp: IUpdate)
    next
      case False
      then have "hm_get (st_pending_news st') k = None"
        using p pos by (simp add: n apply_diff_to_pending_new_def diff_size_def IUpdate delete_conv')
      with dead False st'(1) show ?thesis by (auto simp: IUpdate)
    qed
  next
    case IRemove
    then have "hm_get (st_pending_news st') k = None"
      using p by (simp add: n apply_diff_to_pending_new_def diff_size_def delete_conv')
    with dead st'(1) show ?thesis by (auto simp: IRemove)
  qed
qed

text \<open>\<open>r\<close>: the queues of the coin for every size the order can rest with.\<close>

definition resizable :: "oid \<Rightarrow> (side \<Rightarrow> (oid, inner_l4_order) queue) \<Rightarrow> (sz \<Rightarrow> side \<Rightarrow> (oid, inner_l4_order) queue) \<Rightarrow> bool" where
  "resizable k q0 r \<longleftrightarrow> (\<forall>z sd. 0 < szn z \<longrightarrow> filter (\<lambda>e. fst e \<noteq> k) (r z sd) = q0 sd \<and>
     (\<forall>z'. 0 < szn z' \<longrightarrow> map (resize k z') (r z sd) = r z' sd))"

lemma resting_step:
  assumes w: "resting k c r base z st" and f: "follow_up k c d i" and z: "0 < szn z"
    and r: "resizable k (\<lambda>sd. book_queue sd (base c)) r"
  shows "\<exists>st'. apply_event now h (EvDiff d) st = Some st' \<and>
    (case life (Some z) [i] of Some z' \<Rightarrow> resting k c r base z' st' | None \<Rightarrow> gone k c base st')"
proof -
  let ?b = "book_of (st_order_book st) c"
  have a: "apart k c (r z) base st" "\<not> absent k ?b"
    using w by (auto simp: resting_def)
  then obtain st' where st': "apply_event now h (EvDiff d) st = Some st'" "step_facts k c i st st'"
    using diff_step [OF _ f] unfolding apart_def by blast
  have b: "book_ok ?b" and b': "book_ok (book_of (st_order_book st') c)"
    by (rule book_of_ok(1) [OF state_okD(1)], use a st'(2) in \<open>simp add: apart_def step_facts_def\<close>)+
  have eff: "book_of (st_order_book st') c = diff_effect k i ?b"
    "\<forall>c'. c' \<noteq> c \<longrightarrow> book_of (st_order_book st') c' = base c'"
    and rest: "state_ok st'" "st_ignore_spot st' = st_ignore_spot st" "hm_get (st_pending_news st') k = None"
    using st'(2) a by (auto simp: step_facts_def Let_def apart_def)
  have q: "book_queue sd ?b = r z sd" for sd
    using a by (simp add: apart_def)
  have dead: "gone k c base st'" if "diff_effect k i ?b = snd (cancel_order k ?b)"
  proof -
    have "book_queue sd (book_of (st_order_book st') c) = book_queue sd (base c)" for sd
      using that cancel_order_queue [OF b, of sd k] r z by (simp add: eff(1) q resizable_def)
    moreover have "absent k (book_of (st_order_book st') c)"
      unfolding absent_queues [OF b'] unfolding eff(1) that cancel_order_queue [OF b] by auto
    ultimately show ?thesis
      using eff(2) rest a by (simp add: gone_def apart_def)
  qed
  show ?thesis
  proof (cases i)
    case (INew x y)
    then show ?thesis using f by (simp add: follow_up_def)
  next
    case (IUpdate z0 z')
    show ?thesis
    proof (cases "0 < szn z'")
      case True
      have e: "diff_effect k i ?b = snd (book_modify_sz k z' ?b)"
        by (simp add: diff_effect_def IUpdate)
      have "book_queue sd (book_of (st_order_book st') c) = r z' sd" for sd
        using modify_sz_queue [OF b True] r z True by (simp add: eff(1) e q resizable_def)
      moreover have "rests (book_of (st_order_book st') c) = rests ?b"
        unfolding eff(1) e by (rule book_modify_sz_ok(3) [OF b True])
      then have "\<not> absent k (book_of (st_order_book st') c)"
        using a(2) b b' index_none unfolding absent_def book_ok_def by metis
      ultimately have "resting k c r base z' st'"
        using eff(2) rest a by (simp add: resting_def apart_def)
      with True st'(1) show ?thesis by (auto simp: IUpdate)
    next
      case False
      then have "diff_effect k i ?b = snd (cancel_order k ?b)"
        by (simp add: diff_effect_def IUpdate book_modify_sz_def sz_zero_iff)
      with dead False st'(1) show ?thesis by (auto simp: IUpdate)
    qed
  next
    case IRemove
    then have "diff_effect k i ?b = snd (cancel_order k ?b)"
      by (simp add: diff_effect_def)
    with dead st'(1) show ?thesis by (auto simp: IRemove)
  qed
qed

text \<open>Any number of follow-ups, in any phase.\<close>

lemma run_follow_ups:
  assumes "\<And>cur st d i. ph cur st \<Longrightarrow> follow_up k c d i \<Longrightarrow>
      \<exists>st'. apply_event now h (EvDiff d) st = Some st' \<and> ph (life cur [i]) st'"
    and "ph cur st" and "list_all2 (follow_up k c) ds is"
  shows "\<exists>st'. run_events now h (map EvDiff ds) st = Some st' \<and> ph (life cur is) st'"
  using assms(3,2)
proof (induction ds "is" arbitrary: cur st rule: list_all2_induct)
  case (Cons d ds i "is")
  obtain st1 where "apply_event now h (EvDiff d) st = Some st1" "ph (life cur [i]) st1"
    using assms(1) [OF Cons.prems Cons.hyps(1)] by blast
  moreover have "life cur (i # is) = life (life cur [i]) is"
    using life_append [of cur "[i]" "is"] by simp
  ultimately show ?case
    using Cons.IH [of "life cur [i]" st1] by (auto simp del: life.simps)
qed simp

section \<open>The arrival of the status\<close>

definition status_time :: "node_data_order_status \<Rightarrow> u64" where
  "status_time s = word_of_int (os_time s)"

text \<open>The order as both paths rest it, and the conditions on the order under which it rests unmatched.\<close>

definition fresh_order :: "oid \<Rightarrow> coin \<Rightarrow> node_data_order_status \<Rightarrow> inner_l4_order \<Rightarrow> order_book \<Rightarrow> bool" where
  "fresh_order k c s inner b \<longleftrightarrow> status_try_into s = Inr inner \<and> 0 \<le> os_time s
     \<and> k = order_oid inner \<and> c = io_coin inner \<and> absent k b
     \<and> crossing inner (side_levels (other_side (io_side inner)) b) = []"

lemma fresh_order_oid:
  assumes "fresh_order k c s inner b"
  shows "Oid (lo_oid (os_order s)) = k" and "Coin (lo_coin (os_order s)) = c"
  using assms status_try_into_fields [of s inner] by (auto simp: fresh_order_def order_oid_def)

lemma resizable_rested:
  assumes "book_ok b" and "fresh_order k c s inner b"
  shows "resizable k (\<lambda>sd. book_queue sd b) (rested t inner ib b)"
proof -
  have f: "k = order_oid inner" "hm_get (oid_to_side_px b) (order_oid inner) = None"
    "crossing inner (side_levels (other_side (io_side inner)) b) = []"
    using assms(2) by (auto simp: fresh_order_def absent_def)
  show ?thesis
    unfolding resizable_def f(1)
    by (intro allI impI conjI rested_effects(1) [OF assms(1) f(2) _ f(3)] rested_effects(2) [OF assms(1) f(2) _ f(3)])
qed

lemma rested_present:
  assumes ok: "book_ok b" and f: "fresh_order k c s inner b" and z: "0 < szn z"
  shows "\<not> absent k (snd (add_order_before (sized t inner z) ib b))"
proof
  let ?b = "snd (add_order_before (sized t inner z) ib b)"
  assume "absent k ?b"
  then have "\<forall>e \<in> set (book_queue (io_side inner) ?b). fst e \<noteq> k"
    using absent_queues [OF add_order_before_ok [OF ok]] by (metis image_eqI)
  then have "filter (\<lambda>e. fst e \<noteq> k) (rested t inner ib b z (io_side inner)) = book_queue (io_side inner) ?b"
    by (simp add: rested_def filter_id_conv)
  then have "book_queue (io_side inner) ?b = book_queue (io_side inner) b"
    using resizable_rested [OF ok f, of t ib] z by (simp add: resizable_def)
  moreover obtain pre post where "flat (prio (io_side inner) (side_levels (io_side inner) b)) = pre @ post"
      "\<forall>x. io_limit_px x = io_limit_px inner \<and> order_oid x = k \<longrightarrow>
        flat (prio (io_side inner) (snd (add_order_to_book (side_levels (io_side inner) b) x ib))) = pre @ (k, x) # post"
  proof (rule add_to_book_place [where sd = "io_side inner" and m = "side_levels (io_side inner) b"
        and p = "io_limit_px inner" and k = k and ib = ib])
    show "bt_ok (side_levels (io_side inner) b)"
      using side_okI [OF ok] by (simp add: side_ok_def)
    show "\<forall>l. map_of (side_levels (io_side inner) b) (io_limit_px inner) = Some l \<longrightarrow> k \<notin> fst ` set (orders l)"
      using fresh_at_level [OF ok] f unfolding fresh_order_def absent_def by blast
  qed
  then have "book_queue (io_side inner) b = pre @ post"
      "book_queue (io_side inner) ?b = pre @ (k, sized t inner z) # post"
    using add_before_resting(2) [OF ok, of "sized t inner z" ib] f z
    by (auto simp: fresh_order_def absent_def book_queue_def)
  ultimately show False by simp
qed

lemma resting_after_add:
  assumes st: "state_ok st" "\<not> (coin_is_spot c \<and> st_ignore_spot st)" "hm_get (st_pending_news st) k = None"
    and b: "book_of (st_order_book st) = base" and f: "fresh_order k c s inner (base c)" and z: "0 < szn z"
  shows "resting k c (rested t inner ib (base c)) base z (rest_order (sized t inner z) ib st)"
proof -
  have D: "books_ok (st_order_book st)" using state_okD(1) [OF st(1)] .
  have ok: "book_ok (base c)" using book_of_ok(1) [OF D, of c] b by simp
  have "book_of (st_order_book (rest_order (sized t inner z) ib st))
      = base(c := snd (add_order_before (sized t inner z) ib (base c)))"
    using books_add_spec(3) [OF D, of "sized t inner z" ib] f b by (simp add: fresh_order_def)
  then show ?thesis
    using st rest_order_ok [OF st(1)] rested_present [OF ok f z, of t ib]
    by (simp add: resting_def apart_def rested_def)
qed

lemma status_waiting:
  assumes w: "waiting k c base ib z st" and f: "fresh_order k c s inner (base c)" and z: "0 < szn z"
  shows "resting k c (rested (status_time s) inner ib (base c)) base z (snd (apply_one_status now s st))"
proof -
  let ?st = "untriggered_update s st"
  let ?st2 = "?st\<lparr>st_pending_news := hm_remove k (st_pending_news ?st)\<rparr>"
  obtain ts user where p: "hm_get (st_pending_news st) k = Some (z, ib, ts, user)"
    using w by (auto simp: waiting_def)
  have ok: "state_ok ?st" using w untriggered_update_ok by (simp add: waiting_def)
  have ok2: "state_ok ?st2"
    by (rule state_ok_cong [OF ok])
       (use state_okD [OF ok] state_ok_zeroed [OF ok] pending_ok_remove_new in simp_all)
  have time: "word_of_int (max (os_time s) 0) = status_time s"
    using f by (simp add: status_time_def fresh_order_def)
  have "snd (apply_one_status now s st) = rest_order (sized (status_time s) inner z) ib ?st2"
    using p fresh_order_oid [OF f] f time by (simp add: apply_one_status_def Let_def sized_def fresh_order_def)
  moreover have "resting k c (rested (status_time s) inner ib (base c)) base z (rest_order (sized (status_time s) inner z) ib ?st2)"
  proof (rule resting_after_add)
    show "fresh_order k c s inner (base c)" "0 < szn z" "state_ok ?st2" by fact+
  qed (use w in \<open>simp_all add: waiting_def delete_conv'\<close>)
  ultimately show ?thesis by simp
qed

lemma status_gone:
  assumes g: "gone k c base st" and o: "Oid (lo_oid (os_order s)) = k"
  shows "gone k c base (snd (apply_one_status now s st))"
proof -
  have ok: "state_ok (snd (apply_one_status now s st))"
    using g apply_one_status_ok by (simp add: gone_def apart_def)
  have n: "hm_get (st_pending_news st) k = None"
    using g by (simp add: gone_def apart_def)
  then have "st_order_book (snd (apply_one_status now s st)) = st_order_book st"
    "st_pending_news (snd (apply_one_status now s st)) = st_pending_news st"
    "st_ignore_spot (snd (apply_one_status now s st)) = st_ignore_spot st"
    by (simp_all add: apply_one_status_def Let_def o)
  with ok g show ?thesis by (simp add: gone_def apart_def)
qed

section \<open>Every interleaving\<close>

definition opens :: "oid \<Rightarrow> coin \<Rightarrow> node_data_order_diff \<Rightarrow> sz \<Rightarrow> oid option \<Rightarrow> bool" where
  "opens k c d z ib \<longleftrightarrow> diff_oid d = k \<and> diff_coin d = c
     \<and> inner_diff_try_from (nd_raw_book_diff d) = Inr (INew z ib)"

text \<open>A state that has not seen the order.\<close>

definition unseen :: "oid \<Rightarrow> coin \<Rightarrow> order_book_state \<Rightarrow> bool" where
  "unseen k c st \<longleftrightarrow> state_ok st \<and> \<not> (coin_is_spot c \<and> st_ignore_spot st)
     \<and> hm_get (st_pending_statuses st) k = None \<and> hm_get (st_pending_news st) k = None
     \<and> k \<notin> st_zeroed_set st"

text \<open>The queues of the books once the order's life is over or as far as the diffs tell it.\<close>

definition final_queue ::
  "node_data_order_status \<Rightarrow> inner_l4_order \<Rightarrow> oid option \<Rightarrow> sz option \<Rightarrow> order_book_state \<Rightarrow> coin \<Rightarrow> side
     \<Rightarrow> (oid, inner_l4_order) queue" where
  "final_queue s inner ib cur st c' sd =
     (let b = book_of (st_order_book st) c'
      in if c' = io_coin inner
         then (case cur of None \<Rightarrow> book_queue sd b
               | Some z \<Rightarrow> book_queue sd (snd (add_order_before (sized (status_time s) inner z) ib b)))
         else book_queue sd b)"

fun phase_waiting where
  "phase_waiting k c base ib (Some z) st = (0 < szn z \<and> waiting k c base ib z st)"
| "phase_waiting k c base ib None st = gone k c base st"

fun phase_resting where
  "phase_resting k c r base (Some z) st = (0 < szn z \<and> resting k c r base z st)"
| "phase_resting k c r base None st = gone k c base st"

lemma phase_waiting_step:
  "phase_waiting k c base ib cur st \<Longrightarrow> follow_up k c d i \<Longrightarrow>
     \<exists>st'. apply_event now h (EvDiff d) st = Some st' \<and> phase_waiting k c base ib (life cur [i]) st'"
proof (cases cur)
  case (Some z)
  assume a: "phase_waiting k c base ib cur st" "follow_up k c d i"
  obtain st' where st': "apply_event now h (EvDiff d) st = Some st'"
    "case life (Some z) [i] of Some z' \<Rightarrow> waiting k c base ib z' st' | None \<Rightarrow> gone k c base st'"
    using waiting_step [of k c base ib z st d i now h] a Some by auto
  have "phase_waiting k c base ib (life (Some z) [i]) st'"
    using st'(2) life_positive [of "Some z" "[i]"] a Some by (cases "life (Some z) [i]") auto
  then show ?thesis using st'(1) Some by blast
qed (use gone_step in simp)

lemma phase_resting_step:
  assumes r: "resizable k (\<lambda>sd. book_queue sd (base c)) r"
  shows "phase_resting k c r base cur st \<Longrightarrow> follow_up k c d i \<Longrightarrow>
     \<exists>st'. apply_event now h (EvDiff d) st = Some st' \<and> phase_resting k c r base (life cur [i]) st'"
proof (cases cur)
  case (Some z)
  assume a: "phase_resting k c r base cur st" "follow_up k c d i"
  obtain st' where st': "apply_event now h (EvDiff d) st = Some st'"
    "case life (Some z) [i] of Some z' \<Rightarrow> resting k c r base z' st' | None \<Rightarrow> gone k c base st'"
    using resting_step [of k c r base z st d i now h] a Some r by auto
  have "phase_resting k c r base (life (Some z) [i]) st'"
    using st'(2) life_positive [of "Some z" "[i]"] a Some by (cases "life (Some z) [i]") auto
  then show ?thesis using st'(1) Some by blast
qed (use gone_step in simp)

lemma opens_step:
  assumes u: "unseen k c st" and o: "opens k c d z ib"
    and f: "fresh_order k c s inner (book_of (st_order_book st) c)"
  shows "\<exists>st'. apply_event now h (EvDiff d) st = Some st' \<and>
    waiting k c (book_of (st_order_book st)) ib z st'"
proof -
  let ?st = "st\<lparr>st_pending_news := hm_insert k (z, ib, now, nd_user d) (st_pending_news st)\<rparr>"
  have ok: "state_ok st" using u by (simp add: unseen_def)
  have "apply_one_diff now h d st = Some (Inr {}, ?st)"
    using u o by (cases "st_ignore_spot st") (simp_all add: apply_one_diff_def Let_def unseen_def opens_def)
  moreover have "waiting k c (book_of (st_order_book st)) ib z ?st"
    using apply_one_diff_ok [OF ok calculation] u conjunct1 [OF f [unfolded fresh_order_def, THEN conjunct2, THEN conjunct2, THEN conjunct2, THEN conjunct2]]
    by (simp add: waiting_def unseen_def update_conv')
  ultimately show ?thesis by simp
qed

lemma status_then_opens:
  assumes u: "unseen k c st" and o: "opens k c d z ib" and i: "is_inserted_into_book s" and z: "0 < szn z"
    and f: "fresh_order k c s inner (book_of (st_order_book st) c)"
  shows "\<exists>st'. apply_event now h (EvDiff d) (snd (apply_one_status now s st)) = Some st' \<and>
    resting k c (rested (status_time s) inner ib (book_of (st_order_book st) c)) (book_of (st_order_book st)) z st'"
proof -
  let ?st = "untriggered_update s st"
  let ?st1 = "?st\<lparr>st_pending_statuses := hm_insert k (s, now) (st_pending_statuses ?st)\<rparr>"
  let ?st2 = "?st1\<lparr>st_pending_statuses := hm_remove k (st_pending_statuses ?st1)\<rparr>"
  have ok: "state_ok st" using u by (simp add: unseen_def)
  have st1: "snd (apply_one_status now s st) = ?st1"
    using u i fresh_order_oid [OF f] by (simp add: apply_one_status_def Let_def unseen_def)
  then have ok1: "state_ok ?st1"
    using apply_one_status_ok [OF ok, of now s] by simp
  have ok2: "state_ok ?st2"
    by (rule state_ok_cong [OF ok1])
       (use state_okD [OF ok1] state_ok_zeroed [OF ok1] pending_ok_remove_status in simp_all)
  have "apply_one_diff now h d ?st1 =
      Some (Inr {Coin (lo_coin (os_order s))}, rest_order (sized (status_time s) inner z) ib ?st2)"
    using u o f by (simp add: apply_one_diff_def Let_def unseen_def opens_def update_conv' sized_def
        status_time_def fresh_order_def not_less)
  moreover have "resting k c (rested (status_time s) inner ib (book_of (st_order_book st) c)) (book_of (st_order_book st)) z
      (rest_order (sized (status_time s) inner z) ib ?st2)"
  proof (rule resting_after_add)
    show "fresh_order k c s inner (book_of (st_order_book st) c)" "0 < szn z" "state_ok ?st2" by fact+
  qed (use u in \<open>simp_all add: unseen_def\<close>)
  ultimately show ?thesis
    unfolding st1 by simp
qed

lemma final_of_phase:
  assumes "phase_resting k (io_coin inner) (rested (status_time s) inner ib (book_of (st_order_book st) (io_coin inner)))
      (book_of (st_order_book st)) cur st'"
  shows "book_queue sd (book_of (st_order_book st') c') = final_queue s inner ib cur st c' sd"
  using assms
  by (cases cur) (auto simp: final_queue_def Let_def gone_def resting_def apart_def rested_def)

lemma interleaving:
  assumes u: "unseen k c st" and o: "opens k c d z ib" and z: "0 < szn z" and i: "is_inserted_into_book s"
    and f: "fresh_order k c s inner (book_of (st_order_book st) c)"
    and fu: "list_all2 (follow_up k c) ds is"
    and split: "xs @ ys = d # ds"
  shows "\<exists>st'. run_events now h (map EvDiff xs @ EvStatus s # map EvDiff ys) st = Some st'
    \<and> (\<forall>c' sd. book_queue sd (book_of (st_order_book st') c') = final_queue s inner ib (life (Some z) is) st c' sd)"
proof -
  let ?base = "book_of (st_order_book st)"
  let ?r = "rested (status_time s) inner ib (?base c)"
  have c: "c = io_coin inner" using f by (simp add: fresh_order_def)
  have bok: "book_ok (?base c)"
    using u by (intro book_of_ok(1) state_okD(1)) (simp add: unseen_def)
  note r = resizable_rested [OF bok f, of "status_time s" ib]
  note steps = phase_resting_step [where k = k and c = c and base = ?base and r = ?r and now = now and h = h, OF r]
  have final: ?thesis if "run_events now h (map EvDiff xs @ EvStatus s # map EvDiff ys) st = Some st'"
    "phase_resting k c ?r ?base (life (Some z) is) st'" for st'
    using that final_of_phase c by blast
  show ?thesis
  proof (cases xs)
    case Nil
    then have ys: "ys = d # ds" using split by simp
    obtain st1 where st1: "apply_event now h (EvDiff d) (snd (apply_one_status now s st)) = Some st1"
      "resting k c ?r ?base z st1"
      using status_then_opens [OF u o i z f] by blast
    then have "phase_resting k c ?r ?base (Some z) st1" using z by simp
    then obtain st' where "run_events now h (map EvDiff ds) st1 = Some st'"
      "phase_resting k c ?r ?base (life (Some z) is) st'"
      using run_follow_ups [of "phase_resting k c ?r ?base" k c now h, OF steps _ fu] by blast
    moreover from this have "run_events now h (map EvDiff xs @ EvStatus s # map EvDiff ys) st = Some st'"
      using st1(1) Nil ys by (auto simp del: apply_event.simps(2))
    ultimately show ?thesis
      using final by blast
  next
    case (Cons d' xs')
    then have xs: "xs = d # xs'" "ds = xs' @ ys" using split by auto
    obtain is1 is2 where "is": "is = is1 @ is2" "list_all2 (follow_up k c) xs' is1" "list_all2 (follow_up k c) ys is2"
      using fu unfolding xs(2) list_all2_append1 by blast
    obtain st1 where st1: "apply_event now h (EvDiff d) st = Some st1" "waiting k c ?base ib z st1"
      using opens_step [OF u o f] by blast
    then have "phase_waiting k c ?base ib (Some z) st1" using z by simp
    then obtain st2 where st2: "run_events now h (map EvDiff xs') st1 = Some st2"
      "phase_waiting k c ?base ib (life (Some z) is1) st2"
      using run_follow_ups [of "phase_waiting k c ?base ib" k c now h, OF phase_waiting_step _ "is"(2)] by blast
    let ?st3 = "snd (apply_one_status now s st2)"
    have "phase_resting k c ?r ?base (life (Some z) is1) ?st3"
      using st2(2) status_waiting [where base = ?base and c = c and k = k, OF _ f] status_gone [OF _ fresh_order_oid(1) [OF f]]
      by (cases "life (Some z) is1") auto
    then obtain st' where "run_events now h (map EvDiff ys) ?st3 = Some st'"
      "phase_resting k c ?r ?base (life (life (Some z) is1) is2) st'"
      using run_follow_ups [of "phase_resting k c ?r ?base" k c now h, OF steps _ "is"(3)] by blast
    moreover from this have "run_events now h (map EvDiff xs @ EvStatus s # map EvDiff ys) st = Some st'"
      using st1(1) st2(1) unfolding xs(1) by (auto simp: run_events_append simp del: apply_event.simps(2))
    ultimately show ?thesis
      using final unfolding "is"(1) life_append by blast
  qed
qed

section \<open>Properties\<close>


definition sample_status :: "inner_l4_order \<Rightarrow> node_data_order_status" where
  "sample_status o' = \<lparr>os_time = 1000, os_user = io_user o', os_hash = None, os_builder = None,
     os_status = ''open'', os_order = l4_order_from o'\<rparr>"

definition sample_diff :: "inner_l4_order \<Rightarrow> order_diff \<Rightarrow> node_data_order_diff" where
  "sample_diff o' d = \<lparr>nd_user = io_user o', nd_oid = io_oid o', nd_px = px_to_str (io_limit_px o'),
     nd_coin = coin_value (io_coin o'), nd_raw_book_diff = d\<rparr>"


end
