(* ===== verification/Subscriptions.thy ===== *)
theory Subscriptions
  imports Wire_Types
begin

text \<open>
  Client subscriptions (\<open>types/subscription.rs\<close>): the subscription request, its validation against the
  universe of coins, and the per-connection \<open>SubscriptionManager\<close> with its cap and its gauge.

  \<^item> A \<open>HashSet<Subscription>\<close> is a list without repetitions.
  \<^item> \<open>WS_SUBSCRIPTIONS_ACTIVE\<close>, one gauge per subscription type shared by all connections, is the
    second component of the state: a function from the label to the gauge's value.
  \<^item> The \<open>Drop\<close> of the manager is \<open>manager_drop\<close>.

  Shown: the cap and the gauge's accounting are invariants of every sequence of requests and a
  closed connection leaves the gauge as it found it; parameters that pass validation never make the
  L2 aggregation panic; the decision of the address check.
\<close>

section \<open>Requests\<close>

definition max_levels :: nat where "max_levels = 1000"
definition default_levels :: nat where "default_levels = 20"
definition max_subscriptions_per_connection :: nat where "max_subscriptions_per_connection = 256"

datatype subscription =
    STrades string
  | SL2Book string "nat option" "nat option" "u64 option"
  | SL2Diff string "nat option" "nat option" "u64 option"
  | SL4Book string
  | SBbo string
  | SOrderUpdates string
  | SBookDiffs string

datatype client_message = Subscribe subscription | Unsubscribe subscription | Ping

definition is_ascii_hexdigit :: "char \<Rightarrow> bool" where
  "is_ascii_hexdigit c \<longleftrightarrow>
     (let n = of_char c :: int in 48 \<le> n \<and> n \<le> 57 \<or> 65 \<le> n \<and> n \<le> 70 \<or> 97 \<le> n \<and> n \<le> 102)"

text \<open>The two L2 channels share one branch, \<open>validate_l2\<close>.\<close>

definition validate_l2 ::
  "string set \<Rightarrow> string \<Rightarrow> nat option \<Rightarrow> nat option \<Rightarrow> u64 option \<Rightarrow> bool" where
  "validate_l2 universe coin n_sig_figs n_levels mantissa =
     (if coin \<notin> universe then False
      else if n_levels = Some default_levels then False
      else if max_levels < (case n_levels of None \<Rightarrow> default_levels | Some n \<Rightarrow> n) then False
      else case n_sig_figs of
             Some n \<Rightarrow>
               if \<not> (2 \<le> n \<and> n \<le> 5) then False
               else (case mantissa of None \<Rightarrow> True | Some m \<Rightarrow> \<not> (n < 5 \<or> (m \<noteq> 5 \<and> m \<noteq> 2)))
           | None \<Rightarrow> mantissa = None)"

definition validate_user :: "string \<Rightarrow> bool" where
  "validate_user user =
     (if length user \<noteq> 42 \<or> take 2 user \<noteq> ''0x'' then False
      else if list_ex (\<lambda>c. \<not> is_ascii_hexdigit c) (drop 2 user) then False
      else True)"

fun validate :: "string set \<Rightarrow> subscription \<Rightarrow> bool" where
  "validate universe (STrades coin) = (coin \<in> universe)"
| "validate universe (SL2Book coin nsf nl man) = validate_l2 universe coin nsf nl man"
| "validate universe (SL2Diff coin nsf nl man) = validate_l2 universe coin nsf nl man"
| "validate universe (SL4Book coin) = (coin \<in> universe)"
| "validate universe (SBbo coin) = (coin \<in> universe)"
| "validate universe (SBookDiffs coin) = (coin \<in> universe)"
| "validate universe (SOrderUpdates user) = validate_user user"

fun type_label :: "subscription \<Rightarrow> string" where
  "type_label (SBbo _) = ''bbo''"
| "type_label (SL2Book _ _ _ _) = ''l2Book''"
| "type_label (SL2Diff _ _ _ _) = ''l2Diff''"
| "type_label (SL4Book _) = ''l4Book''"
| "type_label (STrades _) = ''trades''"
| "type_label (SOrderUpdates _) = ''orderUpdates''"
| "type_label (SBookDiffs _) = ''bookDiffs''"

section \<open>Responses\<close>

record order_update =
  ou_user :: address
  ou_time :: u64
  ou_height :: u64
  ou_order_status :: node_data_order_status

definition order_update_new :: "address \<Rightarrow> u64 \<Rightarrow> u64 \<Rightarrow> node_data_order_status \<Rightarrow> order_update" where
  "order_update_new u t h s = \<lparr>ou_user = u, ou_time = t, ou_height = h, ou_order_status = s\<rparr>"

section \<open>The manager of one connection\<close>

type_synonym gauge = "string \<Rightarrow> int"

record subscription_manager =
  subscriptions :: "subscription list"

definition manager_default :: subscription_manager where
  "manager_default = \<lparr>subscriptions = []\<rparr>"

datatype sub_error = SubscriptionLimitReached

definition subscribe ::
  "subscription \<Rightarrow> subscription_manager \<times> gauge \<Rightarrow> (sub_error + bool) \<times> subscription_manager \<times> gauge" where
  "subscribe sub st =
     (let (m, g) = st
      in if max_subscriptions_per_connection \<le> length (subscriptions m) \<and> sub \<notin> set (subscriptions m)
         then (Inl SubscriptionLimitReached, m, g)
         else (let label = type_label sub; inserted = sub \<notin> set (subscriptions m)
               in (Inr inserted, m\<lparr>subscriptions := List.insert sub (subscriptions m)\<rparr>,
                   if inserted then g(label := g label + 1) else g)))"

definition unsubscribe ::
  "subscription \<Rightarrow> subscription_manager \<times> gauge \<Rightarrow> bool \<times> subscription_manager \<times> gauge" where
  "unsubscribe sub st =
     (let (m, g) = st; label = type_label sub; removed = sub \<in> set (subscriptions m)
      in (removed, m\<lparr>subscriptions := removeAll sub (subscriptions m)\<rparr>,
          if removed then g(label := g label - 1) else g))"

definition manager_drop :: "subscription_manager \<Rightarrow> gauge \<Rightarrow> gauge" where
  "manager_drop m g = fold (\<lambda>sub g. g(type_label sub := g (type_label sub) - 1)) (subscriptions m) g"

section \<open>Proofs\<close>

text \<open>The gauge counts, for every label, the subscriptions of the connection on top of the base.\<close>

definition manager_ok :: "gauge \<Rightarrow> subscription_manager \<times> gauge \<Rightarrow> bool" where
  "manager_ok base st \<longleftrightarrow>
     distinct (subscriptions (fst st)) \<and> length (subscriptions (fst st)) \<le> max_subscriptions_per_connection
     \<and> (\<forall>l. snd st l = base l + int (length (filter (\<lambda>s. type_label s = l) (subscriptions (fst st)))))"

datatype sub_op = OpSubscribe subscription | OpUnsubscribe subscription

fun sub_step :: "sub_op \<Rightarrow> subscription_manager \<times> gauge \<Rightarrow> subscription_manager \<times> gauge" where
  "sub_step (OpSubscribe s) st = snd (subscribe s st)"
| "sub_step (OpUnsubscribe s) st = snd (unsubscribe s st)"

lemma subscribe_ok: "manager_ok base st \<Longrightarrow> manager_ok base (snd (subscribe s st))"
  by (auto simp: manager_ok_def subscribe_def Let_def split_beta List.insert_def)

lemma length_filter_removeAll:
  "distinct xs \<Longrightarrow> x \<in> set xs \<Longrightarrow>
     int (length (filter P (removeAll x xs))) = int (length (filter P xs)) - (if P x then 1 else 0)"
  by (induction xs) (auto simp: removeAll_id)

lemma unsubscribe_ok: "manager_ok base st \<Longrightarrow> manager_ok base (snd (unsubscribe s st))"
  by (auto simp: manager_ok_def le_trans [OF length_removeAll_less_eq] unsubscribe_def Let_def split_beta distinct_removeAll
      length_filter_removeAll removeAll_id)

lemma manager_init_ok: "manager_ok base (manager_default, base)"
  by (simp add: manager_ok_def manager_default_def)

interpretation subs: invariant_system sub_step "manager_ok base" "(manager_default, base)" for base
proof unfold_locales
  fix st x
  assume "manager_ok base st"
  then show "manager_ok base (sub_step x st)"
    by (cases x) (simp_all add: subscribe_ok unsubscribe_ok)
qed (rule manager_init_ok)

lemma fold_decrement:
  "fold (\<lambda>sub g. g(type_label sub := g (type_label sub) - 1)) ss g l
     = g l - int (length (filter (\<lambda>s. type_label s = l) ss))"
  by (induction ss arbitrary: g) auto

lemma manager_drop_base: "manager_ok base (m, g) \<Longrightarrow> manager_drop m g = base"
  by (auto simp: manager_ok_def manager_drop_def fold_decrement fun_eq_iff)

lemma validate_l2_params:
  assumes "validate_l2 universe coin nsf nl man"
  shows "valid_params nsf man"
  using assms
  by (auto simp: validate_l2_def valid_params_def agg_params_def man_value_def
      split: if_splits option.splits)

section \<open>Properties\<close>

text \<open>
  Whatever a connection asks for, it never holds more than 256 subscriptions, the gauge of
  every type exceeds its starting value by exactly the number of live subscriptions of that type,
  and closing the connection gives the gauge back as it was.
\<close>

theorem subscriptions_accounted:
  "let (m, g) = fold sub_step ops (manager_default, base)
   in length (subscriptions m) \<le> 256 \<and> distinct (subscriptions m)
    \<and> (\<forall>l. g l = base l + int (length (filter (\<lambda>s. type_label s = l) (subscriptions m))))
    \<and> manager_drop m g = base"
proof -
  obtain m g where st: "fold sub_step ops (manager_default, base) = (m, g)"
    by fastforce
  then have "manager_ok base (m, g)"
    using subs.run_inv [OF manager_init_ok, of base ops] by simp
  then show ?thesis
    unfolding st using manager_drop_base
    by (simp add: manager_ok_def max_subscriptions_per_connection_def)
qed

text \<open>
  A subscription that passes validation names a bucket that the aggregation can divide by: for
  every book whose prices are below \<open>10\<^sup>1\<^sup>9\<close> units, and for a logarithm that counts their digits
  right, \<open>bucket\<close> does not panic on either L2 channel, and at most 1000 levels are asked for.
\<close>

theorem valid_subscription_never_panics:
  assumes "validate universe s" and "s = SL2Book coin nsf nl man \<or> s = SL2Diff coin nsf nl man"
    and "px_ok L p"
  shows "bucket L p sd nsf man \<noteq> None \<and> (case nl of None \<Rightarrow> True | Some n \<Rightarrow> n \<le> 1000)"
proof -
  have v: "validate_l2 universe coin nsf nl man"
    using assms(1,2) by auto
  then have "case nl of None \<Rightarrow> True | Some n \<Rightarrow> n \<le> 1000"
    by (auto simp: validate_l2_def max_levels_def split: option.splits if_splits)
  then show ?thesis
    using bucket_total [OF validate_l2_params [OF v] assms(3), of sd] by simp
qed

theorem valid_subscription_never_panics_witness:
  "bucket sample_log10 (Px 1234) Ask (Some 5) (Some 2) \<noteq> None \<and> (100 :: nat) \<le> 1000"
proof -
  have p: "px_ok sample_log10 (Px 1234)"
    by (simp add: px_ok_def log10_exact_def has_digits_def num_digits_def sample_log10_def)
  have v: "validate {''BTC''} (SL2Book ''BTC'' (Some 5) (Some 100) (Some 2))"
    by (simp add: validate_l2_def default_levels_def max_levels_def)
  show ?thesis
    using valid_subscription_never_panics [OF v disjI1 [OF refl] p, of Ask] by simp
qed

end
