(* ===== verification/L2_Cache.thy ===== *)
theory L2_Cache
  imports Book_State Subscriptions
begin

text \<open>
  The L2 snapshots kept per coin and aggregation shape (\<open>compute_l2_variants_for_coin\<close> and
  \<open>compute_l2_snapshots_incremental\<close> of \<open>listeners/order_book/utils.rs\<close>, and
  \<open>l2_snapshots_incremental\<close> of \<open>state.rs\<close>): what a flush recomputes, what it reuses, what it drops.

  \<^item> The cache is the \<open>HashMap\<close> from coin to the map of its variants; sharing by \<open>Arc\<close> is invisible here.
    The sequential and the parallel build give the same list and are one definition.
  \<^item> \<open>None\<close> is the division by zero of an aggregation whose parameters were not validated.
  \<^item> \<open>log10_floor\<close> is the logarithm of \<open>num_digits\<close>, as in \<open>Levels\<close>.

  Shown: with validated shapes a flush never panics; if the cached coins that are not reported as changed
  were current before the flush, every cached coin is current after it, every changed coin is covered, and
  at most \<open>32\<close> others are filled in, so that the cache is complete after finitely many flushes.
\<close>

section \<open>Variants of one coin\<close>

record l2_snapshot_params =
  lp_n_sig_figs :: "nat option"
  lp_mantissa :: "u64 option"

definition l2_params_new :: "nat option \<Rightarrow> u64 option \<Rightarrow> l2_snapshot_params" where
  "l2_params_new nsf man = \<lparr>lp_n_sig_figs = nsf, lp_mantissa = man\<rparr>"

definition base_params :: l2_snapshot_params where
  "base_params = \<lparr>lp_n_sig_figs = None, lp_mantissa = None\<rparr>"

type_synonym l2_variants = "(l2_snapshot_params, inner_level snapshot) hash_map"
type_synonym l2_cache = "(coin, l2_variants) hash_map"

fun variants_loop ::
  "(u64 \<Rightarrow> nat) \<Rightarrow> order_book \<Rightarrow> l2_snapshot_params list \<Rightarrow> l2_variants \<Rightarrow> l2_variants option" where
  "variants_loop L b [] out = Some out"
| "variants_loop L b (p # ps) out =
     (if p = base_params then variants_loop L b ps out
      else Option.bind (to_l2_snapshot L (Some max_levels) (lp_n_sig_figs p) (lp_mantissa p) b)
             (\<lambda>s. variants_loop L b ps (hm_insert p s out)))"

definition compute_l2_variants_for_coin ::
  "(u64 \<Rightarrow> nat) \<Rightarrow> order_book \<Rightarrow> l2_snapshot_params list \<Rightarrow> l2_variants option" where
  "compute_l2_variants_for_coin L b active =
     (if active = [] then Some []
      else Option.bind (variants_loop L b active []) (\<lambda>out.
             map_option (\<lambda>s. hm_insert base_params s out)
               (to_l2_snapshot L (Some max_levels) None None b)))"

section \<open>A flush\<close>

definition l2_backfill_coins_per_flush :: nat where "l2_backfill_coins_per_flush = 32"

text \<open>The loop over all coins that picks those present in the books, not cached and not changed.\<close>

fun backfill :: "(coin \<Rightarrow> bool) \<Rightarrow> nat \<Rightarrow> coin list \<Rightarrow> coin list" where
  "backfill wanted n [] = []"
| "backfill wanted n (c # cs) =
     (if wanted c then (if l2_backfill_coins_per_flush \<le> n then [] else c # backfill wanted (n + 1) cs)
      else backfill wanted n cs)"

fun build_all ::
  "(u64 \<Rightarrow> nat) \<Rightarrow> order_books \<Rightarrow> l2_snapshot_params list \<Rightarrow> coin list \<Rightarrow> (coin \<times> l2_variants) list option" where
  "build_all L books active [] = Some []"
| "build_all L books active (c # cs) =
     (case bt_get books c of
        None \<Rightarrow> build_all L books active cs
      | Some b \<Rightarrow>
          Option.bind (compute_l2_variants_for_coin L b active) (\<lambda>v.
            map_option (\<lambda>us. (c, v) # us) (build_all L books active cs)))"

definition compute_l2_snapshots_incremental ::
  "(u64 \<Rightarrow> nat) \<Rightarrow> order_books \<Rightarrow> coin list \<Rightarrow> l2_snapshot_params list \<Rightarrow> l2_cache
     \<Rightarrow> (l2_cache \<times> coin set \<times> bool) option" where
  "compute_l2_snapshots_incremental L books changed active cache =
     (let present = (\<lambda>c. bt_get books c \<noteq> None);
          cache1 = filter (\<lambda>(c, v). present c) cache;
          evicted = (length cache1 \<noteq> length cache);
          to_compute = filter present changed @
            backfill (\<lambda>c. hm_get cache1 c = None \<and> c \<notin> set changed) 0 (map fst books);
          coin_set_changed = (evicted \<or> list_ex (\<lambda>c. hm_get cache1 c = None) to_compute)
      in map_option (\<lambda>updates.
           (fold (\<lambda>(c, v). hm_insert c v) updates cache1,
            fst ` set updates \<union> {c \<in> set changed. \<not> present c},
            coin_set_changed))
         (build_all L books active to_compute))"

definition l2_snapshots_incremental ::
  "(u64 \<Rightarrow> nat) \<Rightarrow> coin list \<Rightarrow> l2_snapshot_params list \<Rightarrow> l2_cache \<Rightarrow> order_book_state
     \<Rightarrow> (u64 \<times> u64 \<times> l2_cache \<times> coin set \<times> bool) option" where
  "l2_snapshots_incremental L changed active cache st =
     map_option (\<lambda>r. (st_time st, st_height st, r))
       (compute_l2_snapshots_incremental L (st_order_book st) changed active cache)"

section \<open>Proofs\<close>

lemma backfill_length: "length (backfill w n cs) \<le> l2_backfill_coins_per_flush - n"
  by (induction w n cs rule: backfill.induct) auto

lemma backfill_all:
  "length (backfill w n cs) < l2_backfill_coins_per_flush - n \<Longrightarrow> backfill w n cs = filter w cs"
  by (induction w n cs rule: backfill.induct) (auto split: if_splits)

lemma backfill_subset: "set (backfill w n cs) \<subseteq> {c \<in> set cs. w c}"
  by (induction w n cs rule: backfill.induct) auto

lemma build_all_eq:
  "build_all L books active cs = Some us \<Longrightarrow>
     map fst us = filter (\<lambda>c. bt_get books c \<noteq> None) cs \<and>
     (\<forall>(c, v) \<in> set us. \<exists>b. bt_get books c = Some b \<and> compute_l2_variants_for_coin L b active = Some v)"
proof (induction cs arbitrary: us)
  case (Cons c cs)
  show ?case
  proof (cases "bt_get books c")
    case None
    then show ?thesis using Cons by simp
  next
    case (Some b)
    then obtain v us' where v: "compute_l2_variants_for_coin L b active = Some v"
      "build_all L books active cs = Some us'" "us = (c, v) # us'"
      using Cons.prems by (auto simp: Option.bind_eq_Some_conv)
    then show ?thesis using Cons.IH [OF v(2)] Some by auto
  qed
qed simp

lemma build_all_defined:
  assumes "\<And>b. compute_l2_variants_for_coin L b active \<noteq> None \<or> b \<notin> snd ` set books"
  shows "build_all L books active cs \<noteq> None"
proof (induction cs)
  case (Cons c cs)
  show ?case
  proof (cases "bt_get books c")
    case (Some b)
    then have "b \<in> snd ` set books"
      by (metis image_eqI map_of_SomeD snd_conv)
    then have "compute_l2_variants_for_coin L b active \<noteq> None"
      using assms by blast
    then show ?thesis
      using Cons Some by auto
  qed (use Cons in simp)
qed simp

text \<open>The cache entry of a coin is current when it is what a computation on the book gives now.\<close>

definition current :: "(u64 \<Rightarrow> nat) \<Rightarrow> order_books \<Rightarrow> l2_snapshot_params list \<Rightarrow> l2_cache \<Rightarrow> coin \<Rightarrow> bool" where
  "current L books active cache c \<longleftrightarrow>
     (\<exists>b v. bt_get books c = Some b \<and> hm_get cache c = Some v
        \<and> compute_l2_variants_for_coin L b active = Some v)"

lemma map_of_fold_updates:
  "map_of (fold (\<lambda>(c, v). hm_insert c v) us m) = map_of m ++ map_of (rev us)"
  by (induction us arbitrary: m) (auto simp: update_conv' map_add_upd_left)

lemma map_of_rev_functional:
  assumes "\<forall>(c, v) \<in> set us. P c v" and "c \<in> fst ` set us"
  shows "\<exists>v. map_of (rev us) c = Some v \<and> P c v"
proof -
  have "map_of (rev us) c \<noteq> None"
    using assms(2) by (simp add: map_of_eq_None_iff)
  then obtain v where "map_of (rev us) c = Some v" by blast
  then show ?thesis
    using assms(1) map_of_SomeD [of "rev us" c v] by auto
qed

lemma map_of_filter_key: "map_of (filter (\<lambda>(c, v). P c) m) c = (if P c then map_of m c else None)"
  by (induction m) auto

lemma flush_parts:
  assumes "compute_l2_snapshots_incremental L books changed active cache = Some (cache', rec, csc)"
  defines "present \<equiv> \<lambda>c. bt_get books c \<noteq> None"
  obtains us fill where
    "build_all L books active (filter present changed @ fill) = Some us"
    and "fill = backfill (\<lambda>c. hm_get (filter (\<lambda>(c, v). present c) cache) c = None \<and> c \<notin> set changed) 0 (map fst books)"
    and "cache' = fold (\<lambda>(c, v). hm_insert c v) us (filter (\<lambda>(c, v). present c) cache)"
    and "rec = fst ` set us \<union> {c \<in> set changed. \<not> present c}"
    and "map fst us = filter present changed @ fill"
    and "\<forall>(c, v) \<in> set us. \<exists>b. bt_get books c = Some b \<and> compute_l2_variants_for_coin L b active = Some v"
proof -
  define fill where "fill = backfill (\<lambda>c. hm_get (filter (\<lambda>(c, v). present c) cache) c = None \<and> c \<notin> set changed) 0 (map fst books)"
  obtain us where us: "build_all L books active (filter present changed @ fill) = Some us"
    "cache' = fold (\<lambda>(c, v). hm_insert c v) us (filter (\<lambda>(c, v). present c) cache)"
    "rec = fst ` set us \<union> {c \<in> set changed. \<not> present c}"
    using assms(1) unfolding compute_l2_snapshots_incremental_def Let_def present_def [symmetric] fill_def [symmetric]
    by auto
  have "set fill \<subseteq> set (map fst books)"
    unfolding fill_def using backfill_subset by fastforce
  then have "filter present fill = fill"
    by (auto simp: filter_id_conv present_def map_of_eq_None_iff)
  then have "map fst us = filter present changed @ fill"
    using conjunct1 [OF build_all_eq [OF us(1)]]
    unfolding present_def [symmetric] filter_append filter_filter by simp
  then show ?thesis
    using that [OF us(1) fill_def us(2,3)] build_all_eq [OF us(1)] by blast
qed

lemma backfill_distinct: "distinct cs \<Longrightarrow> distinct (backfill w n cs)"
proof (induction w n cs rule: backfill.induct)
  case (2 w n c cs)
  then show ?case using backfill_subset [of w "n + 1" cs] by auto
qed simp

lemma flush_current:
  assumes r: "compute_l2_snapshots_incremental L books changed active cache = Some (cache', rec, csc)"
    and old: "\<forall>c. hm_get cache c \<noteq> None \<and> c \<notin> set changed \<and> bt_get books c \<noteq> None \<longrightarrow> current L books active cache c"
    and b: "bt_ok books"
  defines "uncached \<equiv> \<lambda>m. {c \<in> fst ` set books. hm_get m c = None}"
  shows "\<forall>c. hm_get cache' c \<noteq> None \<longrightarrow> current L books active cache' c"
    and "\<forall>c \<in> set changed. bt_get books c \<noteq> None \<longrightarrow> hm_get cache' c \<noteq> None"
    and "set changed \<subseteq> rec"
    and "card (uncached cache') \<le> card (uncached cache) - l2_backfill_coins_per_flush"
proof -
  let ?present = "\<lambda>c. bt_get books c \<noteq> None"
  let ?cache1 = "filter (\<lambda>(c, v). ?present c) cache"
  let ?w = "\<lambda>c. hm_get ?cache1 c = None \<and> c \<notin> set changed"
  obtain us fill where us: "fill = backfill ?w 0 (map fst books)"
    "cache' = fold (\<lambda>(c, v). hm_insert c v) us ?cache1"
    "rec = fst ` set us \<union> {c \<in> set changed. \<not> ?present c}"
    "map fst us = filter ?present changed @ fill"
    "\<forall>(c, v) \<in> set us. \<exists>b. bt_get books c = Some b \<and> compute_l2_variants_for_coin L b active = Some v"
    by (rule flush_parts [OF r])
  have keys: "fst ` set us = {c \<in> set changed. ?present c} \<union> set fill"
    using us(4) by (metis set_append set_filter set_map)
  have get: "hm_get cache' c = (case map_of (rev us) c of None \<Rightarrow> hm_get ?cache1 c | Some v \<Rightarrow> Some v)" for c
    unfolding us(2) map_of_fold_updates map_add_def ..
  have new: "current L books active cache' c" if in_us: "c \<in> fst ` set us" for c
  proof -
    obtain v where "map_of (rev us) c = Some v"
      "\<exists>b. bt_get books c = Some b \<and> compute_l2_variants_for_coin L b active = Some v"
      using map_of_rev_functional [where P = "\<lambda>c v. \<exists>b. bt_get books c = Some b \<and>
        compute_l2_variants_for_coin L b active = Some v", OF us(5) in_us] by blast
    then show ?thesis by (auto simp: current_def get)
  qed
  have keep: "hm_get cache' c = hm_get ?cache1 c" if "c \<notin> fst ` set us" for c
  proof -
    have "map_of (rev us) c = None" using that by (simp add: map_of_eq_None_iff)
    then show ?thesis by (simp add: get)
  qed
  show "\<forall>c. hm_get cache' c \<noteq> None \<longrightarrow> current L books active cache' c"
  proof (intro allI impI)
    fix c assume c: "hm_get cache' c \<noteq> None"
    show "current L books active cache' c"
    proof (cases "c \<in> fst ` set us")
      case False
      then have "hm_get cache c \<noteq> None" "?present c" "hm_get cache' c = hm_get cache c"
        using c keep [OF False] by (auto simp: map_of_filter_key split: if_splits)
      moreover have "c \<notin> set changed"
        using False keys calculation(2) by blast
      ultimately show ?thesis
        using old unfolding current_def by metis
    qed (rule new)
  qed
  show "\<forall>c \<in> set changed. ?present c \<longrightarrow> hm_get cache' c \<noteq> None"
    using new keys by (auto simp: current_def)
  show "set changed \<subseteq> rec"
    using us(3) keys by auto
  show "card (uncached cache') \<le> card (uncached cache) - l2_backfill_coins_per_flush"
  proof -
    have inb: "?present c" if "c \<in> fst ` set books" for c
      using that by (simp add: map_of_eq_None_iff)
    have "set fill \<subseteq> {c \<in> set (map fst books). ?w c}"
      unfolding us(1) by (rule backfill_subset)
    moreover have "hm_get cache c = None" if "c \<in> set (map fst books)" "hm_get ?cache1 c = None" for c
      using that inb [of c] by (simp add: map_of_filter_key)
    ultimately have "c \<in> uncached cache" if f: "c \<in> set fill" for c
    proof -
      have "c \<in> set (map fst books)" "hm_get ?cache1 c = None"
        using subsetD [OF \<open>set fill \<subseteq> _\<close> f] by blast+
      then show ?thesis
        unfolding uncached_def set_map [symmetric]
        using \<open>\<And>c. c \<in> set (map fst books) \<Longrightarrow> hm_get ?cache1 c = None \<Longrightarrow> hm_get cache c = None\<close>
        by blast
    qed
    then have sub: "set fill \<subseteq> uncached cache" by (rule subsetI)
    have "uncached cache' \<subseteq> uncached cache - set fill"
    proof
      fix c assume c: "c \<in> uncached cache'"
      then have "c \<notin> fst ` set us"
      proof (rule contrapos_pn)
        assume "c \<in> fst ` set us"
        from new [OF this] show "c \<notin> uncached cache'"
          by (auto simp: uncached_def current_def)
      qed
      moreover have "c \<in> fst ` set books" "hm_get cache' c = None"
        using c by (auto simp: uncached_def)
      ultimately have "hm_get cache c = None" "c \<notin> set fill"
        using keep [of c] inb [of c] keys by (simp_all add: map_of_filter_key)
      with \<open>c \<in> fst ` set books\<close> show "c \<in> uncached cache - set fill"
        by (simp add: uncached_def)
    qed
    moreover have "uncached cache' = {}" if "length fill < l2_backfill_coins_per_flush"
    proof -
      have "fill = filter ?w (map fst books)"
        using backfill_all [of ?w 0 "map fst books"] that by (simp add: us(1))
      then have "c \<in> fst ` set us \<or> hm_get ?cache1 c \<noteq> None" if "c \<in> fst ` set books" for c
        using that keys inb [OF that] by auto
      then have "hm_get cache' c \<noteq> None" if "c \<in> fst ` set books" for c
        using that new keep unfolding current_def by (metis option.distinct(1))
      then show ?thesis by (auto simp: uncached_def)
    qed
    moreover have "finite (uncached cache)" by (simp add: uncached_def)
    moreover have "distinct fill"
      unfolding us(1) using backfill_distinct bt_ok_distinct [OF b] by blast
    then have "card (set fill) = length fill" by (rule distinct_card)
    ultimately show ?thesis
      using card_mono [of "uncached cache - set fill" "uncached cache'"] card_Diff_subset [of "set fill" "uncached cache"] sub
      by (cases "length fill < l2_backfill_coins_per_flush") auto
  qed
qed

lemma incremental_defined:
  assumes "\<And>cs. build_all L books active cs \<noteq> None"
  obtains cache' rec csc where
    "compute_l2_snapshots_incremental L books changed active cache = Some (cache', rec, csc)"
proof -
  have "compute_l2_snapshots_incremental L books changed active cache \<noteq> None"
    unfolding compute_l2_snapshots_incremental_def Let_def option.map_disc_iff by (rule assms)
  then show ?thesis using that by auto
qed

lemma variants_defined:
  assumes "\<forall>p \<in> set active. valid_params (lp_n_sig_figs p) (lp_mantissa p)" and "book_ok b"
    and "\<forall>e \<in> set (bids b) \<union> set (asks b). px_ok L (fst e)"
  shows "compute_l2_variants_for_coin L b active \<noteq> None"
proof -
  have snap: "to_l2_snapshot L (Some max_levels) nsf man b \<noteq> None" if "valid_params nsf man" for nsf man
  proof -
    have "map_to_l2_levels L (bids b) Bid None nsf man \<noteq> None" "map_to_l2_levels L (asks b) Ask None nsf man \<noteq> None"
      using map_to_l2_levels_ref [OF that, of Bid "bids b" L] map_to_l2_levels_ref [OF that, of Ask "asks b" L] assms(2,3)
      by (auto simp: book_ok_def)
    then show ?thesis
      using map_to_l2_levels_prefix [of L "bids b" Bid nsf man _ max_levels]
        map_to_l2_levels_prefix [of L "asks b" Ask nsf man _ max_levels]
      by (auto simp: to_l2_snapshot_def)
  qed
  have "variants_loop L b ps out \<noteq> None" if "set ps \<subseteq> set active" for ps out
    using that
  proof (induction ps arbitrary: out)
    case (Cons p ps)
    then show ?case
      using snap [of "lp_n_sig_figs p" "lp_mantissa p"] assms(1) by auto
  qed simp
  then obtain out where "variants_loop L b active [] = Some out"
    by blast
  moreover obtain sn where "to_l2_snapshot L (Some max_levels) None None b = Some sn"
    using snap [of None None] by (auto simp: valid_params_def)
  ultimately show ?thesis
    by (simp add: compute_l2_variants_for_coin_def)
qed

section \<open>Properties\<close>

text \<open>
  C28. A flush never serves a stale book: if every cached coin that was not reported as changed was
  current, then afterwards every cached coin is current, every changed coin that still has a book is
  cached, and every changed coin is announced as recomputed, those whose book is gone included.
\<close>

theorem l2_flush_never_stale:
  assumes "bt_ok books"
    and "\<forall>c. hm_get cache c \<noteq> None \<and> c \<notin> set changed \<and> bt_get books c \<noteq> None \<longrightarrow> current L books active cache c"
    and "compute_l2_snapshots_incremental L books changed active cache = Some (cache', rec, csc)"
  shows "(\<forall>c. hm_get cache' c \<noteq> None \<longrightarrow> current L books active cache' c)
    \<and> (\<forall>c \<in> set changed. bt_get books c \<noteq> None \<longrightarrow> hm_get cache' c \<noteq> None)
    \<and> set changed \<subseteq> rec"
  using flush_current(1-3) [OF assms(3,2,1)] by blast

definition sample_books :: order_books where
  "sample_books = [(Coin ''BTC'', add_order (sample_order 1 Bid 100 5) book_new)]"

theorem l2_flush_never_stale_witness:
  "\<exists>cache' rec csc. compute_l2_snapshots_incremental sample_log10 sample_books [Coin ''BTC'', Coin ''ETH''] [base_params] []
       = Some (cache', rec, csc) \<and> {Coin ''BTC'', Coin ''ETH''} \<subseteq> rec \<and> hm_get cache' (Coin ''BTC'') \<noteq> None"
proof -
  have bk: "book_ok (add_order (sample_order 1 Bid 100 5) book_new)"
    using fold_add_order_ok [OF book_new_ok, of "[sample_order 1 Bid 100 5]"] by simp
  let ?b = "add_order (sample_order 1 Bid 100 5) book_new"
  have lv: "map fst (bids ?b) = [Px 100]" "asks ?b = []"
    by code_simp+
  from lv(1) have "fst ` set (bids ?b) = {Px 100}"
    by (simp flip: set_map)
  moreover have "px_ok sample_log10 (Px 100)"
    by (simp add: px_ok_def log10_exact_def has_digits_def num_digits_def sample_log10_def)
  ultimately have "\<forall>e \<in> set (bids ?b) \<union> set (asks ?b). px_ok sample_log10 (fst e)"
    using lv(2) by (metis Un_iff emptyE empty_set image_eqI singletonD)
  then have d: "compute_l2_variants_for_coin sample_log10 ?b [base_params] \<noteq> None"
    by (intro variants_defined bk) (simp_all add: base_params_def valid_params_def)
  have "build_all sample_log10 sample_books [base_params] cs \<noteq> None" for cs
    by (rule build_all_defined) (use d in \<open>auto simp: sample_books_def\<close>)
  then obtain cache' rec csc where r: "compute_l2_snapshots_incremental sample_log10 sample_books
      [Coin ''BTC'', Coin ''ETH''] [base_params] [] = Some (cache', rec, csc)"
    by (rule incremental_defined)
  have "bt_ok sample_books" "bt_get sample_books (Coin ''BTC'') \<noteq> None"
    by (simp_all add: sample_books_def bt_ok_Cons)
  then show ?thesis
    using l2_flush_never_stale [OF _ _ r] r by auto
qed

text \<open>
  The backfill converges: a flush leaves at most as many coins without an entry as there were, less
  32, so the cache of \<open>n\<close> coins is complete after \<open>n / 32\<close> flushes, rounded up.
\<close>

theorem l2_backfill_converges:
  assumes "bt_ok books"
    and "\<forall>c. hm_get cache c \<noteq> None \<and> c \<notin> set changed \<and> bt_get books c \<noteq> None \<longrightarrow> current L books active cache c"
    and "compute_l2_snapshots_incremental L books changed active cache = Some (cache', rec, csc)"
  shows "card {c \<in> fst ` set books. hm_get cache' c = None}
    \<le> card {c \<in> fst ` set books. hm_get cache c = None} - 32"
  using flush_current(4) [OF assms(3,2,1)] by (simp add: l2_backfill_coins_per_flush_def)

theorem l2_backfill_converges_witness:
  "\<exists>cache' rec csc. compute_l2_snapshots_incremental sample_log10 sample_books [] [] [] = Some (cache', rec, csc)
     \<and> card {c \<in> fst ` set sample_books. hm_get cache' c = None} \<le> 1 - 32"
proof -
  obtain cache' rec csc where r: "compute_l2_snapshots_incremental sample_log10 sample_books [] [] [] = Some (cache', rec, csc)"
    by (auto simp: compute_l2_snapshots_incremental_def sample_books_def l2_backfill_coins_per_flush_def
        compute_l2_variants_for_coin_def)
  have "bt_ok sample_books" "card {c \<in> fst ` set sample_books. hm_get ([] :: l2_cache) c = None} = 1"
    by (simp_all add: sample_books_def bt_ok_Cons)
  then show ?thesis
    using l2_backfill_converges [OF _ _ r] r by auto
qed

text \<open>
  With shapes that passed validation and prices in range, no flush panics, whatever the cache
  holds and whichever coins changed.
\<close>

theorem l2_flush_total:
  assumes "\<forall>p \<in> set active. valid_params (lp_n_sig_figs p) (lp_mantissa p)"
    and "\<forall>b \<in> snd ` set books. book_ok b \<and> (\<forall>e \<in> set (bids b) \<union> set (asks b). px_ok L (fst e))"
  shows "compute_l2_snapshots_incremental L books changed active cache \<noteq> None"
proof -
  have "build_all L books active cs \<noteq> None" for cs
    by (rule build_all_defined) (use assms variants_defined in blast)
  then show ?thesis
    by (simp add: compute_l2_snapshots_incremental_def Let_def)
qed

theorem l2_flush_total_witness:
  "compute_l2_snapshots_incremental sample_log10 [(Coin ''BTC'', book_new)] [Coin ''BTC''] [l2_params_new (Some 5) (Some 2)] [] \<noteq> None"
proof (rule l2_flush_total)
  show "\<forall>p \<in> set [l2_params_new (Some 5) (Some 2)]. valid_params (lp_n_sig_figs p) (lp_mantissa p)"
    by (simp add: l2_params_new_def valid_params_def agg_params_def man_value_def)
  show "\<forall>b \<in> snd ` set [(Coin ''BTC'', book_new)]. book_ok b \<and> (\<forall>e \<in> set (bids b) \<union> set (asks b). px_ok sample_log10 (fst e))"
    using book_new_ok by (simp add: book_new_def)
qed

end
