(* ===== verification/L2_Diff.thy ===== *)
theory L2_Diff
  imports Wire_Types
begin

text \<open>
  The incremental book channel (\<open>types/mod.rs\<close>, \<open>L2SideDiff\<close> to \<open>L2Diff\<close>): what changed on one side
  since the previous update, keyed by price. The receiving side of the protocol is \<open>side_apply\<close>,
  written from the field documentation (\<open>upd\<close>: insert or overwrite, \<open>del\<close>: remove).

  Shown: a client that holds the old side and applies the diff holds exactly the new side, a diff is
  empty exactly when nothing changed, and a whole sequence of updates reproduces the last book.
\<close>

section \<open>The diff of one side\<close>

datatype l2_diff_level = L2DiffLevel (dl_px: string) (dl_sz: string) (dl_n: nat)

record l2_side_diff =
  sd_upd :: "l2_diff_level list"
  sd_del :: "string list"

text \<open>\<open>prev\<close>: the old side as a map by price text. A price that occurs twice keeps the later entry.\<close>

definition side_map :: "level list \<Rightarrow> (string, string \<times> nat) hash_map" where
  "side_map ls = fold (\<lambda>l. hm_insert (lv_px l) (lv_sz l, lv_n l)) ls []"

fun between_loop ::
  "(string, string \<times> nat) hash_map \<Rightarrow> level list \<Rightarrow> l2_diff_level list \<times> (string, string \<times> nat) hash_map" where
  "between_loop prev [] = ([], prev)"
| "between_loop prev (l # ls) =
     (let changed = hm_get prev (lv_px l) \<noteq> Some (lv_sz l, lv_n l);
          (upd, rest) = between_loop (hm_remove (lv_px l) prev) ls
      in (if changed then L2DiffLevel (lv_px l) (lv_sz l) (lv_n l) # upd else upd, rest))"

definition between :: "level list \<Rightarrow> level list \<Rightarrow> l2_side_diff" where
  "between old new =
     (let (upd, rest) = between_loop (side_map old) new
      in \<lparr>sd_upd = upd, sd_del = map fst rest\<rparr>)"

definition side_diff_is_empty :: "l2_side_diff \<Rightarrow> bool" where
  "side_diff_is_empty d \<longleftrightarrow> sd_upd d = [] \<and> sd_del d = []"

section \<open>The frames of the channel\<close>

record l2_diff_updates =
  du_coin :: string
  du_time :: u64
  du_height :: u64
  du_prev_height :: u64
  du_n_sig_figs :: "nat option"
  du_mantissa :: "u64 option"
  du_n_levels :: "nat option"
  du_bids :: l2_side_diff
  du_asks :: l2_side_diff

record l2_diff_snapshot =
  ds_coin :: string
  ds_time :: u64
  ds_height :: u64
  ds_n_sig_figs :: "nat option"
  ds_mantissa :: "u64 option"
  ds_n_levels :: "nat option"
  ds_levels :: "level list \<times> level list"

datatype l2_diff = L2Snapshot l2_diff_snapshot | L2Updates l2_diff_updates

definition l2_diff_updates_new ::
  "string \<Rightarrow> u64 \<Rightarrow> u64 \<Rightarrow> u64 \<Rightarrow> nat option \<Rightarrow> u64 option \<Rightarrow> nat option \<Rightarrow> l2_side_diff \<Rightarrow> l2_side_diff
     \<Rightarrow> l2_diff" where
  "l2_diff_updates_new coin time height prev_height n_sig_figs mantissa n_levels bs as =
     L2Updates \<lparr>du_coin = coin, du_time = time, du_height = height, du_prev_height = prev_height,
       du_n_sig_figs = n_sig_figs, du_mantissa = mantissa, du_n_levels = n_levels,
       du_bids = bs, du_asks = as\<rparr>"

section \<open>The receiver\<close>

definition side_apply ::
  "l2_side_diff \<Rightarrow> (string, string \<times> nat) hash_map \<Rightarrow> (string, string \<times> nat) hash_map" where
  "side_apply d m =
     fold (\<lambda>l. hm_insert (dl_px l) (dl_sz l, dl_n l)) (sd_upd d) (fold hm_remove (sd_del d) m)"

text \<open>A side as the receiver must see it: one entry per price.\<close>

abbreviation level_kv :: "level \<Rightarrow> string \<times> string \<times> nat" where
  "level_kv l \<equiv> (lv_px l, lv_sz l, lv_n l)"

definition side_view :: "level list \<Rightarrow> string \<Rightarrow> (string \<times> nat) option" where
  "side_view ls = map_of (map level_kv ls)"

definition one_per_px :: "level list \<Rightarrow> bool" where
  "one_per_px ls \<longleftrightarrow> distinct (map lv_px ls)"

section \<open>Proofs\<close>

lemma map_of_fold_insert:
  "map_of (fold (\<lambda>x. hm_insert (f x) (g x)) xs m) = map_of m ++ map_of (rev (map (\<lambda>x. (f x, g x)) xs))"
  by (induction xs arbitrary: m) (simp_all add: update_conv' map_add_upd_left map_add_assoc)

lemma hm_ok_fold_insert: "hm_ok m \<Longrightarrow> hm_ok (fold (\<lambda>x. hm_insert (f x) (g x)) xs m)"
  by (induction xs arbitrary: m) (simp_all add: distinct_update)

lemma side_map_ok: "hm_ok (side_map ls)"
  by (simp add: side_map_def hm_ok_fold_insert)

lemma map_of_rev_distinct: "distinct (map fst xs) \<Longrightarrow> map_of (rev xs) = map_of xs"
  by (rule map_of_inject_set [THEN iffD2]) (simp_all add: rev_map [symmetric])

lemma side_map_view: "one_per_px ls \<Longrightarrow> map_of (side_map ls) = side_view ls"
  by (simp add: side_map_def map_of_fold_insert side_view_def one_per_px_def map_of_rev_distinct comp_def)

lemma between_loop_eq:
  assumes "hm_ok prev" and "one_per_px new"
  shows "between_loop prev new =
    (map (\<lambda>l. L2DiffLevel (lv_px l) (lv_sz l) (lv_n l))
       (filter (\<lambda>l. map_of prev (lv_px l) \<noteq> Some (lv_sz l, lv_n l)) new),
     fold hm_remove (map lv_px new) prev)"
  using assms
proof (induction prev new rule: between_loop.induct)
  case (2 prev l ls)
  have ne: "lv_px k \<noteq> lv_px l" if "k \<in> set ls" for k
    using "2.prems"(2) imageI [OF that, of lv_px] by (auto simp: one_per_px_def)
  have "filter (\<lambda>k. map_of (hm_remove (lv_px l) prev) (lv_px k) \<noteq> Some (lv_sz k, lv_n k)) ls
      = filter (\<lambda>k. map_of prev (lv_px k) \<noteq> Some (lv_sz k, lv_n k)) ls"
    using ne by (intro filter_cong) (simp_all add: delete_conv')
  moreover have "hm_ok (hm_remove (lv_px l) prev)" "one_per_px ls"
    using "2.prems" by (auto simp: distinct_delete one_per_px_def)
  ultimately show ?case
    using "2.IH" by (simp add: Let_def)
qed simp

lemma side_view_Some: "one_per_px ls \<Longrightarrow> side_view ls k = Some v \<longleftrightarrow> (\<exists>l \<in> set ls. level_kv l = (k, v))"
  by (auto simp: side_view_def one_per_px_def comp_def map_of_Some_set image_iff)

lemma side_view_None: "side_view ls k = None \<longleftrightarrow> k \<notin> lv_px ` set ls"
  by (auto simp: side_view_def map_of_eq_None_iff image_iff)

lemma between_rest:
  "k \<in> set (map fst (fold hm_remove (map lv_px new) (side_map old))) \<longleftrightarrow>
     k \<notin> lv_px ` set new \<and> map_of (side_map old) k \<noteq> None"
proof -
  let ?rest = "fold hm_remove (map lv_px new) (side_map old)"
  have "k \<in> set (map fst ?rest) \<longleftrightarrow> map_of ?rest k \<noteq> None"
    by (simp add: map_of_eq_None_iff)
  then show ?thesis
    using hm.get_fold_remove [OF side_map_ok, of "map lv_px new" old k] by simp
qed

lemma between_eq:
  assumes "one_per_px new"
  shows "between old new =
    \<lparr>sd_upd = map (\<lambda>l. L2DiffLevel (lv_px l) (lv_sz l) (lv_n l))
       (filter (\<lambda>l. map_of (side_map old) (lv_px l) \<noteq> Some (lv_sz l, lv_n l)) new),
     sd_del = map fst (fold hm_remove (map lv_px new) (side_map old))\<rparr>"
  by (simp add: between_def between_loop_eq [OF side_map_ok assms])

lemma side_apply_between:
  assumes new: "one_per_px new" and m: "hm_ok m" "map_of m = map_of (side_map old)"
  shows "map_of (side_apply (between old new) m) = side_view new"
proof
  fix k
  let ?prev = "side_map old" and ?chg = "\<lambda>l. map_of (side_map old) (lv_px l) \<noteq> Some (lv_sz l, lv_n l)"
  let ?upd = "filter ?chg new" and ?rest = "fold hm_remove (map lv_px new) ?prev"
  have upd: "distinct (map fst (map level_kv ?upd))"
    using new by (simp add: comp_def one_per_px_def distinct_map_filter)
  have rest: "k \<in> set (map fst ?rest) \<longleftrightarrow> k \<notin> lv_px ` set new \<and> map_of ?prev k \<noteq> None"
    by (rule between_rest)
  have "map_of (side_apply (between old new) m) k
      = (map_of (fold hm_remove (map fst ?rest) m) ++ map_of (map level_kv ?upd)) k"
    unfolding between_eq [OF new] side_apply_def l2_side_diff.simps
    using map_of_rev_distinct [OF upd] by (simp add: map_of_fold_insert comp_def)
  also have "\<dots> = (case map_of (map level_kv ?upd) k of
      None \<Rightarrow> if k \<notin> lv_px ` set new \<and> map_of ?prev k \<noteq> None then None else map_of ?prev k
    | Some v \<Rightarrow> Some v)"
    using conjunct2 [OF hm.get_fold_remove [OF m(1), of "map fst ?rest" k]] rest m(2)
    by (simp only: map_add_def)
  also have "\<dots> = side_view new k"
  proof (cases "side_view new k")
    case None
    then have k: "k \<notin> lv_px ` set new"
      by (simp add: side_view_None)
    then have "map_of (map level_kv ?upd) k = None"
      by (auto simp: map_of_eq_None_iff image_iff)
    with None k show ?thesis by (cases "map_of ?prev k") simp_all
  next
    case (Some v)
    then obtain l where l: "l \<in> set new" "level_kv l = (k, v)"
      using side_view_Some [OF new] by blast
    have k: "k \<in> lv_px ` set new" using l by force
    show ?thesis
    proof (cases "?chg l")
      case True
      then have "(k, v) \<in> set (map level_kv ?upd)"
        using l by (auto simp: image_iff)
      then have "map_of (map level_kv ?upd) k = Some v"
        using map_of_Some_set [OF upd] by blast
      with Some show ?thesis by simp
    next
      case False
      then have "map_of ?prev k = Some v" using l by auto
      moreover have "map_of (map level_kv ?upd) k = None"
      proof (rule ccontr)
        assume "map_of (map level_kv ?upd) k \<noteq> None"
        then obtain l' where l': "l' \<in> set new" "lv_px l' = k" "?chg l'"
          by (auto simp: map_of_eq_None_iff)
        then have "l' = l"
          using new l by (auto simp: one_per_px_def distinct_map inj_on_def)
        with l' False show False by simp
      qed
      ultimately show ?thesis using Some k by simp
    qed
  qed
  finally show "map_of (side_apply (between old new) m) k = side_view new k" .
qed

lemma side_apply_ok: "hm_ok m \<Longrightarrow> hm_ok (side_apply d m)"
  by (simp add: side_apply_def hm_ok_fold_insert hm.inv_fold_remove)

lemma side_diff_is_empty_iff:
  assumes "one_per_px old" and "one_per_px new"
  shows "side_diff_is_empty (between old new) \<longleftrightarrow> side_view old = side_view new"
proof
  assume "side_diff_is_empty (between old new)"
  then have "side_apply (between old new) (side_map old) = side_map old"
    by (simp add: side_diff_is_empty_def side_apply_def)
  then show "side_view old = side_view new"
    using side_apply_between [OF assms(2) side_map_ok refl, of old] side_map_view [OF assms(1)] by simp
next
  assume v: "side_view old = side_view new"
  have "map_of (side_map old) (lv_px l) = Some (lv_sz l, lv_n l)" if "l \<in> set new" for l
    using side_view_Some [OF assms(2)] that side_map_view [OF assms(1)] v by auto
  then have "sd_upd (between old new) = []"
    by (simp add: between_eq [OF assms(2)] filter_empty_conv)
  moreover have "set (sd_del (between old new)) = {}"
    using between_rest [of _ new old] v side_map_view [OF assms(1)] side_view_None [of new]
    unfolding between_eq [OF assms(2)] l2_side_diff.simps by (metis (no_types, lifting) equals0I)
  ultimately show "side_diff_is_empty (between old new)"
    by (simp add: side_diff_is_empty_def)
qed

text \<open>The updates a stream of sides gives, each against its predecessor.\<close>

fun side_frames :: "level list \<Rightarrow> level list list \<Rightarrow> l2_side_diff list" where
  "side_frames old [] = []"
| "side_frames old (new # rest) = between old new # side_frames new rest"

lemma side_frames_replay:
  assumes "\<forall>s \<in> set (old # rest). one_per_px s" and "hm_ok m" and "map_of m = side_view old"
  shows "map_of (fold side_apply (side_frames old rest) m) = side_view (last (old # rest))"
  using assms
proof (induction rest arbitrary: old m)
  case (Cons new rest)
  have "map_of (side_apply (between old new) m) = side_view new"
    using Cons.prems by (intro side_apply_between) (auto simp: side_map_view)
  then show ?case
    using Cons.IH [of new "side_apply (between old new) m"] Cons.prems by (auto simp: side_apply_ok)
qed simp

definition wire_side :: "inner_level list \<Rightarrow> bool" where
  "wire_side ls \<longleftrightarrow> distinct (map il_px ls) \<and> list_all (\<lambda>l. small_px (il_px l)) ls"

lemma wire_side_one_per_px:
  assumes "wire_side ls"
  shows "one_per_px (map level_from ls)"
proof -
  have "inj_on px_to_str (set (map il_px ls))"
    using assms by (auto simp: inj_on_def wire_side_def list_all_iff px_to_str_inj)
  then have "distinct (map px_to_str (map il_px ls))"
    using assms by (simp only: wire_side_def distinct_map)
  then show ?thesis
    by (simp add: one_per_px_def level_from_def comp_def)
qed

section \<open>Properties\<close>

text \<open>
  A client that takes the snapshot of a side and applies every update of the channel in order
  holds, after any number of updates, exactly the levels of the current side: prices, sizes and
  counts, with no level missing and none left over.
\<close>

theorem l2_diff_stream_exact:
  assumes "\<forall>s \<in> set (s0 # rest). wire_side s"
  shows "map_of (fold side_apply (side_frames (map level_from s0) (map (map level_from) rest))
           (side_map (map level_from s0))) = side_view (map level_from (last (s0 # rest)))"
proof -
  have "\<forall>s \<in> set (map level_from s0 # map (map level_from) rest). one_per_px s"
    using assms wire_side_one_per_px by auto
  then have "map_of (fold side_apply (side_frames (map level_from s0) (map (map level_from) rest))
      (side_map (map level_from s0))) = side_view (last (map level_from s0 # map (map level_from) rest))"
    by (intro side_frames_replay) (auto simp: side_map_ok side_map_view)
  moreover have "last (map level_from s0 # map (map level_from) rest) = map level_from (last (s0 # rest))"
    by (simp add: last_map)
  ultimately show ?thesis by simp
qed

theorem l2_diff_stream_exact_witness:
  "let a = \<lparr>il_px = Px 100, il_sz = Sz 5, il_n = 1\<rparr>; b = \<lparr>il_px = Px 200, il_sz = Sz 7, il_n = 2\<rparr>
   in map_of (fold side_apply (side_frames (map level_from [a]) (map (map level_from) [[a, b], [b]]))
        (side_map (map level_from [a]))) = side_view (map level_from [b])"
  unfolding Let_def
  using l2_diff_stream_exact [of "[\<lparr>il_px = Px 100, il_sz = Sz 5, il_n = 1\<rparr>]"
     "[[\<lparr>il_px = Px 100, il_sz = Sz 5, il_n = 1\<rparr>, \<lparr>il_px = Px 200, il_sz = Sz 7, il_n = 2\<rparr>],
       [\<lparr>il_px = Px 200, il_sz = Sz 7, il_n = 2\<rparr>]]"]
  by (simp add: wire_side_def small_px_def)

text \<open>
  The diff of two sides is empty exactly when they show the same levels, so a book that did not
  change sends nothing and a book that did is never skipped.
\<close>

theorem l2_diff_empty_iff_unchanged:
  assumes "wire_side old" and "wire_side new"
  shows "side_diff_is_empty (between (map level_from old) (map level_from new)) \<longleftrightarrow>
    side_view (map level_from old) = side_view (map level_from new)"
  using assms by (intro side_diff_is_empty_iff wire_side_one_per_px)

theorem l2_diff_empty_iff_unchanged_witness:
  "let a = \<lparr>il_px = Px 100, il_sz = Sz 5, il_n = 1\<rparr>
   in side_diff_is_empty (between (map level_from [a]) (map level_from [a])) \<longleftrightarrow>
      side_view (map level_from [a]) = side_view (map level_from [a])"
  unfolding Let_def
  by (rule l2_diff_empty_iff_unchanged) (simp_all add: wire_side_def small_px_def)

end
