(* ===== verification/Broadcast.thy ===== *)
theory Broadcast
  imports L2_Cache L2_Diff
begin

text \<open>
  What the listener hands to the connections (\<open>listeners/order_book/mod.rs\<close>): the typed event batches,
  the per-coin grouping of statuses, diffs and fills, the pairing of the two fill legs of a trade
  (\<open>TradePairer\<close>), the messages, the frames the connections share (\<open>SharedFrame\<close>, \<open>L2FrameCache\<close>) and the
  reference-counted registries of what the connections want (\<open>ActiveL2Params\<close>, \<open>ActiveSubs\<close>).

  \<^item> \<open>by_coin.entry(coin).or_default().push(x)\<close> is \<open>push_by_coin\<close> on a hash map.
  \<^item> \<open>TRADES_UNPAIRED_FILLS_TOTAL\<close> is threaded through \<open>group_fills\<close> as a counter, because the accounting of
    fills is a property; all other metrics and the logs are left out.
  \<^item> A guard's \<open>Drop\<close> is an operation of its registry; the counters are \<open>usize\<close>, modelled as \<open>nat\<close>, and the
    invariant shows that they are never decremented at zero.

  Shown: trades are formed from exactly the adjacent legs, however the stream is cut into batches, and every
  fill is accounted for; a registry holds exactly the shapes and families with a live guard; connections
  that share a frame cache all see the first value built for a key, however their calls interleave.
\<close>

section \<open>Batches and messages\<close>

datatype event_batch =
    BOrders "node_data_order_status batch"
  | BBookDiffs "node_data_order_diff batch"
  | BFills "node_data_fill batch"

fun batch_len :: "event_batch \<Rightarrow> nat" where
  "batch_len (BOrders b) = length (b_events b)"
| "batch_len (BBookDiffs b) = length (b_events b)"
| "batch_len (BFills b) = length (b_events b)"

fun is_fills :: "event_batch \<Rightarrow> bool" where
  "is_fills (BFills b) = True"
| "is_fills _ = False"

text \<open>A wire frame that is serialized on first use; a failed serialization leaves the empty frame.\<close>

type_synonym shared_frame = "string option"

definition shared_frame_new :: shared_frame where "shared_frame_new = None"

definition get_or_serialize :: "('a \<Rightarrow> 'e + string) \<Rightarrow> (unit \<Rightarrow> 'a) \<Rightarrow> shared_frame \<Rightarrow> string \<times> shared_frame" where
  "get_or_serialize to_json build f =
     (case f of
        Some bytes \<Rightarrow> (bytes, f)
      | None \<Rightarrow>
          (let bytes = (case to_json (build ()) of Inr json \<Rightarrow> json | Inl err \<Rightarrow> [])
           in (bytes, Some bytes)))"

record coin_trades =
  ct_trades :: "trade list"
  ct_frame :: shared_frame

record coin_diffs =
  cd_diffs :: "node_data_order_diff list"
  cd_book_diffs_frame :: shared_frame
  cd_l4_frame :: shared_frame

record coin_statuses =
  cs_statuses :: "node_data_order_status list"
  cs_l4_frame :: shared_frame

record coin_bbo =
  cb_raw :: bbo_entry
  cb_frame :: shared_frame

section \<open>Grouping per coin\<close>

definition push_by_coin :: "string \<Rightarrow> 'a \<Rightarrow> (string, 'a list) hash_map \<Rightarrow> (string, 'a list) hash_map" where
  "push_by_coin c x m = hm_insert c ((case hm_get m c of None \<Rightarrow> [] | Some xs \<Rightarrow> xs) @ [x]) m"

definition group_diffs_by_coin :: "node_data_order_diff list \<Rightarrow> bool \<Rightarrow> (string, coin_diffs) hash_map" where
  "group_diffs_by_coin events skip_spot =
     map (\<lambda>(c, ds). (c, \<lparr>cd_diffs = ds, cd_book_diffs_frame = shared_frame_new, cd_l4_frame = shared_frame_new\<rparr>))
       (fold (\<lambda>d m. if skip_spot \<and> coin_is_spot (diff_coin d) then m else push_by_coin (nd_coin d) d m) events [])"

definition group_statuses_by_coin :: "node_data_order_status list \<Rightarrow> (string, coin_statuses) hash_map" where
  "group_statuses_by_coin events =
     map (\<lambda>(c, ss). (c, \<lparr>cs_statuses = ss, cs_l4_frame = shared_frame_new\<rparr>))
       (fold (\<lambda>s m. push_by_coin (lo_coin (os_order s)) s m) events [])"

section \<open>Pairing the legs of a trade\<close>

record trade_pairer =
  tp_prev :: "node_data_fill option"

definition trade_pairer_default :: trade_pairer where
  "trade_pairer_default = \<lparr>tp_prev = None\<rparr>"

text \<open>One fill: the pairer, the trades so far and the count of unpaired legs.\<close>

definition pair_fill ::
  "node_data_fill \<Rightarrow> trade_pairer \<times> (string, trade list) hash_map \<times> nat
     \<Rightarrow> trade_pairer \<times> (string, trade list) hash_map \<times> nat" where
  "pair_fill f st =
     (let (tp, by_coin, unpaired) = st
      in case tp_prev tp of
           Some p \<Rightarrow>
             if fl_tid (snd p) = fl_tid (snd f)
             then (let (bid, ask) = (if fl_side (snd f) = Bid then (f, p) else (p, f))
                   in case from_fills bid ask of
                        Some t \<Rightarrow> (tp\<lparr>tp_prev := None\<rparr>, push_by_coin (tr_coin t) t by_coin, unpaired)
                      | None \<Rightarrow> (tp\<lparr>tp_prev := None\<rparr>, by_coin, unpaired + 2))
             else (tp\<lparr>tp_prev := Some f\<rparr>, by_coin, unpaired + 1)
         | None \<Rightarrow> (tp\<lparr>tp_prev := Some f\<rparr>, by_coin, unpaired))"

definition group_fills ::
  "node_data_fill batch \<Rightarrow> trade_pairer \<times> nat \<Rightarrow> (string, coin_trades) hash_map \<times> trade_pairer \<times> nat" where
  "group_fills b st =
     (let (tp, unpaired) = st;
          (tp', by_coin, unpaired') = fold pair_fill (b_events b) (tp, [], unpaired)
      in (map (\<lambda>(c, ts). (c, \<lparr>ct_trades = ts, ct_frame = shared_frame_new\<rparr>)) by_coin, tp', unpaired'))"

section \<open>Rendered L2 frames\<close>

record l2_frame_key =
  fk_coin :: string
  fk_n_sig_figs :: "nat option"
  fk_mantissa :: "u64 option"
  fk_n_levels :: nat

definition l2_frame_key_new :: "string \<Rightarrow> nat option \<Rightarrow> u64 option \<Rightarrow> nat \<Rightarrow> l2_frame_key" where
  "l2_frame_key_new c nsf man nl = \<lparr>fk_coin = c, fk_n_sig_figs = nsf, fk_mantissa = man, fk_n_levels = nl\<rparr>"

text \<open>
  A mutex around a map; \<open>None\<close> is the poisoned mutex. \<open>get_or_build\<close> holds the lock twice and builds in
  between, so a call is a look-up on one cache and an insertion into a later one.
\<close>

type_synonym 'b frame_cache = "(l2_frame_key, 'b) hash_map option"

definition frame_cache_new :: "'b frame_cache" where "frame_cache_new = Some []"

definition frame_lookup :: "l2_frame_key \<Rightarrow> 'b frame_cache \<Rightarrow> 'b option" where
  "frame_lookup k c = Option.bind c (\<lambda>m. hm_get m k)"

definition frame_publish :: "l2_frame_key \<Rightarrow> 'b \<Rightarrow> 'b frame_cache \<Rightarrow> 'b \<times> 'b frame_cache" where
  "frame_publish k fresh c =
     (case c of
        None \<Rightarrow> (fresh, c)
      | Some m \<Rightarrow> (case hm_get m k of
                      Some v \<Rightarrow> (v, c)
                    | None \<Rightarrow> (fresh, Some (hm_insert k fresh m))))"

definition get_or_build :: "l2_frame_key \<Rightarrow> (unit \<Rightarrow> 'b) \<Rightarrow> 'b frame_cache \<Rightarrow> 'b \<times> 'b frame_cache" where
  "get_or_build k build c =
     (case frame_lookup k c of Some v \<Rightarrow> (v, c) | None \<Rightarrow> frame_publish k (build ()) c)"

section \<open>Registries\<close>

type_synonym active_l2_params = "(l2_snapshot_params, nat) hash_map"

definition params_acquire :: "l2_snapshot_params \<Rightarrow> active_l2_params \<Rightarrow> active_l2_params" where
  "params_acquire p m = hm_insert p ((case hm_get m p of None \<Rightarrow> 0 | Some n \<Rightarrow> n) + 1) m"

definition params_guard_drop :: "l2_snapshot_params \<Rightarrow> active_l2_params \<Rightarrow> active_l2_params" where
  "params_guard_drop p m =
     (case hm_get m p of
        None \<Rightarrow> m
      | Some n \<Rightarrow> (if n - 1 = 0 then hm_remove p m else hm_insert p (n - 1) m))"

definition params_snapshot :: "active_l2_params \<Rightarrow> l2_snapshot_params list" where
  "params_snapshot m = map fst m"

datatype broadcast_kind = KL4Statuses | KL4Diffs | KTrades | KBbo

record active_subs =
  as_l4_statuses :: nat
  as_l4_diffs :: nat
  as_trades :: nat
  as_bbo :: nat

definition active_subs_default :: active_subs where
  "active_subs_default = \<lparr>as_l4_statuses = 0, as_l4_diffs = 0, as_trades = 0, as_bbo = 0\<rparr>"

fun counter :: "broadcast_kind \<Rightarrow> active_subs \<Rightarrow> nat" where
  "counter KL4Statuses a = as_l4_statuses a"
| "counter KL4Diffs a = as_l4_diffs a"
| "counter KTrades a = as_trades a"
| "counter KBbo a = as_bbo a"

fun set_counter :: "broadcast_kind \<Rightarrow> nat \<Rightarrow> active_subs \<Rightarrow> active_subs" where
  "set_counter KL4Statuses n a = a\<lparr>as_l4_statuses := n\<rparr>"
| "set_counter KL4Diffs n a = a\<lparr>as_l4_diffs := n\<rparr>"
| "set_counter KTrades n a = a\<lparr>as_trades := n\<rparr>"
| "set_counter KBbo n a = a\<lparr>as_bbo := n\<rparr>"

definition subs_acquire :: "broadcast_kind \<Rightarrow> active_subs \<Rightarrow> active_subs" where
  "subs_acquire k a = set_counter k (counter k a + 1) a"

definition subs_guard_drop :: "broadcast_kind \<Rightarrow> active_subs \<Rightarrow> active_subs" where
  "subs_guard_drop k a = set_counter k (counter k a - 1) a"

definition wants :: "broadcast_kind \<Rightarrow> active_subs \<Rightarrow> bool" where
  "wants k a \<longleftrightarrow> 0 < counter k a"

text \<open>The families a subscription consumes: one guard each.\<close>

fun sub_kinds :: "subscription \<Rightarrow> broadcast_kind list" where
  "sub_kinds (SL4Book _) = [KL4Statuses, KL4Diffs]"
| "sub_kinds (SOrderUpdates _) = [KL4Statuses]"
| "sub_kinds (SBookDiffs _) = [KL4Diffs]"
| "sub_kinds (STrades _) = [KTrades]"
| "sub_kinds (SBbo _) = [KBbo]"
| "sub_kinds (SL2Book _ _ _ _) = []"
| "sub_kinds (SL2Diff _ _ _ _) = []"

definition acquire_for :: "subscription \<Rightarrow> active_subs \<Rightarrow> broadcast_kind list \<times> active_subs" where
  "acquire_for s a = (sub_kinds s, fold subs_acquire (sub_kinds s) a)"

section \<open>Messages\<close>

type_synonym l2_built_frame = "u64 \<times> string \<times> l2_book"
type_synonym l2_diff_built_frame = "(l2_side_diff \<times> l2_side_diff) option"

record snapshot_msg =
  sm_l2_snapshots :: l2_cache
  sm_previous :: l2_cache
  sm_time :: u64
  sm_height :: u64
  sm_dirty :: "coin set"
  sm_universe :: "string set option"
  sm_l2_frames :: "l2_built_frame frame_cache"
  sm_l2_diff_frames :: "l2_diff_built_frame frame_cache"

datatype internal_message =
    MSnapshot snapshot_msg
  | MFills "(string, coin_trades) hash_map"
  | MBboUpdate "(coin, coin_bbo) hash_map" u64
  | ML4OrderDiffs u64 u64 "(string, coin_diffs) hash_map"
  | ML4OrderStatuses u64 u64 "(string, coin_statuses) hash_map"


section \<open>Grouping\<close>

definition entries :: "string \<Rightarrow> (string, 'a list) hash_map \<Rightarrow> 'a list" where
  "entries c m = (case hm_get m c of None \<Rightarrow> [] | Some xs \<Rightarrow> xs)"

definition total :: "(string, 'a list) hash_map \<Rightarrow> nat" where
  "total m = sum_list (map (\<lambda>(c, xs). length xs) m)"

lemma entries_push [simp]: "entries c (push_by_coin c' x m) = entries c m @ (if c = c' then [x] else [])"
  by (auto simp: entries_def push_by_coin_def update_conv' split: option.splits)

lemma hm_ok_push: "hm_ok m \<Longrightarrow> hm_ok (push_by_coin c x m)"
  by (simp add: push_by_coin_def distinct_update)

lemma total_update: "total (hm_insert c (entries c m @ [x]) m) = total m + 1"
  by (induction m) (auto simp: total_def entries_def)

lemma total_push [simp]: "total (push_by_coin c x m) = Suc (total m)"
  using total_update [of c m x] by (simp add: push_by_coin_def entries_def)

lemma entries_Nil [simp]: "entries c [] = []" and total_Nil [simp]: "total [] = 0"
  by (simp_all add: entries_def total_def)

lemma entries_fold_push:
  "entries c (fold (\<lambda>x m. if P x then m else push_by_coin (key x) x m) xs m)
     = entries c m @ filter (\<lambda>x. \<not> P x \<and> key x = c) xs"
  by (induction xs arbitrary: m) auto

lemma map_of_map_values: "map_of (map (\<lambda>(c, v). (c, f v)) m) c = map_option f (map_of m c)"
  by (induction m) auto

lemma group_diffs_entry:
  "(case hm_get (group_diffs_by_coin events skip) c of None \<Rightarrow> [] | Some v \<Rightarrow> cd_diffs v)
     = filter (\<lambda>d. \<not> (skip \<and> coin_is_spot (diff_coin d)) \<and> nd_coin d = c) events"
  using entries_fold_push [of c "\<lambda>d. skip \<and> coin_is_spot (diff_coin d)" nd_coin events "[]"]
  unfolding group_diffs_by_coin_def map_of_map_values entries_def
  by (auto split: option.split)

lemma group_statuses_entry:
  "(case hm_get (group_statuses_by_coin events) c of None \<Rightarrow> [] | Some v \<Rightarrow> cs_statuses v)
     = filter (\<lambda>s. lo_coin (os_order s) = c) events"
  using entries_fold_push [of c "\<lambda>s. False" "\<lambda>s. lo_coin (os_order s)" events "[]"]
  unfolding group_statuses_by_coin_def map_of_map_values entries_def
  by (auto split: option.split)

section \<open>Trade pairing\<close>

text \<open>A run of batches through the pairer: what each batch gave, the pairer and the unpaired count.\<close>

fun group_run ::
  "node_data_fill batch list \<Rightarrow> trade_pairer \<times> nat \<Rightarrow> (string, coin_trades) hash_map list \<times> trade_pairer \<times> nat" where
  "group_run [] st = ([], st)"
| "group_run (b # bs) st =
     (let (out, st') = group_fills b st; (outs, st'') = group_run bs st' in (out # outs, st''))"

definition coin_stream :: "string \<Rightarrow> (string, coin_trades) hash_map list \<Rightarrow> trade list" where
  "coin_stream c outs = concat (map (\<lambda>m. case hm_get m c of None \<Rightarrow> [] | Some v \<Rightarrow> ct_trades v) outs)"

definition trade_count :: "(string, coin_trades) hash_map list \<Rightarrow> nat" where
  "trade_count outs = sum_list (map (\<lambda>m. sum_list (map (\<lambda>(c, v). length (ct_trades v)) m)) outs)"

definition held :: "trade_pairer \<Rightarrow> nat" where
  "held tp = (case tp_prev tp of None \<Rightarrow> 0 | Some f \<Rightarrow> 1)"

text \<open>The trade of two legs in either order, and the legs that form one.\<close>

definition leg_trade :: "node_data_fill \<times> node_data_fill \<Rightarrow> trade option" where
  "leg_trade l = (let (p, f) = l in if fl_side (snd f) = Bid then from_fills f p else from_fills p f)"

definition match_legs :: "node_data_fill \<times> node_data_fill \<Rightarrow> bool" where
  "match_legs l \<longleftrightarrow> fl_tid (snd (fst l)) = fl_tid (snd (snd l)) \<and> fl_coin (snd (fst l)) = fl_coin (snd (snd l))
     \<and> fl_side (snd (fst l)) \<noteq> fl_side (snd (snd l))"

lemma leg_trade_matches: "match_legs l \<Longrightarrow> \<exists>t. leg_trade l = Some t"
proof -
  assume m: "match_legs l"
  obtain a p b f where l: "l = ((a, p), (b, f))" by (metis prod.collapse)
  have "fl_side f = Bid \<or> fl_side f = Ask" by (cases "fl_side f") auto
  moreover have "fl_side p = Bid \<or> fl_side p = Ask" by (cases "fl_side p") auto
  ultimately show ?thesis
    using m by (auto simp: l match_legs_def leg_trade_def from_fills_def Let_def)
qed


text \<open>The pairing as a function of the stream alone: trades in order, unpaired legs, the leg held.\<close>

fun scan :: "node_data_fill option \<Rightarrow> node_data_fill list \<Rightarrow> trade list \<times> nat \<times> node_data_fill option" where
  "scan q [] = ([], 0, q)"
| "scan None (f # fs) = scan (Some f) fs"
| "scan (Some p) (f # fs) =
     (if fl_tid (snd p) = fl_tid (snd f)
      then (let (ts, n, q) = scan None fs
            in case leg_trade (p, f) of Some t \<Rightarrow> (t # ts, n, q) | None \<Rightarrow> (ts, n + 2, q))
      else (let (ts, n, q) = scan (Some f) fs in (ts, n + 1, q)))"

lemma pair_fill_scan:
  "scan (tp_prev tp) fs = (ts, n, q) \<Longrightarrow> fold pair_fill fs (tp, m, u) = (tp', m', u') \<Longrightarrow>
     tp_prev tp' = q \<and> u' = u + n \<and> total m' = total m + length ts
     \<and> (\<forall>c. entries c m' = entries c m @ filter (\<lambda>t. tr_coin t = c) ts) \<and> (hm_ok m \<longrightarrow> hm_ok m')"
proof (induction fs arbitrary: tp m u ts n q)
  case Nil
  then show ?case by auto
next
  case (Cons f fs)
  obtain tp1 m1 u1 where one: "pair_fill f (tp, m, u) = (tp1, m1, u1)" by (metis prod.collapse)
  have rest: "fold pair_fill fs (tp1, m1, u1) = (tp', m', u')" using Cons.prems(2) one by simp
  obtain ts1 n1 q1 where s1: "scan (tp_prev tp1) fs = (ts1, n1, q1)" by (metis prod.collapse)
  note IH = Cons.IH [OF s1 rest]
  show ?case
  proof (cases "tp_prev tp")
    case None
    then have "tp1 = tp\<lparr>tp_prev := Some f\<rparr>" "m1 = m" "u1 = u"
      using one by (simp_all add: pair_fill_def)
    then show ?thesis using IH s1 Cons.prems(1) None by simp
  next
    case (Some p)
    show ?thesis
    proof (cases "fl_tid (snd p) = fl_tid (snd f)")
      case False
      then have "tp1 = tp\<lparr>tp_prev := Some f\<rparr>" "m1 = m" "u1 = u + 1"
        using one Some by (simp_all add: pair_fill_def)
      then show ?thesis using IH s1 Cons.prems(1) Some False by (auto simp: Let_def)
    next
      case True
      have lt: "leg_trade (p, f) =
          (let (bid, ask) = (if fl_side (snd f) = Bid then (f, p) else (p, f)) in from_fills bid ask)"
        by (simp add: leg_trade_def)
      show ?thesis
      proof (cases "leg_trade (p, f)")
        case N: None
        then have "tp1 = tp\<lparr>tp_prev := None\<rparr>" "m1 = m" "u1 = u + 2"
          using one Some True by (auto simp: pair_fill_def lt split: if_splits)
        then show ?thesis using IH s1 Cons.prems(1) Some True N by (auto simp: Let_def)
      next
        case S: (Some t)
        then have "tp1 = tp\<lparr>tp_prev := None\<rparr>" "m1 = push_by_coin (tr_coin t) t m" "u1 = u"
          using one Some True by (auto simp: pair_fill_def lt split: if_splits)
        then show ?thesis using IH s1 Cons.prems(1) Some True S by (auto simp: Let_def hm_ok_push)
      qed
    qed
  qed
qed

lemma scan_append:
  "scan q (xs @ ys) =
     (let (ts, n, q') = scan q xs; (ts', n', q'') = scan q' ys in (ts @ ts', n + n', q''))"
  by (induction q xs rule: scan.induct) (auto simp: Let_def split_beta split: option.split)

lemma scan_accounting:
  "scan q fs = (ts, n, q') \<Longrightarrow>
     2 * length ts + n + (case q' of None \<Rightarrow> 0 | Some f \<Rightarrow> 1) = length fs + (case q of None \<Rightarrow> 0 | Some f \<Rightarrow> 1)"
proof (induction q fs arbitrary: ts n q' rule: scan.induct)
  case (3 p f fs)
  show ?case
  proof (cases "fl_tid (snd p) = fl_tid (snd f)")
    case True
    obtain ts1 n1 q1 where s: "scan None fs = (ts1, n1, q1)" by (metis prod.collapse)
    show ?thesis using "3.IH"(1) [OF True s] "3.prems" True s by (auto split: option.splits)
  next
    case False
    obtain ts1 n1 q1 where s: "scan (Some f) fs = (ts1, n1, q1)" by (metis prod.collapse)
    show ?thesis using "3.IH"(2) [OF False s] "3.prems" False s by auto
  qed
qed auto

lemma scan_legs:
  "\<forall>l \<in> set legs. match_legs l \<Longrightarrow>
     scan None (concat (map (\<lambda>(a, b). [a, b]) legs)) = (map (\<lambda>l. the (leg_trade l)) legs, 0, None)"
proof (induction legs)
  case (Cons l legs)
  obtain p f where l: "l = (p, f)" by (metis prod.collapse)
  have "match_legs l" using Cons.prems by simp
  then obtain t where "leg_trade l = Some t" using leg_trade_matches by blast
  then show ?case
    using Cons by (simp add: l match_legs_def Let_def)
qed simp

lemma group_run_scan:
  "group_run bs (tp, u) = (outs, tp', u') \<Longrightarrow>
     scan (tp_prev tp) (concat (map b_events bs)) = (ts, n, q) \<Longrightarrow>
     tp_prev tp' = q \<and> u' = u + n \<and> trade_count outs = length ts
     \<and> (\<forall>c. coin_stream c outs = filter (\<lambda>t. tr_coin t = c) ts)"
proof (induction bs arbitrary: tp u outs ts n q)
  case Nil
  then show ?case by (auto simp: trade_count_def coin_stream_def)
next
  case (Cons b bs)
  obtain tp1 m1 u1 where f: "fold pair_fill (b_events b) (tp, [], u) = (tp1, m1, u1)" by (metis prod.collapse)
  obtain ts1 n1 q1 where s: "scan (tp_prev tp) (b_events b) = (ts1, n1, q1)" by (metis prod.collapse)
  note p = pair_fill_scan [OF s f]
  define out where "out = map (\<lambda>(c, ts). (c, \<lparr>ct_trades = ts, ct_frame = shared_frame_new\<rparr>)) m1"
  have g: "group_fills b (tp, u) = (out, tp1, u1)" by (simp add: group_fills_def f out_def)
  obtain outs2 where r: "group_run bs (tp1, u1) = (outs2, tp', u')" "outs = out # outs2"
    using Cons.prems(1) g by (auto split: prod.splits)
  obtain ts2 n2 q2 where s2: "scan (tp_prev tp1) (concat (map b_events bs)) = (ts2, n2, q2)" by (metis prod.collapse)
  note IH = Cons.IH [OF r(1) s2]
  have all: "ts = ts1 @ ts2" "n = n1 + n2" "q = q2"
    using Cons.prems(2) s s2 p by (auto simp: scan_append)
  have "coin_stream c [out] = entries c m1" for c
    by (simp add: coin_stream_def out_def map_of_map_values entries_def split: option.split)
  then have "coin_stream c [out] = filter (\<lambda>t. tr_coin t = c) ts1" for c
    using p by simp
  moreover have "coin_stream c outs = coin_stream c [out] @ coin_stream c outs2" for c
    by (simp add: coin_stream_def r(2))
  moreover have "trade_count outs = total m1 + trade_count outs2"
    by (simp add: trade_count_def total_def r(2) out_def o_def case_prod_unfold)
  ultimately show ?case
    using IH p all by simp
qed

section \<open>Registries count their guards\<close>

text \<open>A guard is acquired, or one of the guards held is dropped.\<close>

datatype 'k guard_op = Acquire 'k | Release nat

fun drop_nth :: "nat \<Rightarrow> 'a list \<Rightarrow> 'a list" where
  "drop_nth n xs = take n xs @ drop (Suc n) xs"

fun params_step :: "l2_snapshot_params guard_op \<Rightarrow> active_l2_params \<times> l2_snapshot_params list
    \<Rightarrow> active_l2_params \<times> l2_snapshot_params list" where
  "params_step (Acquire p) (m, gs) = (params_acquire p m, gs @ [p])"
| "params_step (Release i) (m, gs) = (if i < length gs then (params_guard_drop (gs ! i) m, drop_nth i gs) else (m, gs))"

definition params_ok :: "active_l2_params \<times> l2_snapshot_params list \<Rightarrow> bool" where
  "params_ok st \<longleftrightarrow> hm_ok (fst st) \<and>
     (\<forall>p. hm_get (fst st) p = (if p \<in> set (snd st) then Some (count_list (snd st) p) else None))"

lemma count_list_drop_nth:
  "i < length gs \<Longrightarrow> count_list (drop_nth i gs) p = count_list gs p - (if p = gs ! i then 1 else 0)"
proof -
  assume i: "i < length gs"
  have "count_list gs p = count_list (take i gs @ gs ! i # drop (Suc i) gs) p"
    using id_take_nth_drop [OF i] by simp
  then show ?thesis by simp
qed

lemma set_drop_nth: "p \<in> set (drop_nth i gs) \<longleftrightarrow> 0 < count_list (drop_nth i gs) p"
  by (metis bot_nat_0.not_eq_extremum count_list_0_iff)

lemma count_pos: "p \<in> set gs \<longleftrightarrow> 0 < count_list gs p"
  by (metis bot_nat_0.not_eq_extremum count_list_0_iff)

lemma params_step_ok: "params_ok st \<Longrightarrow> params_ok (params_step x st)"
proof (cases x)
  case (Acquire p)
  assume ok: "params_ok st"
  obtain m gs where st: "st = (m, gs)" by (metis prod.collapse)
  have "hm_get (params_acquire p m) = (hm_get m)(p \<mapsto> count_list gs p + 1)"
    using ok by (auto simp: params_ok_def st params_acquire_def update_conv' fun_eq_iff split: option.splits)
  then show ?thesis
    using ok by (auto simp: params_ok_def st Acquire params_acquire_def distinct_update)
next
  case (Release i)
  assume ok: "params_ok st"
  obtain m gs where st: "st = (m, gs)" by (metis prod.collapse)
  show ?thesis
  proof (cases "i < length gs")
    case True
    let ?p = "gs ! i"
    have mem: "?p \<in> set gs" using True by simp
    then have get: "hm_get m ?p = Some (count_list gs ?p)" using ok by (simp add: params_ok_def st)
    have pos: "0 < count_list gs ?p" using mem count_pos by metis
    have new: "hm_get (params_guard_drop ?p m) =
        (hm_get m)(?p := (if count_list gs ?p - 1 = 0 then None else Some (count_list gs ?p - 1)))"
      using get by (auto simp: params_guard_drop_def update_conv' delete_conv' fun_eq_iff)
    have "hm_get (params_guard_drop ?p m) q =
        (if q \<in> set (drop_nth i gs) then Some (count_list (drop_nth i gs) q) else None)" for q
    proof (cases "q = ?p")
      case True
      then show ?thesis
        using pos unfolding new set_drop_nth count_list_drop_nth [OF \<open>i < length gs\<close>] by auto
    next
      case False
      then have "hm_get (params_guard_drop ?p m) q = (if q \<in> set gs then Some (count_list gs q) else None)"
        using ok by (simp add: new params_ok_def st)
      then show ?thesis
        using False unfolding set_drop_nth count_list_drop_nth [OF \<open>i < length gs\<close>] count_pos [of q gs] by auto
    qed
    moreover have "hm_ok (params_guard_drop ?p m)"
      using ok get by (simp add: params_ok_def st params_guard_drop_def distinct_update distinct_delete)
    ultimately show ?thesis
      unfolding params_ok_def st Release using True by simp
  next
    case False
    then show ?thesis using ok by (simp add: st Release)
  qed
qed

interpretation params: invariant_system params_step params_ok "([], [])"
  by (unfold_locales, simp add: params_ok_def) (rule params_step_ok)

fun subs_step :: "broadcast_kind guard_op \<Rightarrow> active_subs \<times> broadcast_kind list \<Rightarrow> active_subs \<times> broadcast_kind list" where
  "subs_step (Acquire k) (a, gs) = (subs_acquire k a, gs @ [k])"
| "subs_step (Release i) (a, gs) = (if i < length gs then (subs_guard_drop (gs ! i) a, drop_nth i gs) else (a, gs))"

definition subs_ok :: "active_subs \<times> broadcast_kind list \<Rightarrow> bool" where
  "subs_ok st \<longleftrightarrow> (\<forall>k. counter k (fst st) = count_list (snd st) k)"

lemma counter_set_counter [simp]: "counter k (set_counter k' n a) = (if k = k' then n else counter k a)"
  by (cases k; cases k') simp_all

lemma subs_step_ok: "subs_ok st \<Longrightarrow> subs_ok (subs_step x st)"
  by (cases x; cases st)
    (auto simp: subs_ok_def subs_acquire_def subs_guard_drop_def count_list_drop_nth simp del: drop_nth.simps)

interpretation regs: invariant_system subs_step subs_ok "(active_subs_default, [])"
proof unfold_locales
  show "subs_ok (active_subs_default, [])"
    unfolding subs_ok_def
  proof
    fix k show "counter k (fst (active_subs_default, [])) = count_list (snd (active_subs_default, [])) k"
      by (cases k) (simp_all add: active_subs_default_def)
  qed
qed (rule subs_step_ok)

section \<open>Shared frames\<close>

text \<open>
  The two critical sections of concurrent calls in any order. A caller that finds no entry builds its own
  frame and publishes it later.
\<close>

datatype 'b frame_op = FLookup l2_frame_key | FPublish l2_frame_key 'b

fun frame_step :: "'b frame_op \<Rightarrow> 'b frame_cache \<times> (l2_frame_key \<times> 'b) list \<Rightarrow> 'b frame_cache \<times> (l2_frame_key \<times> 'b) list" where
  "frame_step (FLookup k) (c, served) = (c, case frame_lookup k c of None \<Rightarrow> served | Some v \<Rightarrow> (k, v) # served)"
| "frame_step (FPublish k fresh) (c, served) = (let (v, c') = frame_publish k fresh c in (c', (k, v) # served))"

definition frames_ok :: "'b frame_cache \<times> (l2_frame_key \<times> 'b) list \<Rightarrow> bool" where
  "frames_ok st \<longleftrightarrow> (\<exists>m. fst st = Some m \<and> (\<forall>(k, v) \<in> set (snd st). hm_get m k = Some v))"

lemma frame_step_ok: "frames_ok st \<Longrightarrow> frames_ok (frame_step x st)"
proof -
  assume ok: "frames_ok st"
  obtain m served where st: "st = (Some m, served)" and S: "\<forall>(k, v) \<in> set served. hm_get m k = Some v"
    using ok unfolding frames_ok_def by (metis prod.collapse)
  show ?thesis
  proof (cases x)
    case (FLookup k)
    then show ?thesis using S by (auto simp: frames_ok_def st frame_lookup_def split: option.split)
  next
    case (FPublish k fresh)
    show ?thesis
    proof (cases "hm_get m k")
      case None
      then have "hm_get (hm_insert k fresh m) k' = Some v'" if "(k', v') \<in> set served" for k' v'
        using S that by (auto simp: update_conv')
      then show ?thesis
        using None by (auto simp: frames_ok_def st FPublish frame_publish_def update_conv')
    next
      case (Some v)
      then show ?thesis using S by (auto simp: frames_ok_def st FPublish frame_publish_def)
    qed
  qed
qed

interpretation frames: invariant_system frame_step frames_ok "(frame_cache_new, [])"
  by (unfold_locales, simp add: frames_ok_def frame_cache_new_def) (rule frame_step_ok)

lemma frames_agree:
  assumes "frames_ok st" "(k, v) \<in> set (snd st)" "(k, v') \<in> set (snd st)"
  shows "v = v'"
proof -
  obtain m where m: "\<forall>(k, v) \<in> set (snd st). hm_get m k = Some v"
    using assms(1) unfolding frames_ok_def by blast
  have "hm_get m k = Some v" "hm_get m k = Some v'"
    using bspec [OF m assms(2)] bspec [OF m assms(3)] by simp_all
  then show ?thesis by simp
qed

section \<open>Properties\<close>


definition sample_fill :: "u64 \<Rightarrow> side \<Rightarrow> bool \<Rightarrow> node_data_fill" where
  "sample_fill tid s crossed =
     ([1], \<lparr>fl_coin = ''BTC'', fl_px = ''5'', fl_sz = ''1'', fl_side = s, fl_time = 7, fl_start_position = [], fl_dir = [],
            fl_closed_pnl = [], fl_hash = [], fl_oid = 1, fl_crossed = crossed, fl_fee = [], fl_tid = tid, fl_cloid = None,
            fl_fee_token = [], fl_twap_id = None, fl_liquidation = None\<rparr>)"

definition sample_fills :: "node_data_fill batch list" where
  "sample_fills = map (\<lambda>f. \<lparr>b_local_time = 0, b_block_time = 0, b_block_number = 1, b_events = [f]\<rparr>)
     [sample_fill 4 Bid True, sample_fill 4 Ask False, sample_fill 5 Bid False]"


text \<open>
  The registries hold exactly what is wanted: after any acquisitions and releases of guards the shapes
  to build are those with a live guard, each once, and a broadcast family is wanted iff it has a live guard.
\<close>

theorem registries_exact:
  "(let (m, guards) = fold params_step ops ([], [])
    in set (params_snapshot m) = set guards \<and> distinct (params_snapshot m))
   \<and> (let (a, guards) = fold subs_step ops' (active_subs_default, [])
      in \<forall>k. wants k a \<longleftrightarrow> k \<in> set guards)"
proof -
  obtain m gs where p: "fold params_step ops ([], []) = (m, gs)" by (metis prod.collapse)
  obtain a gs' where s: "fold subs_step ops' (active_subs_default, []) = (a, gs')" by (metis prod.collapse)
  have "params_ok (m, gs)" "subs_ok (a, gs')"
    using params.run_inv [OF params.inv_init, of ops] regs.run_inv [OF regs.inv_init, of ops'] p s by simp_all
  then have get: "hm_ok m" "\<And>p. hm_get m p \<noteq> None \<longleftrightarrow> p \<in> set gs" "\<And>k. counter k a = count_list gs' k"
    by (auto simp: params_ok_def subs_ok_def)
  have "fst ` set m = set gs"
    using get(2) by (auto simp: hm.keys_get)
  then show ?thesis
    using get count_pos [of _ gs'] by (simp add: p s params_snapshot_def wants_def)
qed

end
