(* ===== verification/Listener.thy ===== *)
theory Listener
  imports Broadcast
begin

text \<open>
  The listener (\<open>OrderBookListener\<close> of \<open>listeners/order_book/mod.rs\<close>): it owns the book state, applies the
  event batches, records them for replay while a snapshot is being installed, decides when the book must be
  fetched again, and sends the messages.

  \<^item> An operation runs under the listener's lock and is a function on the record. \<open>None\<close> is a panic. Messages
    are the list an operation sends; whether anyone receives them is a parameter of the flush.
  \<^item> \<open>Instant::now()\<close> is the parameter \<open>now\<close> (milliseconds); \<open>fragmented\<close> is the slab's part of the
    compaction, \<open>L\<close> the logarithm of the aggregation.
  \<^item> A \<open>HashSet<Coin>\<close> is a set, iterated in increasing order; nothing depends on that order. The set of active
    shapes is a list without repetitions, and equal sets are passed on as the same list.
  \<^item> The static event counter of \<open>apply_event_batch\<close>, which paces the maintenance, is a field.
  \<^item> The gauges and counters are left out, \<open>ORDERBOOK_READY\<close> and the time stamps of \<open>/health\<close> included.
\<close>

section \<open>State\<close>

abbreviation max_cached_events :: nat where "max_cached_events \<equiv> 4000000"
abbreviation l2_broadcast_throttle_ms :: nat where "l2_broadcast_throttle_ms \<equiv> 50"
abbreviation max_events_per_batch :: nat where "max_events_per_batch \<equiv> 100000"
abbreviation loss_height_margin :: u64 where "loss_height_margin \<equiv> 100"

record listener =
  ls_ignore_spot :: bool
  ls_market_filter :: "bool \<times> bool \<times> bool"
  ls_state :: "order_book_state option"
  ls_cache :: "event_batch list option"
  ls_cached_count :: nat
  ls_cache_cap :: nat
  ls_needs_resync :: bool
  ls_data_loss :: bool
  ls_tolerate_drift :: bool
  ls_track_untriggered :: bool
  ls_max_loss_height :: u64
  ls_install_covers :: u64
  ls_last_seen_height :: u64
  ls_stream_height :: "u64 \<times> u64"
  ls_has_tx :: bool
  ls_pairer :: trade_pairer
  ls_last_l2 :: "instant option"
  ls_l2_cache :: l2_cache
  ls_pending_dirty :: "coin set"
  ls_active_params :: active_l2_params
  ls_active_subs :: active_subs
  ls_last_active :: "l2_snapshot_params list"
  ls_event_count :: u64
  ls_unpaired :: nat

definition listener_new :: "bool \<Rightarrow> bool \<Rightarrow> active_l2_params \<Rightarrow> bool \<times> bool \<times> bool \<Rightarrow> listener" where
  "listener_new has_tx ignore_spot params market_filter =
     \<lparr>ls_ignore_spot = ignore_spot, ls_market_filter = market_filter, ls_state = None, ls_cache = Some [],
      ls_cached_count = 0, ls_cache_cap = max_cached_events, ls_needs_resync = False, ls_data_loss = False,
      ls_tolerate_drift = False, ls_track_untriggered = True, ls_max_loss_height = 0, ls_install_covers = 0,
      ls_last_seen_height = 0, ls_stream_height = (0, 0), ls_has_tx = has_tx, ls_pairer = trade_pairer_default,
      ls_last_l2 = None, ls_l2_cache = [], ls_pending_dirty = {}, ls_active_params = params,
      ls_active_subs = active_subs_default, ls_last_active = [], ls_event_count = 0, ls_unpaired = 0\<rparr>"

text \<open>The options of the operator.\<close>

definition set_tolerate_drift :: "bool \<Rightarrow> listener \<Rightarrow> listener" where
  "set_tolerate_drift tolerate l = l\<lparr>ls_tolerate_drift := tolerate\<rparr>"

definition set_track_untriggered :: "bool \<Rightarrow> listener \<Rightarrow> listener" where
  "set_track_untriggered track l = l\<lparr>ls_track_untriggered := track\<rparr>"

definition set_cache_event_cap :: "nat \<Rightarrow> listener \<Rightarrow> listener" where
  "set_cache_event_cap cap l = l\<lparr>ls_cache_cap := cap\<rparr>"

definition is_ready :: "listener \<Rightarrow> bool" where
  "is_ready l \<longleftrightarrow> ls_state l \<noteq> None"

definition coin_in_market_filter :: "coin \<Rightarrow> bool \<times> bool \<times> bool \<Rightarrow> bool" where
  "coin_in_market_filter c f =
     (let (perps, spot, hip3) = f
      in (coin_is_perp c \<and> perps) \<or> (coin_is_spot c \<and> spot) \<or> (coin_is_hip3 c \<and> hip3))"

definition listener_universe :: "listener \<Rightarrow> string set" where
  "listener_universe l =
     (case ls_state l of None \<Rightarrow> {}
      | Some st \<Rightarrow> coin_value ` {c \<in> compute_universe st. coin_in_market_filter c (ls_market_filter l)})"

definition begin_caching :: "listener \<Rightarrow> listener" where
  "begin_caching l = (if ls_cache l = None then l\<lparr>ls_cache := Some [], ls_cached_count := 0\<rparr> else l)"

definition mark_desynced :: "listener \<Rightarrow> listener" where
  "mark_desynced l =
     (if ls_tolerate_drift l then l
      else (let state_height = (case ls_state l of None \<Rightarrow> 0 | Some st \<Rightarrow> st_height st);
                observed = max state_height (ls_last_seen_height l);
                bound = (if observed = 0 then u64_max else saturating_add observed loss_height_margin)
            in l\<lparr>ls_needs_resync := True, ls_data_loss := True,
                 ls_max_loss_height := max (ls_max_loss_height l) bound\<rparr>))"

definition resync_is_urgent :: "listener \<Rightarrow> bool" where
  "resync_is_urgent l = ls_data_loss l"

definition replay_cache_status :: "listener \<Rightarrow> nat \<times> bool" where
  "replay_cache_status l = (ls_cached_count l, ls_cache l \<noteq> None)"

definition drain_replay_cache :: "listener \<Rightarrow> event_batch list \<times> listener" where
  "drain_replay_cache l =
     ((case ls_cache l of None \<Rightarrow> [] | Some c \<Rightarrow> c),
      l\<lparr>ls_cached_count := 0, ls_cache := map_option (\<lambda>c. []) (ls_cache l)\<rparr>)"

definition abandon_replay_cache :: "listener \<Rightarrow> nat \<times> listener" where
  "abandon_replay_cache l = (ls_cached_count l, l\<lparr>ls_cached_count := 0, ls_cache := None\<rparr>)"

definition listener_snapshot_for_coin ::
  "coin \<Rightarrow> px_band \<Rightarrow> listener \<Rightarrow> (u64 \<times> u64 \<times> inner_l4_order snapshot) option" where
  "listener_snapshot_for_coin c band l = Option.bind (ls_state l) (compute_snapshot_for_coin c band)"

definition compute_untriggered_snapshot ::
  "coin option \<Rightarrow> listener \<Rightarrow> (u64 \<times> u64 \<times> inner_l4_order list) option" where
  "compute_untriggered_snapshot c l = map_option (untriggered_snapshot c) (ls_state l)"

section \<open>Lines and the replay cache\<close>

text \<open>The JSON parser is third-party: one function per stream, \<open>None\<close> for a line it rejects.\<close>

record line_parsers =
  parse_fills :: "string \<Rightarrow> node_data_fill batch option"
  parse_statuses :: "string \<Rightarrow> node_data_order_status batch option"
  parse_diffs :: "string \<Rightarrow> node_data_order_diff batch option"

definition parse_event_line :: "line_parsers \<Rightarrow> string \<Rightarrow> event_source \<Rightarrow> (u64 \<times> event_batch) option" where
  "parse_event_line J line src =
     (if line = [] then None
      else case src of
        Fills \<Rightarrow> map_option (\<lambda>b. (b_block_number b, BFills b)) (parse_fills J line)
      | OrderStatuses \<Rightarrow> map_option (\<lambda>b. (b_block_number b, BOrders b)) (parse_statuses J line)
      | OrderDiffs \<Rightarrow> map_option (\<lambda>b. (b_block_number b, BBookDiffs b)) (parse_diffs J line))"

definition push_to_replay_cache :: "event_batch \<Rightarrow> listener \<Rightarrow> listener" where
  "push_to_replay_cache b l =
     (if ls_cache_cap l < ls_cached_count l + batch_len b
      then mark_desynced (l\<lparr>ls_cache := None, ls_cached_count := 0\<rparr>)
      else l\<lparr>ls_cached_count := ls_cached_count l + batch_len b,
             ls_cache := map_option (\<lambda>c. c @ [b]) (ls_cache l)\<rparr>)"

definition cache_for_replay :: "event_batch \<Rightarrow> listener \<Rightarrow> event_batch option \<times> listener" where
  "cache_for_replay b l =
     (let ready = is_ready l
      in if is_fills b \<or> ls_cache l = None then (if ready then Some b else None, l)
         else if ready then (Some b, push_to_replay_cache b l)
         else (None, push_to_replay_cache b l))"

section \<open>Installing a snapshot\<close>

text \<open>\<open>None\<close> is a panic of the apply; the flag says that the apply returned an error.\<close>

definition replay_batch_above ::
  "instant \<Rightarrow> u64 \<Rightarrow> event_batch \<Rightarrow> order_book_state \<times> nat \<Rightarrow> (bool \<times> order_book_state \<times> nat) option" where
  "replay_batch_above now height b s =
     (let (st, replayed) = s
      in case b of
        BOrders x \<Rightarrow>
          (if height < b_block_number x
           then (let (r, st') = apply_order_statuses_hft now x st
                 in Some (isl r, st', replayed + length (b_events x)))
           else Some (False, st, replayed))
      | BBookDiffs x \<Rightarrow>
          (if height < b_block_number x
           then map_option (\<lambda>(r, st'). (isl r, st', replayed + length (b_events x)))
                  (apply_order_diffs_hft now x st)
           else Some (False, st, replayed))
      | BFills x \<Rightarrow> Some (False, st, replayed))"

fun replay_all ::
  "instant \<Rightarrow> u64 \<Rightarrow> event_batch list \<Rightarrow> bool \<times> order_book_state \<times> nat \<Rightarrow> (bool \<times> order_book_state \<times> nat) option" where
  "replay_all now height [] s = Some s"
| "replay_all now height (b # bs) (failed, st, n) =
     (case replay_batch_above now height b (st, n) of
        None \<Rightarrow> None
      | Some (f, st', n') \<Rightarrow> replay_all now height bs (failed \<or> f, st', n'))"

text \<open>The loss bookkeeping of the commit: only a loss that the install covers is forgotten.\<close>

definition settle_losses :: "u64 \<Rightarrow> u64 \<Rightarrow> u64 \<Rightarrow> bool \<Rightarrow> listener \<Rightarrow> listener" where
  "settle_losses prior covers height failed l =
     (if failed then mark_desynced l
      else if covers < prior
      then l\<lparr>ls_needs_resync := True, ls_data_loss := True,
             ls_max_loss_height := (if prior = u64_max then max (ls_last_seen_height l) height else prior)\<rparr>
      else l)"

definition finish_install ::
  "instant \<Rightarrow> order_book_state \<Rightarrow> u64 \<Rightarrow> nat \<Rightarrow> bool \<Rightarrow> listener \<Rightarrow> listener option" where
  "finish_install now new_state height replayed replay_failed l =
     (case replay_all now height (case ls_cache l of None \<Rightarrow> [] | Some c \<Rightarrow> c) (replay_failed, new_state, replayed) of
        None \<Rightarrow> None
      | Some (failed, st, n) \<Rightarrow>
          (let (fallbacks, st') = take_insert_before_fallbacks st;
               l2 = l\<lparr>ls_cache := None, ls_cached_count := 0, ls_install_covers := 0, ls_state := Some st',
                      ls_needs_resync := False, ls_max_loss_height := 0, ls_data_loss := False\<rparr>;
               l3 = settle_losses (ls_max_loss_height l) (max (ls_install_covers l) height) height failed l2
           in Some (l3\<lparr>ls_l2_cache := [], ls_pending_dirty := {}, ls_last_active := []\<rparr>)))"

text \<open>The install under one lock, which the tests use: build, replay everything cached, commit.\<close>

definition init_from_snapshot ::
  "instant \<Rightarrow> snapshots \<Rightarrow> inner_l4_order list \<Rightarrow> u64 \<Rightarrow> listener \<Rightarrow> listener option" where
  "init_from_snapshot now snap untriggered height l =
     (let built = state_from_snapshot snap untriggered height 0 True (ls_ignore_spot l) (ls_track_untriggered l);
          st = (case ls_state l of None \<Rightarrow> built | Some old \<Rightarrow> carry_forward_untriggered old built)
      in finish_install now st height 0 False (l\<lparr>ls_state := None, ls_l2_cache := []\<rparr>))"

text \<open>
  The phased install. \<open>env k\<close> is what the other tasks do to the listener before its \<open>k\<close>-th lock. A panic of
  the replay thread is an error of the install; the listener stays as it is.
\<close>

datatype install_result = Installed | ReplayThreadPanicked

definition give_up ::
  "instant \<Rightarrow> u64 \<Rightarrow> nat \<Rightarrow> order_book_state \<times> nat \<times> bool \<Rightarrow> listener \<Rightarrow> (install_result \<times> listener) option" where
  "give_up now height residual_max s l =
     (let (st, replayed, failed) = s; (pending, alive) = replay_cache_status l
      in if alive \<and> residual_max < pending
         then map_option (\<lambda>l'. (Installed, mark_desynced l'))
                (finish_install now st height replayed failed (snd (abandon_replay_cache l)))
         else map_option (\<lambda>l'. (Installed, l')) (finish_install now st height replayed failed l))"

fun chase ::
  "(nat \<Rightarrow> listener \<Rightarrow> listener) \<Rightarrow> instant \<Rightarrow> u64 \<Rightarrow> nat \<Rightarrow> nat \<Rightarrow> nat \<Rightarrow> order_book_state \<times> nat \<times> bool
     \<Rightarrow> listener \<Rightarrow> (install_result \<times> listener) option" where
  "chase env now height residual_max 0 k s l = give_up now height residual_max s (env k l)"
| "chase env now height residual_max (Suc rounds) k (st, replayed, failed) l =
     (let l1 = env k l; (pending, alive) = replay_cache_status l1
      in if \<not> alive \<or> pending \<le> residual_max
         then map_option (\<lambda>l'. (Installed, l')) (finish_install now st height replayed failed l1)
         else (let (chunk, l2) = drain_replay_cache l1
               in case replay_all now height chunk (False, st, 0) of
                    None \<Rightarrow> Some (ReplayThreadPanicked, l2)
                  | Some (f, st', n) \<Rightarrow>
                      chase env now height residual_max rounds (Suc k) (st', replayed + n, failed \<or> f) l2))"

definition install_snapshot_phased_impl ::
  "(nat \<Rightarrow> listener \<Rightarrow> listener) \<Rightarrow> instant \<Rightarrow> snapshots \<Rightarrow> inner_l4_order list \<Rightarrow> u64 \<Rightarrow> nat \<Rightarrow> nat \<Rightarrow> listener
     \<Rightarrow> (install_result \<times> listener) option" where
  "install_snapshot_phased_impl env now snap untriggered height residual_max rounds l =
     (let built = state_from_snapshot snap untriggered height 0 True (ls_ignore_spot l) (ls_track_untriggered l);
          l1 = env 0 l;
          st = (case ls_state l1 of None \<Rightarrow> built | Some old \<Rightarrow> carry_forward_untriggered old built)
      in chase env now height residual_max rounds 1 (st, 0, False) l1)"

abbreviation install_residual_events_max :: nat where "install_residual_events_max \<equiv> 1000"
abbreviation install_max_chase_rounds :: nat where "install_max_chase_rounds \<equiv> 32"

definition install_snapshot_phased ::
  "(nat \<Rightarrow> listener \<Rightarrow> listener) \<Rightarrow> instant \<Rightarrow> snapshots \<Rightarrow> inner_l4_order list \<Rightarrow> u64 \<Rightarrow> listener
     \<Rightarrow> (install_result \<times> listener) option" where
  "install_snapshot_phased env now snap untriggered height l =
     install_snapshot_phased_impl env now snap untriggered height install_residual_events_max install_max_chase_rounds l"

section \<open>Applying a batch\<close>

definition observe_height :: "u64 \<Rightarrow> event_source \<Rightarrow> listener \<Rightarrow> listener" where
  "observe_height height src l =
     (let l1 = l\<lparr>ls_last_seen_height := max (ls_last_seen_height l) height\<rparr>; (s, d) = ls_stream_height l
      in case src of
           OrderStatuses \<Rightarrow> l1\<lparr>ls_stream_height := (max s height, d)\<rparr>
         | OrderDiffs \<Rightarrow> l1\<lparr>ls_stream_height := (s, max d height)\<rparr>
         | Fills \<Rightarrow> l1)"

text \<open>The batch against a book that is there: messages, the coins changed or the error, the new listener.\<close>

definition apply_to_book ::
  "instant \<Rightarrow> event_batch \<Rightarrow> order_book_state \<Rightarrow> listener
     \<Rightarrow> (internal_message list \<times> (parse_error + coin set) \<times> listener) option" where
  "apply_to_book now b st l =
     (case b of
        BOrders x \<Rightarrow>
          (let msgs = (if ls_has_tx l \<and> wants KL4Statuses (ls_active_subs l) \<and> b_events x \<noteq> []
                       then [ML4OrderStatuses (block_time x) (b_block_number x) (group_statuses_by_coin (b_events x))]
                       else []);
               (r, st') = apply_order_statuses_hft now x st
           in Some (msgs, r, l\<lparr>ls_state := Some (snd (take_insert_before_fallbacks st'))\<rparr>))
      | BBookDiffs x \<Rightarrow>
          (let grouped = group_diffs_by_coin (b_events x) (st_ignore_spot st);
               msgs = (if ls_has_tx l \<and> wants KL4Diffs (ls_active_subs l) \<and> grouped \<noteq> []
                       then [ML4OrderDiffs (block_time x) (b_block_number x) grouped] else [])
           in map_option (\<lambda>(r, st'). (msgs, r, l\<lparr>ls_state := Some (snd (take_insert_before_fallbacks st'))\<rparr>))
                (apply_order_diffs_hft now x st))
      | BFills x \<Rightarrow>
          (let l1 = l\<lparr>ls_state := Some (snd (take_insert_before_fallbacks st))\<rparr>
           in if ls_has_tx l \<and> wants KTrades (ls_active_subs l)
              then (let (trades, tp, unpaired) = group_fills x (ls_pairer l, ls_unpaired l)
                    in Some (if trades \<noteq> [] then [MFills trades] else [], Inr {},
                             l1\<lparr>ls_pairer := tp, ls_unpaired := unpaired\<rparr>))
              else Some ([], Inr {}, l1)))"

text \<open>The periodic maintenance; the flag is its report of a loss.\<close>

definition maintain :: "(price_level \<Rightarrow> bool) \<Rightarrow> instant \<Rightarrow> listener \<Rightarrow> bool \<times> listener" where
  "maintain fragmented now l =
     (let sc = ls_event_count l; l1 = l\<lparr>ls_event_count := sc + 1\<rparr>
      in if sc mod 1000 = 0
         then (case ls_state l1 of
                 None \<Rightarrow> (False, l1)
               | Some st \<Rightarrow>
                   (let (cleared, st') = cleanup_stale_pending fragmented now st
                    in (cleared, l1\<lparr>ls_state := Some st'\<rparr>)))
         else (False, l1))"

definition bbo_messages :: "coin set \<Rightarrow> listener \<Rightarrow> internal_message list" where
  "bbo_messages changed l =
     (if changed = {} then []
      else case ls_state l of
        None \<Rightarrow> []
      | Some st \<Rightarrow>
          (if ls_has_tx l \<and> wants KBbo (ls_active_subs l)
           then (let (time, bbos) = state_get_bbos_for_coins (sorted_list_of_set changed) st
                 in [MBboUpdate (map (\<lambda>(c, raw). (c, \<lparr>cb_raw = raw, cb_frame = shared_frame_new\<rparr>)) bbos) time])
           else []))"

text \<open>What follows the apply: maintenance, the desync mark, the quotes, the conflation buffer.\<close>

definition after_apply ::
  "(price_level \<Rightarrow> bool) \<Rightarrow> instant \<Rightarrow> internal_message list \<Rightarrow> parse_error + coin set \<Rightarrow> listener
     \<Rightarrow> internal_message list \<times> listener" where
  "after_apply fragmented now msgs r l =
     (let (failed, changed) = (case r of Inr cs \<Rightarrow> (False, cs) | Inl err \<Rightarrow> (True, {}));
          (cleared, l1) = maintain fragmented now l;
          l2 = (if failed \<or> cleared then mark_desynced l1 else l1)
      in (msgs @ bbo_messages changed l2, l2\<lparr>ls_pending_dirty := ls_pending_dirty l2 \<union> changed\<rparr>))"

definition apply_event_batch ::
  "(price_level \<Rightarrow> bool) \<Rightarrow> instant \<Rightarrow> u64 \<Rightarrow> event_batch \<Rightarrow> event_source \<Rightarrow> listener
     \<Rightarrow> (internal_message list \<times> listener) option" where
  "apply_event_batch fragmented now height b src l =
     (let l1 = observe_height height src l
      in if max_events_per_batch < batch_len b then Some ([], mark_desynced l1)
         else case cache_for_replay b l1 of
           (None, l2) \<Rightarrow> Some ([], l2)
         | (Some b', l2) \<Rightarrow>
             (case ls_state l2 of
                None \<Rightarrow> Some (after_apply fragmented now [] (Inr {}) l2)
              | Some st \<Rightarrow>
                  map_option (\<lambda>(msgs, r, l3). after_apply fragmented now msgs r l3) (apply_to_book now b' st l2)))"

section \<open>Flushing the L2 buffer\<close>

definition flush_due :: "instant \<Rightarrow> listener \<Rightarrow> bool" where
  "flush_due now l \<longleftrightarrow> ls_pending_dirty l \<noteq> {} \<and>
     (case ls_last_l2 l of None \<Rightarrow> True | Some t \<Rightarrow> l2_broadcast_throttle_ms \<le> now - t)"

definition flush_l2_if_due ::
  "(u64 \<Rightarrow> nat) \<Rightarrow> instant \<Rightarrow> nat \<Rightarrow> listener \<Rightarrow> (internal_message list \<times> listener) option" where
  "flush_l2_if_due L now receivers l =
     (if \<not> flush_due now l then Some ([], l)
      else (let l1 = l\<lparr>ls_last_l2 := Some now\<rparr>; active = params_snapshot (ls_active_params l1)
            in if \<not> (ls_has_tx l \<and> 0 < receivers) \<or> active = [] then Some ([], l1)
               else (let l2 = (if set active \<noteq> set (ls_last_active l1)
                               then l1\<lparr>ls_l2_cache := [], ls_last_active := active\<rparr> else l1)
                     in case ls_state l2 of
                          None \<Rightarrow> Some ([], l2)
                        | Some st \<Rightarrow>
                            (let dirty = sorted_list_of_set (ls_pending_dirty l2);
                                 previous = filter (\<lambda>(c, v). c \<in> ls_pending_dirty l2) (ls_l2_cache l2)
                             in case l2_snapshots_incremental L dirty (ls_last_active l2) (ls_l2_cache l2) st of
                                  None \<Rightarrow> None
                                | Some (time, height, cache', recomputed, coin_set_changed) \<Rightarrow>
                                    Some ([MSnapshot \<lparr>sm_l2_snapshots = cache', sm_previous = previous, sm_time = time,
                                             sm_height = height, sm_dirty = recomputed,
                                             sm_universe = (if coin_set_changed then Some (listener_universe l2) else None),
                                             sm_l2_frames = frame_cache_new, sm_l2_diff_frames = frame_cache_new\<rparr>],
                                          l2\<lparr>ls_pending_dirty := {}, ls_l2_cache := cache'\<rparr>)))))"


section \<open>What the operations leave alone\<close>

lemma mark_desynced_fields [simp]:
  "ls_state (mark_desynced l) = ls_state l" "ls_cache (mark_desynced l) = ls_cache l"
  "ls_cached_count (mark_desynced l) = ls_cached_count l" "ls_cache_cap (mark_desynced l) = ls_cache_cap l"
  "ls_tolerate_drift (mark_desynced l) = ls_tolerate_drift l" "ls_last_seen_height (mark_desynced l) = ls_last_seen_height l"
  "ls_install_covers (mark_desynced l) = ls_install_covers l" "ls_l2_cache (mark_desynced l) = ls_l2_cache l"
  "ls_pending_dirty (mark_desynced l) = ls_pending_dirty l" "ls_last_active (mark_desynced l) = ls_last_active l"
  "ls_last_l2 (mark_desynced l) = ls_last_l2 l"
  "\<not> ls_tolerate_drift l \<Longrightarrow> ls_needs_resync (mark_desynced l)"
  "\<not> ls_tolerate_drift l \<Longrightarrow> ls_data_loss (mark_desynced l)"
  by (simp_all add: mark_desynced_def Let_def)

lemma mark_desynced_bound: "ls_max_loss_height l \<le> ls_max_loss_height (mark_desynced l)"
  by (simp add: mark_desynced_def Let_def)

lemma saturating_add_ge: "a \<le> saturating_add a b" for a b :: "'a::len word"
proof -
  have "unat a < 2 ^ LENGTH('a)" by (rule unsigned_less)
  then have "unat a \<le> unat (saturating_add a b)"
    unfolding unat_saturating_add by linarith
  then show ?thesis by (simp add: word_le_nat_alt)
qed

definition observed_height :: "listener \<Rightarrow> u64" where
  "observed_height l = max (case ls_state l of None \<Rightarrow> 0 | Some st \<Rightarrow> st_height st) (ls_last_seen_height l)"

definition loss_bound :: "u64 \<Rightarrow> u64" where
  "loss_bound h = (if h = 0 then u64_max else saturating_add h loss_height_margin)"

lemma mark_desynced_max_loss:
  "\<not> ls_tolerate_drift l \<Longrightarrow>
     ls_max_loss_height (mark_desynced l) = max (ls_max_loss_height l) (loss_bound (observed_height l))"
  unfolding mark_desynced_def Let_def observed_height_def loss_bound_def by simp

lemma loss_bound_ge: "h \<le> loss_bound h"
proof (cases "h = 0")
  case False
  then show ?thesis unfolding loss_bound_def by (simp only: if_False saturating_add_ge)
qed simp

lemma mark_desynced_seen:
  assumes "\<not> ls_tolerate_drift l"
  shows "ls_last_seen_height l \<le> ls_max_loss_height (mark_desynced l)"
proof -
  have "ls_last_seen_height l \<le> observed_height l"
    unfolding observed_height_def by (rule max.cobounded2)
  also have "\<dots> \<le> loss_bound (observed_height l)" by (rule loss_bound_ge)
  also have "\<dots> \<le> ls_max_loss_height (mark_desynced l)"
    unfolding mark_desynced_max_loss [OF assms] by (rule max.cobounded2)
  finally show ?thesis .
qed

section \<open>Runs of the listener\<close>

text \<open>
  The lock holds of the running server: a batch, a flush, an outside report of a loss, the start of a fetch,
  and the pieces of an install (whose new book comes from outside the lock).
\<close>

datatype listener_op =
    OpApply "price_level \<Rightarrow> bool" instant u64 event_batch event_source
  | OpFlush "u64 \<Rightarrow> nat" instant nat
  | OpMark
  | OpBeginFetch u64
  | OpDrain
  | OpAbandon
  | OpFinish instant order_book_state u64 nat bool

fun listener_step :: "listener_op \<Rightarrow> listener \<Rightarrow> listener" where
  "listener_step (OpApply frag now h b src) l =
     (case apply_event_batch frag now h b src l of None \<Rightarrow> l | Some (msgs, l') \<Rightarrow> l')"
| "listener_step (OpFlush L now receivers) l =
     (case flush_l2_if_due L now receivers l of None \<Rightarrow> l | Some (msgs, l') \<Rightarrow> l')"
| "listener_step OpMark l = mark_desynced l"
| "listener_step (OpBeginFetch covers) l = (begin_caching l)\<lparr>ls_install_covers := covers\<rparr>"
| "listener_step OpDrain l = snd (drain_replay_cache l)"
| "listener_step OpAbandon l = snd (abandon_replay_cache l)"
| "listener_step (OpFinish now st h n failed) l = (case finish_install now st h n failed l of None \<Rightarrow> l | Some l' \<Rightarrow> l')"

text \<open>A flush touches nothing but the L2 fields.\<close>

lemma flush_fields:
  assumes "flush_l2_if_due L now rcv l = Some (msgs, l')"
  shows "\<exists>t c d a. l' = l\<lparr>ls_last_l2 := t, ls_l2_cache := c, ls_pending_dirty := d, ls_last_active := a\<rparr>"
proof (cases "flush_due now l")
  case False
  then have "l' = l\<lparr>ls_last_l2 := ls_last_l2 l, ls_l2_cache := ls_l2_cache l, ls_pending_dirty := ls_pending_dirty l,
      ls_last_active := ls_last_active l\<rparr>"
    using assms by (simp add: flush_l2_if_due_def)
  then show ?thesis by blast
next
  case True
  let ?l1 = "l\<lparr>ls_last_l2 := Some now\<rparr>"
  define a where "a = params_snapshot (ls_active_params ?l1)"
  define l2 where "l2 = (if set a \<noteq> set (ls_last_active ?l1) then ?l1\<lparr>ls_l2_cache := [], ls_last_active := a\<rparr> else ?l1)"
  have l2: "\<exists>c a. l2 = l\<lparr>ls_last_l2 := Some now, ls_l2_cache := c, ls_pending_dirty := ls_pending_dirty l, ls_last_active := a\<rparr>"
  proof (cases "set a \<noteq> set (ls_last_active ?l1)")
    case True
    then have "l2 = l\<lparr>ls_last_l2 := Some now, ls_l2_cache := [], ls_pending_dirty := ls_pending_dirty l, ls_last_active := a\<rparr>"
      by (simp add: l2_def)
    then show ?thesis by blast
  next
    case False
    then have "l2 = l\<lparr>ls_last_l2 := Some now, ls_l2_cache := ls_l2_cache l, ls_pending_dirty := ls_pending_dirty l,
        ls_last_active := ls_last_active l\<rparr>"
      by (simp add: l2_def)
    then show ?thesis by blast
  qed
  have "l' = ?l1 \<or> l' = l2 \<or> (\<exists>c. l' = l2\<lparr>ls_pending_dirty := {}, ls_l2_cache := c\<rparr>)"
    using assms True unfolding flush_l2_if_due_def Let_def a_def [symmetric] l2_def [symmetric]
    by (auto split: if_splits option.splits)
  then show ?thesis
  proof (elim disjE exE)
    assume "l' = ?l1"
    then have "l' = l\<lparr>ls_last_l2 := Some now, ls_l2_cache := ls_l2_cache l, ls_pending_dirty := ls_pending_dirty l,
        ls_last_active := ls_last_active l\<rparr>" by simp
    then show ?thesis by blast
  next
    assume "l' = l2"
    then show ?thesis using l2 by blast
  next
    fix c assume c: "l' = l2\<lparr>ls_pending_dirty := {}, ls_l2_cache := c\<rparr>"
    obtain c0 a0 where "l2 = l\<lparr>ls_last_l2 := Some now, ls_l2_cache := c0, ls_pending_dirty := ls_pending_dirty l,
        ls_last_active := a0\<rparr>"
      using l2 by blast
    then have "l' = l\<lparr>ls_last_l2 := Some now, ls_l2_cache := c, ls_pending_dirty := {}, ls_last_active := a0\<rparr>"
      using c by simp
    then show ?thesis by blast
  qed
qed


section \<open>Losses stay marked\<close>

text \<open>What every operation but the commit of an install does to the loss bookkeeping: it only grows.\<close>

definition loss_le :: "listener \<Rightarrow> listener \<Rightarrow> bool" where
  "loss_le l l' \<longleftrightarrow> ls_tolerate_drift l' = ls_tolerate_drift l \<and> ls_last_seen_height l \<le> ls_last_seen_height l'
     \<and> (ls_needs_resync l \<longrightarrow> ls_needs_resync l') \<and> (ls_data_loss l \<longrightarrow> ls_data_loss l')
     \<and> ls_max_loss_height l \<le> ls_max_loss_height l' \<and> ls_install_covers l' = ls_install_covers l"

lemma loss_le_refl [simp]: "loss_le l l"
  by (simp add: loss_le_def)

lemma loss_le_trans: "loss_le a b \<Longrightarrow> loss_le b c \<Longrightarrow> loss_le a c"
  unfolding loss_le_def by (intro conjI) (auto elim: order_trans)

lemma loss_le_mark: "loss_le l (mark_desynced l)"
proof (cases "ls_tolerate_drift l")
  case True
  then show ?thesis by (simp add: mark_desynced_def)
next
  case False
  then show ?thesis using mark_desynced_bound by (simp add: loss_le_def)
qed

lemma loss_le_push: "loss_le l (push_to_replay_cache b l)"
proof (cases "ls_cache_cap l < ls_cached_count l + batch_len b")
  case True
  have "loss_le l (l\<lparr>ls_cache := None, ls_cached_count := 0\<rparr>)" by (simp add: loss_le_def)
  then show ?thesis using loss_le_trans [OF _ loss_le_mark] True by (simp add: push_to_replay_cache_def)
qed (simp add: push_to_replay_cache_def loss_le_def)

lemma loss_le_cache_for_replay: "loss_le l (snd (cache_for_replay b l))"
  by (simp add: cache_for_replay_def Let_def loss_le_push)

lemma apply_to_book_fields:
  assumes "apply_to_book now b st l = Some (msgs, r, l')"
  shows "\<exists>st' tp n. l' = l\<lparr>ls_state := Some st', ls_pairer := tp, ls_unpaired := n\<rparr>"
proof -
  have w: "\<exists>st' tp n. l\<lparr>ls_state := Some s\<rparr> = l\<lparr>ls_state := Some st', ls_pairer := tp, ls_unpaired := n\<rparr>" for s
    by (intro exI [of _ s] exI [of _ "ls_pairer l"] exI [of _ "ls_unpaired l"]) simp
  have w2: "\<exists>st' tp n. l\<lparr>ls_state := Some s, ls_pairer := p, ls_unpaired := u\<rparr>
      = l\<lparr>ls_state := Some st', ls_pairer := tp, ls_unpaired := n\<rparr>" for s p u
    by blast
  show ?thesis
  proof (cases b)
    case (BOrders x)
    then show ?thesis using assms w by (auto simp: apply_to_book_def Let_def split: prod.splits)
  next
    case (BBookDiffs x)
    then show ?thesis using assms w by (auto simp: apply_to_book_def Let_def)
  next
    case (BFills x)
    then show ?thesis
      using assms w w2 by (auto simp: apply_to_book_def Let_def split: prod.splits if_splits)
  qed
qed

lemma maintain_fields: "\<exists>st n. snd (maintain frag now l) = l\<lparr>ls_state := st, ls_event_count := n\<rparr>"
proof -
  have w: "\<exists>st m. l\<lparr>ls_event_count := n\<rparr> = l\<lparr>ls_state := st, ls_event_count := m\<rparr>" for n
    by (intro exI [of _ "ls_state l"] exI [of _ n]) simp
  have w2: "\<exists>st m. l\<lparr>ls_event_count := n, ls_state := s\<rparr> = l\<lparr>ls_state := st, ls_event_count := m\<rparr>" for s n
    by (intro exI [of _ s] exI [of _ n]) simp
  show ?thesis
    using w w2 by (simp add: maintain_def Let_def split_beta split: option.split)
qed

lemma loss_le_maintain: "loss_le l (snd (maintain frag now l))"
proof -
  obtain st n where "snd (maintain frag now l) = l\<lparr>ls_state := st, ls_event_count := n\<rparr>"
    using maintain_fields by blast
  then show ?thesis by (simp add: loss_le_def)
qed

lemma loss_le_after_apply: "loss_le l (snd (after_apply frag now msgs r l))"
proof -
  obtain c l1 where m: "maintain frag now l = (c, l1)" by (metis prod.collapse)
  have "loss_le l l1" using loss_le_maintain [of l frag now] m by simp
  then have "loss_le l (if isl r \<or> c then mark_desynced l1 else l1)"
    using loss_le_trans loss_le_mark by simp
  moreover have "loss_le k (k\<lparr>ls_pending_dirty := d\<rparr>)" for k d
    by (simp add: loss_le_def)
  moreover have "snd (after_apply frag now msgs r l) = (if isl r \<or> c then mark_desynced l1 else l1)
      \<lparr>ls_pending_dirty := ls_pending_dirty l1 \<union> (case r of Inl e \<Rightarrow> {} | Inr cs \<Rightarrow> cs)\<rparr>"
    by (cases r) (simp_all add: after_apply_def m Let_def)
  ultimately show ?thesis
    by (metis loss_le_trans)
qed

lemma loss_le_observe: "loss_le l (observe_height h src l)"
  by (cases src) (simp_all add: observe_height_def loss_le_def Let_def split_beta)

lemma loss_le_apply:
  assumes "apply_event_batch frag now h b src l = Some (msgs, l')"
  shows "loss_le l l'"
proof (cases "max_events_per_batch < batch_len b")
  case True
  then show ?thesis
    using assms loss_le_trans [OF loss_le_observe loss_le_mark] by (auto simp: apply_event_batch_def Let_def)
next
  case False
  obtain ob l2 where c: "cache_for_replay b (observe_height h src l) = (ob, l2)" by (metis prod.collapse)
  have 2: "loss_le l l2"
    using loss_le_trans [OF loss_le_observe loss_le_cache_for_replay] c by (metis snd_conv)
  show ?thesis
  proof (cases ob)
    case None
    then show ?thesis using assms False c 2 by (simp add: apply_event_batch_def Let_def)
  next
    case (Some b')
    show ?thesis
    proof (cases "ls_state l2")
      case None
      then have "l' = snd (after_apply frag now [] (Inr {}) l2)"
        using assms False c Some by (simp add: apply_event_batch_def Let_def)
      then show ?thesis using loss_le_trans [OF 2 loss_le_after_apply] by simp
    next
      case st: (Some st)
      then obtain msgs1 r l3 where a: "apply_to_book now b' st l2 = Some (msgs1, r, l3)"
        and l': "l' = snd (after_apply frag now msgs1 r l3)"
        using assms False c Some by (auto simp: apply_event_batch_def Let_def)
      obtain st' tp n where "l3 = l2\<lparr>ls_state := Some st', ls_pairer := tp, ls_unpaired := n\<rparr>"
        using apply_to_book_fields [OF a] by blast
      then have "loss_le l2 l3" by (simp add: loss_le_def)
      then show ?thesis
        unfolding l' using loss_le_trans [OF loss_le_trans [OF 2]] loss_le_after_apply by blast
    qed
  qed
qed

text \<open>The commit of an install, by cases on what was lost before and during it.\<close>

lemma finish_install_cases:
  assumes "finish_install now st h n failed l = Some l'"
  obtains st' f m l2 where
    "replay_all now h (case ls_cache l of None \<Rightarrow> [] | Some c \<Rightarrow> c) (failed, st, n) = Some (f, st', m)"
    and "l2 = l\<lparr>ls_cache := None, ls_cached_count := 0, ls_install_covers := 0, ls_state := Some (snd (take_insert_before_fallbacks st')),
               ls_needs_resync := False, ls_max_loss_height := 0, ls_data_loss := False\<rparr>"
    and "l' = (settle_losses (ls_max_loss_height l) (max (ls_install_covers l) h) h f l2)
               \<lparr>ls_l2_cache := [], ls_pending_dirty := {}, ls_last_active := []\<rparr>"
proof (cases "replay_all now h (case ls_cache l of None \<Rightarrow> [] | Some c \<Rightarrow> c) (failed, st, n)")
  case None
  then show ?thesis using assms by (simp add: finish_install_def)
next
  case (Some r)
  obtain f st' m where r: "r = (f, st', m)" by (metis prod.collapse)
  show ?thesis
    by (rule that [OF Some [unfolded r] refl])
      (use assms in \<open>simp only: finish_install_def Some r option.case prod.case Let_def split_beta option.inject fst_conv snd_conv\<close>)
qed

lemma settle_losses_fields [simp]:
  "ls_state (settle_losses p c h f l) = ls_state l" "ls_cache (settle_losses p c h f l) = ls_cache l"
  "ls_cached_count (settle_losses p c h f l) = ls_cached_count l" "ls_cache_cap (settle_losses p c h f l) = ls_cache_cap l"
  "ls_tolerate_drift (settle_losses p c h f l) = ls_tolerate_drift l"
  "ls_last_seen_height (settle_losses p c h f l) = ls_last_seen_height l"
  "ls_install_covers (settle_losses p c h f l) = ls_install_covers l"
  by (simp_all add: settle_losses_def)

lemma settle_losses_keeps:
  assumes "\<not> ls_tolerate_drift l" and "covers < prior" and "H \<le> prior" and "H \<le> ls_last_seen_height l"
  shows "ls_needs_resync (settle_losses prior covers h f l)" "ls_data_loss (settle_losses prior covers h f l)"
    and "H \<le> ls_max_loss_height (settle_losses prior covers h f l)"
proof -
  have "H \<le> max (ls_last_seen_height l) h"
    by (rule order_trans [OF assms(4) max.cobounded1])
  moreover have "H \<le> ls_max_loss_height (mark_desynced l)"
    by (rule order_trans [OF assms(4) mark_desynced_seen [OF assms(1)]])
  ultimately show "H \<le> ls_max_loss_height (settle_losses prior covers h f l)"
    using assms(2,3) unfolding settle_losses_def by (simp del: max.absorb1 max.absorb2)
qed (use assms in \<open>simp_all add: settle_losses_def\<close>)

definition stays_marked :: "u64 \<Rightarrow> listener \<Rightarrow> bool" where
  "stays_marked h l \<longleftrightarrow> \<not> ls_tolerate_drift l \<and> ls_needs_resync l \<and> ls_data_loss l
     \<and> h \<le> ls_max_loss_height l \<and> h \<le> ls_last_seen_height l \<and> ls_install_covers l < h"

lemma stays_marked_le: "loss_le l l' \<Longrightarrow> stays_marked h l \<Longrightarrow> stays_marked h l'"
  unfolding stays_marked_def loss_le_def by (metis order_trans)

lemma finish_stays_marked:
  assumes fin: "finish_install now st h n failed l = Some l'" and m: "stays_marked H l" and low: "h < H"
  shows "stays_marked H l'"
proof -
  obtain st' f n' l2 where
    l2: "l2 = l\<lparr>ls_cache := None, ls_cached_count := 0, ls_install_covers := 0, ls_state := Some (snd (take_insert_before_fallbacks st')),
               ls_needs_resync := False, ls_max_loss_height := 0, ls_data_loss := False\<rparr>"
    and l': "l' = (settle_losses (ls_max_loss_height l) (max (ls_install_covers l) h) h f l2)
               \<lparr>ls_l2_cache := [], ls_pending_dirty := {}, ls_last_active := []\<rparr>"
    by (rule finish_install_cases [OF fin])
  have "max (ls_install_covers l) h < H"
    using m low unfolding stays_marked_def by (metis max_less_iff_conj)
  moreover have H: "H \<le> ls_max_loss_height l" "H \<le> ls_last_seen_height l" "\<not> ls_tolerate_drift l"
    using m unfolding stays_marked_def by blast+
  ultimately have above: "max (ls_install_covers l) h < ls_max_loss_height l"
    by (metis order_less_le_trans)
  have pos: "0 < H" using low by (metis order_le_less_trans word_zero_le)
  have t2: "\<not> ls_tolerate_drift l2" "H \<le> ls_last_seen_height l2" "ls_install_covers l2 = 0"
    using H by (simp_all add: l2)
  show ?thesis
    using settle_losses_keeps [OF t2(1) above H(1) t2(2)] t2 pos by (simp add: l' stays_marked_def)
qed

fun uncovering :: "u64 \<Rightarrow> listener_op \<Rightarrow> bool" where
  "uncovering H (OpBeginFetch covers) \<longleftrightarrow> covers < H"
| "uncovering H (OpFinish now st h n failed) \<longleftrightarrow> h < H"
| "uncovering H _ \<longleftrightarrow> True"

lemma step_stays_marked:
  assumes "stays_marked H l" "uncovering H x"
  shows "stays_marked H (listener_step x l)"
proof (cases x)
  case (OpApply frag now h b src)
  show ?thesis
  proof (cases "apply_event_batch frag now h b src l")
    case (Some r)
    then show ?thesis
      using stays_marked_le [OF loss_le_apply assms(1)] by (cases r) (simp add: OpApply)
  qed (simp add: OpApply assms(1))
next
  case (OpFlush L now rcv)
  show ?thesis
  proof (cases "flush_l2_if_due L now rcv l")
    case (Some r)
    obtain t c d a where "snd r = l\<lparr>ls_last_l2 := t, ls_l2_cache := c, ls_pending_dirty := d, ls_last_active := a\<rparr>"
      using flush_fields [of L now rcv l "fst r" "snd r"] Some by auto
    then have "loss_le l (snd r)" by (simp add: loss_le_def)
    then show ?thesis
      using stays_marked_le [OF _ assms(1)] Some by (cases r) (simp add: OpFlush)
  qed (simp add: OpFlush assms(1))
next
  case OpMark
  then show ?thesis using stays_marked_le [OF loss_le_mark assms(1)] by simp
next
  case (OpBeginFetch covers)
  then show ?thesis using assms by (simp add: stays_marked_def begin_caching_def)
next
  case OpDrain
  then show ?thesis using assms by (simp add: stays_marked_def drain_replay_cache_def)
next
  case OpAbandon
  then show ?thesis using assms by (simp add: stays_marked_def abandon_replay_cache_def)
next
  case (OpFinish now st h n failed)
  show ?thesis
  proof (cases "finish_install now st h n failed l")
    case (Some l')
    then show ?thesis using finish_stays_marked [OF Some assms(1)] assms(2) by (simp add: OpFinish)
  qed (simp add: OpFinish assms(1))
qed

lemma run_stays_marked:
  "stays_marked H l \<Longrightarrow> list_all (uncovering H) ops \<Longrightarrow> stays_marked H (fold listener_step ops l)"
  by (induction ops arbitrary: l) (auto simp: step_stays_marked)


section \<open>The replay cache\<close>

definition cached_events :: "listener \<Rightarrow> nat" where
  "cached_events l = (case ls_cache l of None \<Rightarrow> 0 | Some c \<Rightarrow> sum_list (map batch_len c))"

definition cache_ok :: "listener \<Rightarrow> bool" where
  "cache_ok l \<longleftrightarrow> ls_cached_count l = cached_events l \<and> cached_events l \<le> ls_cache_cap l
     \<and> (\<forall>c. ls_cache l = Some c \<longrightarrow> (\<forall>b \<in> set c. \<not> is_fills b))"

lemma cache_ok_cong:
  "cache_ok l \<Longrightarrow> ls_cache l' = ls_cache l \<Longrightarrow> ls_cached_count l' = ls_cached_count l \<Longrightarrow>
     ls_cache_cap l' = ls_cache_cap l \<Longrightarrow> cache_ok l'"
  by (simp add: cache_ok_def cached_events_def)

lemma cache_ok_dead: "ls_cache l = None \<Longrightarrow> ls_cached_count l = 0 \<Longrightarrow> cache_ok l"
  by (simp add: cache_ok_def cached_events_def)

lemma cache_ok_empty: "ls_cache l = Some [] \<Longrightarrow> ls_cached_count l = 0 \<Longrightarrow> cache_ok l"
  by (simp add: cache_ok_def cached_events_def)

lemma push_ok:
  assumes "cache_ok l" "ls_cache l \<noteq> None" "\<not> is_fills b"
  shows "cache_ok (push_to_replay_cache b l)"
proof (cases "ls_cache_cap l < ls_cached_count l + batch_len b")
  case True
  then show ?thesis by (intro cache_ok_dead) (simp_all add: push_to_replay_cache_def)
next
  case False
  obtain c where c: "ls_cache l = Some c" using assms(2) by blast
  show ?thesis
    using assms False c by (auto simp: cache_ok_def cached_events_def push_to_replay_cache_def)
qed

lemma cache_for_replay_ok: "cache_ok l \<Longrightarrow> cache_ok (snd (cache_for_replay b l))"
  by (simp add: cache_for_replay_def Let_def push_ok)

lemma after_apply_ok:
  assumes "cache_ok l"
  shows "cache_ok (snd (after_apply frag now msgs r l))"
proof -
  obtain c l1 where m: "maintain frag now l = (c, l1)" by (metis prod.collapse)
  obtain st n where "l1 = l\<lparr>ls_state := st, ls_event_count := n\<rparr>"
    using maintain_fields [of frag now l] m by auto
  then have "cache_ok l1" by (intro cache_ok_cong [OF assms]) simp_all
  then have "cache_ok (if isl r \<or> c then mark_desynced l1 else l1)"
    by (auto intro: cache_ok_cong)
  then show ?thesis
    by (rule cache_ok_cong) (cases r; simp add: after_apply_def m Let_def)+
qed

lemma apply_cache_ok:
  assumes ok: "cache_ok l" and a: "apply_event_batch frag now h b src l = Some (msgs, l')"
  shows "cache_ok l'"
proof -
  have 1: "cache_ok (observe_height h src l)"
    by (rule cache_ok_cong [OF ok]) (cases src; simp add: observe_height_def Let_def split_beta)+
  obtain ob l2 where c: "cache_for_replay b (observe_height h src l) = (ob, l2)" by (metis prod.collapse)
  then have 2: "cache_ok l2" using cache_for_replay_ok [OF 1] by (metis snd_conv)
  show ?thesis
  proof (cases "max_events_per_batch < batch_len b")
    case True
    then show ?thesis using a cache_ok_cong [OF 1] by (auto simp: apply_event_batch_def Let_def)
  next
    case False
    show ?thesis
    proof (cases ob)
      case None
      then show ?thesis using a False c 2 by (simp add: apply_event_batch_def Let_def)
    next
      case (Some b')
      show ?thesis
      proof (cases "ls_state l2")
        case None
        then have "l' = snd (after_apply frag now [] (Inr {}) l2)"
          using a False c Some by (simp add: apply_event_batch_def Let_def)
        then show ?thesis using after_apply_ok [OF 2] by simp
      next
        case st: (Some st)
        then obtain msgs1 r l3 where p: "apply_to_book now b' st l2 = Some (msgs1, r, l3)"
          and l': "l' = snd (after_apply frag now msgs1 r l3)"
          using a False c Some by (auto simp: apply_event_batch_def Let_def)
        obtain st' tp n where "l3 = l2\<lparr>ls_state := Some st', ls_pairer := tp, ls_unpaired := n\<rparr>"
          using apply_to_book_fields [OF p] by blast
        then have "cache_ok l3" by (intro cache_ok_cong [OF 2]) simp_all
        then show ?thesis unfolding l' by (rule after_apply_ok)
      qed
    qed
  qed
qed

lemma listener_step_cache_ok: "cache_ok l \<Longrightarrow> cache_ok (listener_step x l)"
proof (cases x)
  case (OpApply frag now h b src)
  assume "cache_ok l"
  then show ?thesis using apply_cache_ok by (auto simp: OpApply split: option.split)
next
  case (OpFlush L now rcv)
  assume ok: "cache_ok l"
  show ?thesis
  proof (cases "flush_l2_if_due L now rcv l")
    case (Some r)
    obtain t c d a where "snd r = l\<lparr>ls_last_l2 := t, ls_l2_cache := c, ls_pending_dirty := d, ls_last_active := a\<rparr>"
      using flush_fields [of L now rcv l "fst r" "snd r"] Some by auto
    then have "cache_ok (snd r)" by (intro cache_ok_cong [OF ok]) simp_all
    then show ?thesis using Some by (cases r) (simp add: OpFlush)
  qed (simp add: OpFlush ok)
next
  case (OpFinish now st h n failed)
  assume ok: "cache_ok l"
  show ?thesis
  proof (cases "finish_install now st h n failed l")
    case (Some l')
    obtain f st' l2 where
      "l2 = l\<lparr>ls_cache := None, ls_cached_count := 0, ls_install_covers := 0, ls_state := Some (snd (take_insert_before_fallbacks st')),
              ls_needs_resync := False, ls_max_loss_height := 0, ls_data_loss := False\<rparr>"
      "l' = (settle_losses (ls_max_loss_height l) (max (ls_install_covers l) h) h f l2)
               \<lparr>ls_l2_cache := [], ls_pending_dirty := {}, ls_last_active := []\<rparr>"
      by (rule finish_install_cases [OF Some])
    then have "cache_ok l'" by (intro cache_ok_dead) simp_all
    then show ?thesis by (simp add: OpFinish Some)
  qed (simp add: OpFinish ok)
qed (auto simp: begin_caching_def drain_replay_cache_def abandon_replay_cache_def cache_ok_def cached_events_def
    split: option.splits)

lemma run_cache_ok: "cache_ok l \<Longrightarrow> cache_ok (fold listener_step ops l)"
  by (induction ops arbitrary: l) (auto simp: listener_step_cache_ok)

lemma listener_new_cache_ok: "cache_ok (listener_new tx spot params mf)"
  by (rule cache_ok_empty) (simp_all add: listener_new_def)

interpretation lc: invariant_system listener_step cache_ok "listener_new tx spot params mf"
  by unfold_locales (simp_all add: listener_new_cache_ok listener_step_cache_ok)

section \<open>The phased install is the single-lock install\<close>

text \<open>What may reach the listener between two lock holds: a batch is recorded, or a loss is reported.\<close>

datatype env_event = EnvRecord event_batch | EnvMark

fun env_step :: "env_event \<Rightarrow> listener \<Rightarrow> listener" where
  "env_step (EnvRecord b) l = push_to_replay_cache b l"
| "env_step EnvMark l = mark_desynced l"

text \<open>The listener after \<open>j\<close> rounds of such events, if nothing is drained in between.\<close>

fun env_run :: "(nat \<Rightarrow> env_event list) \<Rightarrow> nat \<Rightarrow> nat \<Rightarrow> listener \<Rightarrow> listener" where
  "env_run es k 0 l = l"
| "env_run es k (Suc j) l = env_run es (Suc k) j (fold env_step (es k) l)"

lemma env_step_cache_None: "ls_cache l = None \<Longrightarrow> ls_cache (env_step e l) = None"
  by (cases e) (simp_all add: push_to_replay_cache_def)

lemma env_fold_cache_None: "ls_cache l = None \<Longrightarrow> ls_cache (fold env_step es l) = None"
  by (induction es arbitrary: l) (simp_all add: env_step_cache_None)

lemma replay_all_append:
  "replay_all now h (xs @ ys) s = Option.bind (replay_all now h xs s) (replay_all now h ys)"
proof (induction now h xs s rule: replay_all.induct)
  case (2 now h b bs failed st n)
  then show ?case by (simp split: option.split prod.split)
qed simp

text \<open>The replay of a chunk may start its flag and its count afresh.\<close>

lemma replay_batch_above_count:
  "replay_batch_above now h b (st, n) = map_option (\<lambda>(f, st', m). (f, st', n + m)) (replay_batch_above now h b (st, 0))"
  by (cases b) (auto simp: replay_batch_above_def Let_def case_prod_unfold option.map_comp o_def)

lemma replay_all_fresh:
  "replay_all now h bs (f0, st, n) = map_option (\<lambda>(f, st', m). (f0 \<or> f, st', n + m)) (replay_all now h bs (False, st, 0))"
proof (induction bs arbitrary: f0 st n)
  case (Cons b bs)
  show ?case
  proof (cases "replay_batch_above now h b (st, 0)")
    case None
    then show ?thesis using replay_batch_above_count [of now h b st n] by simp
  next
    case (Some r)
    obtain f st' m where r: "r = (f, st', m)" by (metis prod.collapse)
    have "replay_batch_above now h b (st, n) = Some (f, st', n + m)"
      using replay_batch_above_count [of now h b st n] Some r by simp
    then show ?thesis
      using Cons.IH [of "f0 \<or> f" st' "n + m"] Cons.IH [of f st' m] Some r
      by (simp add: option.map_comp o_def split_beta disj_assoc add.assoc)
  qed
qed simp

text \<open>A listener whose cache was partly drained, against the one that kept everything.\<close>

definition drained :: "event_batch list \<Rightarrow> event_batch list \<Rightarrow> listener \<Rightarrow> listener \<Rightarrow> bool" where
  "drained gone rest full l \<longleftrightarrow> ls_cache full = Some (gone @ rest)
     \<and> (\<exists>n. l = full\<lparr>ls_cache := Some rest, ls_cached_count := n\<rparr> \<and> n \<le> ls_cached_count full)"

lemma drainedI:
  "ls_cache full = Some (gone @ rest) \<Longrightarrow> l = full\<lparr>ls_cache := Some rest, ls_cached_count := n\<rparr> \<Longrightarrow>
     n \<le> ls_cached_count full \<Longrightarrow> drained gone rest full l"
  unfolding drained_def by blast

lemma drained_refl: "ls_cache l = Some c \<Longrightarrow> drained [] c l l"
  by (rule drainedI [of _ _ _ _ "ls_cached_count l"]) simp_all

lemma mark_desynced_cache_update:
  "mark_desynced (l\<lparr>ls_cache := c, ls_cached_count := n\<rparr>) = (mark_desynced l)\<lparr>ls_cache := c, ls_cached_count := n\<rparr>"
  by (simp add: mark_desynced_def Let_def)

lemma drained_step:
  assumes "drained gone rest full l" "ls_cache (env_step e full) \<noteq> None"
  shows "\<exists>rest'. drained gone rest' (env_step e full) (env_step e l)"
proof (cases e)
  case (EnvRecord b)
  obtain n where l: "l = full\<lparr>ls_cache := Some rest, ls_cached_count := n\<rparr>" "n \<le> ls_cached_count full"
    "ls_cache full = Some (gone @ rest)"
    using assms(1) by (auto simp: drained_def)
  have "\<not> ls_cache_cap full < ls_cached_count full + batch_len b"
    using assms(2) by (auto simp: EnvRecord push_to_replay_cache_def)
  then have "env_step e l = (env_step e full)\<lparr>ls_cache := Some (rest @ [b]), ls_cached_count := n + batch_len b\<rparr>"
    "n + batch_len b \<le> ls_cached_count (env_step e full)" "ls_cache (env_step e full) = Some (gone @ rest @ [b])"
    using l by (simp_all add: EnvRecord push_to_replay_cache_def)
  then have "drained gone (rest @ [b]) (env_step e full) (env_step e l)"
    unfolding drained_def by blast
  then show ?thesis ..
next
  case EnvMark
  obtain n where l: "l = full\<lparr>ls_cache := Some rest, ls_cached_count := n\<rparr>" "n \<le> ls_cached_count full"
    "ls_cache full = Some (gone @ rest)"
    using assms(1) by (auto simp: drained_def)
  then have "drained gone rest (env_step e full) (env_step e l)"
    by (auto simp: drained_def EnvMark mark_desynced_cache_update)
  then show ?thesis ..
qed

lemma drained_fold:
  "drained gone rest full l \<Longrightarrow> ls_cache (fold env_step es full) \<noteq> None \<Longrightarrow>
     \<exists>rest'. drained gone rest' (fold env_step es full) (fold env_step es l)"
proof (induction es arbitrary: rest full l)
  case (Cons e es)
  have "ls_cache (env_step e full) \<noteq> None"
    using Cons.prems(2) env_fold_cache_None [of "env_step e full" es] by (metis fold_simps(2))
  then obtain rest' where "drained gone rest' (env_step e full) (env_step e l)"
    using drained_step [OF Cons.prems(1)] by blast
  then show ?case using Cons by simp
qed auto

text \<open>Committing the drained listener with the drained part replayed is committing the full one.\<close>

lemma finish_install_drained:
  assumes d: "drained gone rest full l"
    and r: "replay_all now h gone (False, st0, 0) = Some (failed, st, n)"
  shows "finish_install now st h n failed l = finish_install now st0 h 0 False full"
proof -
  obtain m where l: "l = full\<lparr>ls_cache := Some rest, ls_cached_count := m\<rparr>" "ls_cache full = Some (gone @ rest)"
    using d by (auto simp: drained_def)
  have "replay_all now h (gone @ rest) (False, st0, 0) = replay_all now h rest (failed, st, n)"
    by (simp add: replay_all_append r)
  then show ?thesis
    by (cases "replay_all now h rest (failed, st, n)") (simp_all add: finish_install_def l Let_def split_beta)
qed


lemma env_step_fields [simp]:
  "ls_state (env_step e l) = ls_state l" "ls_tolerate_drift (env_step e l) = ls_tolerate_drift l"
  "ls_ignore_spot (env_step e l) = ls_ignore_spot l" "ls_track_untriggered (env_step e l) = ls_track_untriggered l"
  by (cases e; simp add: push_to_replay_cache_def mark_desynced_def Let_def)+

lemma env_fold_fields [simp]:
  "ls_state (fold env_step es l) = ls_state l" "ls_tolerate_drift (fold env_step es l) = ls_tolerate_drift l"
  "ls_ignore_spot (fold env_step es l) = ls_ignore_spot l"
  "ls_track_untriggered (fold env_step es l) = ls_track_untriggered l"
  by (induction es arbitrary: l) simp_all

lemma env_run_fields [simp]:
  "ls_state (env_run es k j l) = ls_state l" "ls_tolerate_drift (env_run es k j l) = ls_tolerate_drift l"
  "ls_ignore_spot (env_run es k j l) = ls_ignore_spot l" "ls_track_untriggered (env_run es k j l) = ls_track_untriggered l"
  by (induction es k j l rule: env_run.induct) simp_all

lemma finish_install_tolerate:
  assumes "finish_install now st h n failed l = Some l'"
  shows "ls_tolerate_drift l' = ls_tolerate_drift l"
proof -
  obtain f st' m l2 where
    "l2 = l\<lparr>ls_cache := None, ls_cached_count := 0, ls_install_covers := 0, ls_state := Some (snd (take_insert_before_fallbacks st')),
            ls_needs_resync := False, ls_max_loss_height := 0, ls_data_loss := False\<rparr>"
    "l' = (settle_losses (ls_max_loss_height l) (max (ls_install_covers l) h) h f l2)
             \<lparr>ls_l2_cache := [], ls_pending_dirty := {}, ls_last_active := []\<rparr>"
    by (rule finish_install_cases [OF assms])
  then show ?thesis by simp
qed

lemma give_up_marks:
  assumes "ls_cache l \<noteq> None"
  shows "give_up now h rmax (st, n, failed) l = map_option (Pair Installed) (finish_install now st h n failed l)
    \<or> (\<exists>l'. give_up now h rmax (st, n, failed) l = Some (Installed, l') \<and> (\<not> ls_tolerate_drift l \<longrightarrow> ls_needs_resync l'))"
proof (cases "rmax < ls_cached_count l")
  case True
  let ?a = "l\<lparr>ls_cached_count := 0, ls_cache := None\<rparr>"
  obtain l2 where f: "finish_install now st h n failed ?a = Some l2"
    by (simp add: finish_install_def split_beta Let_def)
  have "give_up now h rmax (st, n, failed) l = Some (Installed, mark_desynced l2)"
    using assms True f by (simp add: give_up_def replay_cache_status_def abandon_replay_cache_def)
  then show ?thesis
    using finish_install_tolerate [OF f] by simp
next
  case False
  then show ?thesis by (simp add: give_up_def replay_cache_status_def)
qed

lemma chase_commits:
  assumes "drained gone rest full l" and "replay_all now h gone (False, st0, 0) = Some (failed, st, n)"
    and "\<forall>j \<le> Suc rounds. ls_cache (env_run es k j full) \<noteq> None"
  shows "\<exists>j \<le> Suc rounds. 0 < j \<and>
     (let r = chase (\<lambda>k. fold env_step (es k)) now h rmax rounds k (st, n, failed) l;
          once = finish_install now st0 h 0 False (env_run es k j full)
      in r = map_option (Pair Installed) once
       \<or> (once = None \<and> (\<exists>l'. r = Some (ReplayThreadPanicked, l') \<and> ls_state l' = ls_state full))
       \<or> (\<exists>l'. r = Some (Installed, l') \<and> (\<not> ls_tolerate_drift full \<longrightarrow> ls_needs_resync l')))"
  using assms
proof (induction rounds arbitrary: k gone rest full l st n failed)
  case 0
  let ?l1 = "fold env_step (es k) l" and ?f1 = "fold env_step (es k) full"
  have alive: "ls_cache ?f1 \<noteq> None" using "0.prems"(3) by (auto dest: spec [of _ 1])
  obtain rest1 where d: "drained gone rest1 ?f1 ?l1"
    using drained_fold [OF "0.prems"(1) alive] by blast
  have t: "ls_tolerate_drift l = ls_tolerate_drift full" "ls_cache ?l1 \<noteq> None"
    using "0.prems"(1) d by (auto simp: drained_def)
  show ?case
    using give_up_marks [OF t(2), of now h rmax st n failed] finish_install_drained [OF d "0.prems"(2)] t(1)
    by (intro exI [of _ 1]) (auto simp: Let_def)
next
  case (Suc rounds)
  let ?l1 = "fold env_step (es k) l" and ?f1 = "fold env_step (es k) full"
  have alive: "ls_cache ?f1 \<noteq> None" using Suc.prems(3) by (auto dest: spec [of _ 1])
  obtain rest1 where d: "drained gone rest1 ?f1 ?l1"
    using drained_fold [OF Suc.prems(1) alive] by blast
  have c: "ls_cache ?l1 = Some rest1" "ls_cache ?f1 = Some (gone @ rest1)"
    using d by (auto simp: drained_def)
  show ?case
  proof (cases "ls_cached_count ?l1 \<le> rmax")
    case True
    then show ?thesis
      using finish_install_drained [OF d Suc.prems(2)] c
      by (intro exI [of _ 1]) (simp add: replay_cache_status_def)
  next
    case False
    let ?l2 = "?l1\<lparr>ls_cached_count := 0, ls_cache := Some []\<rparr>"
    have split: "replay_all now h (gone @ rest1) (False, st0, 0) =
        map_option (\<lambda>(f, st', m). (failed \<or> f, st', n + m)) (replay_all now h rest1 (False, st, 0))"
      using replay_all_fresh [of now h rest1 failed st n] by (simp add: replay_all_append Suc.prems(2))
    show ?thesis
    proof (cases "replay_all now h rest1 (False, st, 0)")
      case None
      have r: "chase (\<lambda>k. fold env_step (es k)) now h rmax (Suc rounds) k (st, n, failed) l = Some (ReplayThreadPanicked, ?l2)"
        using False c None by (simp add: replay_cache_status_def drain_replay_cache_def)
      moreover have "finish_install now st0 h 0 False ?f1 = None"
        using split None c by (simp add: finish_install_def)
      moreover have "ls_state ?l2 = ls_state full" using Suc.prems(1) by (auto simp: drained_def)
      ultimately show ?thesis
        by (intro exI [of _ 1]) (auto simp: Let_def simp del: chase.simps)
    next
      case (Some x)
      obtain f st' m where x: "x = (f, st', m)" by (metis prod.collapse)
      have d2: "drained (gone @ rest1) [] ?f1 ?l2"
        by (rule drainedI [of _ _ _ _ 0]) (use d in \<open>auto simp: drained_def\<close>)
      have r2: "replay_all now h (gone @ rest1) (False, st0, 0) = Some (failed \<or> f, st', n + m)"
        using split Some x by simp
      have "\<forall>j \<le> Suc rounds. ls_cache (env_run es (Suc k) j ?f1) \<noteq> None"
        using Suc.prems(3) by (auto dest: spec [of _ "Suc j" for j])
      note IH = Suc.IH [OF d2 r2 this]
      have r: "chase (\<lambda>k. fold env_step (es k)) now h rmax (Suc rounds) k (st, n, failed) l =
          chase (\<lambda>k. fold env_step (es k)) now h rmax rounds (Suc k) (st', n + m, failed \<or> f) ?l2"
        using False c Some x by (simp add: replay_cache_status_def drain_replay_cache_def)
      from IH obtain j where j: "j \<le> Suc rounds" "0 < j"
        "let r = chase (\<lambda>k. fold env_step (es k)) now h rmax rounds (Suc k) (st', n + m, failed \<or> f) ?l2;
             once = finish_install now st0 h 0 False (env_run es (Suc k) j ?f1)
         in r = map_option (Pair Installed) once
          \<or> (once = None \<and> (\<exists>l'. r = Some (ReplayThreadPanicked, l') \<and> ls_state l' = ls_state ?f1))
          \<or> (\<exists>l'. r = Some (Installed, l') \<and> (\<not> ls_tolerate_drift ?f1 \<longrightarrow> ls_needs_resync l'))"
        by blast
      show ?thesis
        unfolding r by (rule exI [of _ "Suc j"]) (use j in \<open>simp\<close>)
    qed
  qed
qed


lemma finish_install_overwrites:
  "finish_install now st h n f (l\<lparr>ls_state := None, ls_l2_cache := []\<rparr>) = finish_install now st h n f l"
proof (cases "replay_all now h (case ls_cache l of None \<Rightarrow> [] | Some c \<Rightarrow> c) (f, st, n)")
  case (Some r)
  obtain fl st' m where r: "r = (fl, st', m)" by (metis prod.collapse)
  show ?thesis
    using Some by (simp add: finish_install_def r Let_def split_beta settle_losses_def mark_desynced_def)
qed (simp add: finish_install_def)

lemma phased_install_commits:
  assumes "\<forall>j \<le> rounds + 2. ls_cache (env_run es 0 j l) \<noteq> None"
  shows "\<exists>j \<le> rounds + 2. 0 < j \<and>
     (let r = install_snapshot_phased_impl (\<lambda>k. fold env_step (es k)) now snap unt h rmax rounds l;
          once = init_from_snapshot now snap unt h (env_run es 0 j l)
      in r = map_option (Pair Installed) once
       \<or> (once = None \<and> (\<exists>l'. r = Some (ReplayThreadPanicked, l') \<and> ls_state l' = ls_state l))
       \<or> (\<exists>l'. r = Some (Installed, l') \<and> (\<not> ls_tolerate_drift l \<longrightarrow> ls_needs_resync l')))"
proof -
  let ?l1 = "fold env_step (es 0) l"
  define built where "built = state_from_snapshot snap unt h 0 True (ls_ignore_spot l) (ls_track_untriggered l)"
  define st0 where "st0 = (case ls_state l of None \<Rightarrow> built | Some old \<Rightarrow> carry_forward_untriggered old built)"
  have "ls_cache ?l1 \<noteq> None" using assms by (auto dest: spec [of _ 1])
  then obtain c where c: "ls_cache ?l1 = Some c" by blast
  note d = drained_refl [OF c]
  have "\<forall>j \<le> Suc rounds. ls_cache (env_run es 1 j ?l1) \<noteq> None"
    using assms by (auto dest: spec [of _ "Suc j" for j])
  from chase_commits [OF d _ this, of now h st0 False st0 0 rmax] obtain j where
    j: "j \<le> Suc rounds" "0 < j" and
    r: "let r = chase (\<lambda>k. fold env_step (es k)) now h rmax rounds 1 (st0, 0, False) ?l1;
          once = finish_install now st0 h 0 False (env_run es 1 j ?l1)
      in r = map_option (Pair Installed) once
       \<or> (once = None \<and> (\<exists>l'. r = Some (ReplayThreadPanicked, l') \<and> ls_state l' = ls_state ?l1))
       \<or> (\<exists>l'. r = Some (Installed, l') \<and> (\<not> ls_tolerate_drift ?l1 \<longrightarrow> ls_needs_resync l'))"
    by auto
  have i: "install_snapshot_phased_impl (\<lambda>k. fold env_step (es k)) now snap unt h rmax rounds l =
      chase (\<lambda>k. fold env_step (es k)) now h rmax rounds 1 (st0, 0, False) ?l1"
    unfolding install_snapshot_phased_impl_def st0_def built_def Let_def by (simp del: chase.simps)
  have o: "init_from_snapshot now snap unt h (env_run es 0 (Suc j) l) = finish_install now st0 h 0 False (env_run es 1 j ?l1)"
    unfolding init_from_snapshot_def st0_def built_def Let_def finish_install_overwrites env_run_fields by simp
  show ?thesis
    by (rule exI [of _ "Suc j"]) (use j r in \<open>simp add: i o del: env_run.simps\<close>)
qed


section \<open>Properties\<close>

lemma marked_after_mark:
  assumes "\<not> ls_tolerate_drift l" "ls_install_covers l < H" "H \<le> ls_last_seen_height l"
  shows "stays_marked H (mark_desynced l)"
  using assms order_trans [OF assms(3) mark_desynced_seen [OF assms(1)]] by (simp add: stays_marked_def)

text \<open>
  C14. A loss is never forgotten: once the book is marked with the live stream at height \<open>H\<close> or above, it
  stays marked for a fetch through any batches, flushes, further losses and installs, as long as no install
  covers \<open>H\<close>.
\<close>

theorem loss_stays_marked:
  assumes "\<not> ls_tolerate_drift l" and "H \<le> ls_last_seen_height l" and "ls_install_covers l < H"
    and "list_all (uncovering H) ops"
  shows "ls_needs_resync (fold listener_step ops (mark_desynced l))
    \<and> resync_is_urgent (fold listener_step ops (mark_desynced l))"
proof -
  have "stays_marked H (fold listener_step ops (mark_desynced l))"
    by (rule run_stays_marked [OF marked_after_mark [OF assms(1,3,2)] assms(4)])
  then show ?thesis by (simp add: stays_marked_def resync_is_urgent_def)
qed

definition sample_listener :: listener where
  "sample_listener = (listener_new True False [] (True, True, True))\<lparr>ls_last_seen_height := 500\<rparr>"

theorem loss_stays_marked_witness:
  "ls_needs_resync (fold listener_step [OpBeginFetch 450, OpFinish 0 state_empty 400 0 False] (mark_desynced sample_listener))
    \<and> resync_is_urgent (fold listener_step [OpBeginFetch 450, OpFinish 0 state_empty 400 0 False] (mark_desynced sample_listener))"
  by (rule loss_stays_marked [of _ 500]) (simp_all add: sample_listener_def listener_new_def)

text \<open>
  An install whose replay was clean clears the mark exactly if it covers the recorded bound; otherwise
  the book stays marked, and the bound of a loss whose height was unknown becomes a real height, so that a
  later install can cover it.
\<close>

theorem install_clears_iff_covered:
  assumes "finish_install now st h n False l = Some l'"
    and "replay_all now h (case ls_cache l of None \<Rightarrow> [] | Some c \<Rightarrow> c) (False, st, n) = Some (False, st', m)"
  shows "(ls_needs_resync l' \<longleftrightarrow> max (ls_install_covers l) h < ls_max_loss_height l)
    \<and> (ls_needs_resync l' \<longrightarrow> ls_max_loss_height l' =
         (if ls_max_loss_height l = u64_max then max (ls_last_seen_height l) h else ls_max_loss_height l))
    \<and> ls_state l' = Some (snd (take_insert_before_fallbacks st')) \<and> ls_cache l' = None"
proof -
  obtain st'' f m' l2 where r: "replay_all now h (case ls_cache l of None \<Rightarrow> [] | Some c \<Rightarrow> c) (False, st, n) = Some (f, st'', m')"
    and l2: "l2 = l\<lparr>ls_cache := None, ls_cached_count := 0, ls_install_covers := 0, ls_state := Some (snd (take_insert_before_fallbacks st'')),
               ls_needs_resync := False, ls_max_loss_height := 0, ls_data_loss := False\<rparr>"
    and l': "l' = (settle_losses (ls_max_loss_height l) (max (ls_install_covers l) h) h f l2)
               \<lparr>ls_l2_cache := [], ls_pending_dirty := {}, ls_last_active := []\<rparr>"
    by (rule finish_install_cases [OF assms(1)])
  have "f = False" "st'' = st'" using r assms(2) by auto
  then show ?thesis
    by (simp add: l' l2 settle_losses_def del: max_less_iff_conj max.absorb1 max.absorb2)
qed

theorem install_clears_iff_covered_witness:
  "\<exists>l'. finish_install 0 state_empty 700 0 False (mark_desynced sample_listener) = Some l' \<and> \<not> ls_needs_resync l'"
proof -
  let ?l = "mark_desynced sample_listener"
  have r: "replay_all 0 700 (case ls_cache ?l of None \<Rightarrow> [] | Some c \<Rightarrow> c) (False, state_empty, 0) = Some (False, state_empty, 0)"
    by (simp add: sample_listener_def listener_new_def)
  obtain l' where l': "finish_install 0 state_empty 700 0 False ?l = Some l'"
    using r by (simp add: finish_install_def split_beta Let_def)
  have t: "\<not> ls_tolerate_drift sample_listener"
    by (simp add: sample_listener_def listener_new_def)
  have m: "ls_max_loss_height ?l = 600" "ls_install_covers ?l = 0"
    unfolding mark_desynced_max_loss [OF t] observed_height_def loss_bound_def
    by (simp_all add: sample_listener_def listener_new_def saturating_add_def)
  have "\<not> ls_needs_resync l'"
    using install_clears_iff_covered [OF l' r] by (simp add: m)
  then show ?thesis using l' by blast
qed

text \<open>
  Whatever the listener goes through, its replay cache holds exactly the events it counts, never more
  than its cap, and no fills; a dead cache counts nothing.
\<close>

theorem replay_cache_bounded:
  "let l = fold listener_step ops (listener_new tx spot params mf)
   in ls_cached_count l = cached_events l \<and> cached_events l \<le> ls_cache_cap l
     \<and> (\<forall>c. ls_cache l = Some c \<longrightarrow> (\<forall>b \<in> set c. \<not> is_fills b))"
proof -
  have "cache_ok (fold listener_step ops (listener_new tx spot params mf))"
    by (rule lc.run_inv [OF listener_new_cache_ok])
  then show ?thesis by (simp add: cache_ok_def Let_def)
qed

theorem replay_cache_bounded_witness:
  "cached_events (fold listener_step [OpDrain, OpMark] (listener_new True False [] (True, True, True))) \<le>
     ls_cache_cap (fold listener_step [OpDrain, OpMark] (listener_new True False [] (True, True, True)))"
  using replay_cache_bounded [of "[OpDrain, OpMark]" True False "[]" "(True, True, True)"] by (simp add: Let_def)

text \<open>
  C4. The phased install is as good as stopping the world: while batches are being recorded and losses
  reported between its rounds, and the replay cache does not overflow, it leaves exactly the listener that
  the install under one lock leaves at the moment of the commit, or, having given up the chase, leaves the
  book marked for another fetch; a replay that panics installs nothing and would have panicked there too.
\<close>

theorem phased_install_gapless:
  assumes "\<forall>j \<le> rounds + 2. ls_cache (env_run es 0 j l) \<noteq> None"
  shows "\<exists>j \<le> rounds + 2. 0 < j \<and>
     (let r = install_snapshot_phased_impl (\<lambda>k. fold env_step (es k)) now snap unt h residual_max rounds l;
          once = init_from_snapshot now snap unt h (env_run es 0 j l)
      in r = map_option (Pair Installed) once
       \<or> (once = None \<and> (\<exists>l'. r = Some (ReplayThreadPanicked, l') \<and> ls_state l' = ls_state l))
       \<or> (\<exists>l'. r = Some (Installed, l') \<and> (\<not> ls_tolerate_drift l \<longrightarrow> ls_needs_resync l')))"
  by (rule phased_install_commits [OF assms])

definition quiet_batch :: event_batch where
  "quiet_batch = BOrders \<lparr>b_local_time = 0, b_block_time = 0, b_block_number = 9, b_events = []\<rparr>"

lemma quiet_env_alive: "ls_cache l \<noteq> None \<Longrightarrow> ls_cached_count l \<le> ls_cache_cap l \<Longrightarrow>
    ls_cache (env_run (\<lambda>k. [EnvRecord quiet_batch]) k j l) \<noteq> None"
  by (induction j arbitrary: k l) (auto simp: push_to_replay_cache_def quiet_batch_def)

theorem phased_install_gapless_witness:
  "\<exists>j \<le> 34. 0 < j \<and>
     (let r = install_snapshot_phased_impl (\<lambda>k. fold env_step [EnvRecord quiet_batch]) 0 [] [] 7 1000 32 sample_listener;
          once = init_from_snapshot 0 [] [] 7 (env_run (\<lambda>k. [EnvRecord quiet_batch]) 0 j sample_listener)
      in r = map_option (Pair Installed) once
       \<or> (once = None \<and> (\<exists>l'. r = Some (ReplayThreadPanicked, l') \<and> ls_state l' = ls_state sample_listener))
       \<or> (\<exists>l'. r = Some (Installed, l') \<and> (\<not> ls_tolerate_drift sample_listener \<longrightarrow> ls_needs_resync l')))"
proof -
  have "\<forall>j \<le> 32 + 2. ls_cache (env_run (\<lambda>k. [EnvRecord quiet_batch]) 0 j sample_listener) \<noteq> None"
    by (intro allI impI quiet_env_alive) (simp_all add: sample_listener_def listener_new_def)
  then show ?thesis
    using phased_install_gapless [of 32 "\<lambda>k. [EnvRecord quiet_batch]" sample_listener 0 "[]" "[]" 7 1000] by simp
qed

text \<open>
  The margin of the loss bound is lost when an earlier loss of unknown height is pending: the loss at height
  1000 should be bounded by 1100, but the install at 900 replaces the unknown bound by 1000.
\<close>

lemma unknown_bound_drops_margin:
  "let l0 = listener_new True False [] (True, True, True);
       l1 = (mark_desynced l0)\<lparr>ls_last_seen_height := 1000\<rparr>;
       l2 = mark_desynced l1
   in ls_max_loss_height (mark_desynced (l0\<lparr>ls_last_seen_height := 1000\<rparr>)) = 1100
    \<and> map_option ls_max_loss_height (finish_install 0 state_empty 900 0 False l2) = Some 1000"
proof -
  let ?l0 = "listener_new True False [] (True, True, True)"
  let ?l1 = "(mark_desynced ?l0)\<lparr>ls_last_seen_height := 1000\<rparr>"
  have t: "\<not> ls_tolerate_drift ?l0" "\<not> ls_tolerate_drift ?l1" "\<not> ls_tolerate_drift (?l0\<lparr>ls_last_seen_height := 1000\<rparr>)"
    by (simp_all add: listener_new_def)
  have o: "observed_height ?l0 = 0" "observed_height ?l1 = 1000" "observed_height (?l0\<lparr>ls_last_seen_height := 1000\<rparr>) = 1000"
    by (simp_all add: observed_height_def listener_new_def)
  have b: "loss_bound 0 = u64_max" "loss_bound 1000 = 1100"
    by (simp_all add: loss_bound_def saturating_add_def)
  have m0: "ls_max_loss_height (mark_desynced ?l0) = u64_max"
    unfolding mark_desynced_max_loss [OF t(1)] o b by (simp add: listener_new_def)
  have m1: "ls_max_loss_height (mark_desynced ?l1) = u64_max"
    unfolding mark_desynced_max_loss [OF t(2)] o b by (simp add: m0)
  have m2: "ls_max_loss_height (mark_desynced (?l0\<lparr>ls_last_seen_height := 1000\<rparr>)) = 1100"
    unfolding mark_desynced_max_loss [OF t(3)] o b by (simp add: listener_new_def)
  define k where "k = mark_desynced ?l1"
  have c: "ls_cache k = Some []" "ls_install_covers k = 0" "ls_last_seen_height k = 1000" "ls_max_loss_height k = u64_max"
    using m1 by (simp_all add: k_def listener_new_def)
  have "map_option ls_max_loss_height (finish_install 0 state_empty 900 0 False k) = Some 1000"
    by (simp add: finish_install_def c settle_losses_def Let_def split_beta)
  then show ?thesis using m2 by (simp add: Let_def k_def)
qed

end
