(* ===== verification/Conflation.thy ===== *)
theory Conflation
  imports Listener
begin

text \<open>
  The L2 conflation buffer (\<open>pending_dirty_l2_coins\<close> of \<open>listeners/order_book/mod.rs\<close>) across the whole
  listener: every coin a batch changed waits in the buffer until a flush rebuilds and announces it, so that
  between flushes the cached snapshots of all other coins are those of the current book.

  The invariant joins three components: what a batch may change (\<open>Book_State\<close>), what a flush recomputes
  (\<open>L2_Cache\<close>) and when the listener marks the book (\<open>Listener\<close>). It fails after an apply error, because the
  coins that the batch changed before its error are not entered in the buffer; then the book is marked.
\<close>

section \<open>What a batch changes\<close>

definition same_outside :: "coin set \<Rightarrow> order_books \<Rightarrow> order_books \<Rightarrow> bool" where
  "same_outside cs m m' \<longleftrightarrow> (\<forall>c. c \<notin> cs \<longrightarrow> bt_get m' c = bt_get m c)"

lemma same_outside_refl [simp]: "same_outside cs m m"
  by (simp add: same_outside_def)

lemma same_outside_trans: "same_outside a m m' \<Longrightarrow> same_outside b m' m'' \<Longrightarrow> same_outside (a \<union> b) m m''"
  by (simp add: same_outside_def)

lemma books_bt_ok: "state_ok st \<Longrightarrow> bt_ok (st_order_book st)"
  by (simp add: state_ok_def books_ok_def)

lemma books_add_outside: "bt_ok m \<Longrightarrow> same_outside {io_coin o'} m (snd (books_add_order_before o' ib m))"
  by (simp add: same_outside_def books_add_order_before_def Let_def split_beta map_of_bt_insert)

lemma books_cancel_outside: "bt_ok m \<Longrightarrow> same_outside {c} m (snd (books_cancel_order k c m))"
  by (auto simp: same_outside_def books_cancel_order_def Let_def split_beta map_of_bt_insert delete_conv' split: option.split)

lemma books_modify_outside: "bt_ok m \<Longrightarrow> same_outside {c} m (snd (books_modify_sz k c s m))"
  by (auto simp: same_outside_def books_modify_sz_def Let_def split_beta map_of_bt_insert delete_conv' split: option.split)

lemma rest_order_outside:
  "bt_ok (st_order_book st) \<Longrightarrow> same_outside {io_coin o'} (st_order_book st) (st_order_book (rest_order o' ib st))"
  using books_add_outside [of "st_order_book st" o' ib] by (simp add: rest_order_def Let_def split_beta)

lemma triggered_coin [simp]: "io_coin (convert_trigger t (order_modify_sz z o')) = io_coin o'"
  by (simp add: convert_trigger_def order_modify_sz_def)

lemma apply_one_status_outside:
  assumes ok: "state_ok st" and a: "apply_one_status now s st = (Inr cs, st')"
  shows "finite cs \<and> same_outside cs (st_order_book st) (st_order_book st')"
proof -
  let ?st1 = "untriggered_update s st" and ?k = "Oid (lo_oid (os_order s))"
  show ?thesis
  proof (cases "hm_get (st_pending_news ?st1) ?k")
    case None
    then show ?thesis using a by (auto simp: apply_one_status_def Let_def split: if_splits)
  next
    case (Some e)
    obtain z ib ts u where e: "e = (z, ib, ts, u)" by (metis prod.collapse)
    show ?thesis
    proof (cases "status_try_into s")
      case (Inl err)
      then show ?thesis using a Some e by (simp add: apply_one_status_def Let_def)
    next
      case (Inr inner)
      let ?st2 = "?st1\<lparr>st_pending_news := hm_remove ?k (st_pending_news ?st1)\<rparr>"
      have r: "cs = {Coin (lo_coin (os_order s))}"
        "st' = rest_order (convert_trigger (word_of_int (max (os_time s) 0)) (order_modify_sz z inner)) ib ?st2"
        using a Some e Inr by (simp_all add: apply_one_status_def Let_def)
      have "bt_ok (st_order_book ?st2)" using books_bt_ok [OF ok] by simp
      from rest_order_outside [OF this, of "convert_trigger (word_of_int (max (os_time s) 0)) (order_modify_sz z inner)" ib]
      show ?thesis using status_try_into_fields(2) [OF Inr] by (simp add: r)
    qed
  qed
qed

lemma apply_statuses_outside:
  assumes "state_ok st" "apply_statuses now ss cs0 st = (Inr cs, st')" "finite cs0"
  shows "finite cs \<and> cs0 \<subseteq> cs \<and> same_outside cs (st_order_book st) (st_order_book st')"
  using assms
proof (induction ss arbitrary: cs0 st)
  case (Cons s ss)
  obtain r st1 where one: "apply_one_status now s st = (r, st1)" by (metis prod.collapse)
  obtain cs1 where r: "r = Inr cs1" using Cons.prems(2) one by (cases r) auto
  note o1 = apply_one_status_outside [OF Cons.prems(1) one [unfolded r]]
  have ok1: "state_ok st1" using apply_one_status_ok [OF Cons.prems(1), of now s] one by simp
  have rest: "apply_statuses now ss (cs0 \<union> cs1) st1 = (Inr cs, st')" using Cons.prems(2) one r by simp
  have IH: "finite cs \<and> cs0 \<union> cs1 \<subseteq> cs \<and> same_outside cs (st_order_book st1) (st_order_book st')"
    using Cons.IH [OF ok1 rest] o1 Cons.prems(3) by simp
  then have "same_outside cs (st_order_book st) (st_order_book st1)"
    using o1 by (auto simp: same_outside_def)
  then show ?case
    using IH by (auto simp: same_outside_def)
qed auto

lemma apply_order_statuses_outside:
  assumes "state_ok st" "apply_order_statuses_hft now b st = (Inr cs, st')"
  shows "finite cs \<and> same_outside cs (st_order_book st) (st_order_book st')"
  using apply_statuses_outside [OF advance_to_ok [OF assms(1)] assms(2) [unfolded apply_order_statuses_hft_def]]
  by (simp add: advance_to_def split: if_splits)

lemma apply_one_diff_outside:
  assumes ok: "state_ok st" and a: "apply_one_diff now h d st = Some (Inr cs, st')"
  shows "finite cs \<and> same_outside cs (st_order_book st) (st_order_book st')"
proof -
  note bt = books_bt_ok [OF ok]
  let ?k = "diff_oid d" and ?c = "diff_coin d"
  show ?thesis
  proof (cases "coin_is_spot ?c \<and> st_ignore_spot st")
    case True
    then show ?thesis using a by (simp add: apply_one_diff_def)
  next
    case live: False
    show ?thesis
    proof (cases "inner_diff_try_from (nd_raw_book_diff d)")
      case (Inl e)
      then show ?thesis using a live by (simp add: apply_one_diff_def)
    next
      case (Inr i)
      show ?thesis
      proof (cases i)
        case (INew z ib)
        show ?thesis
        proof (cases "hm_get (st_pending_statuses st) ?k")
          case None
          then show ?thesis using a live Inr INew by (auto simp: apply_one_diff_def Let_def split: if_splits)
        next
          case (Some e)
          obtain s ts where e: "e = (s, ts)" by (metis prod.collapse)
          let ?st1 = "st\<lparr>st_pending_statuses := hm_remove ?k (st_pending_statuses st)\<rparr>"
          have n: "st_ignore_spot st \<longrightarrow> \<not> coin_is_spot ?c" using live by blast
          obtain inner where t: "status_try_into s = Inr inner" "\<not> os_time s < 0"
            using a n Inr INew Some e by (auto simp: apply_one_diff_def Let_def split: sum.splits if_splits)
          let ?o = "convert_trigger (word_of_int (os_time s)) (order_modify_sz z inner)"
          have r: "cs = {Coin (lo_coin (os_order s))}" "st' = rest_order ?o ib ?st1"
            using a n Inr INew Some e t by (auto simp: apply_one_diff_def Let_def split: if_splits)
          show ?thesis
            using rest_order_outside [of ?st1 ?o ib] bt status_try_into_fields(2) [OF t(1)] by (simp add: r)
        qed
      next
        case (IUpdate x new_sz)
        have n: "st_ignore_spot st \<longrightarrow> \<not> coin_is_spot ?c" using live by blast
        have "cs = {?c} \<and> st_order_book st' = snd (books_modify_sz ?k ?c new_sz (st_order_book st))"
          using a n Inr IUpdate by (auto simp: apply_one_diff_def Let_def split_beta split: if_splits)
        then show ?thesis using books_modify_outside [OF bt] by simp
      next
        case IRemove
        have n: "st_ignore_spot st \<longrightarrow> \<not> coin_is_spot ?c" using live by blast
        have "cs = {?c} \<and> st_order_book st' = snd (books_cancel_order ?k ?c (st_order_book st))"
          using a n Inr IRemove by (auto simp: apply_one_diff_def Let_def split_beta split: if_splits)
        then show ?thesis using books_cancel_outside [OF bt] by simp
      qed
    qed
  qed
qed

lemma apply_diffs_outside:
  assumes "state_ok st" "apply_diffs now h ds cs0 st = Some (Inr cs, st')" "finite cs0"
  shows "finite cs \<and> cs0 \<subseteq> cs \<and> same_outside cs (st_order_book st) (st_order_book st')"
  using assms
proof (induction ds arbitrary: cs0 st)
  case (Cons d ds)
  obtain cs1 st1 where one: "apply_one_diff now h d st = Some (Inr cs1, st1)"
    and rest: "apply_diffs now h ds (cs0 \<union> cs1) st1 = Some (Inr cs, st')"
    using Cons.prems(2) by (auto split: option.splits sum.splits)
  note o1 = apply_one_diff_outside [OF Cons.prems(1) one]
  have ok1: "state_ok st1" using apply_one_diff_ok [OF Cons.prems(1) one] by simp
  have IH: "finite cs \<and> cs0 \<union> cs1 \<subseteq> cs \<and> same_outside cs (st_order_book st1) (st_order_book st')"
    using Cons.IH [OF ok1 rest] o1 Cons.prems(3) by simp
  then show ?case
    using o1 by (auto simp: same_outside_def)
qed auto

lemma apply_order_diffs_outside:
  assumes "state_ok st" "apply_order_diffs_hft now b st = Some (Inr cs, st')"
  shows "finite cs \<and> same_outside cs (st_order_book st) (st_order_book st')"
proof -
  obtain recent zs where f: "forget_zeroed (b_block_number b) (st_zeroed_recently st) (st_zeroed_set st) = (recent, zs)"
    by (metis prod.collapse)
  let ?st1 = "advance_to (b_block_number b) (block_time b) (st\<lparr>st_zeroed_recently := recent, st_zeroed_set := zs\<rparr>)"
  have a: "apply_diffs now (b_block_number b) (b_events b) {} ?st1 = Some (Inr cs, st')"
    using assms(2) by (simp add: apply_order_diffs_hft_def f Let_def)
  have "state_ok (st\<lparr>st_zeroed_recently := recent, st_zeroed_set := zs\<rparr>)"
    by (rule state_ok_cong [OF assms(1)])
       (use state_okD [OF assms(1)] forget_zeroed_subset [OF state_ok_zeroed [OF assms(1)] f] in simp_all)
  then have ok: "state_ok ?st1" by (rule advance_to_ok)
  have "st_order_book ?st1 = st_order_book st" by (simp add: advance_to_def)
  then show ?thesis using apply_diffs_outside [OF ok a] by simp
qed


section \<open>The invariant\<close>

text \<open>The cached snapshots of the coins outside the buffer are those of the current book.\<close>

definition fresh_state :: "(u64 \<Rightarrow> nat) \<Rightarrow> order_book_state \<Rightarrow> listener \<Rightarrow> bool" where
  "fresh_state L st l \<longleftrightarrow>
     (\<forall>c. hm_get (ls_l2_cache l) c \<noteq> None \<and> c \<notin> ls_pending_dirty l \<and> bt_get (st_order_book st) c \<noteq> None \<longrightarrow>
        current L (st_order_book st) (ls_last_active l) (ls_l2_cache l) c)"

definition l2_fresh :: "(u64 \<Rightarrow> nat) \<Rightarrow> listener \<Rightarrow> bool" where
  "l2_fresh L l \<longleftrightarrow> (\<forall>st. ls_state l = Some st \<longrightarrow> fresh_state L st l)"

definition conflation_ok :: "(u64 \<Rightarrow> nat) \<Rightarrow> listener \<Rightarrow> bool" where
  "conflation_ok L l \<longleftrightarrow> (\<forall>st. ls_state l = Some st \<longrightarrow> state_ok st) \<and> \<not> ls_tolerate_drift l
     \<and> finite (ls_pending_dirty l) \<and> (ls_needs_resync l \<or> l2_fresh L l)"

lemma fresh_state_cong:
  "ls_l2_cache l' = ls_l2_cache l \<Longrightarrow> ls_pending_dirty l' = ls_pending_dirty l \<Longrightarrow>
     ls_last_active l' = ls_last_active l \<Longrightarrow> fresh_state L st l' = fresh_state L st l"
  by (simp add: fresh_state_def)

text \<open>More coins in the buffer, and a book that changed only there.\<close>

lemma fresh_state_dirty:
  assumes "fresh_state L st l" and "same_outside cs (st_order_book st) (st_order_book st')"
    and "ls_l2_cache l' = ls_l2_cache l" "ls_last_active l' = ls_last_active l"
    and "ls_pending_dirty l \<union> cs \<subseteq> ls_pending_dirty l'"
  shows "fresh_state L st' l'"
  unfolding fresh_state_def
proof (intro allI impI)
  fix c
  assume c: "hm_get (ls_l2_cache l') c \<noteq> None \<and> c \<notin> ls_pending_dirty l' \<and> bt_get (st_order_book st') c \<noteq> None"
  then have out: "c \<notin> cs" "c \<notin> ls_pending_dirty l" using assms(5) by auto
  then have eq: "bt_get (st_order_book st') c = bt_get (st_order_book st) c"
    using assms(2) by (simp add: same_outside_def)
  have "current L (st_order_book st) (ls_last_active l) (ls_l2_cache l) c"
    using assms(1) c out by (auto simp: fresh_state_def assms(3) eq)
  then show "current L (st_order_book st') (ls_last_active l') (ls_l2_cache l') c"
    by (simp add: current_def assms(3,4) eq)
qed

lemma compact_all_get:
  assumes "distinct (map fst m)" "bt_get (snd (compact_all f m)) c \<noteq> None"
  shows "bt_get (snd (compact_all f m)) c = bt_get m c"
proof -
  have eq: "snd (compact_all f m) = filter (\<lambda>(c, b). 0 < order_count b) m"
    by (simp add: compact_all_def book_compact_def case_prod_beta)
  obtain b where b: "bt_get (filter (\<lambda>(c, b). 0 < order_count b) m) c = Some b"
    using assms(2) unfolding eq by blast
  then have "(c, b) \<in> set m" using map_of_SomeD [OF b] by simp
  then have "bt_get m c = Some b" using assms(1) by simp
  then show ?thesis unfolding eq b by simp
qed

lemma fresh_state_cleanup:
  assumes "state_ok st" "fresh_state L st l"
  shows "fresh_state L (snd (cleanup_stale_pending f now st)) l"
  unfolding fresh_state_def
proof (intro allI impI)
  let ?m = "st_order_book (snd (cleanup_stale_pending f now st))"
  have m: "?m = snd (compact_all f (st_order_book st))"
    by (simp add: cleanup_stale_pending_def Let_def)
  fix c
  assume c: "hm_get (ls_l2_cache l) c \<noteq> None \<and> c \<notin> ls_pending_dirty l \<and> bt_get ?m c \<noteq> None"
  then have "bt_get ?m c = bt_get (st_order_book st) c"
    unfolding m using compact_all_get [OF bt_ok_distinct [OF books_bt_ok [OF assms(1)]]] by blast
  then show "current L ?m (ls_last_active l) (ls_l2_cache l) c"
    using assms(2) c by (simp add: fresh_state_def current_def)
qed

lemma take_fallbacks_book [simp]: "st_order_book (snd (take_insert_before_fallbacks st)) = st_order_book st"
  by (simp add: take_insert_before_fallbacks_def)

lemma take_fallbacks_ok: "state_ok st \<Longrightarrow> state_ok (snd (take_insert_before_fallbacks st))"
  by (simp add: take_insert_before_fallbacks_def state_ok_def)

text \<open>The apply leaves a consistent state, and a successful one changed only the coins it reports.\<close>

lemma apply_to_book_outside:
  assumes ok: "state_ok st" and a: "apply_to_book now b st l = Some (msgs, r, l')"
  obtains st' where "ls_state l' = Some st'" and "state_ok st'"
    and "\<forall>cs. r = Inr cs \<longrightarrow> finite cs \<and> same_outside cs (st_order_book st) (st_order_book st')"
    and "ls_l2_cache l' = ls_l2_cache l" "ls_last_active l' = ls_last_active l" "ls_pending_dirty l' = ls_pending_dirty l"
    and "ls_tolerate_drift l' = ls_tolerate_drift l" "ls_needs_resync l' = ls_needs_resync l"
proof -
  obtain s tp n where f: "l' = l\<lparr>ls_state := Some s, ls_pairer := tp, ls_unpaired := n\<rparr>"
    using apply_to_book_fields [OF a] by blast
  have "state_ok s \<and> (\<forall>cs. r = Inr cs \<longrightarrow> finite cs \<and> same_outside cs (st_order_book st) (st_order_book s))"
  proof (cases b)
    case (BOrders x)
    obtain r1 st1 where o1: "apply_order_statuses_hft now x st = (r1, st1)" by (metis prod.collapse)
    then have "r = r1" "l' = l\<lparr>ls_state := Some (snd (take_insert_before_fallbacks st1))\<rparr>"
      using a BOrders by (auto simp: apply_to_book_def Let_def)
    then have "r = r1" "s = snd (take_insert_before_fallbacks st1)" using f by (auto dest: arg_cong [of _ _ ls_state])
    then show ?thesis
      using apply_order_statuses_ok [OF ok, of now x] apply_order_statuses_outside [OF ok, of now x] o1 take_fallbacks_ok
      by auto
  next
    case (BBookDiffs x)
    then obtain r1 st1 where o1: "apply_order_diffs_hft now x st = Some (r1, st1)"
      and "r = r1" "l' = l\<lparr>ls_state := Some (snd (take_insert_before_fallbacks st1))\<rparr>"
      using a by (auto simp: apply_to_book_def Let_def)
    then have "r = r1" "s = snd (take_insert_before_fallbacks st1)" using f by (auto dest: arg_cong [of _ _ ls_state])
    then show ?thesis
      using apply_order_diffs_ok [OF ok o1] apply_order_diffs_outside [OF ok, of now x] o1 take_fallbacks_ok by auto
  next
    case (BFills x)
    then have "r = Inr {} \<and> ls_state l' = Some (snd (take_insert_before_fallbacks st))"
      using a by (auto simp: apply_to_book_def Let_def split: if_splits prod.splits)
    then show ?thesis using f take_fallbacks_ok [OF ok] by auto
  qed
  then show ?thesis using that [of s] by (simp add: f)
qed

lemma maintain_fresh:
  assumes "conflation_ok L l"
  shows "conflation_ok L (snd (maintain frag now l))"
    and "ls_needs_resync (snd (maintain frag now l)) = ls_needs_resync l"
proof -
  have same: "conflation_ok L (l\<lparr>ls_event_count := n\<rparr>)" for n
    using assms by (auto simp: conflation_ok_def l2_fresh_def fresh_state_def)
  have clean: "conflation_ok L (l\<lparr>ls_event_count := n, ls_state := Some (snd (cleanup_stale_pending frag now st))\<rparr>)"
    if st: "ls_state l = Some st" for n st
  proof -
    have ok: "state_ok st" using assms st by (simp add: conflation_ok_def)
    have "fresh_state L (snd (cleanup_stale_pending frag now st)) l" if "fresh_state L st l"
      by (rule fresh_state_cleanup [OF ok that])
    then show ?thesis
      using assms st cleanup_ok(1) [OF ok, of frag now]
      by (auto simp: conflation_ok_def l2_fresh_def fresh_state_def)
  qed
  show "conflation_ok L (snd (maintain frag now l))"
    using same clean by (simp add: maintain_def Let_def split_beta split: option.split)
  show "ls_needs_resync (snd (maintain frag now l)) = ls_needs_resync l"
    using maintain_fields [of frag now l] by auto
qed

lemma maintain_dirty:
  "snd (maintain frag now (l\<lparr>ls_pending_dirty := d\<rparr>)) = (snd (maintain frag now l))\<lparr>ls_pending_dirty := d\<rparr>"
  by (simp add: maintain_def Let_def split_beta split: option.split)

lemma after_apply_fresh:
  assumes st: "\<And>s. ls_state l = Some s \<Longrightarrow> state_ok s" and "\<not> ls_tolerate_drift l" and "finite (ls_pending_dirty l)"
    and fin: "\<And>cs. r = Inr cs \<Longrightarrow> finite cs"
    and fresh: "\<And>cs. r = Inr cs \<Longrightarrow> ls_needs_resync l \<or> l2_fresh L (l\<lparr>ls_pending_dirty := ls_pending_dirty l \<union> cs\<rparr>)"
  shows "conflation_ok L (snd (after_apply frag now msgs r l))"
proof -
  define cs where "cs = (case r of Inl e \<Rightarrow> {} | Inr cs \<Rightarrow> cs)"
  obtain c l1 where m: "maintain frag now l = (c, l1)" by (metis prod.collapse)
  obtain s n where l1: "l1 = l\<lparr>ls_state := s, ls_event_count := n\<rparr>"
    using maintain_fields [of frag now l] m by auto
  define l2 where "l2 = (if isl r \<or> c then mark_desynced l1 else l1)"
  have res: "snd (after_apply frag now msgs r l) = l2\<lparr>ls_pending_dirty := ls_pending_dirty l2 \<union> cs\<rparr>"
    by (cases r) (simp_all add: after_apply_def m Let_def l2_def cs_def)
  have fcs: "finite cs" using fin by (auto simp: cs_def split: sum.split)
  have f2: "ls_state l2 = s" "ls_pending_dirty l2 = ls_pending_dirty l" "ls_tolerate_drift l2 = ls_tolerate_drift l"
    "ls_l2_cache l2 = ls_l2_cache l" "ls_last_active l2 = ls_last_active l"
    by (simp_all add: l2_def l1)
  let ?lc = "l\<lparr>ls_pending_dirty := ls_pending_dirty l \<union> cs\<rparr>"
  have s_ok: "state_ok s'" if "s = Some s'" for s'
  proof -
    have "s' = snd (cleanup_stale_pending frag now st0) \<or> s' = st0" if "ls_state l = Some st0" for st0
      using m that \<open>s = Some s'\<close> l1 by (auto simp: maintain_def Let_def split_beta split: if_splits dest: arg_cong [of _ _ ls_state])
    moreover have "ls_state l \<noteq> None"
      using m \<open>s = Some s'\<close> l1 by (auto simp: maintain_def Let_def split_beta split: if_splits option.splits dest: arg_cong [of _ _ ls_state])
    ultimately show ?thesis
      using st cleanup_ok(1) by blast
  qed
  have "ls_needs_resync l2 \<or> l2_fresh L (l2\<lparr>ls_pending_dirty := ls_pending_dirty l2 \<union> cs\<rparr>)"
  proof (cases "isl r \<or> c")
    case True
    then show ?thesis using assms(2) by (simp add: l2_def l1)
  next
    case False
    then obtain cs' where r: "r = Inr cs'" by (cases r) auto
    then have eq: "cs = cs'" by (simp add: cs_def)
    show ?thesis
    proof (cases "ls_needs_resync l")
      case True
      then show ?thesis using False by (simp add: l2_def l1)
    next
      case resync: False
      then have "conflation_ok L ?lc"
        using fresh [OF r] st assms(2,3) fcs by (auto simp: conflation_ok_def eq)
      then have "conflation_ok L (snd (maintain frag now ?lc))" by (rule maintain_fresh(1))
      moreover have "snd (maintain frag now ?lc) = l1\<lparr>ls_pending_dirty := ls_pending_dirty l \<union> cs\<rparr>"
        using m by (simp add: maintain_dirty)
      moreover have "\<not> ls_needs_resync l1" using resync by (simp add: l1)
      ultimately show ?thesis
        using False by (simp add: conflation_ok_def l2_def l1)
    qed
  qed
  then show ?thesis
    unfolding res using s_ok assms(2,3) fcs f2 by (simp add: conflation_ok_def)
qed


lemma conflation_ok_cong:
  assumes "conflation_ok L l" and "ls_state l' = ls_state l" "ls_tolerate_drift l' = ls_tolerate_drift l"
    "ls_pending_dirty l' = ls_pending_dirty l" "ls_l2_cache l' = ls_l2_cache l" "ls_last_active l' = ls_last_active l"
    "ls_needs_resync l \<longrightarrow> ls_needs_resync l'"
  shows "conflation_ok L l'"
  using assms by (auto simp: conflation_ok_def l2_fresh_def fresh_state_def)

lemma conflation_ok_mark: "conflation_ok L l \<Longrightarrow> conflation_ok L (mark_desynced l)"
  by (rule conflation_ok_cong) (simp_all add: conflation_ok_def)

lemma conflation_ok_push:
  assumes "conflation_ok L l"
  shows "conflation_ok L (push_to_replay_cache b l)"
proof -
  have "conflation_ok L (l\<lparr>ls_cache := c, ls_cached_count := n\<rparr>)" for c n
    by (rule conflation_ok_cong [OF assms]) simp_all
  moreover have "conflation_ok L (l\<lparr>ls_cached_count := n, ls_cache := c\<rparr>)" for c n
    by (rule conflation_ok_cong [OF assms]) simp_all
  ultimately show ?thesis by (simp add: push_to_replay_cache_def conflation_ok_mark)
qed

lemma conflation_ok_apply:
  assumes ok: "conflation_ok L l" and a: "apply_event_batch frag now h b src l = Some (msgs, l')"
  shows "conflation_ok L l'"
proof -
  have 1: "conflation_ok L (observe_height h src l)"
    by (rule conflation_ok_cong [OF ok]) (cases src; simp add: observe_height_def Let_def split_beta)+
  obtain ob l2 where c: "cache_for_replay b (observe_height h src l) = (ob, l2)" by (metis prod.collapse)
  have 2: "conflation_ok L l2"
    using c 1 conflation_ok_push [OF 1] by (auto simp: cache_for_replay_def Let_def split: if_splits)
  show ?thesis
  proof (cases "max_events_per_batch < batch_len b")
    case True
    then show ?thesis using a conflation_ok_mark [OF 1] by (auto simp: apply_event_batch_def Let_def)
  next
    case False
    show ?thesis
    proof (cases ob)
      case None
      then show ?thesis using a False c 2 by (simp add: apply_event_batch_def Let_def)
    next
      case (Some b')
      show ?thesis
      proof (cases "ls_state l2")
        case None
        then have l': "l' = snd (after_apply frag now [] (Inr {}) l2)"
          using a False c Some by (simp add: apply_event_batch_def Let_def)
        show ?thesis
          unfolding l' by (rule after_apply_fresh) (use 2 None in \<open>auto simp: conflation_ok_def l2_fresh_def\<close>)
      next
        case st: (Some st)
        then obtain msgs1 r l3 where p: "apply_to_book now b' st l2 = Some (msgs1, r, l3)"
          and l': "l' = snd (after_apply frag now msgs1 r l3)"
          using a False c Some by (auto simp: apply_event_batch_def Let_def)
        have st_ok: "state_ok st" using 2 st by (simp add: conflation_ok_def)
        obtain st' where st': "ls_state l3 = Some st'" "state_ok st'"
          and out: "\<forall>cs. r = Inr cs \<longrightarrow> finite cs \<and> same_outside cs (st_order_book st) (st_order_book st')"
          and same: "ls_l2_cache l3 = ls_l2_cache l2" "ls_last_active l3 = ls_last_active l2"
            "ls_pending_dirty l3 = ls_pending_dirty l2" "ls_tolerate_drift l3 = ls_tolerate_drift l2"
            "ls_needs_resync l3 = ls_needs_resync l2"
          by (rule apply_to_book_outside [OF st_ok p])
        show ?thesis
          unfolding l'
        proof (rule after_apply_fresh)
          show "\<not> ls_tolerate_drift l3" "finite (ls_pending_dirty l3)"
            using 2 same by (simp_all add: conflation_ok_def)
          show "ls_needs_resync l3 \<or> l2_fresh L (l3\<lparr>ls_pending_dirty := ls_pending_dirty l3 \<union> cs\<rparr>)" if r: "r = Inr cs" for cs
          proof (cases "ls_needs_resync l2")
            case False
            then have "fresh_state L st l2" using 2 st by (simp add: conflation_ok_def l2_fresh_def)
            moreover have "same_outside cs (st_order_book st) (st_order_book st')" using out r by blast
            ultimately have "fresh_state L st' (l3\<lparr>ls_pending_dirty := ls_pending_dirty l3 \<union> cs\<rparr>)"
              by (rule fresh_state_dirty) (simp_all add: same)
            then show ?thesis by (simp add: l2_fresh_def st'(1))
          qed (simp add: same)
          show "finite cs" if "r = Inr cs" for cs using out that by blast
          show "state_ok s" if "ls_state l3 = Some s" for s using st' that by simp
        qed
      qed
    qed
  qed
qed

section \<open>The flush\<close>

lemma flush_parts_of:
  assumes f: "flush_l2_if_due L now rcv l = Some (msgs, l')"
  obtains (quiet) "msgs = []" "ls_pending_dirty l' = ls_pending_dirty l" "ls_needs_resync l' = ls_needs_resync l"
      "ls_state l' = ls_state l" "ls_tolerate_drift l' = ls_tolerate_drift l"
      "ls_l2_cache l' = ls_l2_cache l \<and> ls_last_active l' = ls_last_active l \<or> ls_l2_cache l' = []"
  | (sent) st a cache0 rec csc m where "ls_state l = Some st" "ls_state l' = Some st" "ls_pending_dirty l' = {}"
      "ls_needs_resync l' = ls_needs_resync l" "ls_tolerate_drift l' = ls_tolerate_drift l" "ls_last_active l' = a"
      "cache0 = [] \<or> cache0 = ls_l2_cache l \<and> a = ls_last_active l"
      "compute_l2_snapshots_incremental L (st_order_book st) (sorted_list_of_set (ls_pending_dirty l)) a cache0 =
         Some (ls_l2_cache l', rec, csc)"
      "msgs = [MSnapshot m]" "sm_l2_snapshots m = ls_l2_cache l'" "sm_dirty m = rec" "flush_due now l"
proof (cases "flush_due now l")
  case False
  then have "msgs = []" "l' = l" using f by (simp_all add: flush_l2_if_due_def)
  then show ?thesis using quiet by simp
next
  case True
  let ?l1 = "l\<lparr>ls_last_l2 := Some now\<rparr>"
  define a where "a = params_snapshot (ls_active_params ?l1)"
  define l2 where "l2 = (if set a \<noteq> set (ls_last_active ?l1) then ?l1\<lparr>ls_l2_cache := [], ls_last_active := a\<rparr> else ?l1)"
  have l2: "ls_state l2 = ls_state l" "ls_pending_dirty l2 = ls_pending_dirty l" "ls_needs_resync l2 = ls_needs_resync l"
    "ls_tolerate_drift l2 = ls_tolerate_drift l"
    "ls_l2_cache l2 = [] \<or> ls_l2_cache l2 = ls_l2_cache l \<and> ls_last_active l2 = ls_last_active l"
    by (simp_all add: l2_def)
  show ?thesis
  proof (cases "\<not> (ls_has_tx l \<and> 0 < rcv) \<or> a = []")
    case True
    then have "msgs = []" "l' = ?l1"
      using f \<open>flush_due now l\<close> by (auto simp: flush_l2_if_due_def Let_def a_def)
    then show ?thesis using quiet by simp
  next
    case run: False
    show ?thesis
    proof (cases "ls_state l")
      case None
      then have "msgs = [] \<and> l' = l2"
        using f True run unfolding flush_l2_if_due_def Let_def a_def [symmetric] l2_def [symmetric]
        by (simp add: l2(1))
      then show ?thesis using quiet l2 by auto
    next
      case (Some st)
      obtain r where i: "l2_snapshots_incremental L (sorted_list_of_set (ls_pending_dirty l2)) (ls_last_active l2)
          (ls_l2_cache l2) st = Some r"
        using f True run Some unfolding flush_l2_if_due_def Let_def a_def [symmetric] l2_def [symmetric]
        by (auto simp: l2(1) split: option.splits)
      obtain t h c rec csc where r: "r = (t, h, c, rec, csc)" by (metis prod.collapse)
      have comp: "compute_l2_snapshots_incremental L (st_order_book st) (sorted_list_of_set (ls_pending_dirty l))
          (ls_last_active l2) (ls_l2_cache l2) = Some (c, rec, csc)"
        using i by (auto simp: l2_snapshots_incremental_def r l2(2))
      obtain m where m: "msgs = [MSnapshot m]" "sm_l2_snapshots m = c" "sm_dirty m = rec"
        and l': "l' = l2\<lparr>ls_pending_dirty := {}, ls_l2_cache := c\<rparr>"
        using f True run Some i unfolding flush_l2_if_due_def Let_def a_def [symmetric] l2_def [symmetric]
        by (auto simp: l2(1) r)
      show ?thesis
        by (rule sent [of st "ls_last_active l2" "ls_l2_cache l2" rec csc m])
          (use l2 Some comp m True in \<open>simp_all add: l'\<close>)
    qed
  qed
qed

lemma flush_fresh:
  assumes ok: "conflation_ok L l" and f: "flush_l2_if_due L now rcv l = Some (msgs, l')"
  shows "conflation_ok L l'"
  using f
proof (cases rule: flush_parts_of)
  case quiet
  have "l2_fresh L l'" if "l2_fresh L l"
    using quiet(6) that quiet by (auto simp: l2_fresh_def fresh_state_def)
  then show ?thesis using ok quiet by (auto simp: conflation_ok_def)
next
  case (sent st a cache0 rec csc m)
  have fin: "finite (ls_pending_dirty l)" and st_ok: "state_ok st" using ok sent by (simp_all add: conflation_ok_def)
  have "l2_fresh L l'" if "l2_fresh L l"
  proof -
    have old: "\<forall>c. hm_get cache0 c \<noteq> None \<and> c \<notin> set (sorted_list_of_set (ls_pending_dirty l))
        \<and> bt_get (st_order_book st) c \<noteq> None \<longrightarrow> current L (st_order_book st) a cache0 c"
      using that sent(1,7) fin by (auto simp: l2_fresh_def fresh_state_def)
    have "\<forall>c. hm_get (ls_l2_cache l') c \<noteq> None \<longrightarrow> current L (st_order_book st) a (ls_l2_cache l') c"
      by (rule flush_current(1) [OF sent(8) old books_bt_ok [OF st_ok]])
    then show ?thesis using sent by (simp add: l2_fresh_def fresh_state_def)
  qed
  then show ?thesis using ok sent st_ok by (auto simp: conflation_ok_def)
qed

text \<open>The whole system: the installs bring in consistent books.\<close>

fun sound_op :: "(u64 \<Rightarrow> nat) \<Rightarrow> listener_op \<Rightarrow> bool" where
  "sound_op L (OpFlush L' now rcv) \<longleftrightarrow> L' = L"
| "sound_op L (OpFinish now st h n failed) \<longleftrightarrow> state_ok st"
| "sound_op L _ \<longleftrightarrow> True"

lemma replay_batch_ok:
  assumes "state_ok st" "replay_batch_above now h b (st, n) = Some (f, st', n')"
  shows "state_ok st'"
  using assms apply_order_statuses_ok [OF assms(1)] apply_order_diffs_ok [OF assms(1)]
  by (cases b) (auto simp: replay_batch_above_def Let_def split_beta split: if_splits)

lemma replay_all_ok:
  "state_ok st \<Longrightarrow> replay_all now h bs (f, st, n) = Some (f', st', n') \<Longrightarrow> state_ok st'"
proof (induction bs arbitrary: f st n)
  case (Cons b bs)
  obtain f1 st1 n1 where b: "replay_batch_above now h b (st, n) = Some (f1, st1, n1)"
    and r: "replay_all now h bs (f \<or> f1, st1, n1) = Some (f', st', n')"
    using Cons.prems(2) by (auto split: option.splits)
  show ?case by (rule Cons.IH [OF replay_batch_ok [OF Cons.prems(1) b] r])
qed simp

lemma conflation_step:
  assumes ok: "conflation_ok L l" and x: "sound_op L x"
  shows "conflation_ok L (listener_step x l)"
proof (cases x)
  case (OpApply frag now h b src)
  then show ?thesis using ok conflation_ok_apply [OF ok] by (auto split: option.split)
next
  case (OpFlush L' now rcv)
  then show ?thesis using ok x flush_fresh [OF ok] by (auto split: option.split)
next
  case OpMark
  then show ?thesis using conflation_ok_mark [OF ok] by simp
next
  case (OpBeginFetch covers)
  then show ?thesis by (simp, intro conflation_ok_cong [OF ok]) (simp_all add: begin_caching_def)
next
  case OpDrain
  then show ?thesis by (simp, intro conflation_ok_cong [OF ok]) (simp_all add: drain_replay_cache_def)
next
  case OpAbandon
  then show ?thesis by (simp, intro conflation_ok_cong [OF ok]) (simp_all add: abandon_replay_cache_def)
next
  case (OpFinish now st h n failed)
  show ?thesis
  proof (cases "finish_install now st h n failed l")
    case (Some l')
    obtain f st' m l2 where
      r: "replay_all now h (case ls_cache l of None \<Rightarrow> [] | Some c \<Rightarrow> c) (failed, st, n) = Some (f, st', m)"
      and l2: "l2 = l\<lparr>ls_cache := None, ls_cached_count := 0, ls_install_covers := 0, ls_state := Some (snd (take_insert_before_fallbacks st')),
              ls_needs_resync := False, ls_max_loss_height := 0, ls_data_loss := False\<rparr>"
      and l': "l' = (settle_losses (ls_max_loss_height l) (max (ls_install_covers l) h) h f l2)
               \<lparr>ls_l2_cache := [], ls_pending_dirty := {}, ls_last_active := []\<rparr>"
      by (rule finish_install_cases [OF Some])
    have "state_ok st'" using replay_all_ok [OF _ r] x OpFinish by simp
    then have "conflation_ok L l'"
      using ok take_fallbacks_ok by (auto simp: conflation_ok_def l' l2 l2_fresh_def fresh_state_def)
    then show ?thesis by (simp add: OpFinish Some)
  qed (simp add: OpFinish ok)
qed

lemma conflation_run:
  "conflation_ok L l \<Longrightarrow> list_all (sound_op L) ops \<Longrightarrow> conflation_ok L (fold listener_step ops l)"
  by (induction ops arbitrary: l) (auto simp: conflation_step)

lemma conflation_ok_new: "conflation_ok L (listener_new tx spot params mf)"
  by (simp add: conflation_ok_def l2_fresh_def listener_new_def)


text \<open>After an apply error the coins changed so far are not entered in the buffer.\<close>

lemma apply_error_enters_nothing:
  "ls_pending_dirty (snd (after_apply frag now msgs (Inl e) l)) = ls_pending_dirty l
   \<and> fst (after_apply frag now msgs (Inl e) l) = msgs"
proof -
  obtain c l1 where m: "maintain frag now l = (c, l1)" by (metis prod.collapse)
  obtain s n where "l1 = l\<lparr>ls_state := s, ls_event_count := n\<rparr>"
    using maintain_fields [of frag now l] m by auto
  then show ?thesis by (simp add: after_apply_def m Let_def bbo_messages_def)
qed

section \<open>Properties\<close>

text \<open>
  C6. Whatever batches, losses and installs the listener has been through, as long as the book is not
  marked, a flush either sends nothing and keeps every coin in the buffer, or sends one snapshot in which
  every cached coin is that of the current book, every coin of the buffer is announced, and every one that
  still has a book is present.
\<close>

theorem flush_serves_current:
  assumes ops: "list_all (sound_op L) ops"
    and clean: "\<not> ls_needs_resync (fold listener_step ops (listener_new tx spot params mf))"
    and f: "flush_l2_if_due L now receivers (fold listener_step ops (listener_new tx spot params mf)) = Some (msgs, l')"
  shows "(msgs = [] \<and> ls_pending_dirty l' = ls_pending_dirty (fold listener_step ops (listener_new tx spot params mf)))
    \<or> (\<exists>m st. msgs = [MSnapshot m] \<and> ls_state l' = Some st \<and> ls_pending_dirty l' = {}
         \<and> (\<forall>c. hm_get (sm_l2_snapshots m) c \<noteq> None \<longrightarrow>
              current L (st_order_book st) (ls_last_active l') (sm_l2_snapshots m) c)
         \<and> ls_pending_dirty (fold listener_step ops (listener_new tx spot params mf)) \<subseteq> sm_dirty m
         \<and> (\<forall>c \<in> ls_pending_dirty (fold listener_step ops (listener_new tx spot params mf)).
              bt_get (st_order_book st) c \<noteq> None \<longrightarrow> hm_get (sm_l2_snapshots m) c \<noteq> None))"
proof -
  define l where "l = fold listener_step ops (listener_new tx spot params mf)"
  have ok: "conflation_ok L l"
    unfolding l_def by (rule conflation_run [OF conflation_ok_new ops])
  have fr: "l2_fresh L l" using ok clean by (simp add: conflation_ok_def l_def)
  show ?thesis
    using f [folded l_def]
  proof (cases rule: flush_parts_of)
    case quiet
    then show ?thesis by (simp add: l_def)
  next
    case (sent st a cache0 rec csc m)
    have fin: "finite (ls_pending_dirty l)" and st_ok: "state_ok st" using ok sent by (simp_all add: conflation_ok_def)
    have old: "\<forall>c. hm_get cache0 c \<noteq> None \<and> c \<notin> set (sorted_list_of_set (ls_pending_dirty l))
        \<and> bt_get (st_order_book st) c \<noteq> None \<longrightarrow> current L (st_order_book st) a cache0 c"
      using fr sent(1,7) fin by (auto simp: l2_fresh_def fresh_state_def)
    note fc = flush_current [OF sent(8) old books_bt_ok [OF st_ok]]
    have "\<forall>c. hm_get (sm_l2_snapshots m) c \<noteq> None \<longrightarrow> current L (st_order_book st) (ls_last_active l') (sm_l2_snapshots m) c"
      unfolding sent(6,10) by (rule fc(1))
    moreover have "ls_pending_dirty l \<subseteq> sm_dirty m"
      using fc(3) fin unfolding sent(11) by simp
    moreover have "\<forall>c \<in> ls_pending_dirty l. bt_get (st_order_book st) c \<noteq> None \<longrightarrow> hm_get (sm_l2_snapshots m) c \<noteq> None"
      using fc(2) fin unfolding sent(10) by simp
    ultimately show ?thesis unfolding l_def [symmetric] using sent(2,3,9) by blast
  qed
qed

definition sample_remove :: event_batch where
  "sample_remove = BBookDiffs \<lparr>b_local_time = 0, b_block_time = 0, b_block_number = 9,
     b_events = [\<lparr>nd_user = [1], nd_oid = 4, nd_px = ''1'', nd_coin = ''BTC'', nd_raw_book_diff = DRemove\<rparr>]\<rparr>"

definition sample_ops :: "listener_op list" where
  "sample_ops = [OpFinish 0 state_empty 5 0 False, OpApply (\<lambda>p. False) 0 9 sample_remove OrderDiffs]"

abbreviation sample_start :: listener where
  "sample_start \<equiv> listener_new True False [(base_params, 1)] (True, True, True)"

definition sample_mid :: listener where
  "sample_mid = sample_start\<lparr>ls_cache := None, ls_state := Some state_empty\<rparr>"

lemma sample_finish: "listener_step (OpFinish 0 state_empty 5 0 False) sample_start = sample_mid"
  by (simp add: sample_mid_def finish_install_def listener_new_def Let_def settle_losses_def
      take_insert_before_fallbacks_def state_empty_def state_from_snapshot_def)

lemma sample_apply:
  "apply_order_diffs_hft 0 \<lparr>b_local_time = 0, b_block_time = 0, b_block_number = 9,
     b_events = [\<lparr>nd_user = [1], nd_oid = 4, nd_px = ''1'', nd_coin = ''BTC'', nd_raw_book_diff = DRemove\<rparr>]\<rparr> state_empty
   = Some (Inr {Coin ''BTC''}, state_empty\<lparr>st_height := 9\<rparr>)"
  by (simp add: apply_order_diffs_hft_def state_empty_def state_from_snapshot_def Let_def advance_to_def block_time_def
      apply_one_diff_def diff_oid_def diff_coin_def inner_diff_try_from_def books_cancel_order_def from_snapshots_def
      apply_diff_to_pending_new_def coin_is_spot_def str_is_spot_def)

lemma sample_cleanup: "cleanup_stale_pending f now (state_empty\<lparr>st_height := 9\<rparr>) = (False, state_empty\<lparr>st_height := 9\<rparr>)"
  by (simp add: cleanup_stale_pending_def state_empty_def state_from_snapshot_def from_snapshots_def compact_all_def Let_def)

lemma sample_fallbacks: "snd (take_insert_before_fallbacks (state_empty\<lparr>st_height := 9\<rparr>)) = state_empty\<lparr>st_height := 9\<rparr>"
  by (simp add: take_insert_before_fallbacks_def state_empty_def state_from_snapshot_def)

lemma sample_step:
  "listener_step (OpApply (\<lambda>p. False) 0 9 sample_remove OrderDiffs) sample_mid =
     sample_mid\<lparr>ls_last_seen_height := 9, ls_stream_height := (0, 9), ls_event_count := 1,
       ls_state := Some (state_empty\<lparr>st_height := 9\<rparr>), ls_pending_dirty := {Coin ''BTC''}\<rparr>"
  by (simp add: apply_event_batch_def observe_height_def sample_mid_def listener_new_def Let_def cache_for_replay_def
      is_ready_def sample_remove_def apply_to_book_def sample_apply after_apply_def maintain_def sample_cleanup
      bbo_messages_def wants_def active_subs_default_def sample_fallbacks)


definition sample_dirty :: listener where
  "sample_dirty = sample_mid\<lparr>ls_last_seen_height := 9, ls_stream_height := (0, 9), ls_event_count := 1,
     ls_state := Some (state_empty\<lparr>st_height := 9\<rparr>), ls_pending_dirty := {Coin ''BTC''}\<rparr>"

lemma sample_run: "fold listener_step sample_ops sample_start = sample_dirty"
  by (simp only: sample_ops_def fold_simps sample_finish sample_step sample_dirty_def)

lemma sample_flush: "\<exists>m l'. flush_l2_if_due sample_log10 100 1 sample_dirty = Some ([m], l')"
  by (simp add: flush_l2_if_due_def flush_due_def sample_dirty_def sample_mid_def listener_new_def Let_def params_snapshot_def
      l2_snapshots_incremental_def compute_l2_snapshots_incremental_def state_empty_def state_from_snapshot_def from_snapshots_def
      split_beta)

theorem flush_serves_current_witness:
  "\<exists>m st l'. flush_l2_if_due sample_log10 100 1 (fold listener_step sample_ops sample_start) = Some ([MSnapshot m], l')
     \<and> ls_state l' = Some st \<and> Coin ''BTC'' \<in> sm_dirty m \<and> ls_pending_dirty l' = {}"
proof -
  have ops: "list_all (sound_op sample_log10) sample_ops"
    by (simp add: sample_ops_def bs.inv_init)
  have clean: "\<not> ls_needs_resync (fold listener_step sample_ops sample_start)"
    unfolding sample_run by (simp add: sample_dirty_def sample_mid_def listener_new_def)
  obtain m0 l' where f: "flush_l2_if_due sample_log10 100 1 (fold listener_step sample_ops sample_start) = Some ([m0], l')"
    unfolding sample_run using sample_flush by blast
  have "Coin ''BTC'' \<in> ls_pending_dirty (fold listener_step sample_ops sample_start)"
    unfolding sample_run by (simp add: sample_dirty_def)
  then show ?thesis
    using flush_serves_current [OF ops clean f] f by auto
qed

end
