(* ===== verification/Live_Merge.thy ===== *)
theory Live_Merge
  imports Listener
begin

text \<open>
  The merge of the two live book streams by block height (\<open>LiveMerge\<close> of \<open>listeners/order_book/mod.rs\<close>).
  The reader threads send lines into two channels; \<open>take\<close> hands out the next batches in block order, a
  status before a diff of the same block, and holds a stream whose partner has nothing to offer once it is 32
  blocks ahead, until the partner delivers or is declared dead.

  \<^item> The two-element arrays are functions of the \<open>slot\<close>. A channel is the lines it holds and whether its
    senders are gone; its bound only blocks the senders and is not modelled.
  \<^item> \<open>take\<close> runs up to its only await point: it returns batches, reports a closed channel, or waits. What
    wakes a wait (a line, or the expiry of the ten seconds) is an argument of \<open>wait\<close>.
  \<^item> The parser is the parameter \<open>J\<close> of \<open>parse_event_line\<close>.

  Shown: the loop terminates; every line above the floor that parses is handed out exactly once and in the
  order of its stream, whatever the interleaving; streams in block order are handed out at most 32 blocks out
  of order; a stream held back is released by the expiry at the latest.
\<close>

section \<open>State\<close>

abbreviation merge_lookahead_blocks :: u64 where "merge_lookahead_blocks \<equiv> 32"
abbreviation merge_dead_wait :: nat where "merge_dead_wait \<equiv> 10000"
abbreviation merge_take :: nat where "merge_take \<equiv> 64"

datatype slot = SlotS | SlotD

fun other_slot :: "slot \<Rightarrow> slot" where
  "other_slot SlotS = SlotD"
| "other_slot SlotD = SlotS"

fun slot_source :: "slot \<Rightarrow> event_source" where
  "slot_source SlotS = OrderStatuses"
| "slot_source SlotD = OrderDiffs"

record channel =
  ch_lines :: "string list"
  ch_closed :: bool

type_synonym head = "u64 \<times> event_batch"

record live_merge =
  lm_rx :: "slot \<Rightarrow> channel"
  lm_floor :: u64
  lm_peek :: "slot \<Rightarrow> head option"
  lm_seen :: "slot \<Rightarrow> u64"
  lm_dead :: "slot \<Rightarrow> bool"
  lm_waiting_since :: "instant option"
  lm_ready :: "(u64 \<times> event_batch \<times> event_source) list"

definition merge_new :: "(slot \<Rightarrow> channel) \<Rightarrow> live_merge" where
  "merge_new streams =
     \<lparr>lm_rx = streams, lm_floor = 0, lm_peek = (\<lambda>i. None), lm_seen = (\<lambda>i. 0), lm_dead = (\<lambda>i. False),
      lm_waiting_since = None, lm_ready = []\<rparr>"

definition set_lines :: "slot \<Rightarrow> string list \<Rightarrow> live_merge \<Rightarrow> live_merge" where
  "set_lines i ls m = m\<lparr>lm_rx := (lm_rx m)(i := (lm_rx m i)\<lparr>ch_lines := ls\<rparr>)\<rparr>"

definition backlog :: "live_merge \<Rightarrow> nat" where
  "backlog m = length (ch_lines (lm_rx m SlotS)) + length (ch_lines (lm_rx m SlotD))"

section \<open>Reading ahead\<close>

definition accept :: "line_parsers \<Rightarrow> slot \<Rightarrow> string \<Rightarrow> live_merge \<Rightarrow> live_merge" where
  "accept J i line m =
     (let m1 = m\<lparr>lm_dead := (lm_dead m)(i := False), lm_waiting_since := None\<rparr>
      in case parse_event_line J line (slot_source i) of
           None \<Rightarrow> m1
         | Some p \<Rightarrow> (if fst p \<le> lm_floor m1 then m1 else m1\<lparr>lm_peek := (lm_peek m1)(i := Some p)\<rparr>))"

text \<open>The loop of \<open>refill\<close>; the lines of the channel that it leaves come first.\<close>

fun refill_lines :: "line_parsers \<Rightarrow> slot \<Rightarrow> string list \<Rightarrow> live_merge \<Rightarrow> string list \<times> live_merge" where
  "refill_lines J i [] m = ([], m)"
| "refill_lines J i (l # ls) m = (if lm_peek m i \<noteq> None then (l # ls, m) else refill_lines J i ls (accept J i l m))"

definition refill :: "line_parsers \<Rightarrow> slot \<Rightarrow> live_merge \<Rightarrow> bool \<times> live_merge" where
  "refill J i m =
     (let (rest, m1) = refill_lines J i (ch_lines (lm_rx m i)) m; m2 = set_lines i rest m1
      in (lm_peek m2 i \<noteq> None \<or> \<not> ch_closed (lm_rx m2 i), m2))"

definition pick :: "live_merge \<Rightarrow> slot option" where
  "pick m =
     (case (lm_peek m SlotS, lm_peek m SlotD) of
        (Some (h0, b0), Some (h1, b1)) \<Rightarrow> Some (if h0 \<le> h1 then SlotS else SlotD)
      | (None, None) \<Rightarrow> None
      | (Some (h, b), None) \<Rightarrow>
          (if lm_seen m SlotD = 0 \<or> h \<le> lm_seen m SlotD + merge_lookahead_blocks \<or> lm_dead m SlotD then Some SlotS else None)
      | (None, Some (h, b)) \<Rightarrow>
          (if lm_seen m SlotS = 0 \<or> h \<le> lm_seen m SlotS + merge_lookahead_blocks \<or> lm_dead m SlotS then Some SlotD else None))"

lemma pick_peeked: "pick m = Some i \<Longrightarrow> lm_peek m i \<noteq> None"
  by (auto simp: pick_def split: option.splits if_splits)

section \<open>Taking batches\<close>

datatype take_result =
    TakeReady "(u64 \<times> event_batch \<times> event_source) list" live_merge
  | TakeClosed live_merge
  | TakeWaits live_merge

definition hand_out :: "slot \<Rightarrow> head \<Rightarrow> live_merge \<Rightarrow> live_merge" where
  "hand_out i p m =
     m\<lparr>lm_peek := (lm_peek m)(i := None), lm_seen := (lm_seen m)(i := max (lm_seen m i) (fst p)),
       lm_ready := lm_ready m @ [(fst p, snd p, slot_source i)]\<rparr>"

text \<open>The lines and heads not yet handed out: what the loop uses up.\<close>

definition peeked :: "slot \<Rightarrow> live_merge \<Rightarrow> nat" where
  "peeked i m = (case lm_peek m i of None \<Rightarrow> 0 | Some p \<Rightarrow> 1)"

definition waiting_work :: "live_merge \<Rightarrow> nat" where
  "waiting_work m = backlog m + peeked SlotS m + peeked SlotD m"

lemma accept_fields [simp]:
  "lm_rx (accept J i l m) = lm_rx m" "lm_floor (accept J i l m) = lm_floor m"
  "lm_seen (accept J i l m) = lm_seen m" "lm_ready (accept J i l m) = lm_ready m"
  "j \<noteq> i \<Longrightarrow> lm_peek (accept J i l m) j = lm_peek m j"
  by (simp_all add: accept_def Let_def split: option.split)

lemma peeked_accept: "peeked i (accept J i l m) \<le> 1" "j \<noteq> i \<Longrightarrow> peeked j (accept J i l m) = peeked j m"
  by (simp_all add: peeked_def split: option.split)

lemma refill_lines_fields:
  "refill_lines J i ls m = (rest, m') \<Longrightarrow>
     lm_rx m' = lm_rx m \<and> lm_floor m' = lm_floor m \<and> lm_seen m' = lm_seen m \<and> lm_ready m' = lm_ready m
     \<and> (\<forall>j. j \<noteq> i \<longrightarrow> lm_peek m' j = lm_peek m j) \<and> length rest + peeked i m' \<le> length ls + peeked i m"
proof (induction ls arbitrary: m)
  case (Cons l ls)
  show ?case
  proof (cases "lm_peek m i")
    case None
    then have "refill_lines J i ls (accept J i l m) = (rest, m')" using Cons.prems by simp
    from Cons.IH [OF this] show ?thesis
      using peeked_accept(1) [of i J l m] by auto
  qed (use Cons.prems in auto)
qed auto

lemma refill_fields:
  assumes "refill J i m = (ok, m')"
  shows "lm_floor m' = lm_floor m" "lm_seen m' = lm_seen m" "lm_ready m' = lm_ready m"
    and "\<And>j. j \<noteq> i \<Longrightarrow> lm_peek m' j = lm_peek m j" "\<And>j. j \<noteq> i \<Longrightarrow> lm_rx m' j = lm_rx m j"
    and "waiting_work m' \<le> waiting_work m"
proof -
  obtain rest m1 where r: "refill_lines J i (ch_lines (lm_rx m i)) m = (rest, m1)" by (metis prod.collapse)
  then have m': "m' = set_lines i rest m1" using assms by (simp add: refill_def Let_def)
  note f = refill_lines_fields [OF r]
  show "lm_floor m' = lm_floor m" "lm_seen m' = lm_seen m" "lm_ready m' = lm_ready m"
    "\<And>j. j \<noteq> i \<Longrightarrow> lm_peek m' j = lm_peek m j" "\<And>j. j \<noteq> i \<Longrightarrow> lm_rx m' j = lm_rx m j"
    using f by (simp_all add: m' set_lines_def)
  have "peeked j m' = peeked j m1" for j by (simp add: m' set_lines_def peeked_def)
  moreover have "peeked j m1 = peeked j m" if "j \<noteq> i" for j using f that by (simp add: peeked_def)
  ultimately show "waiting_work m' \<le> waiting_work m"
    using f by (cases i) (auto simp: waiting_work_def backlog_def m' set_lines_def)
qed

lemma hand_out_work: "lm_peek m i = Some p \<Longrightarrow> waiting_work (hand_out i p m) < waiting_work m"
  by (cases i) (auto simp: waiting_work_def backlog_def hand_out_def peeked_def)

function (sequential) take_loop :: "line_parsers \<Rightarrow> live_merge \<Rightarrow> take_result" where
  "take_loop J m =
     (if merge_take \<le> length (lm_ready m) then TakeReady (lm_ready m) (m\<lparr>lm_ready := []\<rparr>)
      else (let (ok0, m0) = refill J SlotS m
            in if \<not> ok0 then TakeClosed m0
               else (let (ok1, m1) = refill J SlotD m0
                     in if \<not> ok1 then TakeClosed m1
                        else case pick m1 of
                          Some i \<Rightarrow>
                            (case lm_peek m1 i of
                               None \<Rightarrow> take_loop J m1
                             | Some p \<Rightarrow> take_loop J (hand_out i p m1))
                        | None \<Rightarrow>
                            (if lm_ready m1 \<noteq> [] then TakeReady (lm_ready m1) (m1\<lparr>lm_ready := []\<rparr>)
                             else TakeWaits m1))))"
  by pat_completeness auto

termination
proof (relation "measure (waiting_work \<circ> snd)")
  fix J m ok0 m0 ok1 m1 i p
  fix x y
  assume x: "x = refill J SlotS m" "(ok0, m0) = x" and y: "y = refill J SlotD m0" "(ok1, m1) = y"
  have w: "waiting_work m1 \<le> waiting_work m"
    using refill_fields(6) [of J SlotS m ok0 m0] refill_fields(6) [of J SlotD m0 ok1 m1] x y by (metis order_trans)
  { assume "pick m1 = Some i" "lm_peek m1 i = Some p"
    then show "((J, hand_out i p m1), J, m) \<in> measure (waiting_work \<circ> snd)"
      using hand_out_work [of m1 i p] w by simp }
  { assume "pick m1 = Some i" "lm_peek m1 i = None"
    then show "((J, m1), J, m) \<in> measure (waiting_work \<circ> snd)"
      using pick_peeked [of m1 i] by simp }
qed simp

declare take_loop.simps [simp del]

section \<open>Waiting\<close>

text \<open>The stream a lone head waits on.\<close>

definition waiting_on :: "live_merge \<Rightarrow> slot option" where
  "waiting_on m =
     (case (lm_peek m SlotS, lm_peek m SlotD) of
        (Some p, None) \<Rightarrow> Some SlotD
      | (None, Some p) \<Rightarrow> Some SlotS
      | _ \<Rightarrow> None)"

datatype woke = WokeLine slot | WokeDead slot

datatype wait_result = StillWaiting live_merge | Woken live_merge | WaitClosed live_merge

definition receive :: "line_parsers \<Rightarrow> slot \<Rightarrow> live_merge \<Rightarrow> wait_result" where
  "receive J i m =
     (case ch_lines (lm_rx m i) of
        l # ls \<Rightarrow> Woken (accept J i l (set_lines i ls m))
      | [] \<Rightarrow> (if ch_closed (lm_rx m i) then WaitClosed m else StillWaiting m))"

definition wait :: "line_parsers \<Rightarrow> instant \<Rightarrow> woke \<Rightarrow> live_merge \<Rightarrow> wait_result" where
  "wait J now w m =
     (case waiting_on m of
        Some other \<Rightarrow>
          (let since = (case lm_waiting_since m of None \<Rightarrow> now | Some t \<Rightarrow> t);
               m1 = m\<lparr>lm_waiting_since := Some since\<rparr>
           in case w of
                WokeLine i \<Rightarrow> (if i = other then receive J i m1 else StillWaiting m1)
              | WokeDead i \<Rightarrow>
                  (if i = other \<and> merge_dead_wait \<le> now - since
                   then Woken (m1\<lparr>lm_dead := (lm_dead m1)(other := True), lm_waiting_since := None\<rparr>)
                   else StillWaiting m1))
      | None \<Rightarrow> (case w of WokeLine i \<Rightarrow> receive J i m | WokeDead i \<Rightarrow> StillWaiting m))"


section \<open>The machine: readers and listener interleaved\<close>

text \<open>
  The readers send at any moment, also between the steps of the loop; \<open>take\<close> can be cancelled where it awaits,
  and is called again. One iteration of the loop is: hand out a full buffer, or refill the first stream, refill
  the second, pick. Ghost fields: all that was handed out, all that was sent, whether a stream was ever
  declared dead.
\<close>

datatype merge_pc = AtLoop | RefilledS | RefilledBoth | Waiting | Ended

record merge_run =
  mr_merge :: live_merge
  mr_pc :: merge_pc
  mr_out :: "(u64 \<times> event_batch \<times> event_source) list"
  mr_sent :: "slot \<Rightarrow> string list"
  mr_died :: bool

definition send_line :: "slot \<Rightarrow> string \<Rightarrow> live_merge \<Rightarrow> live_merge" where
  "send_line i l m = set_lines i (ch_lines (lm_rx m i) @ [l]) m"

definition close_channel :: "slot \<Rightarrow> live_merge \<Rightarrow> live_merge" where
  "close_channel i m = m\<lparr>lm_rx := (lm_rx m)(i := (lm_rx m i)\<lparr>ch_closed := True\<rparr>)\<rparr>"

inductive merge_step :: "line_parsers \<Rightarrow> merge_run \<Rightarrow> merge_run \<Rightarrow> bool" for J where
  sends: "\<not> ch_closed (lm_rx (mr_merge s) i) \<Longrightarrow>
     merge_step J s (s\<lparr>mr_merge := send_line i l (mr_merge s), mr_sent := (mr_sent s)(i := mr_sent s i @ [l])\<rparr>)"
| closes: "merge_step J s (s\<lparr>mr_merge := close_channel i (mr_merge s)\<rparr>)"
| full: "\<lbrakk>mr_pc s = AtLoop; merge_take \<le> length (lm_ready (mr_merge s))\<rbrakk> \<Longrightarrow>
     merge_step J s (s\<lparr>mr_merge := (mr_merge s)\<lparr>lm_ready := []\<rparr>, mr_pc := AtLoop,
                      mr_out := mr_out s @ lm_ready (mr_merge s)\<rparr>)"
| refill_s: "\<lbrakk>mr_pc s = AtLoop; \<not> merge_take \<le> length (lm_ready (mr_merge s)); refill J SlotS (mr_merge s) = (ok, m')\<rbrakk> \<Longrightarrow>
     merge_step J s (s\<lparr>mr_merge := m', mr_pc := (if ok then RefilledS else Ended)\<rparr>)"
| refill_d: "\<lbrakk>mr_pc s = RefilledS; refill J SlotD (mr_merge s) = (ok, m')\<rbrakk> \<Longrightarrow>
     merge_step J s (s\<lparr>mr_merge := m', mr_pc := (if ok then RefilledBoth else Ended)\<rparr>)"
| picks: "\<lbrakk>mr_pc s = RefilledBoth; pick (mr_merge s) = Some i; lm_peek (mr_merge s) i = Some p\<rbrakk> \<Longrightarrow>
     merge_step J s (s\<lparr>mr_merge := hand_out i p (mr_merge s), mr_pc := AtLoop\<rparr>)"
| returns: "\<lbrakk>mr_pc s = RefilledBoth; pick (mr_merge s) = None; lm_ready (mr_merge s) \<noteq> []\<rbrakk> \<Longrightarrow>
     merge_step J s (s\<lparr>mr_merge := (mr_merge s)\<lparr>lm_ready := []\<rparr>, mr_pc := AtLoop,
                      mr_out := mr_out s @ lm_ready (mr_merge s)\<rparr>)"
| parks: "\<lbrakk>mr_pc s = RefilledBoth; pick (mr_merge s) = None; lm_ready (mr_merge s) = []\<rbrakk> \<Longrightarrow>
     merge_step J s (s\<lparr>mr_pc := Waiting\<rparr>)"
| cancelled: "mr_pc s = Waiting \<Longrightarrow> merge_step J s (s\<lparr>mr_pc := AtLoop\<rparr>)"
| stays: "\<lbrakk>mr_pc s = Waiting; wait J now w (mr_merge s) = StillWaiting m'\<rbrakk> \<Longrightarrow>
     merge_step J s (s\<lparr>mr_merge := m'\<rparr>)"
| wakes: "\<lbrakk>mr_pc s = Waiting; wait J now w (mr_merge s) = Woken m'\<rbrakk> \<Longrightarrow>
     merge_step J s (s\<lparr>mr_merge := m', mr_pc := AtLoop,
                      mr_died := (mr_died s \<or> (\<exists>i. w = WokeDead i))\<rparr>)"
| ends: "\<lbrakk>mr_pc s = Waiting; wait J now w (mr_merge s) = WaitClosed m'\<rbrakk> \<Longrightarrow>
     merge_step J s (s\<lparr>mr_merge := m', mr_pc := Ended\<rparr>)"

text \<open>A run starts with both channels empty and the floor the installed snapshot gave.\<close>

definition merge_init :: "u64 \<Rightarrow> merge_run" where
  "merge_init f =
     \<lparr>mr_merge = (merge_new (\<lambda>i. \<lparr>ch_lines = [], ch_closed = False\<rparr>))\<lparr>lm_floor := f\<rparr>, mr_pc = AtLoop, mr_out = [],
      mr_sent = (\<lambda>i. []), mr_died = False\<rparr>"

inductive merge_reaches :: "line_parsers \<Rightarrow> u64 \<Rightarrow> merge_run \<Rightarrow> bool" for J f where
  starts: "merge_reaches J f (merge_init f)"
| goes: "merge_reaches J f s \<Longrightarrow> merge_step J s s' \<Longrightarrow> merge_reaches J f s'"

section \<open>Specification\<close>

text \<open>What a stream's lines have to offer: those that parse, above the floor, in order.\<close>

definition keep :: "line_parsers \<Rightarrow> u64 \<Rightarrow> slot \<Rightarrow> string list \<Rightarrow> head list" where
  "keep J f i ls = filter (\<lambda>p. f < fst p) (List.map_filter (\<lambda>l. parse_event_line J l (slot_source i)) ls)"

definition taken :: "slot \<Rightarrow> (u64 \<times> event_batch \<times> event_source) list \<Rightarrow> head list" where
  "taken i xs = map (\<lambda>x. (fst x, fst (snd x))) (filter (\<lambda>x. snd (snd x) = slot_source i) xs)"

definition peek_list :: "slot \<Rightarrow> live_merge \<Rightarrow> head list" where
  "peek_list i m = (case lm_peek m i of None \<Rightarrow> [] | Some p \<Rightarrow> [p])"

text \<open>What is still to come from a stream.\<close>

definition pending_of :: "line_parsers \<Rightarrow> slot \<Rightarrow> live_merge \<Rightarrow> head list" where
  "pending_of J i m = peek_list i m @ keep J (lm_floor m) i (ch_lines (lm_rx m i))"

lemma keep_simps:
  "keep J f i [] = []" "keep J f i (ls @ ls') = keep J f i ls @ keep J f i ls'"
  "keep J f i (l # ls) =
     (case parse_event_line J l (slot_source i) of None \<Rightarrow> keep J f i ls
      | Some p \<Rightarrow> if f < fst p then p # keep J f i ls else keep J f i ls)"
  by (auto simp: keep_def List.map_filter_def split: option.split)

lemma taken_append [simp]: "taken i (xs @ ys) = taken i xs @ taken i ys"
  by (simp add: taken_def)

lemma slot_source_inj [simp]: "slot_source i = slot_source j \<longleftrightarrow> i = j"
  by (cases i; cases j) simp_all

lemma other_slot_neq [simp]: "other_slot i \<noteq> i" "i \<noteq> other_slot i"
  by (cases i; simp)+

lemma neq_other_slot: "j \<noteq> i \<longleftrightarrow> j = other_slot i"
  by (cases i; cases j) simp_all

lemma taken_one: "taken j [(fst p, snd p, slot_source i)] = (if i = j then [p] else [])"
  by (simp add: taken_def)

lemma keep_above: "p \<in> set (keep J f i ls) \<Longrightarrow> f < fst p"
  by (simp add: keep_def)


section \<open>Nothing is lost or reordered within a stream\<close>

definition exact_streams :: "line_parsers \<Rightarrow> u64 \<Rightarrow> (slot \<Rightarrow> string list) \<Rightarrow> (u64 \<times> event_batch \<times> event_source) list \<Rightarrow> live_merge \<Rightarrow> bool" where
  "exact_streams J f sent out m \<longleftrightarrow>
     lm_floor m = f \<and> (\<forall>i. taken i (out @ lm_ready m) @ pending_of J i m = keep J f i (sent i))"

lemma peek_list_accept:
  assumes "lm_peek m i = None"
  shows "peek_list i (accept J i l m) = keep J (lm_floor m) i [l]"
  using assms by (auto simp: peek_list_def accept_def keep_simps Let_def not_le leD split: option.split)

lemma refill_lines_pending:
  "refill_lines J i ls m = (rest, m') \<Longrightarrow>
     peek_list i m' @ keep J (lm_floor m) i rest = peek_list i m @ keep J (lm_floor m) i ls"
proof (induction ls arbitrary: m)
  case (Cons l ls)
  show ?case
  proof (cases "lm_peek m i")
    case None
    then have "refill_lines J i ls (accept J i l m) = (rest, m')" using Cons.prems by simp
    from Cons.IH [OF this] show ?thesis
      using keep_simps(2) [of J "lm_floor m" i "[l]" ls] None by (simp add: peek_list_accept) (simp add: peek_list_def)
  qed (use Cons.prems in auto)
qed auto

lemma pending_of_cong:
  "\<lbrakk>lm_peek m' j = lm_peek m j; lm_floor m' = lm_floor m; lm_rx m' j = lm_rx m j\<rbrakk> \<Longrightarrow> pending_of J j m' = pending_of J j m"
  by (simp add: pending_of_def peek_list_def)

lemma refill_pending:
  assumes "refill J i m = (ok, m')"
  shows "pending_of J j m' = pending_of J j m"
proof (cases "j = i")
  case True
  obtain rest m1 where r: "refill_lines J i (ch_lines (lm_rx m i)) m = (rest, m1)" by (metis prod.collapse)
  then have m': "m' = set_lines i rest m1" using assms by (simp add: refill_def Let_def)
  have "lm_floor m1 = lm_floor m" using refill_lines_fields [OF r] by simp
  then show ?thesis
    using refill_lines_pending [OF r] True by (simp add: pending_of_def m' set_lines_def peek_list_def)
next
  case False
  then show ?thesis using refill_fields [OF assms] by (intro pending_of_cong) auto
qed

lemma refill_exact:
  assumes "refill J i m = (ok, m')" "exact_streams J f sent out m"
  shows "exact_streams J f sent out m'"
  using assms(2) refill_pending [OF assms(1)] refill_fields(1,3) [OF assms(1)] by (simp add: exact_streams_def)

lemma hand_out_exact:
  assumes "lm_peek m i = Some p" "exact_streams J f sent out m"
  shows "exact_streams J f sent out (hand_out i p m)"
proof -
  have "taken j (lm_ready (hand_out i p m)) @ pending_of J j (hand_out i p m) = taken j (lm_ready m) @ pending_of J j m" for j
    using assms(1) by (cases "j = i") (simp_all add: hand_out_def pending_of_def peek_list_def taken_one)
  then show ?thesis using assms(2) by (simp add: exact_streams_def hand_out_def)
qed

lemma receive_exact:
  assumes "receive J i m = r" "lm_peek m i = None" "exact_streams J f sent out m"
  shows "case r of StillWaiting m' \<Rightarrow> exact_streams J f sent out m' | Woken m' \<Rightarrow> exact_streams J f sent out m'
     | WaitClosed m' \<Rightarrow> exact_streams J f sent out m'"
proof (cases "ch_lines (lm_rx m i)")
  case (Cons l ls)
  let ?m = "accept J i l (set_lines i ls m)"
  have "pending_of J j ?m = pending_of J j m" for j
  proof (cases "j = i")
    case True
    have "lm_peek (set_lines i ls m) i = None" using assms(2) by (simp add: set_lines_def)
    then show ?thesis
      using keep_simps(2) [of J "lm_floor m" i "[l]" ls] True Cons assms(2)
      by (simp add: pending_of_def peek_list_accept) (simp add: set_lines_def peek_list_def)
  qed (simp add: pending_of_def peek_list_def set_lines_def)
  moreover have "lm_ready ?m = lm_ready m" "lm_floor ?m = lm_floor m" by (simp_all add: set_lines_def)
  ultimately show ?thesis
    using assms(1,3) Cons by (auto simp: receive_def exact_streams_def)
qed (use assms in \<open>auto simp: receive_def split: if_splits\<close>)

lemma exact_upd:
  "exact_streams J f sent out (m\<lparr>lm_waiting_since := x\<rparr>) = exact_streams J f sent out m"
  "exact_streams J f sent out (m\<lparr>lm_dead := d\<rparr>) = exact_streams J f sent out m"
  by (simp_all add: exact_streams_def pending_of_def peek_list_def)

lemma pick_None_waiting:
  "pick m = None \<Longrightarrow> waiting_on m = None \<Longrightarrow> lm_peek m i = None"
  "waiting_on m = Some i \<Longrightarrow> lm_peek m i = None"
  by (cases i; auto simp: pick_def waiting_on_def split: option.splits if_splits prod.splits)+

text \<open>What \<open>wait\<close> does to the merge, by cases.\<close>

lemma wait_cases:
  assumes "wait J now w m = r" "pick m = None"
  obtains (still) x where "r = StillWaiting (m\<lparr>lm_waiting_since := x\<rparr>)"
  | (line) x i where "r = receive J i (m\<lparr>lm_waiting_since := x\<rparr>)" "lm_peek m i = None" "w = WokeLine i"
  | (dead) i where "r = Woken (m\<lparr>lm_dead := (lm_dead m)(i := True), lm_waiting_since := None\<rparr>)" "w = WokeDead i"
proof -
  have idm: "m\<lparr>lm_waiting_since := lm_waiting_since m\<rparr> = m" by simp
  show ?thesis
  proof (cases "waiting_on m")
    case None
    show ?thesis
    proof (cases w)
      case (WokeLine i)
      then show ?thesis using line [of i "lm_waiting_since m"] assms None pick_None_waiting(1) [OF assms(2) None, of i]
        by (simp add: wait_def)
    next
      case (WokeDead i)
      then show ?thesis using still [of "lm_waiting_since m"] assms None by (simp add: wait_def)
    qed
  next
    case (Some other)
    define since where "since = (case lm_waiting_since m of None \<Rightarrow> now | Some t \<Rightarrow> t)"
    note r = assms(1) [unfolded wait_def Some option.case since_def [symmetric] Let_def, symmetric]
    show ?thesis
    proof (cases w)
      case (WokeLine i)
      show ?thesis
      proof (cases "i = other")
        case True
        then show ?thesis using line [of i "Some since"] r WokeLine pick_None_waiting(2) [OF Some] by simp
      next
        case False
        then show ?thesis using still [of "Some since"] r WokeLine by simp
      qed
    next
      case (WokeDead i)
      show ?thesis
      proof (cases "i = other \<and> merge_dead_wait \<le> now - since")
        case True
        then show ?thesis using dead [of i] r WokeDead by simp
      next
        case False
        then have "r = StillWaiting (m\<lparr>lm_waiting_since := Some since\<rparr>)" using r WokeDead by simp
        then show ?thesis by (rule still)
      qed
    qed
  qed
qed

lemma wait_exact:
  assumes "wait J now w m = r" "pick m = None" "exact_streams J f sent out m"
  shows "case r of StillWaiting m' \<Rightarrow> exact_streams J f sent out m' | Woken m' \<Rightarrow> exact_streams J f sent out m'
     | WaitClosed m' \<Rightarrow> exact_streams J f sent out m'"
  using assms(1,2)
proof (cases rule: wait_cases)
  case (line x i)
  then show ?thesis using receive_exact [of J i "m\<lparr>lm_waiting_since := x\<rparr>" r f sent out] assms(3)
    by (simp add: exact_upd)
qed (use assms(3) in \<open>simp_all add: exact_upd\<close>)

text \<open>Whoever waits has nothing it could pick.\<close>

definition parked_well :: "merge_run \<Rightarrow> bool" where
  "parked_well s \<longleftrightarrow> (mr_pc s = Waiting \<longrightarrow> pick (mr_merge s) = None \<and> lm_ready (mr_merge s) = [])"


text \<open>
  The gate, in terms of the two streams: when a batch was taken, either nothing had been taken from the other
  stream, or something within the lookahead had, or the other's next batch was no lower.
\<close>

definition gated :: "head list \<Rightarrow> nat \<Rightarrow> u64 \<Rightarrow> bool" where
  "gated K n h \<longleftrightarrow>
     n = 0 \<or> (\<exists>k < n. unat h \<le> unat (fst (K ! k)) + 32) \<or> (n < length K \<and> h \<le> fst (K ! n))"

definition gates :: "line_parsers \<Rightarrow> u64 \<Rightarrow> (slot \<Rightarrow> string list) \<Rightarrow> (u64 \<times> event_batch \<times> event_source) list \<Rightarrow> bool" where
  "gates J f sent xs \<longleftrightarrow>
     (\<forall>k < length xs. \<forall>i. snd (snd (xs ! k)) = slot_source i \<longrightarrow>
        gated (keep J f (other_slot i) (sent (other_slot i))) (length (taken (other_slot i) (List.take k xs))) (fst (xs ! k)))"

definition seen_ok :: "(u64 \<times> event_batch \<times> event_source) list \<Rightarrow> live_merge \<Rightarrow> bool" where
  "seen_ok out m \<longleftrightarrow>
     (\<forall>i. taken i (out @ lm_ready m) = [] \<and> lm_seen m i = 0
        \<or> 0 < lm_seen m i \<and> (\<exists>p \<in> set (taken i (out @ lm_ready m)). fst p = lm_seen m i))"

lemma gates_Nil [simp]: "gates J f sent []"
  by (simp add: gates_def)

definition gate_at :: "line_parsers \<Rightarrow> u64 \<Rightarrow> (slot \<Rightarrow> string list) \<Rightarrow> (u64 \<times> event_batch \<times> event_source) list
    \<Rightarrow> slot \<Rightarrow> u64 \<Rightarrow> bool" where
  "gate_at J f sent pre i h \<longleftrightarrow>
     gated (keep J f (other_slot i) (sent (other_slot i))) (length (taken (other_slot i) pre)) h"

lemma gates_at:
  assumes "gates J f sent xs" "k < length xs" "snd (snd (xs ! k)) = slot_source j"
  shows "gate_at J f sent (List.take k xs) j (fst (xs ! k))"
  using assms(1) [unfolded gates_def, rule_format, OF assms(2,3)] unfolding gate_at_def .

lemma gatesI:
  assumes "\<And>k j. \<lbrakk>k < length xs; snd (snd (xs ! k)) = slot_source j\<rbrakk> \<Longrightarrow> gate_at J f sent (List.take k xs) j (fst (xs ! k))"
  shows "gates J f sent xs"
  unfolding gates_def
proof (intro allI impI)
  fix k i
  assume "k < length xs" "snd (snd (xs ! k)) = slot_source i"
  from assms [OF this]
  show "gated (keep J f (other_slot i) (sent (other_slot i))) (length (taken (other_slot i) (List.take k xs))) (fst (xs ! k))"
    unfolding gate_at_def .
qed

lemma gates_snoc:
  assumes g: "gates J f sent xs" and y: "gate_at J f sent xs i h"
  shows "gates J f sent (xs @ [(h, b, slot_source i)])"
proof (rule gatesI)
  fix k j
  let ?xs = "xs @ [(h, b, slot_source i)]"
  assume k: "k < length ?xs" and j: "snd (snd (?xs ! k)) = slot_source j"
  show "gate_at J f sent (List.take k ?xs) j (fst (?xs ! k))"
  proof (cases "k < length xs")
    case True
    then have e: "?xs ! k = xs ! k" "List.take k ?xs = List.take k xs" by (simp_all add: nth_append)
    show ?thesis unfolding e by (rule gates_at [OF g True j [unfolded e]])
  next
    case False
    then have "k = length xs" using k by simp
    then have e: "?xs ! k = (h, b, slot_source i)" "List.take k ?xs = xs" by simp_all
    have "i = j" using j unfolding e by simp
    then show ?thesis unfolding e fst_conv using y by simp
  qed
qed

text \<open>What is taken is the beginning of what the stream has; what is sent is only added to.\<close>

lemma gated_append:
  assumes "gated K n h" "n \<le> length K"
  shows "gated (K @ K') n h"
proof -
  have same: "(K @ K') ! k = K ! k" if "k < length K" for k using that by (simp add: nth_append)
  consider "n = 0" | k where "k < n" "unat h \<le> unat (fst (K ! k)) + 32" | "n < length K" "h \<le> fst (K ! n)"
    using assms(1) unfolding gated_def by blast
  then show ?thesis
  proof cases
    case (2 k)
    then have "unat h \<le> unat (fst ((K @ K') ! k)) + 32" using same [of k] assms(2) by simp
    then show ?thesis using 2(1) unfolding gated_def by blast
  next
    case 3
    then show ?thesis using same [of n] by (simp add: gated_def)
  qed (simp add: gated_def)
qed

lemma taken_take_length: "length (taken j (List.take k xs)) \<le> length (taken j xs)"
proof -
  have "taken j xs = taken j (List.take k xs) @ taken j (drop k xs)"
    by (metis append_take_drop_id taken_append)
  then show ?thesis by simp
qed

lemma gates_sends:
  assumes "gates J f sent xs" "\<And>j. length (taken j xs) \<le> length (keep J f j (sent j))"
  shows "gates J f (sent(i := sent i @ [l])) xs"
  unfolding gates_def
proof (intro allI impI)
  fix k i' assume k: "k < length xs" "snd (snd (xs ! k)) = slot_source i'"
  let ?j = "other_slot i'"
  have g: "gated (keep J f ?j (sent ?j)) (length (taken ?j (List.take k xs))) (fst (xs ! k))"
    using assms(1) k by (simp add: gates_def)
  have "length (taken ?j (List.take k xs)) \<le> length (keep J f ?j (sent ?j))"
    using taken_take_length assms(2) order_trans by blast
  note g' = gated_append [OF g this, of "keep J f ?j [l]"]
  show "gated (keep J f ?j ((sent(i := sent i @ [l])) ?j)) (length (taken ?j (List.take k xs))) (fst (xs ! k))"
  proof (cases "?j = i")
    case True
    then have "keep J f ?j ((sent(i := sent i @ [l])) ?j) = keep J f ?j (sent ?j) @ keep J f ?j [l]"
      by (simp add: keep_simps(2))
    then show ?thesis using g' by simp
  qed (use g in simp)
qed

definition merge_inv :: "line_parsers \<Rightarrow> u64 \<Rightarrow> merge_run \<Rightarrow> bool" where
  "merge_inv J f s \<longleftrightarrow>
     exact_streams J f (mr_sent s) (mr_out s) (mr_merge s) \<and> parked_well s \<and> seen_ok (mr_out s) (mr_merge s)
     \<and> (\<not> mr_died s \<longrightarrow> (\<forall>i. \<not> lm_dead (mr_merge s) i) \<and> gates J f (mr_sent s) (mr_out s @ lm_ready (mr_merge s)))"

lemma merge_inv_init: "merge_inv J f (merge_init f)"
  by (simp add: merge_inv_def merge_init_def merge_new_def exact_streams_def parked_well_def seen_ok_def pending_of_def
      peek_list_def keep_simps taken_def)

lemma exact_length:
  assumes "exact_streams J f sent out m"
  shows "length (taken j (out @ lm_ready m)) \<le> length (keep J f j (sent j))"
proof -
  have "keep J f j (sent j) = taken j (out @ lm_ready m) @ pending_of J j m" using assms by (simp add: exact_streams_def)
  then show ?thesis by simp
qed

lemma unat_plus_le: "unat (a + b) \<le> unat a + unat (b :: u64)"
  by (simp add: unat_word_ariths)

lemma pick_gated:
  assumes ex: "exact_streams J f sent out m" and seen: "seen_ok out m" and dead: "\<forall>i. \<not> lm_dead m i"
    and pk: "pick m = Some i" and p: "lm_peek m i = Some p"
  shows "gate_at J f sent (out @ lm_ready m) i (fst p)"
proof -
  let ?j = "other_slot i" and ?T = "taken (other_slot i) (out @ lm_ready m)"
  have K: "keep J f ?j (sent ?j) = ?T @ pending_of J ?j m" using ex by (simp add: exact_streams_def)
  show ?thesis
  proof (cases "lm_peek m ?j")
    case (Some q)
    have "fst p \<le> fst q" using pk p Some by (cases i) (auto simp: pick_def split: if_splits prod.splits)
    moreover have "pending_of J ?j m = q # keep J f ?j (ch_lines (lm_rx m ?j))"
      using Some ex by (simp add: pending_of_def peek_list_def exact_streams_def)
    ultimately show ?thesis unfolding gate_at_def K gated_def by (simp add: nth_append)
  next
    case None
    have or: "lm_seen m ?j = 0 \<or> fst p \<le> lm_seen m ?j + 32"
      using pk p None dead by (cases i) (auto simp: pick_def split: if_splits prod.splits)
    show ?thesis
    proof (cases "lm_seen m ?j = 0")
      case True
      then have "?T = []" using seen unfolding seen_ok_def by (metis less_irrefl)
      then show ?thesis by (simp add: gate_at_def gated_def)
    next
      case False
      then have "\<exists>q \<in> set ?T. fst q = lm_seen m ?j" using seen unfolding seen_ok_def by blast
      then obtain q where "q \<in> set ?T" "fst q = lm_seen m ?j" by blast
      then obtain k where k: "k < length ?T" "fst (?T ! k) = lm_seen m ?j" by (metis in_set_conv_nth)
      have "fst p \<le> lm_seen m ?j + 32" using or False by simp
      then have "unat (fst p) \<le> unat (lm_seen m ?j) + 32"
        using unat_plus_le [of "lm_seen m ?j" 32] by (simp add: word_le_nat_alt)
      then have "unat (fst p) \<le> unat (fst ((?T @ pending_of J ?j m) ! k)) + 32"
        unfolding nth_append_left [OF k(1)] k(2) .
      then show ?thesis unfolding gate_at_def K gated_def using k(1) by blast
    qed
  qed
qed

lemma hand_out_seen:
  assumes "seen_ok out m" "0 < fst p"
  shows "seen_ok out (hand_out i p m)"
  unfolding seen_ok_def
proof
  fix j
  have old: "taken j (out @ lm_ready m) = [] \<and> lm_seen m j = 0
     \<or> 0 < lm_seen m j \<and> (\<exists>p \<in> set (taken j (out @ lm_ready m)). fst p = lm_seen m j)" (is ?old)
    using assms(1) by (simp add: seen_ok_def)
  show "taken j (out @ lm_ready (hand_out i p m)) = [] \<and> lm_seen (hand_out i p m) j = 0
     \<or> 0 < lm_seen (hand_out i p m) j
       \<and> (\<exists>p' \<in> set (taken j (out @ lm_ready (hand_out i p m))). fst p' = lm_seen (hand_out i p m) j)"
  proof (cases "j = i")
    case True
    have T: "taken j (out @ lm_ready (hand_out i p m)) = taken j (out @ lm_ready m) @ [p]"
      and S: "lm_seen (hand_out i p m) j = max (lm_seen m j) (fst p)"
      using True by (simp_all add: hand_out_def taken_one)
    show ?thesis
    proof (cases "lm_seen m j \<le> fst p")
      case True
      then have "max (lm_seen m j) (fst p) = fst p" by (simp add: max_def)
      then show ?thesis unfolding T S using assms(2) by simp
    next
      case False
      then have "max (lm_seen m j) (fst p) = lm_seen m j" "lm_seen m j \<noteq> 0" by (auto simp: max_def)
      then show ?thesis unfolding T S using old by auto
    qed
  next
    case False
    then show ?thesis using old by (auto simp: hand_out_def taken_one)
  qed
qed


lemma pick_cong:
  assumes "lm_peek m' = lm_peek m" "lm_seen m' = lm_seen m" "lm_dead m' = lm_dead m"
  shows "pick m' = pick m"
  unfolding pick_def assms ..

lemma refill_dead:
  assumes "refill J i m = (ok, m')" "\<forall>j. \<not> lm_dead m j"
  shows "\<not> lm_dead m' j"
proof -
  have a: "\<not> lm_dead (accept J i l m) j" if "\<forall>j. \<not> lm_dead m j" for l m j
    using that by (simp add: accept_def Let_def split: option.split)
  have "refill_lines J i ls m = (rest, m1) \<Longrightarrow> \<forall>j. \<not> lm_dead m j \<Longrightarrow> \<forall>j. \<not> lm_dead m1 j" for ls rest m m1
  proof (induction ls arbitrary: m)
    case (Cons l ls)
    show ?case
    proof (cases "lm_peek m i")
      case None
      then have "refill_lines J i ls (accept J i l m) = (rest, m1)" using Cons.prems(1) by simp
      then show ?thesis by (rule Cons.IH) (use a Cons.prems(2) in blast)
    qed (use Cons.prems in auto)
  qed auto
  moreover obtain rest m1 where "refill_lines J i (ch_lines (lm_rx m i)) m = (rest, m1)" by (metis prod.collapse)
  ultimately have "\<not> lm_dead m1 j" "lm_dead m' = lm_dead m1"
    using assms by (blast, auto simp: refill_def Let_def set_lines_def)
  then show ?thesis by simp
qed

lemma seen_ok_cong: "\<lbrakk>lm_seen m' = lm_seen m; out' @ lm_ready m' = out @ lm_ready m\<rbrakk> \<Longrightarrow> seen_ok out' m' = seen_ok out m"
  unfolding seen_ok_def by presburger

text \<open>A step that touches only what the invariant does not read, or hands the buffer over.\<close>

lemma merge_inv_same:
  assumes "merge_inv J f s" "mr_sent s' = mr_sent s" "mr_died s' = mr_died s"
    and "mr_out s' @ lm_ready (mr_merge s') = mr_out s @ lm_ready (mr_merge s)"
    and "lm_seen (mr_merge s') = lm_seen (mr_merge s)" "lm_floor (mr_merge s') = lm_floor (mr_merge s)"
    and "\<And>i. pending_of J i (mr_merge s') = pending_of J i (mr_merge s)"
    and "\<forall>i. \<not> lm_dead (mr_merge s) i \<Longrightarrow> \<forall>i. \<not> lm_dead (mr_merge s') i" "parked_well s'"
  shows "merge_inv J f s'"
proof -
  have "exact_streams J f (mr_sent s) (mr_out s) (mr_merge s)" using assms(1) by (simp add: merge_inv_def)
  then have "exact_streams J f (mr_sent s') (mr_out s') (mr_merge s')"
    unfolding exact_streams_def assms(2,4,6,7) .
  moreover have "seen_ok (mr_out s') (mr_merge s')"
    using assms(1) seen_ok_cong [OF assms(5,4)] by (simp only: merge_inv_def)
  ultimately show ?thesis
    using assms(1,8,9) unfolding merge_inv_def assms(2,3,4) by blast
qed

lemma merge_inv_send:
  assumes inv: "merge_inv J f s"
  shows "merge_inv J f (s\<lparr>mr_merge := send_line i l (mr_merge s), mr_sent := (mr_sent s)(i := mr_sent s i @ [l])\<rparr>)"
proof -
  let ?m = "mr_merge s" and ?m' = "send_line i l (mr_merge s)" and ?sent = "(mr_sent s)(i := mr_sent s i @ [l])"
  have ex: "exact_streams J f (mr_sent s) (mr_out s) ?m" using inv by (simp add: merge_inv_def)
  have m': "lm_ready ?m' = lm_ready ?m" "lm_floor ?m' = lm_floor ?m" "lm_seen ?m' = lm_seen ?m" "lm_dead ?m' = lm_dead ?m"
    "lm_peek ?m' = lm_peek ?m" by (simp_all add: send_line_def set_lines_def)
  have "pending_of J j ?m' = pending_of J j ?m @ (if j = i then keep J (lm_floor ?m) i [l] else [])" for j
    by (simp add: send_line_def set_lines_def pending_of_def peek_list_def keep_simps(2))
  then have "exact_streams J f ?sent (mr_out s) ?m'"
    using ex by (simp add: exact_streams_def m' keep_simps(2))
  moreover have "seen_ok (mr_out s) ?m'" using inv seen_ok_cong [OF m'(3)] m'(1) by (simp add: merge_inv_def)
  moreover have "parked_well (s\<lparr>mr_merge := ?m', mr_sent := ?sent\<rparr>)"
    using inv pick_cong [OF m'(5,3,4)] m'(1) by (simp add: merge_inv_def parked_well_def)
  moreover have "gates J f ?sent (mr_out s @ lm_ready ?m')" if "\<not> mr_died s"
    using inv that gates_sends exact_length [OF ex] m'(1) by (simp add: merge_inv_def)
  ultimately show ?thesis using inv m'(4) by (simp add: merge_inv_def)
qed

lemma merge_inv_hand_out:
  assumes inv: "merge_inv J f s" and pk: "pick (mr_merge s) = Some i" and p: "lm_peek (mr_merge s) i = Some p"
  shows "merge_inv J f (s\<lparr>mr_merge := hand_out i p (mr_merge s), mr_pc := AtLoop\<rparr>)"
proof -
  let ?m = "mr_merge s"
  have ex: "exact_streams J f (mr_sent s) (mr_out s) ?m" and sn: "seen_ok (mr_out s) ?m"
    using inv by (simp_all add: merge_inv_def)
  have "p \<in> set (pending_of J i ?m)" using p by (simp add: pending_of_def peek_list_def)
  moreover have "keep J f i (mr_sent s i) = taken i (mr_out s @ lm_ready ?m) @ pending_of J i ?m"
    using ex by (simp add: exact_streams_def)
  ultimately have "p \<in> set (keep J f i (mr_sent s i))" by simp
  then have pos: "0 < fst p" using keep_above by (metis word_gt_0 not_less_iff_gr_or_eq word_not_simps(1))
  have "gates J f (mr_sent s) (mr_out s @ lm_ready (hand_out i p ?m))" if "\<not> mr_died s"
  proof -
    have "gates J f (mr_sent s) (mr_out s @ lm_ready ?m)" "\<forall>i. \<not> lm_dead ?m i" using inv that by (auto simp: merge_inv_def)
    from gates_snoc [OF this(1) pick_gated [OF ex sn this(2) pk p], of "snd p"]
    show ?thesis by (simp add: hand_out_def)
  qed
  then show ?thesis
    using inv hand_out_exact [OF p ex] hand_out_seen [OF sn pos]
    by (simp add: merge_inv_def parked_well_def) (simp add: hand_out_def)
qed

lemma accept_dead: "lm_dead (accept J i l m) = (lm_dead m)(i := False)"
  by (simp add: accept_def Let_def split: option.split)

lemma merge_inv_close:
  assumes inv: "merge_inv J f s"
  shows "merge_inv J f (s\<lparr>mr_merge := close_channel i (mr_merge s)\<rparr>)"
proof -
  have "pick (close_channel i (mr_merge s)) = pick (mr_merge s)" by (rule pick_cong) (simp_all add: close_channel_def)
  moreover have "parked_well s" using inv by (simp add: merge_inv_def)
  ultimately have "parked_well (s\<lparr>mr_merge := close_channel i (mr_merge s)\<rparr>)"
    by (simp add: parked_well_def) (simp add: close_channel_def)
  then show ?thesis
    by (intro merge_inv_same [OF inv]) (simp_all add: close_channel_def pending_of_def peek_list_def)
qed

lemma merge_inv_refill:
  assumes inv: "merge_inv J f s" and r: "refill J i (mr_merge s) = (ok, m')" and pc: "pc \<noteq> Waiting"
  shows "merge_inv J f (s\<lparr>mr_merge := m', mr_pc := pc\<rparr>)"
proof (rule merge_inv_same [OF inv])
  show "\<forall>j. \<not> lm_dead (mr_merge (s\<lparr>mr_merge := m', mr_pc := pc\<rparr>)) j" if "\<forall>j. \<not> lm_dead (mr_merge s) j"
    using refill_dead [OF r that] by simp
qed (simp_all add: refill_fields [OF r] refill_pending [OF r] parked_well_def pc)

lemma merge_inv_flush:
  assumes inv: "merge_inv J f s" and pc: "pc \<noteq> Waiting"
  shows "merge_inv J f (s\<lparr>mr_merge := (mr_merge s)\<lparr>lm_ready := []\<rparr>, mr_pc := pc, mr_out := mr_out s @ lm_ready (mr_merge s)\<rparr>)"
  by (rule merge_inv_same [OF inv]) (simp_all add: pending_of_def peek_list_def parked_well_def pc)

lemma merge_inv_pc:
  assumes inv: "merge_inv J f s" and pc: "pc = Waiting \<Longrightarrow> pick (mr_merge s) = None \<and> lm_ready (mr_merge s) = []"
  shows "merge_inv J f (s\<lparr>mr_pc := pc\<rparr>)"
  by (rule merge_inv_same [OF inv]) (simp_all add: parked_well_def pc)

lemma receive_fields:
  "case receive J i m of StillWaiting m' \<Rightarrow> m' = m | WaitClosed m' \<Rightarrow> m' = m
     | Woken m' \<Rightarrow> lm_seen m' = lm_seen m \<and> lm_ready m' = lm_ready m \<and> lm_dead m' = (lm_dead m)(i := False)"
  by (simp add: receive_def set_lines_def accept_dead split: list.split)

lemma merge_inv_since:
  assumes inv: "merge_inv J f s"
  shows "merge_inv J f (s\<lparr>mr_merge := (mr_merge s)\<lparr>lm_waiting_since := x\<rparr>\<rparr>)"
proof -
  have "pick ((mr_merge s)\<lparr>lm_waiting_since := x\<rparr>) = pick (mr_merge s)" by (rule pick_cong) simp_all
  moreover have "parked_well s" using inv by (simp add: merge_inv_def)
  ultimately have "parked_well (s\<lparr>mr_merge := (mr_merge s)\<lparr>lm_waiting_since := x\<rparr>\<rparr>)"
    by (simp add: parked_well_def)
  then show ?thesis by (intro merge_inv_same [OF inv]) (simp_all add: pending_of_def peek_list_def)
qed

lemma merge_inv_received:
  assumes inv: "merge_inv J f s" and r: "receive J i ((mr_merge s)\<lparr>lm_waiting_since := x\<rparr>) = Woken m'"
    and pk: "lm_peek (mr_merge s) i = None"
  shows "merge_inv J f (s\<lparr>mr_merge := m', mr_pc := AtLoop, mr_died := mr_died s\<rparr>)"
proof -
  let ?m = "(mr_merge s)\<lparr>lm_waiting_since := x\<rparr>"
  have ex: "exact_streams J f (mr_sent s) (mr_out s) (mr_merge s)" and sn: "seen_ok (mr_out s) (mr_merge s)"
    using inv by (simp_all add: merge_inv_def)
  have f: "lm_seen m' = lm_seen (mr_merge s)" "lm_ready m' = lm_ready (mr_merge s)"
    "lm_dead m' = (lm_dead (mr_merge s))(i := False)"
    using receive_fields [where J = J and i = i and m = ?m] r by simp_all
  have "exact_streams J f (mr_sent s) (mr_out s) m'"
    using receive_exact [OF r, of f "mr_sent s" "mr_out s"] ex pk by (simp add: exact_upd)
  moreover have "seen_ok (mr_out s) m'" using sn seen_ok_cong [OF f(1), of "mr_out s" "mr_out s"] f(2) by simp
  moreover have "\<not> mr_died s \<Longrightarrow> (\<forall>i. \<not> lm_dead m' i) \<and> gates J f (mr_sent s) (mr_out s @ lm_ready m')"
    using inv f by (simp add: merge_inv_def)
  ultimately show ?thesis by (simp add: merge_inv_def parked_well_def)
qed

lemma merge_inv_dead:
  assumes inv: "merge_inv J f s"
  shows "merge_inv J f (s\<lparr>mr_merge := (mr_merge s)\<lparr>lm_dead := d, lm_waiting_since := x\<rparr>, mr_pc := AtLoop, mr_died := True\<rparr>)"
proof -
  have "exact_streams J f (mr_sent s) (mr_out s) (mr_merge s)" "seen_ok (mr_out s) (mr_merge s)"
    using inv by (simp_all add: merge_inv_def)
  moreover have "seen_ok (mr_out s) ((mr_merge s)\<lparr>lm_dead := d, lm_waiting_since := x\<rparr>) = seen_ok (mr_out s) (mr_merge s)"
    by (rule seen_ok_cong) simp_all
  ultimately show ?thesis by (simp add: merge_inv_def parked_well_def exact_upd)
qed

lemma merge_inv_step:
  assumes inv: "merge_inv J f s" and st: "merge_step J s s'"
  shows "merge_inv J f s'"
  using st
proof cases
  case (sends i l)
  then show ?thesis using merge_inv_send [OF inv] by simp
next
  case (closes i)
  then show ?thesis using merge_inv_close [OF inv] by simp
next
  case full
  then show ?thesis using merge_inv_flush [OF inv, of AtLoop] by simp
next
  case (refill_s ok m')
  then show ?thesis using merge_inv_refill [OF inv refill_s(4)] by simp
next
  case (refill_d ok m')
  then show ?thesis using merge_inv_refill [OF inv refill_d(3)] by simp
next
  case (picks i p)
  then show ?thesis using merge_inv_hand_out [OF inv] by simp
next
  case returns
  then show ?thesis using merge_inv_flush [OF inv, of AtLoop] by simp
next
  case parks
  then show ?thesis using merge_inv_pc [OF inv] by simp
next
  case cancelled
  then show ?thesis using merge_inv_pc [OF inv, of AtLoop] by simp
next
  case (stays now w m')
  have "pick (mr_merge s) = None" using inv stays(2) by (simp add: merge_inv_def parked_well_def)
  with stays(3) have "\<exists>x. m' = (mr_merge s)\<lparr>lm_waiting_since := x\<rparr>"
  proof (cases rule: wait_cases)
    case (line x i)
    have "m' = (mr_merge s)\<lparr>lm_waiting_since := x\<rparr>"
      using receive_fields [where J = J and i = i and m = "(mr_merge s)\<lparr>lm_waiting_since := x\<rparr>"]
      unfolding line(1) [symmetric] by simp
    then show ?thesis ..
  qed auto
  then show ?thesis using merge_inv_since [OF inv] stays(1) by auto
next
  case (wakes now w m')
  have "pick (mr_merge s) = None" using inv wakes(2) by (simp add: merge_inv_def parked_well_def)
  with wakes(3) show ?thesis
  proof (cases rule: wait_cases)
    case (line x i)
    then show ?thesis using merge_inv_received [OF inv line(1) [symmetric] line(2)] wakes(1) by simp
  next
    case (dead i)
    then show ?thesis using merge_inv_dead [OF inv] wakes(1) by simp
  qed simp
next
  case (ends now w m')
  have "pick (mr_merge s) = None" using inv ends(2) by (simp add: merge_inv_def parked_well_def)
  with ends(3) have "\<exists>x. m' = (mr_merge s)\<lparr>lm_waiting_since := x\<rparr>"
  proof (cases rule: wait_cases)
    case (line x i)
    have "m' = (mr_merge s)\<lparr>lm_waiting_since := x\<rparr>"
      using receive_fields [where J = J and i = i and m = "(mr_merge s)\<lparr>lm_waiting_since := x\<rparr>"]
      unfolding line(1) [symmetric] by simp
    then show ?thesis ..
  qed auto
  then obtain x where "m' = (mr_merge s)\<lparr>lm_waiting_since := x\<rparr>" ..
  then have "merge_inv J f (s\<lparr>mr_merge := m'\<rparr>)" using merge_inv_since [OF inv] by simp
  from merge_inv_pc [OF this, of Ended] show ?thesis using ends(1) by simp
qed

lemma merge_inv_reaches: "merge_reaches J f s \<Longrightarrow> merge_inv J f s"
  by (induction rule: merge_reaches.induct) (auto intro: merge_inv_init merge_inv_step)


text \<open>
  C8. Between what has been taken from a stream (handed out, or in the buffer for the next call) and what it
  still holds there is no gap, no duplicate and no change of order: however reading, sending, waiting and
  cancelling interleave, the two are together exactly the lines sent on it that parse and lie above the floor.
\<close>

theorem merge_exactly_once:
  assumes "merge_reaches J f s"
  shows "taken i (mr_out s @ lm_ready (mr_merge s)) @ pending_of J i (mr_merge s) = keep J f i (mr_sent s i)"
  using merge_inv_reaches [OF assms] by (simp add: merge_inv_def exact_streams_def)

lemma gated_sorted:
  assumes g: "gated K n h" and n: "n \<noteq> 0" and m: "n \<le> m" "m < length K" and srt: "sorted (map fst K)"
  shows "unat h \<le> unat (fst (K ! m)) + 32"
proof -
  have le: "fst (K ! k) \<le> fst (K ! m)" if "k \<le> m" for k
    using sorted_nth_mono [OF srt that] m that by simp
  from g n consider k where "k < n" "unat h \<le> unat (fst (K ! k)) + 32" | "h \<le> fst (K ! n)"
    unfolding gated_def by blast
  then show ?thesis
  proof cases
    case (1 k)
    then show ?thesis using le [of k] m by (simp add: word_le_nat_alt)
  next
    case 2
    then have "h \<le> fst (K ! m)" using le [OF m(1)] by simp
    then show ?thesis by (simp add: word_le_nat_alt)
  qed
qed

text \<open>
  C21. As long as no stream was declared dead, streams that come in block order are merged to within the
  lookahead: a batch handed out earlier is at most 32 blocks above any later batch of the other stream, unless
  that stream had not given anything yet when the earlier one was taken.
\<close>

theorem merge_within_lookahead:
  assumes r: "merge_reaches J f s" and alive: "\<not> mr_died s"
    and out: "mr_out s = xs @ x # ys @ y # zs" and src: "snd (snd x) = slot_source i" "snd (snd y) = slot_source (other_slot i)"
    and started: "\<exists>z \<in> set xs. snd (snd z) = slot_source (other_slot i)"
    and srt: "sorted (map fst (keep J f (other_slot i) (mr_sent s (other_slot i))))"
  shows "unat (fst x) \<le> unat (fst y) + 32"
proof -
  let ?j = "other_slot i" and ?m = "mr_merge s"
  let ?K = "keep J f ?j (mr_sent s ?j)"
  have inv: "merge_inv J f s" by (rule merge_inv_reaches [OF r])
  have g: "gates J f (mr_sent s) (mr_out s @ lm_ready ?m)" using inv alive by (simp add: merge_inv_def)
  have all: "mr_out s @ lm_ready ?m = xs @ x # ys @ y # zs @ lm_ready ?m" using out by simp
  have x: "(xs @ x # ys @ y # zs @ lm_ready ?m) ! length xs = x"
    "List.take (length xs) (xs @ x # ys @ y # zs @ lm_ready ?m) = xs" by simp_all
  have gx: "gated ?K (length (taken ?j xs)) (fst x)"
    using gates_at [OF g [unfolded all], of "length xs" i] x src(1) unfolding gate_at_def by simp
  have ne: "length (taken ?j xs) \<noteq> 0" using started by (auto simp: taken_def filter_empty_conv)
  have "?K = taken ?j (xs @ x # ys @ y # zs @ lm_ready ?m) @ pending_of J ?j ?m"
    using inv all by (simp add: merge_inv_def exact_streams_def)
  then have K: "?K = (taken ?j xs @ taken ?j ys) @ (fst y, fst (snd y)) # taken ?j zs @ taken ?j (lm_ready ?m) @ pending_of J ?j ?m"
    using src by (simp add: taken_def)
  have at_y: "?K ! length (taken ?j xs @ taken ?j ys) = (fst y, fst (snd y))" unfolding K by (rule nth_append_length)
  have "length (taken ?j xs @ taken ?j ys) < length ?K" unfolding K by simp
  from gated_sorted [OF gx ne _ this srt] show ?thesis unfolding at_y by simp
qed

section \<open>The loop is an uninterrupted path of the machine\<close>

fun after_take :: "merge_run \<Rightarrow> take_result \<Rightarrow> merge_run" where
  "after_take s (TakeReady rs m) = s\<lparr>mr_merge := m, mr_pc := AtLoop, mr_out := mr_out s @ rs\<rparr>"
| "after_take s (TakeClosed m) = s\<lparr>mr_merge := m, mr_pc := Ended\<rparr>"
| "after_take s (TakeWaits m) = s\<lparr>mr_merge := m, mr_pc := Waiting\<rparr>"

lemma take_loop_full:
  "merge_take \<le> length (lm_ready m) \<Longrightarrow> take_loop J m = TakeReady (lm_ready m) (m\<lparr>lm_ready := []\<rparr>)"
  by (simp add: take_loop.simps)

lemma take_loop_step:
  assumes "\<not> merge_take \<le> length (lm_ready m)" "refill J SlotS m = (ok0, m0)" "refill J SlotD m0 = (ok1, m1)"
  shows "take_loop J m =
     (if \<not> ok0 then TakeClosed m0 else if \<not> ok1 then TakeClosed m1
      else case pick m1 of
             Some i \<Rightarrow> take_loop J (hand_out i (the (lm_peek m1 i)) m1)
           | None \<Rightarrow> if lm_ready m1 \<noteq> [] then TakeReady (lm_ready m1) (m1\<lparr>lm_ready := []\<rparr>) else TakeWaits m1)"
  using assms pick_peeked [of m1]
  by (subst take_loop.simps) (auto split: option.split)

text \<open>Induction over the iterations of the loop.\<close>

lemma take_loop_induct [case_names full closed_s closed_d picked idle]:
  assumes full: "\<And>m. merge_take \<le> length (lm_ready m) \<Longrightarrow> P m (TakeReady (lm_ready m) (m\<lparr>lm_ready := []\<rparr>))"
    and closed_s: "\<And>m m0. \<lbrakk>\<not> merge_take \<le> length (lm_ready m); refill J SlotS m = (False, m0)\<rbrakk> \<Longrightarrow> P m (TakeClosed m0)"
    and closed_d: "\<And>m m0 m1. \<lbrakk>\<not> merge_take \<le> length (lm_ready m); refill J SlotS m = (True, m0); refill J SlotD m0 = (False, m1)\<rbrakk>
          \<Longrightarrow> P m (TakeClosed m1)"
    and picked: "\<And>m m0 m1 i p. \<lbrakk>\<not> merge_take \<le> length (lm_ready m); refill J SlotS m = (True, m0); refill J SlotD m0 = (True, m1);
          pick m1 = Some i; lm_peek m1 i = Some p; P (hand_out i p m1) (take_loop J (hand_out i p m1))\<rbrakk>
          \<Longrightarrow> P m (take_loop J (hand_out i p m1))"
    and idle: "\<And>m m0 m1. \<lbrakk>\<not> merge_take \<le> length (lm_ready m); refill J SlotS m = (True, m0); refill J SlotD m0 = (True, m1);
          pick m1 = None\<rbrakk> \<Longrightarrow>
          P m (if lm_ready m1 \<noteq> [] then TakeReady (lm_ready m1) (m1\<lparr>lm_ready := []\<rparr>) else TakeWaits m1)"
  shows "P m (take_loop J m)"
proof (induction "waiting_work m" arbitrary: m rule: less_induct)
  case less
  show ?case
  proof (cases "merge_take \<le> length (lm_ready m)")
    case True
    then show ?thesis using full take_loop_full by simp
  next
    case False
    obtain ok0 m0 where r0: "refill J SlotS m = (ok0, m0)" by fastforce
    obtain ok1 m1 where r1: "refill J SlotD m0 = (ok1, m1)" by fastforce
    note st = take_loop_step [OF False r0 r1]
    show ?thesis
    proof (cases "ok0 \<and> ok1")
      case no: False
      then show ?thesis using closed_s [OF False, of m0] closed_d [OF False, of m0 m1] r0 r1 st
        by (cases ok0; cases ok1) simp_all
    next
      case True
      show ?thesis
      proof (cases "pick m1")
        case None
        then show ?thesis using idle [OF False, of m0 m1] r0 r1 st True by simp
      next
        case (Some i)
        then obtain p where p: "lm_peek m1 i = Some p" using pick_peeked by blast
        have "waiting_work (hand_out i p m1) < waiting_work m"
          using hand_out_work [OF p] refill_fields(6) [OF r0] refill_fields(6) [OF r1] by linarith
        from less [OF this] show ?thesis
          using picked [OF False, of m0 m1 i p] r0 r1 st True Some p by simp
      qed
    qed
  qed
qed


lemma steps_picks:
  assumes "mr_pc s = AtLoop" "\<not> merge_take \<le> length (lm_ready (mr_merge s))" "refill J SlotS (mr_merge s) = (True, m0)"
    and "refill J SlotD m0 = (True, m1)"
  shows "(merge_step J)\<^sup>*\<^sup>* s (s\<lparr>mr_merge := m1, mr_pc := RefilledBoth\<rparr>)"
proof -
  have "merge_step J s (s\<lparr>mr_merge := m0, mr_pc := RefilledS\<rparr>)" using refill_s [OF assms(1-3)] by simp
  moreover have "merge_step J (s\<lparr>mr_merge := m0, mr_pc := RefilledS\<rparr>) (s\<lparr>mr_merge := m1, mr_pc := RefilledBoth\<rparr>)"
    using refill_d [of "s\<lparr>mr_merge := m0, mr_pc := RefilledS\<rparr>" J True m1] assms(4) by simp
  ultimately show ?thesis by (meson converse_rtranclp_into_rtranclp r_into_rtranclp)
qed

lemma take_path:
  assumes "mr_pc s = AtLoop"
  shows "(merge_step J)\<^sup>*\<^sup>* s (after_take s (take_loop J (mr_merge s)))"
proof -
  have "\<forall>s. mr_pc s = AtLoop \<longrightarrow> mr_merge s = m \<longrightarrow> (merge_step J)\<^sup>*\<^sup>* s (after_take s (take_loop J m))" for m
  proof (induction m rule: take_loop_induct [where J = J])
    case (full m)
    show ?case
    proof (intro allI impI)
      fix s :: merge_run assume s: "mr_pc s = AtLoop" "mr_merge s = m"
      have "merge_step J s (after_take s (TakeReady (lm_ready m) (m\<lparr>lm_ready := []\<rparr>)))"
        using merge_step.full [of s J] s full by simp
      then show "(merge_step J)\<^sup>*\<^sup>* s (after_take s (TakeReady (lm_ready m) (m\<lparr>lm_ready := []\<rparr>)))" ..
    qed
  next
    case (closed_s m m0)
    show ?case
    proof (intro allI impI)
      fix s :: merge_run assume s: "mr_pc s = AtLoop" "mr_merge s = m"
      have "merge_step J s (after_take s (TakeClosed m0))" using refill_s [of s J False m0] s closed_s by simp
      then show "(merge_step J)\<^sup>*\<^sup>* s (after_take s (TakeClosed m0))" ..
    qed
  next
    case (closed_d m m0 m1)
    show ?case
    proof (intro allI impI)
      fix s :: merge_run assume s: "mr_pc s = AtLoop" "mr_merge s = m"
      let ?s = "s\<lparr>mr_merge := m0, mr_pc := RefilledS\<rparr>"
      have "merge_step J s ?s" using refill_s [of s J True m0] s closed_d by simp
      moreover have "merge_step J ?s (after_take s (TakeClosed m1))" using refill_d [of ?s J False m1] closed_d by simp
      ultimately show "(merge_step J)\<^sup>*\<^sup>* s (after_take s (TakeClosed m1))"
        by (meson converse_rtranclp_into_rtranclp r_into_rtranclp)
    qed
  next
    case (picked m m0 m1 i p)
    show ?case
    proof (intro allI impI)
      fix s :: merge_run assume s: "mr_pc s = AtLoop" "mr_merge s = m"
      let ?s = "s\<lparr>mr_merge := m1, mr_pc := RefilledBoth\<rparr>" and ?t = "s\<lparr>mr_merge := hand_out i p m1, mr_pc := AtLoop\<rparr>"
      let ?r = "take_loop J (hand_out i p m1)"
      have "(merge_step J)\<^sup>*\<^sup>* s ?s" using steps_picks [of s J m0 m1] s picked by simp
      moreover have "merge_step J ?s ?t" using picks [of ?s i p J] picked s by simp
      moreover have "(merge_step J)\<^sup>*\<^sup>* ?t (after_take ?t ?r)" using picked s by simp
      moreover have "after_take ?t ?r = after_take s ?r" by (cases ?r) simp_all
      ultimately show "(merge_step J)\<^sup>*\<^sup>* s (after_take s ?r)"
        by (metis (no_types, lifting) rtranclp.rtrancl_into_rtrancl rtranclp_trans)
    qed
  next
    case (idle m m0 m1)
    show ?case
    proof (intro allI impI)
      fix s :: merge_run assume s: "mr_pc s = AtLoop" "mr_merge s = m"
      let ?s = "s\<lparr>mr_merge := m1, mr_pc := RefilledBoth\<rparr>"
      have "(merge_step J)\<^sup>*\<^sup>* s ?s" using steps_picks [of s J m0 m1] s idle by simp
      moreover have "merge_step J ?s (after_take s
          (if lm_ready m1 \<noteq> [] then TakeReady (lm_ready m1) (m1\<lparr>lm_ready := []\<rparr>) else TakeWaits m1))"
        using returns [of ?s J] parks [of ?s J] idle s by simp
      ultimately show "(merge_step J)\<^sup>*\<^sup>* s (after_take s
          (if lm_ready m1 \<noteq> [] then TakeReady (lm_ready m1) (m1\<lparr>lm_ready := []\<rparr>) else TakeWaits m1))" ..
    qed
  qed
  then show ?thesis using assms by blast
qed

text \<open>
  A call of \<open>take\<close> that nothing interrupts is a path of the machine: from any state at the head of the
  loop the machine can reach the state in which the call has returned its batches, found a channel closed or
  begun to wait.
\<close>

theorem take_is_a_path:
  assumes "mr_pc s = AtLoop"
  shows "(merge_step J)\<^sup>*\<^sup>* s (after_take s (take_loop J (mr_merge s)))"
  by (rule take_path [OF assms])

section \<open>What a call returns\<close>

text \<open>
  A call that starts with a buffer no fuller than 64 returns at least one batch and at most 64, and waits
  only with an empty buffer and nothing it may take.
\<close>

theorem take_result_bounds:
  assumes "length (lm_ready m) \<le> merge_take"
  shows "case take_loop J m of
           TakeReady rs m' \<Rightarrow> rs \<noteq> [] \<and> length rs \<le> merge_take \<and> lm_ready m' = []
         | TakeClosed m' \<Rightarrow> length (lm_ready m') \<le> merge_take
         | TakeWaits m' \<Rightarrow> lm_ready m' = [] \<and> pick m' = None"
  using assms
proof (induction m rule: take_loop_induct [where J = J])
  case (closed_s m m0)
  then show ?case using refill_fields(3) [OF closed_s(2)] by simp
next
  case (closed_d m m0 m1)
  then show ?case using refill_fields(3) [OF closed_d(2)] refill_fields(3) [OF closed_d(3)] by simp
next
  case (picked m m0 m1 i p)
  have "length (lm_ready (hand_out i p m1)) \<le> merge_take"
    using picked(1) refill_fields(3) [OF picked(2)] refill_fields(3) [OF picked(3)] by (simp add: hand_out_def)
  then show ?case by (rule picked)
next
  case (idle m m0 m1)
  then show ?case using refill_fields(3) [OF idle(2)] refill_fields(3) [OF idle(3)] by simp
qed auto

text \<open>A call never gives up what the buffer already holds.\<close>

lemma take_loop_keeps_ready:
  "case take_loop J m of
     TakeReady rs m' \<Rightarrow> \<exists>rs'. rs = lm_ready m @ rs'
   | TakeClosed m' \<Rightarrow> \<exists>rs'. lm_ready m' = lm_ready m @ rs'
   | TakeWaits m' \<Rightarrow> lm_ready m = []"
proof (induction m rule: take_loop_induct [where J = J])
  case (picked m m0 m1 i p)
  have "lm_ready (hand_out i p m1) = lm_ready m @ [(fst p, snd p, slot_source i)]"
    using refill_fields(3) [OF picked(2)] refill_fields(3) [OF picked(3)] by (simp add: hand_out_def)
  then show ?case using picked(6) by (auto split: take_result.splits)
next
  case (idle m m0 m1)
  then show ?case using refill_fields(3) [OF idle(2)] refill_fields(3) [OF idle(3)] by simp
next
  case (closed_s m m0)
  then show ?case using refill_fields(3) [OF closed_s(2)] by simp
next
  case (closed_d m m0 m1)
  then show ?case using refill_fields(3) [OF closed_d(2)] refill_fields(3) [OF closed_d(3)] by simp
qed simp

lemma refill_nothing: "\<lbrakk>ch_lines (lm_rx m i) = []; \<not> ch_closed (lm_rx m i)\<rbrakk> \<Longrightarrow> refill J i m = (True, m)"
  by (simp add: refill_def set_lines_def fun_upd_idem)

lemma refill_peeked: "lm_peek m i \<noteq> None \<Longrightarrow> refill J i m = (True, m)"
  by (cases "ch_lines (lm_rx m i)") (auto simp: refill_def set_lines_def fun_upd_idem Let_def)

text \<open>
  C30. A stream is not held back forever: if its head waits on the other stream, which delivers nothing, then
  the expiry of ten seconds after the wait began wakes the call, whatever cancellations came between, and the
  call then hands that head out (or keeps it in the buffer, should its own channel close).
\<close>

theorem dead_stream_releases:
  assumes wait: "waiting_on m = Some j" "lm_peek m (other_slot j) = Some p" "lm_ready m = []"
    and timer: "lm_waiting_since m = Some t" "t + merge_dead_wait \<le> now"
    and silent: "ch_lines (lm_rx m j) = []" "\<not> ch_closed (lm_rx m j)"
  shows "\<exists>m'. wait J now (WokeDead j) m = Woken m'
     \<and> (case take_loop J m' of
          TakeReady rs m'' \<Rightarrow> \<exists>rs'. rs = (fst p, snd p, slot_source (other_slot j)) # rs'
        | TakeClosed m'' \<Rightarrow> \<exists>rs'. lm_ready m'' = (fst p, snd p, slot_source (other_slot j)) # rs'
        | TakeWaits m'' \<Rightarrow> False)"
proof -
  let ?i = "other_slot j" and ?m = "m\<lparr>lm_dead := (lm_dead m)(j := True), lm_waiting_since := None\<rparr>"
  have "wait J now (WokeDead j) m = Woken ?m" using wait(1) timer by (simp add: wait_def Let_def)
  moreover have rs: "refill J SlotS ?m = (True, ?m)" and rd: "refill J SlotD ?m = (True, ?m)"
    using refill_nothing [where m = ?m and i = j and J = J] refill_peeked [where m = ?m and i = ?i and J = J] silent wait(2) by (cases j; simp)+
  moreover have "pick ?m = Some ?i"
    using wait pick_None_waiting(2) [OF wait(1)] by (cases j) (simp_all add: pick_def split: prod.split)
  ultimately have "take_loop J ?m = take_loop J (hand_out ?i p ?m)"
    using take_loop_step [OF _ rs rd] wait(2,3) by simp
  moreover have "lm_ready (hand_out ?i p ?m) = [(fst p, snd p, slot_source ?i)]" using wait(3) by (simp add: hand_out_def)
  ultimately show ?thesis
    using take_loop_keeps_ready [where J = J and m = "hand_out ?i p ?m"] \<open>wait J now (WokeDead j) m = Woken ?m\<close>
    by (intro exI [of _ ?m]) (auto split: take_result.splits)
qed


section \<open>Sample runs\<close>

text \<open>Lines whose height is their length.\<close>

definition sample_parsers :: line_parsers where
  "sample_parsers =
     \<lparr>parse_fills = (\<lambda>l. None),
      parse_statuses = (\<lambda>l. Some \<lparr>b_local_time = 0, b_block_time = 0, b_block_number = of_nat (length l), b_events = []\<rparr>),
      parse_diffs = (\<lambda>l. Some \<lparr>b_local_time = 0, b_block_time = 0, b_block_number = of_nat (length l), b_events = []\<rparr>)\<rparr>"

definition sample_send :: "slot \<Rightarrow> string \<Rightarrow> merge_run \<Rightarrow> merge_run" where
  "sample_send i l s = s\<lparr>mr_merge := send_line i l (mr_merge s), mr_sent := (mr_sent s)(i := mr_sent s i @ [l])\<rparr>"

definition sample_take :: "merge_run \<Rightarrow> merge_run" where
  "sample_take s = after_take s (take_loop sample_parsers (mr_merge s))"

lemma sample_send_reaches:
  "\<lbrakk>merge_reaches J f s; \<not> ch_closed (lm_rx (mr_merge s) i)\<rbrakk> \<Longrightarrow> merge_reaches J f (sample_send i l s)"
  unfolding sample_send_def by (rule merge_reaches.goes, assumption, rule merge_step.sends)

lemma reaches_path: "(merge_step J)\<^sup>*\<^sup>* s s' \<Longrightarrow> merge_reaches J f s \<Longrightarrow> merge_reaches J f s'"
  by (induction rule: rtranclp_induct) (auto intro: merge_reaches.goes)

lemma sample_take_reaches:
  "\<lbrakk>merge_reaches sample_parsers f s; mr_pc s = AtLoop\<rbrakk> \<Longrightarrow> merge_reaches sample_parsers f (sample_take s)"
  unfolding sample_take_def by (rule reaches_path [OF take_path])

definition sample_run1 :: merge_run where
  "sample_run1 = sample_take (sample_send SlotD ''a'' (merge_init 0))"

definition sample_run2 :: merge_run where
  "sample_run2 = sample_take (sample_send SlotS ''aaa'' sample_run1)"

definition sample_run3 :: merge_run where
  "sample_run3 = sample_take (sample_send SlotD ''aa'' sample_run2)"

lemma sample_runs_reached:
  "merge_reaches sample_parsers 0 sample_run1" "merge_reaches sample_parsers 0 sample_run2"
  "merge_reaches sample_parsers 0 sample_run3"
proof -
  have i: "merge_reaches sample_parsers 0 (merge_init 0)" by (rule merge_reaches.starts)
  show 1: "merge_reaches sample_parsers 0 sample_run1"
    unfolding sample_run1_def by (rule sample_take_reaches [OF sample_send_reaches [OF i]]; code_simp)
  show 2: "merge_reaches sample_parsers 0 sample_run2"
    unfolding sample_run2_def by (rule sample_take_reaches [OF sample_send_reaches [OF 1]]; code_simp)
  show "merge_reaches sample_parsers 0 sample_run3"
    unfolding sample_run3_def by (rule sample_take_reaches [OF sample_send_reaches [OF 2]]; code_simp)
qed

definition sample_diffs :: "u64 \<Rightarrow> u64 \<times> event_batch \<times> event_source" where
  "sample_diffs h = (h, BBookDiffs \<lparr>b_local_time = 0, b_block_time = 0, b_block_number = h, b_events = []\<rparr>, OrderDiffs)"

definition sample_statuses :: "u64 \<Rightarrow> u64 \<times> event_batch \<times> event_source" where
  "sample_statuses h = (h, BOrders \<lparr>b_local_time = 0, b_block_time = 0, b_block_number = h, b_events = []\<rparr>, OrderStatuses)"

lemma sample_run3_out: "mr_out sample_run3 = [sample_diffs 1, sample_statuses 3, sample_diffs 2]"
  by code_simp

theorem merge_exactly_once_witness:
  "taken SlotD (mr_out sample_run3 @ lm_ready (mr_merge sample_run3)) @ pending_of sample_parsers SlotD (mr_merge sample_run3)
     = keep sample_parsers 0 SlotD (mr_sent sample_run3 SlotD)
   \<and> map fst (keep sample_parsers 0 SlotD (mr_sent sample_run3 SlotD)) = [1, 2]"
  using merge_exactly_once [OF sample_runs_reached(3), of SlotD]
  by (rule conjI) code_simp

theorem merge_within_lookahead_witness:
  "unat (fst (sample_statuses 3)) \<le> unat (fst (sample_diffs 2)) + 32"
proof (rule merge_within_lookahead [OF sample_runs_reached(3), of "[sample_diffs 1]" _ "[]" _ "[]" SlotS])
  show "\<not> mr_died sample_run3" by code_simp
  show "mr_out sample_run3 = [sample_diffs 1] @ sample_statuses 3 # [] @ sample_diffs 2 # []"
    by (simp add: sample_run3_out)
  show "sorted (map fst (keep sample_parsers 0 (other_slot SlotS) (mr_sent sample_run3 (other_slot SlotS))))"
    by code_simp
qed (simp_all add: sample_statuses_def sample_diffs_def)

theorem take_is_a_path_witness:
  "(merge_step sample_parsers)\<^sup>*\<^sup>* (sample_send SlotD ''a'' (merge_init 0)) sample_run1 \<and> length (mr_out sample_run1) = 1"
proof
  have "mr_pc (sample_send SlotD ''a'' (merge_init 0)) = AtLoop" by code_simp
  from take_is_a_path [OF this, of sample_parsers]
  show "(merge_step sample_parsers)\<^sup>*\<^sup>* (sample_send SlotD ''a'' (merge_init 0)) sample_run1"
    unfolding sample_run1_def sample_take_def .
  show "length (mr_out sample_run1) = 1" by code_simp
qed

theorem take_result_bounds_witness:
  "case take_loop sample_parsers (mr_merge (sample_send SlotD ''a'' (merge_init 0))) of
     TakeReady rs m' \<Rightarrow> rs \<noteq> [] \<and> length rs \<le> merge_take \<and> lm_ready m' = []
   | TakeClosed m' \<Rightarrow> length (lm_ready m') \<le> merge_take
   | TakeWaits m' \<Rightarrow> lm_ready m' = [] \<and> pick m' = None"
  by (rule take_result_bounds) code_simp

text \<open>A diff of height 40 waits on the statuses, whose last batch was of height 1.\<close>

definition sample_held :: live_merge where
  "sample_held =
     (merge_new (\<lambda>i. \<lparr>ch_lines = [], ch_closed = False\<rparr>))
       \<lparr>lm_peek := (\<lambda>i. None)(SlotD := Some (40, BBookDiffs \<lparr>b_local_time = 0, b_block_time = 0, b_block_number = 40, b_events = []\<rparr>)),
        lm_seen := (\<lambda>i. 1), lm_waiting_since := Some 5\<rparr>"

theorem dead_stream_releases_witness:
  "pick sample_held = None
   \<and> (\<exists>m'. wait sample_parsers 10005 (WokeDead SlotS) sample_held = Woken m'
       \<and> (case take_loop sample_parsers m' of
            TakeReady rs m'' \<Rightarrow> \<exists>rs'. rs = (40, BBookDiffs \<lparr>b_local_time = 0, b_block_time = 0, b_block_number = 40, b_events = []\<rparr>,
                                            slot_source (other_slot SlotS)) # rs'
          | TakeClosed m'' \<Rightarrow> \<exists>rs'. lm_ready m'' = (40, BBookDiffs \<lparr>b_local_time = 0, b_block_time = 0, b_block_number = 40, b_events = []\<rparr>,
                                            slot_source (other_slot SlotS)) # rs'
          | TakeWaits m'' \<Rightarrow> False))"
proof
  show "pick sample_held = None" by code_simp
  have held: "waiting_on sample_held = Some SlotS" "lm_ready sample_held = []" "lm_waiting_since sample_held = Some 5"
    "lm_peek sample_held (other_slot SlotS)
       = Some (40, BBookDiffs \<lparr>b_local_time = 0, b_block_time = 0, b_block_number = 40, b_events = []\<rparr>)"
    "ch_lines (lm_rx sample_held SlotS) = []" "\<not> ch_closed (lm_rx sample_held SlotS)"
    by (simp_all add: sample_held_def merge_new_def waiting_on_def)
  have exp: "5 + merge_dead_wait \<le> (10005 :: nat)" by simp
  show "\<exists>m'. wait sample_parsers 10005 (WokeDead SlotS) sample_held = Woken m'
       \<and> (case take_loop sample_parsers m' of
            TakeReady rs m'' \<Rightarrow> \<exists>rs'. rs = (40, BBookDiffs \<lparr>b_local_time = 0, b_block_time = 0, b_block_number = 40, b_events = []\<rparr>,
                                            slot_source (other_slot SlotS)) # rs'
          | TakeClosed m'' \<Rightarrow> \<exists>rs'. lm_ready m'' = (40, BBookDiffs \<lparr>b_local_time = 0, b_block_time = 0, b_block_number = 40, b_events = []\<rparr>,
                                            slot_source (other_slot SlotS)) # rs'
          | TakeWaits m'' \<Rightarrow> False)"
    using dead_stream_releases [OF held(1,4,2,3) exp held(5,6), of sample_parsers] unfolding fst_conv snd_conv .
qed

end
