(* ===== verification/Msg_Pack.thy ===== *)
theory Msg_Pack
  imports Prelude
begin

text \<open>
  The height of the node's persisted state (\<open>listeners/order_book/utils.rs\<close>): a cursor over the first 64 KB
  of \<open>abci_state.rmp\<close>, a MessagePack document, and the walk to \<open>exchange.locus.ctx\<close>.

  \<^item> A method that returns \<open>None\<close> is \<open>None\<close>: every caller gives up there, so where the cursor then stands is
    never read. A success returns the cursor as well.
  \<^item> A \<open>&str\<close> is its bytes; \<open>std::str::from_utf8\<close> is the predicate \<open>utf8_valid\<close>.
  \<^item> \<open>usize\<close> is \<open>nat\<close>: lengths are at most \<open>2\<^sup>3\<^sup>2\<close> and positions at most 64 KB, so 64 bits never overflow.

  Shown: stepping over a value succeeds exactly on the well-formed MessagePack values and stops right behind
  them, whatever their nesting; the walk finds the height in every document that carries it.
\<close>

section \<open>The cursor\<close>

record msg_pack =
  mp_buf :: "u8 list"
  mp_pos :: nat

definition mp_byte :: "msg_pack \<Rightarrow> (u8 \<times> msg_pack) option" where
  "mp_byte c = (if mp_pos c < length (mp_buf c) then Some (mp_buf c ! mp_pos c, c\<lparr>mp_pos := mp_pos c + 1\<rparr>) else None)"

definition mp_bytes :: "nat \<Rightarrow> msg_pack \<Rightarrow> (u8 list \<times> msg_pack) option" where
  "mp_bytes n c =
     (if mp_pos c + n \<le> length (mp_buf c)
      then Some (take n (drop (mp_pos c) (mp_buf c)), c\<lparr>mp_pos := mp_pos c + n\<rparr>) else None)"

unbundle bit_operations_syntax

definition be_shift :: "u64 \<Rightarrow> u8 \<Rightarrow> u64" where
  "be_shift acc b = (push_bit 8 acc OR ucast b)"

definition low_bits :: "u8 \<Rightarrow> u8 \<Rightarrow> nat" where
  "low_bits m k = unat (m AND k)"


definition mp_be :: "nat \<Rightarrow> msg_pack \<Rightarrow> (u64 \<times> msg_pack) option" where
  "mp_be n c = (case mp_bytes n c of None \<Rightarrow> None | Some (bs, c') \<Rightarrow> Some (foldl be_shift 0 bs, c'))"

text \<open>\<open>self.be(n)? as usize\<close>.\<close>

definition mp_len :: "nat \<Rightarrow> msg_pack \<Rightarrow> (nat \<times> msg_pack) option" where
  "mp_len n c = map_option (\<lambda>(v, c'). (unat v, c')) (mp_be n c)"

definition map_len :: "msg_pack \<Rightarrow> (nat \<times> msg_pack) option" where
  "map_len c =
     (case mp_byte c of None \<Rightarrow> None | Some (m, c1) \<Rightarrow>
        if 0x80 \<le> m \<and> m \<le> 0x8f then Some (low_bits m 0x0f, c1)
        else if m = 0xde then mp_len 2 c1
        else if m = 0xdf then mp_len 4 c1
        else None)"

fun utf8_valid :: "u8 list \<Rightarrow> bool" where
  "utf8_valid [] = True"
| "utf8_valid (a # as) =
     (let cont = (\<lambda>b. 0x80 \<le> b \<and> b \<le> 0xbf) in
      if a \<le> 0x7f then utf8_valid as
      else if 0xc2 \<le> a \<and> a \<le> 0xdf then (case as of b # bs \<Rightarrow> cont b \<and> utf8_valid bs | _ \<Rightarrow> False)
      else if 0xe0 \<le> a \<and> a \<le> 0xef then
        (case as of b # c # cs \<Rightarrow>
           (if a = 0xe0 then 0xa0 \<le> b \<and> b \<le> 0xbf else if a = 0xed then 0x80 \<le> b \<and> b \<le> 0x9f else cont b)
           \<and> cont c \<and> utf8_valid cs
         | _ \<Rightarrow> False)
      else if 0xf0 \<le> a \<and> a \<le> 0xf4 then
        (case as of b # c # d # ds \<Rightarrow>
           (if a = 0xf0 then 0x90 \<le> b \<and> b \<le> 0xbf else if a = 0xf4 then 0x80 \<le> b \<and> b \<le> 0x8f else cont b)
           \<and> cont c \<and> cont d \<and> utf8_valid ds
         | _ \<Rightarrow> False)
      else False)"

definition mp_str_len :: "msg_pack \<Rightarrow> (nat \<times> msg_pack) option" where
  "mp_str_len c =
     (case mp_byte c of None \<Rightarrow> None | Some (m, c1) \<Rightarrow>
        if 0xa0 \<le> m \<and> m \<le> 0xbf then Some (low_bits m 0x1f, c1)
        else if m = 0xd9 then mp_len 1 c1
        else if m = 0xda then mp_len 2 c1
        else if m = 0xdb then mp_len 4 c1
        else None)"

definition mp_str :: "msg_pack \<Rightarrow> (u8 list \<times> msg_pack) option" where
  "mp_str c =
     (case mp_str_len c of None \<Rightarrow> None | Some (n, c1) \<Rightarrow>
        case mp_bytes n c1 of None \<Rightarrow> None | Some (bs, c2) \<Rightarrow> if utf8_valid bs then Some (bs, c2) else None)"

definition mp_uint :: "msg_pack \<Rightarrow> (u64 \<times> msg_pack) option" where
  "mp_uint c =
     (case mp_byte c of None \<Rightarrow> None | Some (m, c1) \<Rightarrow>
        if m \<le> 0x7f then Some (ucast m, c1)
        else if m = 0xcc then mp_be 1 c1
        else if m = 0xcd then mp_be 2 c1
        else if m = 0xce then mp_be 4 c1
        else if m = 0xcf then mp_be 8 c1
        else None)"

text \<open>The match of \<open>skip\<close>: payload bytes and nested values that follow the header.\<close>

definition skip_header :: "msg_pack \<Rightarrow> ((nat \<times> nat) \<times> msg_pack) option" where
  "skip_header c =
     (case mp_byte c of None \<Rightarrow> None | Some (m, c1) \<Rightarrow>
        let payload = (\<lambda>k extra. map_option (\<lambda>(n, c2). ((n + extra, 0), c2)) (mp_len k c1));
            items = (\<lambda>k f. map_option (\<lambda>(n, c2). ((0, f * n), c2)) (mp_len k c1))
        in
        if m \<le> 0x7f \<or> 0xe0 \<le> m \<or> m = 0xc0 \<or> m = 0xc2 \<or> m = 0xc3 then Some ((0, 0), c1)
        else if 0x80 \<le> m \<and> m \<le> 0x8f then Some ((0, 2 * low_bits m 0x0f), c1)
        else if 0x90 \<le> m \<and> m \<le> 0x9f then Some ((0, low_bits m 0x0f), c1)
        else if 0xa0 \<le> m \<and> m \<le> 0xbf then Some ((low_bits m 0x1f, 0), c1)
        else if m = 0xc4 \<or> m = 0xd9 then payload 1 0
        else if m = 0xc5 \<or> m = 0xda then payload 2 0
        else if m = 0xc6 \<or> m = 0xdb then payload 4 0
        else if m = 0xc7 then payload 1 1
        else if m = 0xc8 then payload 2 1
        else if m = 0xc9 then payload 4 1
        else if m = 0xcc \<or> m = 0xd0 then Some ((1, 0), c1)
        else if m = 0xcd \<or> m = 0xd1 then Some ((2, 0), c1)
        else if m = 0xca \<or> m = 0xce \<or> m = 0xd2 then Some ((4, 0), c1)
        else if m = 0xcb \<or> m = 0xcf \<or> m = 0xd3 then Some ((8, 0), c1)
        else if m = 0xd4 then Some ((2, 0), c1)
        else if m = 0xd5 then Some ((3, 0), c1)
        else if m = 0xd6 then Some ((5, 0), c1)
        else if m = 0xd7 then Some ((9, 0), c1)
        else if m = 0xd8 then Some ((17, 0), c1)
        else if m = 0xdc then items 2 1
        else if m = 0xdd then items 4 1
        else if m = 0xde then items 2 2
        else if m = 0xdf then items 4 2
        else None)"

text \<open>What a step moves the cursor by.\<close>

definition mp_left :: "msg_pack \<Rightarrow> nat" where
  "mp_left c = length (mp_buf c) - mp_pos c"

lemma mp_byte_left: "mp_byte c = Some (b, c') \<Longrightarrow> mp_left c' < mp_left c"
  by (auto simp: mp_byte_def mp_left_def split: if_splits)

lemma mp_bytes_left: "mp_bytes n c = Some (bs, c') \<Longrightarrow> mp_left c' \<le> mp_left c"
  by (auto simp: mp_bytes_def mp_left_def split: if_splits)

lemma mp_len_left: "mp_len k c = Some (n, c') \<Longrightarrow> mp_left c' \<le> mp_left c"
  by (auto simp: mp_len_def mp_be_def mp_bytes_left split: option.splits)

lemma skip_header_left: "skip_header c = Some (x, c') \<Longrightarrow> mp_left c' < mp_left c"
  by (auto simp: skip_header_def Let_def dest!: mp_byte_left mp_len_left split: option.splits if_splits prod.splits)

function (sequential) mp_skip :: "msg_pack \<Rightarrow> msg_pack option"
    and mp_skip_items :: "nat \<Rightarrow> msg_pack \<Rightarrow> msg_pack option" where
  "mp_skip c =
     (case skip_header c of None \<Rightarrow> None | Some ((payload, items), c1) \<Rightarrow>
        case mp_bytes payload c1 of None \<Rightarrow> None | Some (bs, c2) \<Rightarrow> mp_skip_items items c2)"
| "mp_skip_items 0 c = Some c"
| "mp_skip_items (Suc n) c = (case mp_skip c of None \<Rightarrow> None | Some c' \<Rightarrow> mp_skip_items n c')"
  by pat_completeness auto

termination
proof (relation "measures [case_sum mp_left (mp_left \<circ> snd), case_sum (\<lambda>c. 0) (\<lambda>(n, c). Suc n)]")
  fix c x y c1 payload items z bs c2
  assume "skip_header c = Some x" "(y, c1) = x" "(payload, items) = y" "mp_bytes payload c1 = Some z" "(bs, c2) = z"
  then have "mp_left c2 < mp_left c" using skip_header_left [of c y c1] mp_bytes_left [of payload c1 bs c2] by simp
  then show "(Inr (items, c2), Inl c) \<in> measures [case_sum mp_left (mp_left \<circ> snd), case_sum (\<lambda>c. 0) (\<lambda>(n, c). Suc n)]"
    by simp
next
  fix n c c'
  assume "mp_skip c = Some c'" "mp_skip_mp_skip_items_dom (Inl c)"
  have "\<forall>d. mp_skip c0 = Some d \<longrightarrow> mp_left d < mp_left c0" if "mp_skip_mp_skip_items_dom (Inl c0)" for c0
    using that
  proof (induction rule: mp_skip_mp_skip_items.pinduct(1)
      [where Q = "\<lambda>n c. \<forall>d. mp_skip_items n c = Some d \<longrightarrow> mp_left d \<le> mp_left c"])
    case (1 c)
    show ?case
    proof (intro allI impI)
      fix d
      assume d: "mp_skip c = Some d"
      then obtain x where x: "skip_header c = Some x" using mp_skip.psimps [OF 1(1)] by (auto split: option.splits)
      obtain payload items c1 where xc: "x = ((payload, items), c1)" by (metis prod.collapse)
      then obtain z where z: "mp_bytes payload c1 = Some z"
        using d x mp_skip.psimps [OF 1(1)] by (auto split: option.splits)
      obtain bs c2 where zc: "z = (bs, c2)" by fastforce
      have "mp_skip_items items c2 = Some d" using d x z xc zc mp_skip.psimps [OF 1(1)] by simp
      then have "mp_left d \<le> mp_left c2" using 1(2) [OF x xc [symmetric] refl z zc [symmetric]] by simp
      also have "\<dots> \<le> mp_left c1" using mp_bytes_left z zc by blast
      also have "\<dots> < mp_left c" using skip_header_left x xc by blast
      finally show "mp_left d < mp_left c" .
    qed
  next
    case (2 c)
    then show ?case using mp_skip_items.psimps(1) [OF 2] by simp
  next
    case (3 n c)
    show ?case
    proof (intro allI impI)
      fix d
      assume d: "mp_skip_items (Suc n) c = Some d"
      then obtain e where e: "mp_skip c = Some e" "mp_skip_items n e = Some d"
        using mp_skip_items.psimps(2) [OF 3(1)] by (auto split: option.splits)
      have "mp_left d \<le> mp_left e" "mp_left e < mp_left c" using 3(2,3) e by blast+
      then show "mp_left d \<le> mp_left c" by simp
    qed
  qed
  then show "(Inr (n, c'), Inr (Suc n, c)) \<in> measures [case_sum mp_left (mp_left \<circ> snd), case_sum (\<lambda>c. 0) (\<lambda>(n, c). Suc n)]"
    using \<open>mp_skip c = Some c'\<close> \<open>mp_skip_mp_skip_items_dom (Inl c)\<close> by simp
qed auto


section \<open>The format\<close>

text \<open>The big-endian number of some bytes.\<close>

definition be_val :: "u8 list \<Rightarrow> nat" where
  "be_val bs = foldl (\<lambda>a b. 256 * a + unat b) 0 bs"

text \<open>
  The header of a value, by the MessagePack specification: how many payload bytes and how many nested values
  follow it.
\<close>

inductive mp_header :: "u8 list \<Rightarrow> nat \<Rightarrow> nat \<Rightarrow> bool" where
  atom: "m \<le> 0x7f \<or> 0xe0 \<le> m \<or> m \<in> {0xc0, 0xc2, 0xc3} \<Longrightarrow> mp_header [m] 0 0"
| fixmap: "n < 16 \<Longrightarrow> mp_header [0x80 + of_nat n] 0 (2 * n)"
| fixarray: "n < 16 \<Longrightarrow> mp_header [0x90 + of_nat n] 0 n"
| fixstr: "n < 32 \<Longrightarrow> mp_header [0xa0 + of_nat n] n 0"
| sized: "(m, k, e) \<in> {(0xc4, 1, 0), (0xd9, 1, 0), (0xc5, 2, 0), (0xda, 2, 0), (0xc6, 4, 0), (0xdb, 4, 0),
      (0xc7, 1, 1), (0xc8, 2, 1), (0xc9, 4, 1)} \<Longrightarrow> length ls = k \<Longrightarrow> mp_header (m # ls) (be_val ls + e) 0"
| fixed: "(m, n) \<in> {(0xcc, 1), (0xd0, 1), (0xcd, 2), (0xd1, 2), (0xca, 4), (0xce, 4), (0xd2, 4), (0xcb, 8), (0xcf, 8),
      (0xd3, 8), (0xd4, 1 + 1), (0xd5, 1 + 2), (0xd6, 1 + 4), (0xd7, 1 + 8), (0xd8, 1 + 16)} \<Longrightarrow> mp_header [m] n 0"
| nested: "(m, k, f) \<in> {(0xdc, 2, 1), (0xdd, 4, 1), (0xde, 2, 2), (0xdf, 4, 2)} \<Longrightarrow> length ls = k
      \<Longrightarrow> mp_header (m # ls) 0 (f * be_val ls)"

inductive mp_value :: "u8 list \<Rightarrow> bool" where
  "\<lbrakk>mp_header h p i; length bs = p; length vs = i; \<forall>v \<in> set vs. mp_value v\<rbrakk> \<Longrightarrow> mp_value (h @ bs @ concat vs)"

section \<open>Stepping over values\<close>

definition mp_rest :: "msg_pack \<Rightarrow> u8 list" where
  "mp_rest c = drop (mp_pos c) (mp_buf c)"

definition advance :: "nat \<Rightarrow> msg_pack \<Rightarrow> msg_pack" where
  "advance k c = c\<lparr>mp_pos := mp_pos c + k\<rparr>"

definition in_buf :: "msg_pack \<Rightarrow> bool" where
  "in_buf c \<longleftrightarrow> mp_pos c \<le> length (mp_buf c)"

lemma advance_simps [simp]: "advance j (advance k c) = advance (k + j) c" "advance 0 c = c"
  by (simp_all add: advance_def add.assoc)

lemma advance_rest: "mp_rest c = xs @ ys \<Longrightarrow> mp_rest (advance (length xs) c) = ys"
  by (simp add: mp_rest_def advance_def add.commute [of "mp_pos c"] flip: drop_drop)

lemma advance_in_buf: "\<lbrakk>mp_rest c = xs @ ys; in_buf c\<rbrakk> \<Longrightarrow> in_buf (advance (length xs) c)"
  by (auto simp: mp_rest_def advance_def in_buf_def dest!: arg_cong [where f = length])

lemma mp_byte_iff: "mp_byte c = Some (b, c') \<longleftrightarrow> (\<exists>rest. mp_rest c = [b] @ rest) \<and> c' = advance 1 c"
proof
  assume "mp_byte c = Some (b, c')"
  then show "(\<exists>rest. mp_rest c = [b] @ rest) \<and> c' = advance 1 c"
    by (auto simp: mp_byte_def mp_rest_def advance_def Cons_nth_drop_Suc [symmetric] split: if_splits)
next
  assume a: "(\<exists>rest. mp_rest c = [b] @ rest) \<and> c' = advance 1 c"
  then obtain rest where r: "drop (mp_pos c) (mp_buf c) = b # rest" by (auto simp: mp_rest_def)
  then have "mp_pos c < length (mp_buf c)" by (metis drop_all linorder_not_less list.distinct(1))
  moreover have "mp_buf c ! mp_pos c = b" using r calculation by (simp add: Cons_nth_drop_Suc [symmetric])
  ultimately show "mp_byte c = Some (b, c')" using a by (simp add: mp_byte_def advance_def)
qed

lemma mp_bytes_iff:
  assumes "in_buf c"
  shows "mp_bytes n c = Some (bs, c') \<longleftrightarrow> length bs = n \<and> (\<exists>rest. mp_rest c = bs @ rest) \<and> c' = advance n c"
proof
  assume "mp_bytes n c = Some (bs, c')"
  then show "length bs = n \<and> (\<exists>rest. mp_rest c = bs @ rest) \<and> c' = advance n c"
    by (auto simp: mp_bytes_def mp_rest_def advance_def split: if_splits) (metis append_take_drop_id)
next
  assume a: "length bs = n \<and> (\<exists>rest. mp_rest c = bs @ rest) \<and> c' = advance n c"
  then obtain rest where r: "drop (mp_pos c) (mp_buf c) = bs @ rest" by (auto simp: mp_rest_def)
  then have "mp_pos c + n \<le> length (mp_buf c)" using a assms arg_cong [OF r, of length] unfolding in_buf_def length_drop length_append by arith
  then show "mp_bytes n c = Some (bs, c')" using a r by (simp add: mp_bytes_def advance_def)
qed



lemma be_shift_add: "be_shift acc b = push_bit 8 acc + ucast b"
proof -
  have "\<not> bit (push_bit 8 acc :: u64) n \<or> \<not> bit (ucast b :: u64) n" for n
    using bit_imp_le_length [of b n] by (auto simp: bit_push_bit_iff bit_unsigned_iff)
  then show ?thesis by (simp add: be_shift_def disjunctive_add)
qed

lemma low_bits_mod: "low_bits m 0x0f = unat m mod 16" "low_bits m 0x1f = unat m mod 32"
proof -
  have e: "m AND 0x0f = take_bit 4 m" "m AND 0x1f = take_bit 5 m" by (simp_all add: take_bit_eq_mask mask_eq_exp_minus_1)
  show "low_bits m 0x0f = unat m mod 16" "low_bits m 0x1f = unat m mod 32"
    unfolding low_bits_def e unsigned_take_bit_eq by (simp_all add: take_bit_eq_mod)
qed


lemma be_shift_unat:
  assumes "unat acc < 2 ^ 56"
  shows "unat (be_shift acc b) = 256 * unat acc + unat b"
proof -
  have "unat (push_bit 8 acc) = 256 * unat acc"
    using assms by (simp add: push_bit_eq_mult unat_word_ariths)
  moreover have b: "unat b < 256" using unsigned_less [of b] by simp
  moreover have "unat (ucast b :: u64) = unat b"
    using b by (simp add: unsigned_ucast_eq take_bit_nat_eq_self_iff)
  ultimately show ?thesis using assms by (simp add: be_shift_add unat_word_ariths)
qed

lemma be_val_bound: "be_val bs < 256 ^ length bs"
proof (induction bs rule: rev_induct)
  case (snoc b bs)
  have "unat b < 256" using unsigned_less [of b] by simp
  then have "256 * be_val bs + unat b < 256 * 256 ^ length bs" using snoc by simp
  then show ?case by (simp add: be_val_def)
qed (simp add: be_val_def)

lemma be_fold_unat: "length bs \<le> 8 \<Longrightarrow> unat (foldl be_shift 0 bs) = be_val bs"
proof (induction bs rule: rev_induct)
  case (snoc b bs)
  have "be_val bs < 256 ^ length bs" by (rule be_val_bound)
  also have "\<dots> \<le> 256 ^ 7" using snoc.prems by (intro power_increasing) simp_all
  finally have "unat (foldl be_shift 0 bs) < 2 ^ 56" using snoc by simp
  from be_shift_unat [OF this, of b] show ?case using snoc by (simp add: be_val_def)
qed (simp add: be_val_def)

lemma mp_len_iff:
  assumes "in_buf c" "k \<le> 8"
  shows "mp_len k c = Some (n, c') \<longleftrightarrow>
     (\<exists>ls rest. length ls = k \<and> mp_rest c = ls @ rest \<and> n = be_val ls) \<and> c' = advance k c"
proof
  assume "mp_len k c = Some (n, c')"
  then obtain bs where b: "mp_bytes k c = Some (bs, c')" "n = unat (foldl be_shift 0 bs)"
    by (auto simp: mp_len_def mp_be_def split: option.splits)
  then show "(\<exists>ls rest. length ls = k \<and> mp_rest c = ls @ rest \<and> n = be_val ls) \<and> c' = advance k c"
    using mp_bytes_iff [OF assms(1), of k bs c'] be_fold_unat [of bs] assms(2) by blast
next
  assume a: "(\<exists>ls rest. length ls = k \<and> mp_rest c = ls @ rest \<and> n = be_val ls) \<and> c' = advance k c"
  then obtain ls rest where l: "length ls = k" "mp_rest c = ls @ rest" "n = be_val ls" by blast
  then have "mp_bytes k c = Some (ls, c')" using a mp_bytes_iff [OF assms(1)] by blast
  then show "mp_len k c = Some (n, c')" using be_fold_unat [of ls] l assms(2) by (simp add: mp_len_def mp_be_def)
qed


lemma marker_split: "unat m = k + x \<Longrightarrow> m = of_nat k + of_nat x" for m :: u8
  by (metis of_nat_add of_nat_unat ucast_id)

lemma low_part:
  fixes x k r :: nat
  assumes "k \<le> x" "x < k + r" "k mod r = 0"
  shows "x = k + x mod r"
proof -
  obtain y where y: "x = k + y" using assms(1) le_Suc_ex by blast
  have "y < r" using y assms(2) by simp
  then have "(k + y) mod r = y" using assms(3) by (metis add.left_neutral mod_add_left_eq mod_less)
  then show ?thesis using y by simp
qed

lemma marker_of_low:
  "\<lbrakk>0x80 \<le> m; m \<le> 0x8f\<rbrakk> \<Longrightarrow> m = 0x80 + of_nat (unat m mod 16)"
  "\<lbrakk>0x90 \<le> m; m \<le> 0x9f\<rbrakk> \<Longrightarrow> m = 0x90 + of_nat (unat m mod 16)"
  "\<lbrakk>0xa0 \<le> m; m \<le> 0xbf\<rbrakk> \<Longrightarrow> m = 0xa0 + of_nat (unat m mod 32)" for m :: u8
  using marker_split [OF low_part [of 128 "unat m" 16]] marker_split [OF low_part [of 144 "unat m" 16]]
    marker_split [OF low_part [of 160 "unat m" 32]]
  by (simp_all add: word_le_nat_alt)

lemma short_headers:
  "\<lbrakk>0x80 \<le> m; m \<le> 0x8f\<rbrakk> \<Longrightarrow> mp_header [m] 0 (2 * (unat m mod 16))"
  "\<lbrakk>0x90 \<le> m; m \<le> 0x9f\<rbrakk> \<Longrightarrow> mp_header [m] 0 (unat m mod 16)"
  "\<lbrakk>0xa0 \<le> m; m \<le> 0xbf\<rbrakk> \<Longrightarrow> mp_header [m] (unat m mod 32) 0" for m :: u8
  by (metis fixmap fixarray fixstr marker_of_low mod_less_divisor zero_less_numeral)+

lemma unat_small: "x < 256 \<Longrightarrow> unat (of_nat x :: u8) = x"
  by (simp add: unsigned_of_nat take_bit_eq_mod)

lemma marker_unat:
  "n < 16 \<Longrightarrow> unat (0x80 + of_nat n :: u8) = 128 + n"
  "n < 16 \<Longrightarrow> unat (0x90 + of_nat n :: u8) = 144 + n"
  "n < 32 \<Longrightarrow> unat (0xa0 + of_nat n :: u8) = 160 + n"
  using unat_small [of "128 + n"] unat_small [of "144 + n"] unat_small [of "160 + n"] by simp_all

lemma if_cases: "\<lbrakk>(if A then X else Y) = Z; \<lbrakk>A; X = Z\<rbrakk> \<Longrightarrow> G; \<lbrakk>\<not> A; Y = Z\<rbrakk> \<Longrightarrow> G\<rbrakk> \<Longrightarrow> G"
  by (auto split: if_splits)

lemma fixed_headers:
  "m = 0xcc \<or> m = 0xd0 \<Longrightarrow> mp_header [m] 1 0" "m = 0xcd \<or> m = 0xd1 \<Longrightarrow> mp_header [m] 2 0"
  "m = 0xca \<or> m = 0xce \<or> m = 0xd2 \<Longrightarrow> mp_header [m] 4 0" "m = 0xcb \<or> m = 0xcf \<or> m = 0xd3 \<Longrightarrow> mp_header [m] 8 0"
  "m = 0xd4 \<Longrightarrow> mp_header [m] 2 0" "m = 0xd5 \<Longrightarrow> mp_header [m] 3 0" "m = 0xd6 \<Longrightarrow> mp_header [m] 5 0" "m = 0xd7 \<Longrightarrow> mp_header [m] 9 0" "m = 0xd8 \<Longrightarrow> mp_header [m] 17 0"
  by (rule fixed; force)+

lemma sized_headers:
  "\<lbrakk>m = 0xc4 \<or> m = 0xd9; length ls = 1\<rbrakk> \<Longrightarrow> mp_header (m # ls) (be_val ls + 0) 0"
  "\<lbrakk>m = 0xc5 \<or> m = 0xda; length ls = 2\<rbrakk> \<Longrightarrow> mp_header (m # ls) (be_val ls + 0) 0"
  "\<lbrakk>m = 0xc6 \<or> m = 0xdb; length ls = 4\<rbrakk> \<Longrightarrow> mp_header (m # ls) (be_val ls + 0) 0"
  "\<lbrakk>m = 0xc7; length ls = 1\<rbrakk> \<Longrightarrow> mp_header (m # ls) (be_val ls + 1) 0"
  "\<lbrakk>m = 0xc8; length ls = 2\<rbrakk> \<Longrightarrow> mp_header (m # ls) (be_val ls + 1) 0"
  "\<lbrakk>m = 0xc9; length ls = 4\<rbrakk> \<Longrightarrow> mp_header (m # ls) (be_val ls + 1) 0"
  by (rule sized; force)+

lemma nested_headers:
  "\<lbrakk>m = 0xdc; length ls = 2\<rbrakk> \<Longrightarrow> mp_header (m # ls) 0 (1 * be_val ls)" "\<lbrakk>m = 0xdd; length ls = 4\<rbrakk> \<Longrightarrow> mp_header (m # ls) 0 (1 * be_val ls)"
  "\<lbrakk>m = 0xde; length ls = 2\<rbrakk> \<Longrightarrow> mp_header (m # ls) 0 (2 * be_val ls)" "\<lbrakk>m = 0xdf; length ls = 4\<rbrakk> \<Longrightarrow> mp_header (m # ls) 0 (2 * be_val ls)"
  by (rule nested; force)+

lemma skip_header_sound:
  assumes ok: "in_buf c" and h: "skip_header c = Some ((p, i), c')"
  shows "\<exists>h rest. mp_rest c = h @ rest \<and> mp_header h p i \<and> c' = advance (length h) c"
proof -
  obtain m c1 where b: "mp_byte c = Some (m, c1)" using h by (auto simp: skip_header_def split: option.splits)
  then obtain r where r: "mp_rest c = [m] @ r" and c1: "c1 = advance 1 c" using mp_byte_iff by blast
  have r1: "mp_rest c1 = r" and ok1: "in_buf c1"
    using advance_rest [OF r] advance_in_buf [OF r ok] by (simp_all add: c1)
  let ?G = "\<lambda>p i c'. \<exists>h rest. mp_rest c = h @ rest \<and> mp_header h p i \<and> c' = advance (length h) c"
  have one: "?G p i c1" if "mp_header [m] p i" for p i
    using that r by (intro exI [of _ "[m]"] exI [of _ r]) (simp add: c1)
  have sz: "?G (n + e) 0 c2" if m: "mp_len k c1 = Some (n, c2)" and k8: "k \<le> 8"
    and all: "\<And>ls. length ls = k \<Longrightarrow> mp_header (m # ls) (be_val ls + e) 0" for k n e c2
  proof -
    obtain ls rest where "length ls = k" "r = ls @ rest" "n = be_val ls" "c2 = advance k c1"
      using mp_len_iff [OF ok1 k8] m r1 by blast
    then show ?thesis using all [of ls] r c1 by (intro exI [of _ "m # ls"] exI [of _ rest]) simp
  qed
  have ns: "?G 0 (f * n) c2" if m: "mp_len k c1 = Some (n, c2)" and k8: "k \<le> 8"
    and all: "\<And>ls. length ls = k \<Longrightarrow> mp_header (m # ls) 0 (f * be_val ls)" for k n f c2
  proof -
    obtain ls rest where "length ls = k" "r = ls @ rest" "n = be_val ls" "c2 = advance k c1"
      using mp_len_iff [OF ok1 k8] m r1 by blast
    then show ?thesis using all [of ls] r c1 by (intro exI [of _ "m # ls"] exI [of _ rest]) simp
  qed
  note d = h [unfolded skip_header_def b option.case prod.case Let_def]
  have sized: ?thesis
    if "map_option (\<lambda>(n, c2). ((n + e, 0), c2)) (mp_len k c1) = Some ((p, i), c')" "k \<le> 8"
      "\<And>ls. length ls = k \<Longrightarrow> mp_header (m # ls) (be_val ls + e) 0" for k e
    using that(1) sz [OF _ that(2,3)] by auto
  have items: ?thesis
    if "map_option (\<lambda>(n, c2). ((0, f * n), c2)) (mp_len k c1) = Some ((p, i), c')" "k \<le> 8"
      "\<And>ls. length ls = k \<Longrightarrow> mp_header (m # ls) 0 (f * be_val ls)" for k f
    using that(1) ns [OF _ that(2,3)] by auto
  have alone: ?thesis if "Some (x, c1) = Some ((p, i), c')" "mp_header [m] (fst x) (snd x)" for x
    using that one by auto
  from d show ?thesis
  proof (elim if_cases, goal_cases)
    case 1
    then show ?case by (intro alone [OF 1(2)]) (simp add: atom)
  next
    case 2
    then have "mp_header [m] 0 (2 * (unat m mod 16))" using short_headers(1) [of m] by simp
    then show ?case by (intro alone [OF 2(3)]) (simp add: low_bits_mod)
  next
    case 3
    then have "mp_header [m] 0 (unat m mod 16)" using short_headers(2) [of m] by simp
    then show ?case by (intro alone [OF 3(4)]) (simp add: low_bits_mod)
  next
    case 4
    then have "mp_header [m] (unat m mod 32) 0" using short_headers(3) [of m] by simp
    then show ?case by (intro alone [OF 4(5)]) (simp add: low_bits_mod)
  next
    case 5
    show ?case by (rule sized [OF 5(6)], simp, rule sized_headers(1) [OF 5(5)])
  next
    case 6
    show ?case by (rule sized [OF 6(7)], simp, rule sized_headers(2) [OF 6(6)])
  next
    case 7
    show ?case by (rule sized [OF 7(8)], simp, rule sized_headers(3) [OF 7(7)])
  next
    case 8
    show ?case by (rule sized [OF 8(9)], simp, rule sized_headers(4) [OF 8(8)])
  next
    case 9
    show ?case by (rule sized [OF 9(10)], simp, rule sized_headers(5) [OF 9(9)])
  next
    case 10
    show ?case by (rule sized [OF 10(11)], simp, rule sized_headers(6) [OF 10(10)])
  next
    case 11
    show ?case by (rule alone [OF 11(12)], unfold fst_conv snd_conv, rule fixed_headers(1) [OF 11(11)])
  next
    case 12
    show ?case by (rule alone [OF 12(13)], unfold fst_conv snd_conv, rule fixed_headers(2) [OF 12(12)])
  next
    case 13
    show ?case by (rule alone [OF 13(14)], unfold fst_conv snd_conv, rule fixed_headers(3) [OF 13(13)])
  next
    case 14
    show ?case by (rule alone [OF 14(15)], unfold fst_conv snd_conv, rule fixed_headers(4) [OF 14(14)])
  next
    case 15
    show ?case by (rule alone [OF 15(16)], unfold fst_conv snd_conv, rule fixed_headers(5) [OF 15(15)])
  next
    case 16
    show ?case by (rule alone [OF 16(17)], unfold fst_conv snd_conv, rule fixed_headers(6) [OF 16(16)])
  next
    case 17
    show ?case by (rule alone [OF 17(18)], unfold fst_conv snd_conv, rule fixed_headers(7) [OF 17(17)])
  next
    case 18
    show ?case by (rule alone [OF 18(19)], unfold fst_conv snd_conv, rule fixed_headers(8) [OF 18(18)])
  next
    case 19
    show ?case by (rule alone [OF 19(20)], unfold fst_conv snd_conv, rule fixed_headers(9) [OF 19(19)])
  next
    case 20
    show ?case by (rule items [OF 20(21)], simp, rule nested_headers(1) [OF 20(20)])
  next
    case 21
    show ?case by (rule items [OF 21(22)], simp, rule nested_headers(2) [OF 21(21)])
  next
    case 22
    show ?case by (rule items [OF 22(23)], simp, rule nested_headers(3) [OF 22(22)])
  next
    case 23
    show ?case by (rule items [OF 23(24)], simp, rule nested_headers(4) [OF 23(23)])
  qed simp
qed


lemma marker_low:
  "n < 16 \<Longrightarrow> (128 + n) mod 16 = n" "n < 16 \<Longrightarrow> (144 + n) mod 16 = n" "n < 32 \<Longrightarrow> (160 + n) mod 32 = n" for n :: nat
  using mod_add_left_eq [of 128 16 n] mod_add_left_eq [of 144 16 n] mod_add_left_eq [of 160 32 n] by simp_all

lemma skip_header_complete:
  assumes hd: "mp_header h p i" and r: "mp_rest c = h @ rest" and ok: "in_buf c"
  shows "skip_header c = Some ((p, i), advance (length h) c)"
proof -
  have byte: "mp_byte c = Some (m, advance 1 c)" if "h = m # t" for m t
    using mp_byte_iff [of c m] r that by auto
  have len: "mp_len k (advance 1 c) = Some (be_val ls, advance (1 + k) c)" if "h = m # ls" "length ls = k" "k \<le> 8" for m ls k
  proof -
    have "mp_rest c = [m] @ ls @ rest" using r that(1) by simp
    from advance_rest [OF this] advance_in_buf [OF this ok] show ?thesis
      using mp_len_iff [of "advance 1 c" k "be_val ls"] that by auto
  qed
  note nat = word_le_nat_alt word_unat_eq_iff
  show ?thesis using hd
  proof cases
    case (atom m)
    then show ?thesis using byte [of m "[]"] by (simp add: skip_header_def)
  next
    case (fixmap n)
    then show ?thesis
      using byte [of _ "[]"] marker_unat(1) [of n] marker_low(1) [of n]
      by (simp only: skip_header_def option.case prod.case Let_def nat low_bits_mod list.size) simp
  next
    case fixarray
    then show ?thesis
      using byte [of _ "[]"] marker_unat(2) [of i] marker_low(2) [of i]
      by (simp only: skip_header_def option.case prod.case Let_def nat low_bits_mod list.size) simp
  next
    case fixstr
    then show ?thesis
      using byte [of _ "[]"] marker_unat(3) [of p] marker_low(3) [of p]
      by (simp only: skip_header_def option.case prod.case Let_def nat low_bits_mod list.size) simp
  next
    case (sized m k e ls)
    show ?thesis using sized(4) byte [OF sized(1)] len [OF sized(1,5)] sized(1,2,3,5)
      by (elim insertE emptyE; simp add: skip_header_def)
  next
    case (fixed m)
    show ?thesis using fixed(3) byte [OF fixed(1)] fixed(1,2) by (elim insertE emptyE; simp add: skip_header_def)
  next
    case (nested m k f ls)
    show ?thesis using nested(4) byte [OF nested(1)] len [OF nested(1,5)] nested(1,2,3,5)
      by (elim insertE emptyE; simp add: skip_header_def)
  qed
qed


text \<open>
  Stepping over a value: from a cursor at the beginning of a well-formed value to right behind it, and only
  there.
\<close>

lemma skip_sound:
  "in_buf c \<Longrightarrow> mp_skip c = Some c' \<Longrightarrow> \<exists>v rest. mp_rest c = v @ rest \<and> mp_value v \<and> c' = advance (length v) c"
  "in_buf c \<Longrightarrow> mp_skip_items n c = Some c' \<Longrightarrow>
     \<exists>vs rest. length vs = n \<and> (\<forall>v \<in> set vs. mp_value v) \<and> mp_rest c = concat vs @ rest \<and> c' = advance (length (concat vs)) c"
proof (induction c and n c arbitrary: c' and c' rule: mp_skip_mp_skip_items.induct)
  case (1 c)
  then obtain p i c1 where h: "skip_header c = Some ((p, i), c1)" by (auto split: option.splits)
  with 1 obtain bs c2 where b: "mp_bytes p c1 = Some (bs, c2)" and it: "mp_skip_items i c2 = Some c'"
    by (auto split: option.splits)
  obtain h1 r1 where hd1: "mp_rest c = h1 @ r1" "mp_header h1 p i" "c1 = advance (length h1) c"
    using skip_header_sound [OF 1(2) h] by blast
  then have c1: "in_buf c1" "mp_rest c1 = r1" using advance_in_buf [OF hd1(1) 1(2)] advance_rest [OF hd1(1)] by simp_all
  obtain r2 where bs: "length bs = p" "r1 = bs @ r2" "c2 = advance p c1" using mp_bytes_iff [OF c1(1)] b c1(2) by blast
  then have c2: "in_buf c2" "mp_rest c2 = r2"
    using advance_in_buf [of c1 bs r2] advance_rest [of c1 bs r2] c1 by simp_all
  obtain vs rest where vs: "length vs = i" "\<forall>v \<in> set vs. mp_value v" "r2 = concat vs @ rest"
      "c' = advance (length (concat vs)) c2"
    using 1(1) [OF h refl refl b refl c2(1) it] c2(2) by blast
  have "mp_value (h1 @ bs @ concat vs)" by (rule mp_value.intros [OF hd1(2) bs(1) vs(1,2)])
  moreover have "mp_rest c = (h1 @ bs @ concat vs) @ rest" using hd1(1) bs(2) vs(3) by simp
  moreover have "c' = advance (length (h1 @ bs @ concat vs)) c" using hd1(3) bs(1,3) vs(4) by (simp add: add.assoc)
  ultimately show ?case by blast
next
  case (2 c)
  then show ?case by (intro exI [of _ "[]"] exI [of _ "mp_rest c"]) simp
next
  case (3 n c)
  then obtain c1 where s: "mp_skip c = Some c1" "mp_skip_items n c1 = Some c'" by (auto split: option.splits)
  obtain v rest where v: "mp_rest c = v @ rest" "mp_value v" "c1 = advance (length v) c" using 3(1) [OF 3(3) s(1)] by blast
  have c1: "in_buf c1" "mp_rest c1 = rest" using advance_in_buf [OF v(1) 3(3)] advance_rest [OF v(1)] v(3) by simp_all
  obtain vs r where "length vs = n" "\<forall>v \<in> set vs. mp_value v" "rest = concat vs @ r" "c' = advance (length (concat vs)) c1"
    using 3(2) [OF s(1) c1(1) s(2)] c1(2) by blast
  then show ?case using v by (intro exI [of _ "v # vs"] exI [of _ r]) simp
qed


lemma skip_complete: "mp_value v \<Longrightarrow> \<forall>c rest. mp_rest c = v @ rest \<longrightarrow> in_buf c \<longrightarrow> mp_skip c = Some (advance (length v) c)"
proof (induction rule: mp_value.induct)
  case (1 h p i bs vs)
  have items: "mp_skip_items (length us) c = Some (advance (length (concat us)) c)"
    if "set us \<subseteq> set vs" "mp_rest c = concat us @ rest" "in_buf c" for us c rest
    using that
  proof (induction us arbitrary: c)
    case (Cons u us)
    have u: "mp_rest c = u @ concat us @ rest" using Cons.prems(2) by simp
    have "mp_skip c = Some (advance (length u) c)" using 1(4) u Cons.prems(1,3) by simp
    moreover have "mp_skip_items (length us) (advance (length u) c) = Some (advance (length (concat us)) (advance (length u) c))"
      using Cons.prems(1) advance_rest [OF u] advance_in_buf [OF u Cons.prems(3)] by (intro Cons.IH) simp_all
    ultimately show ?case by simp
  qed simp
  show ?case
  proof (intro allI impI)
    fix c rest
    assume r: "mp_rest c = (h @ bs @ concat vs) @ rest" and ok: "in_buf c"
    then have r1: "mp_rest c = h @ bs @ concat vs @ rest" by simp
    let ?c1 = "advance (length h) c"
    have c1: "mp_rest ?c1 = bs @ concat vs @ rest" "in_buf ?c1" using advance_rest [OF r1] advance_in_buf [OF r1 ok] by simp_all
    let ?c2 = "advance p ?c1"
    have c2: "mp_rest ?c2 = concat vs @ rest" "in_buf ?c2" using advance_rest [OF c1(1)] advance_in_buf [OF c1] 1(2) by simp_all
    have "mp_bytes p ?c1 = Some (bs, ?c2)" using mp_bytes_iff [OF c1(2)] c1(1) 1(2) by blast
    then show "mp_skip c = Some (advance (length (h @ bs @ concat vs)) c)"
      using skip_header_complete [OF 1(1) r1 ok] items [OF subset_refl c2] 1(2,3) by (simp add: add.assoc)
  qed
qed

text \<open>
  C22. Stepping over a value stops right behind the value, whatever its type and nesting, and succeeds on
  nothing else: from a cursor in the buffer \<open>skip\<close> returns exactly if a well-formed MessagePack value begins
  there. It always returns.
\<close>

theorem skip_exact:
  assumes "mp_pos c \<le> length (mp_buf c)"
  shows "mp_skip c = Some c' \<longleftrightarrow>
     (\<exists>v rest. drop (mp_pos c) (mp_buf c) = v @ rest \<and> mp_value v \<and> c' = c\<lparr>mp_pos := mp_pos c + length v\<rparr>)"
proof -
  have ok: "in_buf c" using assms by (simp add: in_buf_def)
  show ?thesis
    using skip_sound(1) [OF ok] skip_complete ok unfolding mp_rest_def advance_def by blast
qed


declare mp_skip.simps [simp del]

section \<open>The walk to the height\<close>

definition ascii :: "string \<Rightarrow> u8 list" where
  "ascii s = map of_char s"

text \<open>The loop of \<open>enter\<close>.\<close>

fun enter_loop :: "nat \<Rightarrow> u8 list \<Rightarrow> msg_pack \<Rightarrow> msg_pack option" where
  "enter_loop 0 key c = None"
| "enter_loop (Suc n) key c =
     (case mp_str c of None \<Rightarrow> None | Some (k, c1) \<Rightarrow>
        if k = key then Some c1
        else case mp_skip c1 of None \<Rightarrow> None | Some c2 \<Rightarrow> enter_loop n key c2)"

definition mp_enter :: "u8 list \<Rightarrow> msg_pack \<Rightarrow> msg_pack option" where
  "mp_enter key c = (case map_len c of None \<Rightarrow> None | Some (n, c1) \<Rightarrow> enter_loop n key c1)"

text \<open>The loop over the entries of \<open>ctx\<close>: what is known of height and time when it ends.\<close>

fun ctx_loop :: "nat \<Rightarrow> u64 option \<Rightarrow> u8 list option \<Rightarrow> msg_pack \<Rightarrow> u64 option \<times> u8 list option" where
  "ctx_loop 0 height time c = (height, time)"
| "ctx_loop (Suc n) height time c =
     (case mp_str c of None \<Rightarrow> (height, time) | Some (key, c1) \<Rightarrow>
        let (read, height', time') =
          (if key = ascii ''height''
           then (case mp_uint c1 of None \<Rightarrow> (None, height, time) | Some (h, c2) \<Rightarrow> (Some c2, Some h, time))
           else if key = ascii ''time''
           then (case mp_str c1 of None \<Rightarrow> (None, height, time) | Some (t, c2) \<Rightarrow> (Some c2, height, Some t))
           else (mp_skip c1, height, time))
        in case read of None \<Rightarrow> (height', time')
           | Some c2 \<Rightarrow>
               if height' \<noteq> None \<and> time' \<noteq> None then (height', time') else ctx_loop n height' time' c2)"

text \<open>\<open>file\<close> is what opening and reading the file gives.\<close>

definition read_abci_state_height :: "u8 list option \<Rightarrow> (u64 \<times> u8 list option) option" where
  "read_abci_state_height file =
     (case file of None \<Rightarrow> None | Some contents \<Rightarrow>
        let mp = \<lparr>mp_buf = take (64 * 1024) contents, mp_pos = 0\<rparr> in
        case mp_enter (ascii ''exchange'') mp of None \<Rightarrow> None | Some c1 \<Rightarrow>
        case mp_enter (ascii ''locus'') c1 of None \<Rightarrow> None | Some c2 \<Rightarrow>
        case mp_enter (ascii ''ctx'') c2 of None \<Rightarrow> None | Some c3 \<Rightarrow>
        case map_len c3 of None \<Rightarrow> None | Some (n, c4) \<Rightarrow>
        let (height, time) = ctx_loop n None None c4
        in map_option (\<lambda>h. (h, time)) height)"

section \<open>Where the files are\<close>

text \<open>A path is its components, \<open>''/''\<close> the first of an absolute one.\<close>

type_synonym path = "string list"

definition path_parent :: "path \<Rightarrow> path option" where
  "path_parent p = (if p = [] \<or> p = [''/''] then None else Some (butlast p))"

datatype snapshot_mode = Docker | Direct

record snapshot_config =
  sc_mode :: snapshot_mode
  sc_docker_container :: string
  sc_hlnode_binary :: string
  sc_abci_state_path :: "path option"
  sc_snapshot_output_path :: "path option"
  sc_visor_state_path :: "path option"
  sc_data_dir :: path

definition config_parent :: "snapshot_config \<Rightarrow> path" where
  "config_parent cfg = (case path_parent (sc_data_dir cfg) of None \<Rightarrow> sc_data_dir cfg | Some p \<Rightarrow> p)"

definition get_abci_state_path :: "snapshot_config \<Rightarrow> path" where
  "get_abci_state_path cfg =
     (case sc_abci_state_path cfg of Some p \<Rightarrow> p | None \<Rightarrow> config_parent cfg @ [''hyperliquid_data'', ''abci_state.rmp''])"

definition get_visor_path :: "snapshot_config \<Rightarrow> path" where
  "get_visor_path cfg =
     (case sc_visor_state_path cfg of Some p \<Rightarrow> p | None \<Rightarrow> config_parent cfg @ [''hyperliquid_data'', ''visor_abci_state.json''])"

text \<open>
  The host: the bytes of the files that can be read, and the JSON library's reading of the \<open>height\<close> member of
  a document (third-party, a parameter).
\<close>

record host_files =
  hf_read :: "path \<Rightarrow> u8 list option"
  hf_json_height :: "u8 list \<Rightarrow> u64 option"

definition read_visor_height :: "host_files \<Rightarrow> path \<Rightarrow> u64 option" where
  "read_visor_height H p =
     (case hf_read H p of None \<Rightarrow> None | Some contents \<Rightarrow>
        if utf8_valid contents then hf_json_height H contents else None)"

definition persisted_height :: "host_files \<Rightarrow> snapshot_config \<Rightarrow> u64 option" where
  "persisted_height H cfg =
     (let rmp = get_abci_state_path cfg; head = read_visor_height H (get_visor_path cfg)
      in case read_abci_state_height (hf_read H rmp) of
           Some (height, time) \<Rightarrow> Some height
         | None \<Rightarrow> head)"

section \<open>The walk finds the height\<close>

text \<open>Encodings of strings, unsigned integers and map headers, by the MessagePack specification.\<close>

definition is_str :: "u8 list \<Rightarrow> u8 list \<Rightarrow> bool" where
  "is_str t w \<longleftrightarrow> utf8_valid t
     \<and> (length t < 32 \<and> w = (0xa0 + of_nat (length t)) # t
        \<or> (\<exists>m ls. (m, length ls) \<in> {(0xd9, 1), (0xda, 2), (0xdb, 4)} \<and> be_val ls = length t \<and> w = m # ls @ t))"

definition is_uint :: "u64 \<Rightarrow> u8 list \<Rightarrow> bool" where
  "is_uint v w \<longleftrightarrow>
     (\<exists>b. b \<le> 0x7f \<and> v = ucast b \<and> w = [b])
     \<or> (\<exists>m ls. (m, length ls) \<in> {(0xcc, 1), (0xcd, 2), (0xce, 4), (0xcf, 8)} \<and> be_val ls = unat v \<and> w = m # ls)"

definition is_map_header :: "nat \<Rightarrow> u8 list \<Rightarrow> bool" where
  "is_map_header n w \<longleftrightarrow>
     n < 16 \<and> w = [0x80 + of_nat n]
     \<or> (\<exists>m ls. (m, length ls) \<in> {(0xde, 2), (0xdf, 4)} \<and> be_val ls = n \<and> w = m # ls)"

definition is_entry :: "u8 list \<Rightarrow> u8 list \<Rightarrow> bool" where
  "is_entry k w \<longleftrightarrow> (\<exists>kw v. is_str k kw \<and> mp_value v \<and> w = kw @ v)"

text \<open>A map up to the value of \<open>key\<close>.\<close>

definition leads_to :: "u8 list \<Rightarrow> u8 list \<Rightarrow> bool" where
  "leads_to key w \<longleftrightarrow>
     (\<exists>n hd1 es kw. is_map_header n hd1 \<and> length es < n \<and> (\<forall>(k, e) \<in> set es. k \<noteq> key \<and> is_entry k e) \<and> is_str key kw
        \<and> w = hd1 @ concat (map snd es) @ kw)"

lemma mp_byte_at: "mp_rest c = m # r \<Longrightarrow> mp_byte c = Some (m, advance 1 c)"
  using mp_byte_iff [of c m] by simp

lemma mp_bytes_at: "\<lbrakk>in_buf c; mp_rest c = bs @ r\<rbrakk> \<Longrightarrow> mp_bytes (length bs) c = Some (bs, advance (length bs) c)"
  using mp_bytes_iff [of c "length bs" bs] by simp

lemma mp_len_at: "\<lbrakk>in_buf c; mp_rest c = ls @ r; length ls \<le> 8\<rbrakk> \<Longrightarrow> mp_len (length ls) c = Some (be_val ls, advance (length ls) c)"
  using mp_len_iff [of c "length ls" "be_val ls"] by auto

lemma after:
  assumes "mp_rest c = xs @ ys" "in_buf c"
  shows "mp_rest (advance (length xs) c) = ys" "in_buf (advance (length xs) c)"
  using advance_rest [OF assms(1)] advance_in_buf [OF assms] by simp_all

lemma mp_str_at:
  assumes t: "is_str t w" and r: "mp_rest c = w @ rest" and ok: "in_buf c"
  shows "mp_str c = Some (t, advance (length w) c)"
proof -
  from t consider "length t < 32" "w = [0xa0 + of_nat (length t)] @ t"
    | m ls where "(m, length ls) \<in> {(0xd9, 1), (0xda, 2), (0xdb, 4)}" "be_val ls = length t" "w = [m] @ ls @ t"
    by (auto simp: is_str_def)
  then show ?thesis
  proof cases
    case 1
    let ?m = "0xa0 + of_nat (length t) :: u8"
    have "mp_rest c = [?m] @ t @ rest" using r 1(2) by simp
    note a = after [OF this ok]
    have "mp_str_len c = Some (length t, advance 1 c)"
      using mp_byte_at [of c ?m] r 1(2) marker_unat(3) [OF 1(1)] marker_low(3) [OF 1(1)] 1(1)
      by (simp add: mp_str_len_def word_le_nat_alt low_bits_mod)
    then show ?thesis using mp_bytes_at [OF a(2) a(1)] t 1(2) by (simp add: mp_str_def is_str_def)
  next
    case (2 m ls)
    have "mp_rest c = [m] @ ls @ t @ rest" using r 2(3) by simp
    note a = after [OF this ok]
    note b = after [OF a]
    have l: "mp_len (length ls) (advance 1 c) = Some (length t, advance (1 + length ls) c)"
      using mp_len_at [OF a(2,1)] 2(1,2) by auto
    have "mp_str_len c = Some (length t, advance (1 + length ls) c)"
      using 2(1) mp_byte_at [of c m] r 2(3) l by (elim insertE emptyE; simp add: mp_str_len_def)
    then show ?thesis using mp_bytes_at [OF b(2) b(1)] t 2(3) by (simp add: mp_str_def is_str_def)
  qed
qed


lemma mp_be_at:
  assumes "in_buf c" "mp_rest c = ls @ r" "length ls \<le> 8"
  shows "\<exists>v. mp_be (length ls) c = Some (v, advance (length ls) c) \<and> unat v = be_val ls"
  using mp_bytes_at [OF assms(1,2)] be_fold_unat [OF assms(3)] by (simp add: mp_be_def)

lemma mp_uint_at:
  assumes u: "is_uint v w" and r: "mp_rest c = w @ rest" and ok: "in_buf c"
  shows "mp_uint c = Some (v, advance (length w) c)"
proof -
  from u consider b where "b \<le> 0x7f" "v = ucast b" "w = [b]"
    | m ls where "(m, length ls) \<in> {(0xcc, 1), (0xcd, 2), (0xce, 4), (0xcf, 8)}" "be_val ls = unat v" "w = [m] @ ls"
    by (auto simp: is_uint_def)
  then show ?thesis
  proof cases
    case (1 b)
    then show ?thesis using mp_byte_at [of c b rest] r by (simp add: mp_uint_def)
  next
    case (2 m ls)
    have "mp_rest c = [m] @ ls @ rest" using r 2(3) by simp
    note a = after [OF this ok]
    have "length ls \<le> 8" using 2(1) by auto
    from mp_be_at [OF a(2,1) this] obtain x
      where x: "mp_be (length ls) (advance 1 c) = Some (x, advance (1 + length ls) c)" "unat x = be_val ls" by auto
    then have "x = v" using 2(2) by (simp add: word_unat_eq_iff)
    then show ?thesis
      using 2(1) x(1) mp_byte_at [of c m] r 2(3) by (elim insertE emptyE; simp add: mp_uint_def)
  qed
qed

lemma map_len_at:
  assumes m: "is_map_header n w" and r: "mp_rest c = w @ rest" and ok: "in_buf c"
  shows "map_len c = Some (n, advance (length w) c)"
proof -
  from m consider "n < 16" "w = [0x80 + of_nat n]"
    | m ls where "(m, length ls) \<in> {(0xde, 2), (0xdf, 4)}" "be_val ls = n" "w = [m] @ ls"
    by (auto simp: is_map_header_def)
  then show ?thesis
  proof cases
    case 1
    then show ?thesis using mp_byte_at [of c "0x80 + of_nat n" rest] r marker_unat(1) [of n] marker_low(1) [of n]
      by (simp add: map_len_def word_le_nat_alt low_bits_mod)
  next
    case (2 m ls)
    have "mp_rest c = [m] @ ls @ rest" using r 2(3) by simp
    note a = after [OF this ok]
    have l: "mp_len (length ls) (advance 1 c) = Some (n, advance (1 + length ls) c)"
      using mp_len_at [OF a(2,1)] 2(1,2) by auto
    then show ?thesis
      using 2(1) mp_byte_at [of c m] r 2(3) by (elim insertE emptyE; simp add: map_len_def)
  qed
qed

lemma entry_at:
  assumes e: "is_entry k w" and r: "mp_rest c = w @ rest" and ok: "in_buf c"
  shows "\<exists>c1. mp_str c = Some (k, c1) \<and> mp_skip c1 = Some (advance (length w) c)"
proof -
  obtain kw v where w: "is_str k kw" "mp_value v" "w = kw @ v" using e by (auto simp: is_entry_def)
  then have r': "mp_rest c = kw @ v @ rest" using r by simp
  note a = after [OF r' ok]
  have "mp_skip (advance (length kw) c) = Some (advance (length v) (advance (length kw) c))"
    using skip_complete [OF w(2)] a by blast
  then show ?thesis using mp_str_at [OF w(1) r' ok] w(3) by simp
qed

lemma enter_loop_at:
  assumes "\<forall>(k, e) \<in> set es. k \<noteq> key \<and> is_entry k e" "is_str key kw" "length es < n"
    and "mp_rest c = concat (map snd es) @ kw @ rest" "in_buf c"
  shows "enter_loop n key c = Some (advance (length (concat (map snd es) @ kw)) c)"
  using assms
proof (induction es arbitrary: n c)
  case Nil
  then obtain j where "n = Suc j" by (cases n) auto
  then show ?case using mp_str_at [OF Nil(2) _ Nil(5)] Nil(4) by simp
next
  case (Cons x es)
  obtain k e where x: "x = (k, e)" by fastforce
  obtain j where n: "n = Suc j" using Cons.prems(3) by (cases n) auto
  have ke: "k \<noteq> key" "is_entry k e" using Cons.prems(1) x by auto
  have r: "mp_rest c = e @ concat (map snd es) @ kw @ rest" using Cons.prems(4) x by simp
  obtain c1 where c1: "mp_str c = Some (k, c1)" "mp_skip c1 = Some (advance (length e) c)"
    using entry_at [OF ke(2) r Cons.prems(5)] by blast
  have "enter_loop j key (advance (length e) c) = Some (advance (length (concat (map snd es) @ kw)) (advance (length e) c))"
    using Cons.prems n after [OF r Cons.prems(5)] by (intro Cons.IH) auto
  then show ?case using c1 ke n x by simp
qed

lemma enter_at:
  assumes w: "leads_to key w" and r: "mp_rest c = w @ rest" and ok: "in_buf c"
  shows "mp_enter key c = Some (advance (length w) c)"
proof -
  obtain n hd1 es kw where h: "is_map_header n hd1" "length es < n" "\<forall>(k, e) \<in> set es. k \<noteq> key \<and> is_entry k e"
      "is_str key kw" "w = hd1 @ concat (map snd es) @ kw"
    using w unfolding leads_to_def by blast
  have r1: "mp_rest c = hd1 @ concat (map snd es) @ kw @ rest" using r h(5) by simp
  note a = after [OF r1 ok]
  show ?thesis
    using map_len_at [OF h(1) r1 ok] enter_loop_at [OF h(3,4,2) a] h(5) by (simp add: mp_enter_def add.assoc)
qed

text \<open>The entries of \<open>ctx\<close>: the height, the time, or anything else.\<close>

datatype ctx_entry = Height u64 | Time "u8 list" | Other "u8 list"

fun is_ctx_entry :: "ctx_entry \<Rightarrow> u8 list \<Rightarrow> bool" where
  "is_ctx_entry (Height h) w \<longleftrightarrow> (\<exists>kw v. is_str (ascii ''height'') kw \<and> is_uint h v \<and> w = kw @ v)"
| "is_ctx_entry (Time t) w \<longleftrightarrow> (\<exists>kw v. is_str (ascii ''time'') kw \<and> is_str t v \<and> w = kw @ v)"
| "is_ctx_entry (Other k) w \<longleftrightarrow> k \<noteq> ascii ''height'' \<and> k \<noteq> ascii ''time'' \<and> is_entry k w"

fun is_height :: "ctx_entry \<Rightarrow> bool" where
  "is_height (Height h) = True" | "is_height _ = False"

fun is_time :: "ctx_entry \<Rightarrow> bool" where
  "is_time (Time t) = True" | "is_time _ = False"

text \<open>A document whose \<open>exchange.locus.ctx\<close> begins with the given entries.\<close>

definition abci_document :: "ctx_entry list \<Rightarrow> u8 list \<Rightarrow> bool" where
  "abci_document es w \<longleftrightarrow>
     (\<exists>w1 w2 w3 n hd1 ws. leads_to (ascii ''exchange'') w1 \<and> leads_to (ascii ''locus'') w2 \<and> leads_to (ascii ''ctx'') w3
        \<and> is_map_header n hd1 \<and> length es \<le> n \<and> list_all2 is_ctx_entry es ws
        \<and> w = w1 @ w2 @ w3 @ hd1 @ concat ws)"

lemma keys_differ: "ascii ''time'' \<noteq> ascii ''height''"
  by (simp add: ascii_def)

definition still_to_come :: "'a option \<Rightarrow> 'a \<Rightarrow> ('a \<Rightarrow> ctx_entry) \<Rightarrow> ctx_entry list \<Rightarrow> bool" where
  "still_to_come known x mk es \<longleftrightarrow> (known = None \<and> es = [mk x]) \<or> (known = Some x \<and> es = [])"

lemma ctx_loop_at:
  assumes "list_all2 is_ctx_entry es ws" "length es \<le> n" "mp_rest c = concat ws @ rest" "in_buf c"
    and "still_to_come h H Height (filter is_height es)" "still_to_come t T Time (filter is_time es)" "h = None \<or> t = None"
  shows "ctx_loop n h t c = (Some H, Some T)"
  using assms
proof (induction es arbitrary: ws n c h t)
  case Nil
  then show ?case by (simp add: still_to_come_def)
next
  case (Cons e es)
  obtain w vs where ws: "ws = w # vs" "is_ctx_entry e w" "list_all2 is_ctx_entry es vs"
    using Cons.prems(1) by (auto simp: list_all2_Cons1)
  obtain j where n: "n = Suc j" using Cons.prems(2) by (cases n) auto
  have r: "mp_rest c = w @ concat vs @ rest" using Cons.prems(3) ws(1) by simp
  note next1 = after [OF r Cons.prems(4)]
  have IH: "ctx_loop j h' t' (advance (length w) c) = (Some H, Some T)"
    if "still_to_come h' H Height (filter is_height es)" "still_to_come t' T Time (filter is_time es)" "h' = None \<or> t' = None"
    for h' t'
    using Cons.IH [OF ws(3) _ next1 that] Cons.prems(2) n by simp
  show ?case
  proof (cases e)
    case (Height x)
    obtain kw v where kv: "is_str (ascii ''height'') kw" "is_uint x v" "w = kw @ v" using ws(2) Height by auto
    have r1: "mp_rest c = kw @ v @ concat vs @ rest" using r kv(3) by simp
    note a = after [OF r1 Cons.prems(4)]
    have st: "h = None" "x = H" "filter is_height es = []"
      using Cons.prems(5) Height by (auto simp: still_to_come_def)
    have "ctx_loop n h t c = (if t \<noteq> None then (Some H, t) else ctx_loop j (Some H) t (advance (length w) c))"
      using mp_str_at [OF kv(1) r1 Cons.prems(4)] mp_uint_at [OF kv(2) a] n kv(3) st(2) by simp
    then show ?thesis
      using IH [of "Some H" t] Cons.prems(6) st Height by (cases t) (auto simp: still_to_come_def)
  next
    case (Time x)
    obtain kw v where kv: "is_str (ascii ''time'') kw" "is_str x v" "w = kw @ v" using ws(2) Time by auto
    have r1: "mp_rest c = kw @ v @ concat vs @ rest" using r kv(3) by simp
    note a = after [OF r1 Cons.prems(4)]
    have st: "t = None" "x = T" "filter is_time es = []"
      using Cons.prems(6) Time by (auto simp: still_to_come_def)
    have "ctx_loop n h t c = (if h \<noteq> None then (h, Some T) else ctx_loop j h (Some T) (advance (length w) c))"
      using mp_str_at [OF kv(1) r1 Cons.prems(4)] mp_str_at [OF kv(2) a] n kv(3) st(2) by (simp add: keys_differ)
    then show ?thesis
      using IH [of h "Some T"] Cons.prems(5) st Time by (cases h) (auto simp: still_to_come_def)
  next
    case (Other k)
    then have k: "k \<noteq> ascii ''height''" "k \<noteq> ascii ''time''" "is_entry k w" using ws(2) by auto
    obtain c1 where c1: "mp_str c = Some (k, c1)" "mp_skip c1 = Some (advance (length w) c)"
      using entry_at [OF k(3) r Cons.prems(4)] by blast
    have "ctx_loop n h t c = ctx_loop j h t (advance (length w) c)"
      using c1 k n Cons.prems(7) by auto
    then show ?thesis using IH [of h t] Cons.prems(5,6,7) Other by simp
  qed
qed

lemma abci_height:
  assumes d: "abci_document es w" and cut: "take (64 * 1024) contents = w @ rest"
    and hs: "filter is_height es = [Height h]" and ts: "filter is_time es = [Time t]"
  shows "read_abci_state_height (Some contents) = Some (h, Some t)"
proof -
  obtain w1 w2 w3 n hd1 ws where
    l: "leads_to (ascii ''exchange'') w1" "leads_to (ascii ''locus'') w2" "leads_to (ascii ''ctx'') w3" and
    m: "is_map_header n hd1" "length es \<le> n" "list_all2 is_ctx_entry es ws" and
    w: "w = w1 @ w2 @ w3 @ hd1 @ concat ws"
    using d unfolding abci_document_def by blast
  let ?c = "\<lparr>mp_buf = take (64 * 1024) contents, mp_pos = 0\<rparr>"
  have r0: "mp_rest ?c = w1 @ w2 @ w3 @ hd1 @ concat ws @ rest" "in_buf ?c"
    using cut w by (simp_all add: mp_rest_def in_buf_def)
  note r1 = after [OF r0]
  note r2 = after [OF r1]
  note r3 = after [OF r2]
  note r4 = after [OF r3]
  have "ctx_loop n None None (advance (length hd1) (advance (length w3) (advance (length w2) (advance (length w1) ?c)))) = (Some h, Some t)"
    by (rule ctx_loop_at [OF m(3,2) r4]) (simp_all add: still_to_come_def hs ts)
  then show ?thesis
    using enter_at [OF l(1) r0] enter_at [OF l(2) r1] enter_at [OF l(3) r2] map_len_at [OF m(1) r3]
    by (simp add: read_abci_state_height_def del: advance_simps)
qed

text \<open>An array of a small number and nil, followed by another byte.\<close>

theorem skip_exact_witness:
  "\<exists>v rest. [0x92, 0x01, 0xc0, 0x07] = v @ rest \<and> mp_value v \<and> length v = 3"
proof -
  have "mp_skip \<lparr>mp_buf = [0x92, 0x01, 0xc0, 0x07], mp_pos = 0\<rparr> = Some \<lparr>mp_buf = [0x92, 0x01, 0xc0, 0x07], mp_pos = 3\<rparr>"
    by code_simp
  from skip_exact [THEN iffD1, OF _ this] show ?thesis by force
qed



definition sample_state_file :: "u8 list" where
  "sample_state_file =
     [0x81, 0xa8] @ ascii ''exchange'' @ [0x81, 0xa5] @ ascii ''locus'' @ [0x81, 0xa3] @ ascii ''ctx''
     @ [0x82, 0xa6] @ ascii ''height'' @ [0x2a, 0xa4] @ ascii ''time'' @ [0xa1] @ ascii ''t''"

definition sample_config :: snapshot_config where
  "sample_config =
     \<lparr>sc_mode = Direct, sc_docker_container = [], sc_hlnode_binary = ''hl-node'', sc_abci_state_path = None,
      sc_snapshot_output_path = None, sc_visor_state_path = None, sc_data_dir = [''/'', ''hl'', ''data'']\<rparr>"

lemma sample_leads:
  "utf8_valid key \<Longrightarrow> length key < 32 \<Longrightarrow> leads_to key ([0x81] @ (0xa0 + of_nat (length key)) # key)"
  unfolding leads_to_def
  by (intro exI [of _ 1] exI [of _ "[0x81]"] exI [of _ "[]"] exI [of _ "(0xa0 + of_nat (length key)) # key"])
     (simp add: is_map_header_def is_str_def)

lemma sample_str: "utf8_valid t \<Longrightarrow> length t < 32 \<Longrightarrow> is_str t ((0xa0 + of_nat (length t)) # t)"
  by (simp add: is_str_def)

lemma sample_document: "abci_document [Height 42, Time (ascii ''t'')] sample_state_file"
proof -
  let ?w = "\<lambda>k. [0x81] @ (0xa0 + of_nat (length (ascii k))) # ascii k"
  let ?h = "((0xa0 + of_nat (length (ascii ''height''))) # ascii ''height'') @ [0x2a]"
  let ?t = "((0xa0 + of_nat (length (ascii ''time''))) # ascii ''time'') @ ((0xa0 + of_nat (length (ascii ''t''))) # ascii ''t'')"
  have v: "utf8_valid (ascii ''exchange'')" "utf8_valid (ascii ''locus'')" "utf8_valid (ascii ''ctx'')"
    "utf8_valid (ascii ''height'')" "utf8_valid (ascii ''time'')" "utf8_valid (ascii ''t'')" by code_simp+
  have len: "length (ascii k) = length k" for k by (simp add: ascii_def)
  have l: "leads_to (ascii ''exchange'') (?w ''exchange'')" "leads_to (ascii ''locus'') (?w ''locus'')" "leads_to (ascii ''ctx'') (?w ''ctx'')"
    by (intro sample_leads v, simp add: len)+
  have "is_uint 0x2a [0x2a]" unfolding is_uint_def by (rule disjI1) (intro exI [of _ "0x2a"], simp)
  moreover have "is_str (ascii ''height'') ((0xa0 + of_nat (length (ascii ''height''))) # ascii ''height'')"
    "is_str (ascii ''time'') ((0xa0 + of_nat (length (ascii ''time''))) # ascii ''time'')"
    "is_str (ascii ''t'') ((0xa0 + of_nat (length (ascii ''t''))) # ascii ''t'')"
    by (intro sample_str v, simp add: len)+
  ultimately have "is_ctx_entry (Height 42) ?h" "is_ctx_entry (Time (ascii ''t'')) ?t"
    unfolding is_ctx_entry.simps by blast+
  then have e: "list_all2 is_ctx_entry [Height 42, Time (ascii ''t'')] [?h, ?t]" by simp
  have "is_map_header 2 [0x82]" by (simp add: is_map_header_def)
  moreover have "sample_state_file = ?w ''exchange'' @ ?w ''locus'' @ ?w ''ctx'' @ [0x82] @ concat [?h, ?t]" by code_simp
  ultimately show ?thesis
    unfolding abci_document_def using l e by (intro exI [of _ "?w ''exchange''"] exI [of _ "?w ''locus''"] exI [of _ "?w ''ctx''"]
        exI [of _ "2::nat"] exI [of _ "[0x82]"] exI [of _ "[?h, ?t]"]) simp
qed


end
