(* ===== verification/Main_Loop.thy ===== *)
theory Main_Loop
  imports Live_Merge Msg_Pack
begin

text \<open>
  The main event loop and the snapshot fetch it starts (\<open>hl_listen_hft\<close> and \<open>fetch_snapshot\<close> of
  \<open>listeners/order_book/mod.rs\<close>, \<open>process_rmp_file\<close> of \<open>listeners/order_book/utils.rs\<close>,
  \<open>load_snapshots_from_cli_json\<close> of \<open>order_book/multi_book.rs\<close>).

  \<^item> Each arm of the \<open>select!\<close> is a handler; which of the ready arms runs is left open, \<open>biased\<close> only picks one.
  \<^item> Times are milliseconds of one clock. Running a command, the existence of a file and the JSON reader are
    parameters.
  \<^item> The fetch task runs beside the loop: its pieces are listener operations, its result a message. A panic
    in it (\<open>None\<close>) ends the task without a message.
  \<^item> The watchers are restarted with fresh channels; what they read is what is sent on them.

  Shown: the book streams resume exactly above the height of the installed snapshot and are held meanwhile;
  re-sync fetches are spaced by a backoff that doubles up to five minutes.
\<close>

section \<open>The snapshot fetch\<close>

datatype fetch_error =
    CommandFailed | CommandNotStarted | SnapshotNotCreated | HeightUnavailable | SnapshotUnreadable | ReplayThreadDied

text \<open>\<open>to_str\<close> of a path.\<close>

fun join_path :: "path \<Rightarrow> string" where
  "join_path [] = []"
| "join_path [c] = c"
| "join_path (c # cs) = (if c = ''/'' then c @ join_path cs else c @ ''/'' @ join_path cs)"

text \<open>The file the dump goes to, and the command line that makes it.\<close>

definition dump_command :: "snapshot_config \<Rightarrow> path \<times> string list" where
  "dump_command cfg =
     (case sc_mode cfg of
        Docker \<Rightarrow>
          ((case sc_snapshot_output_path cfg of Some p \<Rightarrow> p | None \<Rightarrow> config_parent cfg @ [''snapshot.json'']),
           [''docker'', ''exec'', sc_docker_container cfg, ''./hl-node'', ''--chain'', ''Mainnet'', ''compute-l4-snapshots'',
            ''--include-users'', ''--include-trigger-orders'', ''hl/hyperliquid_data/abci_state.rmp'', ''hl/snapshot.json''])
      | Direct \<Rightarrow>
          (let abci = get_abci_state_path cfg;
               output = (case sc_snapshot_output_path cfg of Some p \<Rightarrow> p | None \<Rightarrow> [''/'', ''tmp'', ''hl_snapshot.json''])
           in (output, [sc_hlnode_binary cfg, ''--chain'', ''Mainnet'', ''compute-l4-snapshots'', ''--include-users'',
                        ''--include-trigger-orders'', join_path abci, join_path output])))"

text \<open>\<open>run\<close>: \<open>None\<close> when the command cannot be started, otherwise whether it exited with success.\<close>

definition process_rmp_file ::
  "(string list \<Rightarrow> bool option) \<Rightarrow> (path \<Rightarrow> bool) \<Rightarrow> snapshot_config \<Rightarrow> fetch_error + path" where
  "process_rmp_file run exists cfg =
     (let (output, args) = dump_command cfg
      in case run args of
           None \<Rightarrow> Inl CommandNotStarted
         | Some False \<Rightarrow> Inl CommandFailed
         | Some True \<Rightarrow> (if exists output then Inr output else Inl SnapshotNotCreated))"

definition load_snapshots_from_cli_json ::
  "(path \<Rightarrow> (string \<times> 'r cli_market) list option) \<Rightarrow> ('r \<Rightarrow> 'e + inner_l4_order) \<Rightarrow> path \<Rightarrow> u64
     \<Rightarrow> fetch_error + u64 \<times> snapshots \<times> inner_l4_order list" where
  "load_snapshots_from_cli_json read_json try_from p height =
     (case read_json p of None \<Rightarrow> Inl SnapshotUnreadable
      | Some snapshot \<Rightarrow>
          (case convert_cli_snapshot try_from snapshot height of
             Inl e \<Rightarrow> Inl SnapshotUnreadable | Inr x \<Rightarrow> Inr x))"

text \<open>Under the lock, before the dump; the first host is that of this moment.\<close>

definition fetch_begin :: "host_files \<Rightarrow> snapshot_config \<Rightarrow> listener \<Rightarrow> listener" where
  "fetch_begin H cfg l =
     (begin_caching l)\<lparr>ls_install_covers := (case read_visor_height H (get_visor_path cfg) of None \<Rightarrow> 0 | Some h \<Rightarrow> h)\<rparr>"

text \<open>Without the lock: the cutoff is read before the dump is made.\<close>

definition fetch_load ::
  "host_files \<Rightarrow> (string list \<Rightarrow> bool option) \<Rightarrow> (path \<Rightarrow> bool) \<Rightarrow> (path \<Rightarrow> (string \<times> 'r cli_market) list option)
     \<Rightarrow> ('r \<Rightarrow> 'e + inner_l4_order) \<Rightarrow> snapshot_config \<Rightarrow> fetch_error + u64 \<times> snapshots \<times> inner_l4_order list" where
  "fetch_load H run exists read_json try_from cfg =
     (let pre_dump_height = persisted_height H cfg
      in case process_rmp_file run exists cfg of
           Inl e \<Rightarrow> Inl e
         | Inr output \<Rightarrow>
             (case pre_dump_height of
                None \<Rightarrow> Inl HeightUnavailable
              | Some height \<Rightarrow> load_snapshots_from_cli_json read_json try_from output height))"

definition fetch_install ::
  "(nat \<Rightarrow> listener \<Rightarrow> listener) \<Rightarrow> instant \<Rightarrow> fetch_error + u64 \<times> snapshots \<times> inner_l4_order list \<Rightarrow> listener
     \<Rightarrow> ((fetch_error + u64) \<times> listener) option" where
  "fetch_install env now loaded l =
     (case loaded of
        Inl e \<Rightarrow> Some (Inl e, l)
      | Inr (height, snap, untriggered) \<Rightarrow>
          (case install_snapshot_phased env now snap untriggered height l of
             None \<Rightarrow> None
           | Some (Installed, l') \<Rightarrow> Some (Inr height, l')
           | Some (ReplayThreadPanicked, l') \<Rightarrow> Some (Inl ReplayThreadDied, l')))"

text \<open>\<open>H0\<close> and \<open>H1\<close>: the host when the fetch begins and before the dump; \<open>between_locks\<close>: what the loop does meanwhile.\<close>

definition fetch_snapshot ::
  "host_files \<Rightarrow> host_files \<Rightarrow> (string list \<Rightarrow> bool option) \<Rightarrow> (path \<Rightarrow> bool) \<Rightarrow> (path \<Rightarrow> (string \<times> 'r cli_market) list option)
     \<Rightarrow> ('r \<Rightarrow> 'e + inner_l4_order) \<Rightarrow> snapshot_config \<Rightarrow> (listener \<Rightarrow> listener) \<Rightarrow> (nat \<Rightarrow> listener \<Rightarrow> listener) \<Rightarrow> instant
     \<Rightarrow> listener \<Rightarrow> ((fetch_error + u64) \<times> listener) option" where
  "fetch_snapshot H0 H1 run exists read_json try_from cfg between_locks env now l =
     fetch_install env now (fetch_load H1 run exists read_json try_from cfg) (between_locks (fetch_begin H0 cfg l))"

section \<open>The loop\<close>

abbreviation resync_backoff_base :: nat where "resync_backoff_base \<equiv> 10000"
abbreviation resync_backoff_max :: nat where "resync_backoff_max \<equiv> 300000"

datatype file_event = FeFill string | FeDesync event_source | FeBackfillDone event_source

datatype loop_action = ActApply u64 event_batch event_source | ActDesync

datatype loop_exit = ChannelClosed | BookChannelClosed | InitialFetchFailed | WatcherExited

definition action_of :: "line_parsers \<Rightarrow> file_event \<Rightarrow> loop_action option" where
  "action_of J e =
     (case e of
        FeFill line \<Rightarrow> map_option (\<lambda>(height, b). ActApply height b Fills) (parse_event_line J line Fills)
      | FeDesync source \<Rightarrow> Some ActDesync
      | FeBackfillDone source \<Rightarrow> None)"

fun run_actions ::
  "(price_level \<Rightarrow> bool) \<Rightarrow> instant \<Rightarrow> loop_action list \<Rightarrow> internal_message list \<times> listener
     \<Rightarrow> (internal_message list \<times> listener) option" where
  "run_actions frag now [] (msgs, l) = Some (msgs, l)"
| "run_actions frag now (ActApply height b src # as) (msgs, l) =
     (case apply_event_batch frag now height b src l of None \<Rightarrow> None
      | Some (ms, l') \<Rightarrow> run_actions frag now as (msgs @ ms, l'))"
| "run_actions frag now (ActDesync # as) (msgs, l) = run_actions frag now as (msgs, mark_desynced l)"

definition then_flush ::
  "(u64 \<Rightarrow> nat) \<Rightarrow> instant \<Rightarrow> nat \<Rightarrow> (internal_message list \<times> listener) option \<Rightarrow> (internal_message list \<times> listener) option" where
  "then_flush L now receivers r =
     (case r of None \<Rightarrow> None
      | Some (msgs, l) \<Rightarrow> map_option (\<lambda>(ms, l'). (msgs @ ms, l')) (flush_l2_if_due L now receivers l))"

text \<open>The arm of the watcher events; an empty batch means every sender is gone.\<close>

definition handle_events ::
  "line_parsers \<Rightarrow> (price_level \<Rightarrow> bool) \<Rightarrow> (u64 \<Rightarrow> nat) \<Rightarrow> instant \<Rightarrow> nat \<Rightarrow> file_event list \<Rightarrow> listener
     \<Rightarrow> loop_exit + (internal_message list \<times> listener) option" where
  "handle_events J frag L now receivers evs l =
     (if evs = [] then Inl ChannelClosed
      else (let actions = List.map_filter (action_of J) evs
            in if actions = [] then Inr (Some ([], l))
               else Inr (then_flush L now receivers (run_actions frag now actions ([], l)))))"

text \<open>The arm of the book streams.\<close>

definition handle_taken ::
  "(price_level \<Rightarrow> bool) \<Rightarrow> (u64 \<Rightarrow> nat) \<Rightarrow> instant \<Rightarrow> nat \<Rightarrow> (u64 \<times> event_batch \<times> event_source) list \<Rightarrow> listener
     \<Rightarrow> (internal_message list \<times> listener) option" where
  "handle_taken frag L now receivers batches l =
     then_flush L now receivers (run_actions frag now (map (\<lambda>(h, b, src). ActApply h b src) batches) ([], l))"

record main_loop =
  ml_listener :: listener
  ml_merge :: merge_run
  ml_active :: bool
  ml_pending :: bool
  ml_backoff :: nat
  ml_next_fetch :: instant

definition main_start :: "listener \<Rightarrow> instant \<Rightarrow> main_loop" where
  "main_start l now =
     \<lparr>ml_listener = l, ml_merge = merge_init 0, ml_active = False, ml_pending = False,
      ml_backoff = resync_backoff_base, ml_next_fetch = now\<rparr>"

text \<open>The start of \<open>hl_listen_hft\<close>: the configured cap of the replay cache, if any, and the loop's locals.\<close>

definition hl_listen_start :: "nat \<Rightarrow> listener \<Rightarrow> instant \<Rightarrow> main_loop" where
  "hl_listen_start replay_cache_events l now =
     main_start (if 0 < replay_cache_events then set_cache_event_cap replay_cache_events l else l) now"

text \<open>The arm of the fetch result.\<close>

definition handle_fetch_result :: "instant \<Rightarrow> fetch_error + u64 \<Rightarrow> main_loop \<Rightarrow> loop_exit + main_loop" where
  "handle_fetch_result now res s =
     (let s1 = s\<lparr>ml_pending := False\<rparr>;
          settled = (case res of
              Inl e \<Rightarrow> (if is_ready (ml_listener s1) then Inr s1 else Inl InitialFetchFailed)
            | Inr height \<Rightarrow>
                Inr (s1\<lparr>ml_merge := (ml_merge s1)\<lparr>mr_merge := (mr_merge (ml_merge s1))\<lparr>lm_floor := height\<rparr>\<rparr>, ml_active := True\<rparr>))
      in case settled of
           Inl e \<Rightarrow> Inl e
         | Inr s2 \<Rightarrow>
             (let converged = (\<not> ls_needs_resync (ml_listener s2));
                  backoff = (if converged then resync_backoff_base else min (ml_backoff s2 * 2) resync_backoff_max)
              in Inr (s2\<lparr>ml_backoff := backoff, ml_next_fetch := now + backoff\<rparr>)))"

text \<open>The arm of the periodic ticker; the flag says whether it started a fetch.\<close>

definition fetch_due :: "instant \<Rightarrow> main_loop \<Rightarrow> bool" where
  "fetch_due now s \<longleftrightarrow>
     \<not> is_ready (ml_listener s)
     \<or> ls_needs_resync (ml_listener s) \<and> resync_is_urgent (ml_listener s) \<and> ml_next_fetch s \<le> now"

definition handle_ticker :: "instant \<Rightarrow> bool \<Rightarrow> main_loop \<Rightarrow> loop_exit + bool \<times> main_loop" where
  "handle_ticker now a_watcher_finished s =
     (if a_watcher_finished then Inl WatcherExited
      else if fetch_due now s \<and> \<not> ml_pending s
      then (let s1 = s\<lparr>ml_pending := True\<rparr>
            in Inr (True, if is_ready (ml_listener s) then s1\<lparr>ml_merge := merge_init 0, ml_active := False\<rparr> else s1))
      else Inr (False, s))"


section \<open>A book once there stays there\<close>

lemma ready_simps [simp]:
  "is_ready (mark_desynced l) = is_ready l" "is_ready (observe_height h src l) = is_ready l"
  "is_ready (push_to_replay_cache b l) = is_ready l" "is_ready (begin_caching l) = is_ready l"
  "is_ready (fetch_begin H cfg l) = is_ready l" "is_ready (snd (drain_replay_cache l)) = is_ready l"
  "is_ready (snd (abandon_replay_cache l)) = is_ready l"
  by (simp_all add: is_ready_def observe_height_def push_to_replay_cache_def begin_caching_def fetch_begin_def
      drain_replay_cache_def abandon_replay_cache_def Let_def split: event_source.split prod.split)

lemma cache_for_replay_ready [simp]: "is_ready (snd (cache_for_replay b l)) = is_ready l"
  by (simp add: cache_for_replay_def is_ready_def push_to_replay_cache_def Let_def)

lemma maintain_ready: "is_ready (snd (maintain frag now l)) = is_ready l"
  by (simp add: maintain_def is_ready_def Let_def split: option.split prod.split)

lemma after_apply_ready: "is_ready (snd (after_apply frag now msgs r l)) = is_ready l"
  using maintain_ready [of frag now l]
  by (cases "maintain frag now l"; cases r) (simp_all add: after_apply_def Let_def is_ready_def)

lemma apply_ready:
  assumes "apply_event_batch frag now h b src l = Some (msgs, l')" "is_ready l"
  shows "is_ready l'"
proof (cases "max_events_per_batch < batch_len b")
  case True
  then show ?thesis using assms by (auto simp: apply_event_batch_def Let_def)
next
  case False
  obtain x l2 where c: "cache_for_replay b (observe_height h src l) = (x, l2)" by fastforce
  have r2: "is_ready l2" using cache_for_replay_ready [of b "observe_height h src l"] c assms(2) by simp
  show ?thesis
  proof (cases x)
    case None
    then show ?thesis using assms False c r2 by (simp add: apply_event_batch_def)
  next
    case (Some b')
    obtain st where st: "ls_state l2 = Some st" using r2 by (auto simp: is_ready_def)
    then obtain ms r l3 where a: "apply_to_book now b' st l2 = Some (ms, r, l3)"
      and l': "after_apply frag now ms r l3 = (msgs, l')"
      using assms(1) False c Some by (auto simp: apply_event_batch_def)
    have "is_ready l3" using apply_to_book_fields [OF a] by (auto simp: is_ready_def)
    then show ?thesis using after_apply_ready [of frag now ms r l3] l' by simp
  qed
qed

lemma run_actions_ready: "run_actions frag now as (ms, l) = Some (msgs, l') \<Longrightarrow> is_ready l \<Longrightarrow> is_ready l'"
proof (induction as arbitrary: ms l)
  case (Cons a as)
  show ?case
  proof (cases a)
    case (ActApply h b src)
    then obtain ms1 l1 where "apply_event_batch frag now h b src l = Some (ms1, l1)"
        "run_actions frag now as (ms @ ms1, l1) = Some (msgs, l')"
      using Cons.prems(1) by (auto split: option.splits)
    then show ?thesis using Cons.IH apply_ready Cons.prems(2) by blast
  next
    case ActDesync
    then have "run_actions frag now as (ms, mark_desynced l) = Some (msgs, l')" using Cons.prems(1) by simp
    then show ?thesis by (rule Cons.IH) (simp add: Cons.prems(2))
  qed
qed simp

lemma flush_ready: "flush_l2_if_due L now rcv l = Some (msgs, l') \<Longrightarrow> is_ready l' = is_ready l"
  using flush_fields [of L now rcv l msgs l'] by (auto simp: is_ready_def)

lemma then_flush_ready:
  assumes "then_flush L now rcv (run_actions frag now as ([], l)) = Some (msgs, l')" "is_ready l"
  shows "is_ready l'"
proof -
  obtain ms l1 ms2 where "run_actions frag now as ([], l) = Some (ms, l1)" "flush_l2_if_due L now rcv l1 = Some (ms2, l')"
    using assms(1) by (auto simp: then_flush_def split: option.splits)
  then show ?thesis using run_actions_ready flush_ready assms(2) by blast
qed

lemma finish_install_ready: "finish_install now st h n f l = Some l' \<Longrightarrow> is_ready l'"
  by (auto simp: finish_install_def is_ready_def Let_def split: option.splits prod.splits)

section \<open>The loop, the fetch task and the readers interleaved\<close>

text \<open>
  Ghost fields: the height the fetch task has committed since it began, when the last result came, and how
  many results in a row left the book marked.
\<close>

record loop_run =
  lr_loop :: main_loop
  lr_installed :: "u64 option"
  lr_since :: "instant option"
  lr_unconverged :: nat

abbreviation with_listener :: "listener \<Rightarrow> loop_run \<Rightarrow> loop_run" where
  "with_listener l s \<equiv> s\<lparr>lr_loop := (lr_loop s)\<lparr>ml_listener := l\<rparr>\<rparr>"

abbreviation with_merge :: "merge_run \<Rightarrow> loop_run \<Rightarrow> loop_run" where
  "with_merge m s \<equiv> s\<lparr>lr_loop := (lr_loop s)\<lparr>ml_merge := m\<rparr>\<rparr>"

abbreviation loop_listener :: "loop_run \<Rightarrow> listener" where "loop_listener s \<equiv> ml_listener (lr_loop s)"
abbreviation loop_merge :: "loop_run \<Rightarrow> merge_run" where "loop_merge s \<equiv> ml_merge (lr_loop s)"

definition reader_send :: "slot \<Rightarrow> string \<Rightarrow> merge_run \<Rightarrow> merge_run" where
  "reader_send i l m = m\<lparr>mr_merge := send_line i l (mr_merge m), mr_sent := (mr_sent m)(i := mr_sent m i @ [l])\<rparr>"

definition reader_gone :: "slot \<Rightarrow> merge_run \<Rightarrow> merge_run" where
  "reader_gone i m = m\<lparr>mr_merge := close_channel i (mr_merge m)\<rparr>"

inductive loop_step :: "line_parsers \<Rightarrow> loop_run \<Rightarrow> loop_run \<Rightarrow> bool" for J where
  flush_tick: "flush_l2_if_due L now rcv (loop_listener s) = Some (msgs, l) \<Longrightarrow> loop_step J s (with_listener l s)"
| events: "handle_events J frag L now rcv evs (loop_listener s) = Inr (Some (msgs, l)) \<Longrightarrow> loop_step J s (with_listener l s)"
| reader: "\<not> ch_closed (lm_rx (mr_merge (loop_merge s)) i) \<Longrightarrow> loop_step J s (with_merge (reader_send i line (loop_merge s)) s)"
| reader_ends: "loop_step J s (with_merge (reader_gone i (loop_merge s)) s)"
| polls: "\<lbrakk>ml_active (lr_loop s); merge_step J (loop_merge s) m; mr_out m = mr_out (loop_merge s)\<rbrakk>
    \<Longrightarrow> loop_step J s (with_merge m s)"
| takes: "\<lbrakk>ml_active (lr_loop s); merge_step J (loop_merge s) m; mr_out m = mr_out (loop_merge s) @ bs; bs \<noteq> [];
     handle_taken frag L now rcv bs (loop_listener s) = Some (msgs, l)\<rbrakk>
    \<Longrightarrow> loop_step J s (with_listener l (with_merge m s))"
| fetch_starts: "\<lbrakk>ml_pending (lr_loop s); lr_installed s = None\<rbrakk>
    \<Longrightarrow> loop_step J s (with_listener (fetch_begin H cfg (loop_listener s)) s)"
| fetch_works: "\<lbrakk>ml_pending (lr_loop s); opn = OpDrain \<or> opn = OpAbandon \<or> opn = OpMark\<rbrakk>
    \<Longrightarrow> loop_step J s (with_listener (listener_step opn (loop_listener s)) s)"
| fetch_commits: "\<lbrakk>ml_pending (lr_loop s); finish_install now st h n failed (loop_listener s) = Some l\<rbrakk>
    \<Longrightarrow> loop_step J s ((with_listener l s)\<lparr>lr_installed := Some h\<rparr>)"
| result: "\<lbrakk>ml_pending (lr_loop s); \<forall>h. res = Inr h \<longrightarrow> lr_installed s = Some h;
     handle_fetch_result now res (lr_loop s) = Inr s'\<rbrakk>
    \<Longrightarrow> loop_step J s (s\<lparr>lr_loop := s', lr_since := Some now,
                        lr_unconverged := (if ls_needs_resync (ml_listener s') then lr_unconverged s + 1 else 0)\<rparr>)"
| ticker: "handle_ticker now finished (lr_loop s) = Inr (started, s')
    \<Longrightarrow> loop_step J s (s\<lparr>lr_loop := s', lr_installed := (if started then None else lr_installed s)\<rparr>)"

inductive loop_reaches :: "line_parsers \<Rightarrow> loop_run \<Rightarrow> bool" for J where
  starts: "loop_reaches J \<lparr>lr_loop = hl_listen_start cap (set_track_untriggered track (set_tolerate_drift tolerate
                (listener_new tx spot params mf))) now, lr_installed = None, lr_since = None,
              lr_unconverged = 0\<rparr>"
| goes: "loop_reaches J s \<Longrightarrow> loop_step J s s' \<Longrightarrow> loop_reaches J s'"

section \<open>Its invariant\<close>

text \<open>A merge nobody has polled yet: whatever the readers have sent is in its channels.\<close>

definition unpolled :: "merge_run \<Rightarrow> bool" where
  "unpolled m \<longleftrightarrow>
     mr_pc m = AtLoop \<and> mr_out m = [] \<and> \<not> mr_died m \<and> lm_ready (mr_merge m) = []
     \<and> (\<forall>i. lm_peek (mr_merge m) i = None \<and> lm_seen (mr_merge m) i = 0 \<and> \<not> lm_dead (mr_merge m) i
            \<and> ch_lines (lm_rx (mr_merge m) i) = mr_sent m i)"

definition backoff_after :: "nat \<Rightarrow> nat" where
  "backoff_after k = min (resync_backoff_base * 2 ^ k) resync_backoff_max"

definition loop_inv :: "line_parsers \<Rightarrow> loop_run \<Rightarrow> bool" where
  "loop_inv J s \<longleftrightarrow>
     (let p = lr_loop s; m = ml_merge p in
        (if ml_active p
         then \<not> ml_pending p \<and> is_ready (ml_listener p) \<and> lr_installed s = Some (lm_floor (mr_merge m))
              \<and> merge_inv J (lm_floor (mr_merge m)) m
         else unpolled m)
        \<and> (lr_installed s \<noteq> None \<longrightarrow> is_ready (ml_listener p))
        \<and> ml_backoff p = backoff_after (lr_unconverged s)
        \<and> (\<forall>t. lr_since s = Some t \<longrightarrow> ml_next_fetch p = t + ml_backoff p))"

lemma unpolled_init: "unpolled (merge_init f)"
  by (simp add: unpolled_def merge_init_def merge_new_def)

lemma unpolled_send: "unpolled m \<Longrightarrow> unpolled (reader_send i l m)"
  by (simp add: unpolled_def reader_send_def send_line_def set_lines_def)

lemma unpolled_gone: "unpolled m \<Longrightarrow> unpolled (reader_gone i m)"
  by (simp add: unpolled_def reader_gone_def close_channel_def)

text \<open>From an unpolled merge the run starts with any floor.\<close>

lemma unpolled_inv: "unpolled m \<Longrightarrow> merge_inv J f (m\<lparr>mr_merge := (mr_merge m)\<lparr>lm_floor := f\<rparr>\<rparr>)"
  by (simp add: unpolled_def merge_inv_def exact_streams_def parked_well_def seen_ok_def pending_of_def peek_list_def
      taken_def)

lemma merge_step_floor:
  assumes "merge_inv J f m" "merge_step J m m'"
  shows "lm_floor (mr_merge m') = lm_floor (mr_merge m)"
  using merge_inv_step [OF assms] assms(1) by (simp add: merge_inv_def exact_streams_def)


lemma loop_inv_listener:
  assumes "loop_inv J s" "is_ready (loop_listener s) \<Longrightarrow> is_ready l"
  shows "loop_inv J (with_listener l s)"
  using assms by (auto simp: loop_inv_def Let_def)

lemma loop_inv_merge:
  assumes inv: "loop_inv J s"
    and "unpolled (loop_merge s) \<Longrightarrow> \<not> ml_active (lr_loop s) \<Longrightarrow> unpolled m"
    and "ml_active (lr_loop s) \<Longrightarrow> merge_step J (loop_merge s) m"
  shows "loop_inv J (with_merge m s)"
proof (cases "ml_active (lr_loop s)")
  case True
  let ?f = "lm_floor (mr_merge (loop_merge s))"
  have "merge_inv J ?f (loop_merge s)" using inv True by (simp add: loop_inv_def Let_def)
  then have "merge_inv J ?f m" "lm_floor (mr_merge m) = ?f" using assms(3) [OF True] merge_inv_step merge_step_floor by blast+
  then show ?thesis using inv True by (simp add: loop_inv_def Let_def)
next
  case False
  then show ?thesis using inv assms(2) by (simp add: loop_inv_def Let_def)
qed

lemma backoff_Suc: "backoff_after (Suc k) = min (backoff_after k * 2) resync_backoff_max"
  by (simp add: backoff_after_def min_def)

text \<open>The backoff bookkeeping that ends the arm.\<close>

definition rescheduled :: "instant \<Rightarrow> main_loop \<Rightarrow> main_loop" where
  "rescheduled now p =
     (let backoff = (if \<not> ls_needs_resync (ml_listener p) then resync_backoff_base else min (ml_backoff p * 2) resync_backoff_max)
      in p\<lparr>ml_backoff := backoff, ml_next_fetch := now + backoff\<rparr>)"

lemma handle_fetch_result_cases:
  assumes "handle_fetch_result now res p = Inr p'"
  obtains (failed) e where "res = Inl e" "p' = rescheduled now (p\<lparr>ml_pending := False\<rparr>)"
  | (installed) h where "res = Inr h"
      "p' = rescheduled now (p\<lparr>ml_pending := False,
              ml_merge := (ml_merge p)\<lparr>mr_merge := (mr_merge (ml_merge p))\<lparr>lm_floor := h\<rparr>\<rparr>, ml_active := True\<rparr>)"
proof (cases res)
  case (Inl e)
  then have "p' = rescheduled now (p\<lparr>ml_pending := False\<rparr>)"
    using assms by (cases "is_ready (ml_listener p)") (simp_all add: handle_fetch_result_def rescheduled_def Let_def)
  then show ?thesis using failed Inl by blast
next
  case (Inr h)
  then have "p' = rescheduled now (p\<lparr>ml_pending := False,
      ml_merge := (ml_merge p)\<lparr>mr_merge := (mr_merge (ml_merge p))\<lparr>lm_floor := h\<rparr>\<rparr>, ml_active := True\<rparr>)"
    using assms by (cases "ls_needs_resync (ml_listener p)") (simp_all add: handle_fetch_result_def rescheduled_def Let_def)
  then show ?thesis using installed Inr by blast
qed

lemma rescheduled_fields [simp]:
  "ml_listener (rescheduled now p) = ml_listener p" "ml_merge (rescheduled now p) = ml_merge p"
  "ml_active (rescheduled now p) = ml_active p" "ml_pending (rescheduled now p) = ml_pending p"
  "ml_next_fetch (rescheduled now p) = now + ml_backoff (rescheduled now p)"
  by (simp_all add: rescheduled_def Let_def)

lemma rescheduled_backoff:
  assumes "ml_backoff p = backoff_after k"
  shows "ml_backoff (rescheduled now p) = backoff_after (if ls_needs_resync (ml_listener p) then k + 1 else 0)"
  unfolding rescheduled_def Let_def using assms by (simp add: backoff_Suc) (simp add: backoff_after_def)

lemma loop_inv_result:
  assumes inv: "loop_inv J s" and pend: "ml_pending (lr_loop s)" and ok: "\<forall>h. res = Inr h \<longrightarrow> lr_installed s = Some h"
    and r: "handle_fetch_result now res (lr_loop s) = Inr s'"
  shows "loop_inv J (s\<lparr>lr_loop := s', lr_since := Some now,
                        lr_unconverged := (if ls_needs_resync (ml_listener s') then lr_unconverged s + 1 else 0)\<rparr>)"
proof -
  let ?p = "lr_loop s"
  have p: "\<not> ml_active ?p" "unpolled (ml_merge ?p)" "lr_installed s \<noteq> None \<longrightarrow> is_ready (ml_listener ?p)"
    and b: "ml_backoff ?p = backoff_after (lr_unconverged s)"
    using inv pend unfolding loop_inv_def Let_def by metis+
  show ?thesis using r
  proof (cases rule: handle_fetch_result_cases)
    case (failed e)
    have "ml_backoff s' = backoff_after (if ls_needs_resync (ml_listener s') then lr_unconverged s + 1 else 0)"
      unfolding failed(2) using rescheduled_backoff [of "?p\<lparr>ml_pending := False\<rparr>"] b by simp
    then show ?thesis using p failed(2) by (simp add: loop_inv_def Let_def)
  next
    case (installed h)
    have "ml_backoff s' = backoff_after (if ls_needs_resync (ml_listener s') then lr_unconverged s + 1 else 0)"
      unfolding installed(2)
      using rescheduled_backoff [of "?p\<lparr>ml_pending := False,
          ml_merge := (ml_merge ?p)\<lparr>mr_merge := (mr_merge (ml_merge ?p))\<lparr>lm_floor := h\<rparr>\<rparr>, ml_active := True\<rparr>"] b by simp
    then show ?thesis using p installed(2) ok installed(1) unpolled_inv [OF p(2), of J h] by (simp add: loop_inv_def Let_def)
  qed
qed

lemma handle_ticker_cases:
  assumes "handle_ticker now finished p = Inr (started, p')"
  obtains (idle) "\<not> started" "p' = p"
  | (initial) "started" "\<not> is_ready (ml_listener p)" "\<not> ml_pending p" "p' = p\<lparr>ml_pending := True\<rparr>"
  | (resync) "started" "is_ready (ml_listener p)" "\<not> ml_pending p" "fetch_due now p"
      "p' = p\<lparr>ml_pending := True, ml_merge := merge_init 0, ml_active := False\<rparr>"
proof (cases "fetch_due now p \<and> \<not> ml_pending p")
  case True
  show ?thesis
  proof (cases "is_ready (ml_listener p)")
    case ready: True
    then have "started \<and> p' = p\<lparr>ml_pending := True, ml_merge := merge_init 0, ml_active := False\<rparr>"
      using assms True by (cases finished) (simp_all add: handle_ticker_def Let_def)
    then show ?thesis using resync True ready by blast
  next
    case False
    then have "started \<and> p' = p\<lparr>ml_pending := True\<rparr>"
      using assms True by (cases finished) (simp_all add: handle_ticker_def Let_def)
    then show ?thesis using initial True False by blast
  qed
next
  case False
  then have "\<not> started \<and> p' = p" using assms by (cases finished) (auto simp: handle_ticker_def)
  then show ?thesis using idle by blast
qed

lemma loop_inv_ticker:
  assumes inv: "loop_inv J s" and r: "handle_ticker now finished (lr_loop s) = Inr (started, s')"
  shows "loop_inv J (s\<lparr>lr_loop := s', lr_installed := (if started then None else lr_installed s)\<rparr>)"
proof -
  have b: "ml_backoff (lr_loop s) = backoff_after (lr_unconverged s)"
    and t: "\<forall>t. lr_since s = Some t \<longrightarrow> ml_next_fetch (lr_loop s) = t + ml_backoff (lr_loop s)"
    using inv unfolding loop_inv_def Let_def by metis+
  show ?thesis using r
  proof (cases rule: handle_ticker_cases)
    case idle
    then show ?thesis using inv by simp
  next
    case initial
    then have "\<not> ml_active (lr_loop s)" "unpolled (loop_merge s)" using inv unfolding loop_inv_def Let_def by metis+
    then show ?thesis using b t initial by (simp add: loop_inv_def Let_def)
  next
    case resync
    then show ?thesis using b t unpolled_init [of 0] by (simp add: loop_inv_def Let_def)
  qed
qed

lemma handle_events_ready:
  assumes "handle_events J frag L now rcv evs l = Inr (Some (msgs, l'))" "is_ready l"
  shows "is_ready l'"
  using assms then_flush_ready by (auto simp: handle_events_def Let_def split: if_splits)

lemma loop_inv_step:
  assumes inv: "loop_inv J s" and st: "loop_step J s s'"
  shows "loop_inv J s'"
  using st
proof cases
  case (flush_tick L now rcv msgs l)
  then show ?thesis using loop_inv_listener [OF inv] flush_ready by blast
next
  case (events frag L now rcv evs msgs l)
  then show ?thesis using loop_inv_listener [OF inv] handle_events_ready by blast
next
  case (reader i line)
  have "merge_step J (loop_merge s) (reader_send i line (loop_merge s))"
    unfolding reader_send_def by (rule sends) (rule reader(2))
  then show ?thesis unfolding reader(1) by (intro loop_inv_merge [OF inv] unpolled_send)
next
  case (reader_ends i)
  have "merge_step J (loop_merge s) (reader_gone i (loop_merge s))" unfolding reader_gone_def by (rule closes)
  then show ?thesis unfolding reader_ends by (intro loop_inv_merge [OF inv] unpolled_gone)
next
  case (polls m)
  then show ?thesis using loop_inv_merge [OF inv, of m] by blast
next
  case (takes m bs frag L now rcv msgs l)
  have "loop_inv J (with_merge m s)" using loop_inv_merge [OF inv, of m] takes(2,3) by blast
  moreover have "is_ready l" if "is_ready (loop_listener s)"
    using takes(6) that then_flush_ready by (auto simp: handle_taken_def)
  ultimately have "loop_inv J (with_listener l (with_merge m s))" by (intro loop_inv_listener) auto
  then show ?thesis using takes(1) by simp
next
  case (fetch_starts H cfg)
  then show ?thesis using loop_inv_listener [OF inv] by simp
next
  case (fetch_works opn)
  then have "is_ready (listener_step opn (loop_listener s)) = is_ready (loop_listener s)" by auto
  then show ?thesis using loop_inv_listener [OF inv] fetch_works(1) by simp
next
  case (fetch_commits now st h n failed l)
  then have "is_ready l" "\<not> ml_active (lr_loop s)"
    using finish_install_ready inv by (auto simp: loop_inv_def Let_def)
  then show ?thesis using inv fetch_commits(1) by (auto simp: loop_inv_def Let_def)
next
  case (result res now s'')
  then show ?thesis using loop_inv_result [OF inv] by blast
next
  case (ticker now finished started s'')
  then show ?thesis using loop_inv_ticker [OF inv] by blast
qed

lemma loop_inv_reaches: "loop_reaches J s \<Longrightarrow> loop_inv J s"
proof (induction rule: loop_reaches.induct)
  case (starts cap track tolerate tx spot params mf now)
  then show ?case
    using unpolled_init [of 0] by (simp add: loop_inv_def hl_listen_start_def main_start_def Let_def backoff_after_def)
next
  case (goes s s')
  show ?case by (rule loop_inv_step [OF goes(3,2)])
qed

section \<open>Properties\<close>


text \<open>
  C27. Re-sync fetches do not hammer the host: with a book there, a fetch is started only for a recorded data
  loss, never while another is in flight, and not before 10 seconds times two to the number of results in a
  row that left the book marked, at most five minutes, have passed since the last result.
\<close>

theorem resync_fetches_spaced:
  assumes "loop_reaches J s" "is_ready (loop_listener s)" "lr_since s = Some t"
    and "handle_ticker now finished (lr_loop s) = Inr (True, s')"
  shows "\<not> ml_pending (lr_loop s) \<and> ls_needs_resync (loop_listener s) \<and> ls_data_loss (loop_listener s)
     \<and> t + min (resync_backoff_base * 2 ^ lr_unconverged s) resync_backoff_max \<le> now"
proof -
  have "ml_next_fetch (lr_loop s) = t + backoff_after (lr_unconverged s)"
    using loop_inv_reaches [OF assms(1)] assms(3) by (simp add: loop_inv_def Let_def)
  then show ?thesis
    using assms(2,4) by (auto simp: handle_ticker_def fetch_due_def resync_is_urgent_def backoff_after_def Let_def split: if_splits)
qed


section \<open>The fetch as a whole\<close>

lemma chase_ready:
  "chase env now h rmax rounds k x l = Some (Installed, l') \<Longrightarrow> is_ready l'"
proof (induction rounds arbitrary: k x l)
  case 0
  obtain st n f where x: "x = (st, n, f)" by (metis prod_cases3)
  then show ?case using 0 finish_install_ready
    by (auto simp: give_up_def Let_def split: if_splits prod.splits)
next
  case (Suc rounds)
  obtain st n f where x: "x = (st, n, f)" by (metis prod_cases3)
  obtain pending alive where ps: "replay_cache_status (env k l) = (pending, alive)" by fastforce
  show ?case
  proof (cases "\<not> alive \<or> pending \<le> rmax")
    case True
    then show ?thesis using Suc.prems x ps finish_install_ready by (auto simp: Let_def)
  next
    case False
    obtain chunk l2 where d: "drain_replay_cache (env k l) = (chunk, l2)" by fastforce
    show ?thesis
    proof (cases "replay_all now h chunk (False, st, 0)")
      case None
      then show ?thesis using Suc.prems x ps d False by (simp add: Let_def)
    next
      case (Some y)
      obtain f' st' m where "y = (f', st', m)" by (metis prod_cases3)
      then have "chase env now h rmax rounds (Suc k) (st', n + m, f \<or> f') l2 = Some (Installed, l')"
        using Suc.prems x ps d False Some by (simp add: Let_def)
      then show ?thesis by (rule Suc.IH)
    qed
  qed
qed


text \<open>
  A fetch task that dies without a message is never replaced: the flag stays set (the loop keeps a sender of
  the channel, so the channel never reports the loss), no ticker starts a fetch, and the streams stay held.
\<close>

lemma dead_fetch_blocks:
  assumes "ml_pending p" "handle_ticker now finished p = Inr (started, p')"
  shows "\<not> started \<and> p' = p"
  using assms(2) by (cases rule: handle_ticker_cases) (use assms(1) in auto)


section \<open>A sample run\<close>

text \<open>The loop starts, fetches and installs at height 400, a line arrives, a watcher reports a loss.\<close>

definition sample_begin :: loop_run where
  "sample_begin =
     \<lparr>lr_loop = main_start (listener_new True False [] (True, True, True)) 0, lr_installed = None, lr_since = None,
      lr_unconverged = 0\<rparr>"

definition sample_pending :: loop_run where
  "sample_pending = sample_begin\<lparr>lr_loop := (lr_loop sample_begin)\<lparr>ml_pending := True\<rparr>, lr_installed := None\<rparr>"

definition sample_book :: listener where
  "sample_book = (case finish_install 0 state_empty 400 0 False (listener_new True False [] (True, True, True)) of Some l \<Rightarrow> l)"

definition sample_installed :: loop_run where
  "sample_installed = (with_listener sample_book sample_pending)\<lparr>lr_installed := Some 400\<rparr>"

definition sample_result :: main_loop where
  "sample_result = rescheduled 1000 ((lr_loop sample_installed)\<lparr>ml_pending := False,
      ml_merge := (loop_merge sample_installed)\<lparr>mr_merge := (mr_merge (loop_merge sample_installed))\<lparr>lm_floor := 400\<rparr>\<rparr>,
      ml_active := True\<rparr>)"

definition sample_active :: loop_run where
  "sample_active = sample_installed\<lparr>lr_loop := sample_result, lr_since := Some 1000,
      lr_unconverged := (if ls_needs_resync (ml_listener sample_result) then lr_unconverged sample_installed + 1 else 0)\<rparr>"

definition sample_marked :: loop_run where
  "sample_marked = with_listener (mark_desynced sample_book) sample_active"

lemma sample_book_installed:
  "finish_install 0 state_empty 400 0 False (listener_new True False [] (True, True, True)) = Some sample_book"
proof -
  have "\<exists>l. finish_install 0 state_empty 400 0 False (listener_new True False [] (True, True, True)) = Some l"
    by (simp add: finish_install_def listener_new_def Let_def split: prod.split)
  then show ?thesis unfolding sample_book_def by auto
qed

lemma sample_install:
  assumes "finish_install 0 state_empty 400 0 False (listener_new True False [] (True, True, True)) = Some l"
  shows "ls_pending_dirty l = {}" "\<not> ls_needs_resync l"
  using assms by (auto simp: finish_install_def listener_new_def settle_losses_def Let_def split: prod.splits)

lemma sample_book_quiet:
  "ls_pending_dirty sample_book = {}" "\<not> ls_tolerate_drift sample_book" "\<not> ls_needs_resync sample_book" "is_ready sample_book"
proof -
  show "\<not> ls_tolerate_drift sample_book"
    using finish_install_tolerate [OF sample_book_installed] by (simp add: listener_new_def)
  show "ls_pending_dirty sample_book = {}" "\<not> ls_needs_resync sample_book"
    using sample_install [OF sample_book_installed] by simp_all
  show "is_ready sample_book" by (rule finish_install_ready [OF sample_book_installed])
qed

lemma sample_reached: "loop_reaches J sample_active" "loop_reaches J sample_marked"
proof -
  have 0: "loop_reaches J sample_begin"
    using loop_reaches.starts [of J 0 True False True False "[]" "(True, True, True)" 0]
    by (simp add: sample_begin_def hl_listen_start_def set_track_untriggered_def set_tolerate_drift_def listener_new_def)
  have "handle_ticker 0 False (lr_loop sample_begin) = Inr (True, (lr_loop sample_begin)\<lparr>ml_pending := True\<rparr>)"
    by (simp add: handle_ticker_def fetch_due_def sample_begin_def main_start_def listener_new_def is_ready_def Let_def)
  from ticker [OF this, of J] have "loop_step J sample_begin sample_pending" by (simp add: sample_pending_def)
  with 0 have 1: "loop_reaches J sample_pending" by (rule loop_reaches.goes)
  have "loop_listener sample_pending = listener_new True False [] (True, True, True)"
    by (simp add: sample_pending_def sample_begin_def main_start_def)
  then have "loop_step J sample_pending sample_installed"
    using fetch_commits [of sample_pending 0 state_empty 400 0 False sample_book J] sample_book_installed
    by (simp add: sample_installed_def) (simp add: sample_pending_def)
  with 1 have 2: "loop_reaches J sample_installed" by (rule loop_reaches.goes)
  have "handle_fetch_result 1000 (Inr 400) (lr_loop sample_installed) = Inr sample_result"
    by (cases "ls_needs_resync (loop_listener sample_installed)")
       (simp_all add: handle_fetch_result_def sample_result_def rescheduled_def Let_def)
  from result [OF _ _ this] have "loop_step J sample_installed sample_active"
    unfolding sample_active_def by (simp add: sample_installed_def sample_pending_def)
  with 2 show 3: "loop_reaches J sample_active" by (rule loop_reaches.goes)
  have "handle_events J frag L 2000 1 [FeDesync OrderDiffs] sample_book = Inr (Some ([], mark_desynced sample_book))" for frag L
    using sample_book_quiet(1)
    by (simp add: handle_events_def List.map_filter_def action_of_def then_flush_def flush_l2_if_due_def flush_due_def)
  moreover have "loop_listener sample_active = sample_book"
    by (simp add: sample_active_def sample_result_def sample_installed_def)
  ultimately have "loop_step J sample_active sample_marked"
    unfolding sample_marked_def by (intro events) simp
  with 3 show "loop_reaches J sample_marked" by (rule loop_reaches.goes)
qed


lemma sample_loop_listener: "loop_listener sample_active = sample_book" "loop_listener sample_marked = mark_desynced sample_book"
  by (simp_all add: sample_active_def sample_result_def sample_installed_def sample_marked_def)

theorem resync_fetches_spaced_witness:
  "1000 + min (resync_backoff_base * 2 ^ lr_unconverged sample_marked) resync_backoff_max \<le> (11000 :: nat)
   \<and> ls_needs_resync (loop_listener sample_marked)"
proof -
  have n: "ml_next_fetch (lr_loop sample_marked) = 11000"
    using sample_book_quiet(3)
    by (simp add: sample_marked_def sample_active_def sample_result_def rescheduled_def sample_installed_def)
  have p: "\<not> ml_pending (lr_loop sample_marked)" "lr_since sample_marked = Some 1000"
    by (simp_all add: sample_marked_def sample_active_def sample_result_def)
  have l: "is_ready (loop_listener sample_marked)" "ls_needs_resync (loop_listener sample_marked)"
    "resync_is_urgent (loop_listener sample_marked)"
    using sample_book_quiet by (simp_all add: sample_loop_listener resync_is_urgent_def)
  have "\<exists>s'. handle_ticker 11000 False (lr_loop sample_marked) = Inr (True, s')"
    using n p(1) l by (simp add: handle_ticker_def fetch_due_def Let_def)
  then obtain s' where "handle_ticker 11000 False (lr_loop sample_marked) = Inr (True, s')" ..
  from resync_fetches_spaced [OF sample_reached(2) l(1) p(2) this] show ?thesis by simp
qed

definition sample_reject :: "unit \<Rightarrow> unit + inner_l4_order" where
  "sample_reject r = Inl r"


end
