(* ===== verification/File_Reader.thy ===== *)
theory File_Reader
  imports "HOL-Library.List_Lexorder" "HOL-Library.Char_ord" Main_Loop
begin

text \<open>
  The readers of the node's streaming files (\<open>listeners/order_book/parallel.rs\<close>): incremental reading of a
  growing file, the backfill, rotation to a new file, the watcher thread.

  \<^item> A file's contents are its bytes, as a \<open>string\<close>; text is valid UTF-8 if \<open>utf8_valid\<close> says so, and the
    white space that \<open>trim_end\<close> and \<open>trim_start\<close> remove is matched on the bytes.
  \<^item> What the file system answers at each call (opening, sizes, contents, listings) is an argument. An open
    handle and the path name the same file: the node only appends.
  \<^item> The drain loop of \<open>on_create\<close> sees the file once per pass; the list of these observations is its argument,
    and a loop that has not ended with the last of them is \<open>None\<close>.
  \<^item> Sending is the output of the thread, in order; a failed send ends the thread after what it sent.
\<close>

section \<open>Lines\<close>

abbreviation newline :: char where "newline \<equiv> CHR 0x0A"

definition text_ok :: "string \<Rightarrow> bool" where
  "text_ok s = utf8_valid (ascii s)"

text \<open>White space of Unicode, as the bytes of its characters; the second list holds them reversed.\<close>

definition white_space :: "string list" where
  "white_space =
     [[CHR 0x09], [CHR 0x0A], [CHR 0x0B], [CHR 0x0C], [CHR 0x0D], [CHR 0x20],
      [CHR 0xC2, CHR 0x85], [CHR 0xC2, CHR 0xA0], [CHR 0xE1, CHR 0x9A, CHR 0x80], [CHR 0xE2, CHR 0x80, CHR 0xA8],
      [CHR 0xE2, CHR 0x80, CHR 0xA9], [CHR 0xE2, CHR 0x80, CHR 0xAF], [CHR 0xE2, CHR 0x81, CHR 0x9F],
      [CHR 0xE3, CHR 0x80, CHR 0x80]]
     @ map (\<lambda>b. [CHR 0xE2, CHR 0x80, b])
         [CHR 0x80, CHR 0x81, CHR 0x82, CHR 0x83, CHR 0x84, CHR 0x85, CHR 0x86, CHR 0x87, CHR 0x88, CHR 0x89, CHR 0x8A]"

fun strip_prefix :: "'a list \<Rightarrow> 'a list \<Rightarrow> 'a list option" where
  "strip_prefix [] ys = Some ys"
| "strip_prefix (x # xs) [] = None"
| "strip_prefix (x # xs) (y # ys) = (if x = y then strip_prefix xs ys else None)"

definition strip_one :: "string list \<Rightarrow> string \<Rightarrow> string option" where
  "strip_one ws s =
     (case List.map_filter (\<lambda>w. strip_prefix w s) ws of [] \<Rightarrow> None | t # ts \<Rightarrow> Some t)"

text \<open>White space is at most three bytes long, so the length of the string bounds the passes.\<close>

fun strip_all :: "string list \<Rightarrow> nat \<Rightarrow> string \<Rightarrow> string" where
  "strip_all ws 0 s = s"
| "strip_all ws (Suc n) s = (case strip_one ws s of None \<Rightarrow> s | Some t \<Rightarrow> strip_all ws n t)"

definition trim_start :: "string \<Rightarrow> string" where
  "trim_start s = strip_all white_space (length s) s"

definition trim_end :: "string \<Rightarrow> string" where
  "trim_end s = rev (strip_all (map rev white_space) (length s) (rev s))"

fun split_inclusive :: "string \<Rightarrow> string list" where
  "split_inclusive [] = []"
| "split_inclusive (c # cs) =
     (if c = newline then [c] # split_inclusive cs
      else case split_inclusive cs of [] \<Rightarrow> [[c]] | s # ss \<Rightarrow> (c # s) # ss)"

section \<open>The height of a line\<close>

definition block_number_key :: string where
  "block_number_key = CHR 0x22 # ''block_number'' @ [CHR 0x22, CHR '':'']"

text \<open>\<open>find\<close>: what follows the first occurrence.\<close>

fun after_first :: "string \<Rightarrow> string \<Rightarrow> string option" where
  "after_first key [] = strip_prefix key []"
| "after_first key (c # cs) =
     (case strip_prefix key (c # cs) of Some rest \<Rightarrow> Some rest | None \<Rightarrow> after_first key cs)"

definition is_digit :: "char \<Rightarrow> bool" where
  "is_digit c \<longleftrightarrow> (48 :: nat) \<le> of_char c \<and> of_char c \<le> (57 :: nat)"

definition digits_value :: "string \<Rightarrow> nat" where
  "digits_value ds = foldl (\<lambda>a c. 10 * a + (of_char c - 48)) 0 ds"

definition extract_block_number :: "string \<Rightarrow> u64 option" where
  "extract_block_number line =
     (case after_first block_number_key line of None \<Rightarrow> None | Some t \<Rightarrow>
        let ds = takeWhile is_digit (trim_start t)
        in if ds = [] then None
           else if digits_value ds < 2 ^ 64 then Some (of_nat (digits_value ds)) else None)"

text \<open>
  \<open>first_bytes\<close> is what opening the file and one read of at most 8192 bytes gives. Replacing invalid UTF-8 leaves
  every ASCII byte in its place, so the search sees the same.
\<close>

definition first_block_number :: "string option \<Rightarrow> u64 option" where
  "first_block_number first_bytes = (case first_bytes of None \<Rightarrow> None | Some h \<Rightarrow> extract_block_number (take 8192 h))"

section \<open>The reader\<close>

abbreviation max_partial_line_bytes :: nat where "max_partial_line_bytes \<equiv> 16 * 1024 * 1024"
abbreviation read_chunk_bytes :: nat where "read_chunk_bytes \<equiv> 8 * 1024 * 1024"
abbreviation rotation_grace :: nat where "rotation_grace \<equiv> 3000"

record file_reader =
  fr_current_path :: "path option"
  fr_file :: bool
  fr_position :: nat
  fr_partial :: string
  fr_base_dir :: path
  fr_desynced :: bool
  fr_rotated_from :: "(path \<times> nat \<times> instant) option"

definition reader_new :: "path \<Rightarrow> file_reader" where
  "reader_new base =
     \<lparr>fr_current_path = None, fr_file = False, fr_position = 0, fr_partial = [], fr_base_dir = base,
      fr_desynced = False, fr_rotated_from = None\<rparr>"

definition take_desynced :: "file_reader \<Rightarrow> bool \<times> file_reader" where
  "take_desynced r = (fr_desynced r, r\<lparr>fr_desynced := False\<rparr>)"

text \<open>One look at the current file: does it open, its size, does the seek work, what a read gives.\<close>

record file_io =
  io_open :: bool
  io_size :: "nat option"
  io_seek :: bool
  io_contents :: "string option"

text \<open>The loop over the segments: lines, the flag, the partial line.\<close>

definition read_segment :: "string \<Rightarrow> string list \<times> bool \<times> string \<Rightarrow> string list \<times> bool \<times> string" where
  "read_segment seg s =
     (let (lines, desynced, part) = s in
      if last seg = newline then
        (if \<not> text_ok seg then (lines, True, part)
         else let line = trim_end seg in
           if line = [] then (lines, desynced, part)
           else if hd line = CHR ''{'' \<and> last line = CHR ''}'' then (lines @ [line], desynced, part)
           else (lines, True, part))
      else (lines, desynced, seg))"

definition read_chunk :: "string \<Rightarrow> file_reader \<Rightarrow> string list \<times> file_reader" where
  "read_chunk contents r =
     (let buf = take read_chunk_bytes (drop (fr_position r) contents)
      in if buf = [] then ([], r)
         else let (lines, desynced, part) = fold read_segment (split_inclusive (fr_partial r @ buf)) ([], fr_desynced r, []);
                  r1 = r\<lparr>fr_position := fr_position r + length buf, fr_partial := part, fr_desynced := desynced\<rparr>
              in (lines, if max_partial_line_bytes < length part then r1\<lparr>fr_partial := [], fr_desynced := True\<rparr> else r1))"

definition on_modify :: "file_io \<Rightarrow> file_reader \<Rightarrow> string list \<times> file_reader" where
  "on_modify io r =
     (if fr_current_path r = None then ([], r)
      else if \<not> fr_file r \<and> \<not> io_open io then ([], r)
      else let r1 = r\<lparr>fr_file := True\<rparr> in
        case io_size io of None \<Rightarrow> ([], r1) | Some file_size \<Rightarrow>
          if file_size \<le> fr_position r1 \<or> \<not> io_seek io then ([], r1)
          else case io_contents io of None \<Rightarrow> ([], r1\<lparr>fr_file := False\<rparr>)
               | Some contents \<Rightarrow> read_chunk contents r1)"

text \<open>The drain loop of \<open>on_create\<close>.\<close>

fun drain_old :: "file_io list \<Rightarrow> string list \<Rightarrow> file_reader \<Rightarrow> (string list \<times> file_reader) option" where
  "drain_old [] old_lines r = None"
| "drain_old (io # ios) old_lines r =
     (let (more_lines, r1) = on_modify io r
      in if more_lines = [] then Some (old_lines, r1) else drain_old ios (old_lines @ more_lines) r1)"

definition switch_to :: "instant \<Rightarrow> path \<Rightarrow> file_reader \<Rightarrow> file_reader" where
  "switch_to now p r =
     r\<lparr>fr_rotated_from := (case fr_current_path r of
                              Some old \<Rightarrow> if old \<noteq> p then Some (old, fr_position r, now) else fr_rotated_from r
                            | None \<Rightarrow> fr_rotated_from r),
       fr_current_path := Some p, fr_file := False, fr_position := 0, fr_partial := []\<rparr>"

definition on_create :: "file_io \<Rightarrow> file_io list \<Rightarrow> instant \<Rightarrow> path \<Rightarrow> file_reader \<Rightarrow> (string list \<times> file_reader) option" where
  "on_create io ios now p r =
     (let (old_lines, r1) = on_modify io r
      in map_option (\<lambda>(ls, r2). (ls, switch_to now p r2)) (drain_old ios old_lines r1))"

text \<open>\<open>len\<close>: the size of the file switched away from, \<open>None\<close> if it cannot be had.\<close>

definition check_rotation :: "instant \<Rightarrow> nat option \<Rightarrow> file_reader \<Rightarrow> file_reader" where
  "check_rotation now len r =
     (case fr_rotated_from r of None \<Rightarrow> r
      | Some (p, read_to, at_time) \<Rightarrow>
          if now - at_time < rotation_grace then r
          else let r1 = r\<lparr>fr_rotated_from := None\<rparr> in
            case len of None \<Rightarrow> r1 | Some n \<Rightarrow> if read_to < n then r1\<lparr>fr_desynced := True\<rparr> else r1)"

definition start_tracking :: "path \<Rightarrow> nat option \<Rightarrow> file_reader \<Rightarrow> file_reader" where
  "start_tracking p len r =
     r\<lparr>fr_position := (case len of None \<Rightarrow> 0 | Some n \<Rightarrow> n), fr_current_path := Some p, fr_file := False, fr_partial := []\<rparr>"

section \<open>Listings\<close>

text \<open>
  \<open>hourly\<close>: its day directories in the order of the listing, each with its files and their modification
  times (\<open>None\<close>: cannot be read); \<open>None\<close> if there is no such directory.
\<close>

type_synonym day_listing = "string \<times> (string \<times> nat option) list"
type_synonym hourly_listing = "day_listing list option"

definition file_path :: "path \<Rightarrow> string \<Rightarrow> string \<Rightarrow> path" where
  "file_path base day f = base @ [''hourly'', day, f]"

definition all_files_newest_first :: "hourly_listing \<Rightarrow> file_reader \<Rightarrow> path list" where
  "all_files_newest_first hourly r =
     (let days = rev (sort_key fst (case hourly of None \<Rightarrow> [] | Some ds \<Rightarrow> ds))
      in concat (map (\<lambda>(day, files).
           map (\<lambda>(t, f). file_path (fr_base_dir r) day f)
             (rev (sort_key fst (sort_key snd (List.map_filter (\<lambda>(f, t). map_option (\<lambda>x. (x, f)) t) files)))))
           (take 2 days)))"

fun latest_day :: "day_listing option \<Rightarrow> day_listing list \<Rightarrow> day_listing option" where
  "latest_day best [] = best"
| "latest_day best (d # ds) =
     (case best of None \<Rightarrow> latest_day (Some d) ds
      | Some b \<Rightarrow> latest_day (Some (if fst b < fst d then d else b)) ds)"

fun latest_mtime :: "(string \<times> nat) option \<Rightarrow> (string \<times> nat option) list \<Rightarrow> (string \<times> nat) option" where
  "latest_mtime best [] = best"
| "latest_mtime best ((f, t) # fs) =
     (case t of None \<Rightarrow> latest_mtime best fs
      | Some x \<Rightarrow> (case best of None \<Rightarrow> latest_mtime (Some (f, x)) fs
                   | Some b \<Rightarrow> latest_mtime (Some (if snd b < x then (f, x) else b)) fs))"

definition find_latest_file :: "hourly_listing \<Rightarrow> file_reader \<Rightarrow> path option" where
  "find_latest_file hourly r =
     (case hourly of None \<Rightarrow> None | Some days \<Rightarrow>
        case latest_day None days of None \<Rightarrow> None | Some (day, files) \<Rightarrow>
          map_option (\<lambda>(f, t). file_path (fr_base_dir r) day f) (latest_mtime None files))"

definition check_for_newer_file :: "hourly_listing \<Rightarrow> (path \<Rightarrow> nat option) \<Rightarrow> file_reader \<Rightarrow> path option" where
  "check_for_newer_file hourly mtime r =
     (case find_latest_file hourly r of None \<Rightarrow> None | Some found \<Rightarrow>
        case fr_current_path r of None \<Rightarrow> Some found | Some tracked \<Rightarrow>
          if found = tracked then None
          else case (mtime found, mtime tracked) of
                 (Some a, Some b) \<Rightarrow> if b < a then Some found else None
               | _ \<Rightarrow> None)"

section \<open>Backfill\<close>

abbreviation max_backfill_files :: nat where "max_backfill_files \<equiv> 4"

text \<open>The walk from the newest file back; the flag is the desync of a walk that went too far.\<close>

fun backfill_walk :: "(path \<Rightarrow> string option) \<Rightarrow> u64 \<Rightarrow> path list \<Rightarrow> path list \<Rightarrow> path list \<times> bool" where
  "backfill_walk heads min_height [] included = (included, False)"
| "backfill_walk heads min_height (p # ps) included =
     (if max_backfill_files \<le> length included then (included, True)
      else case first_block_number (heads p) of
             Some h \<Rightarrow> if min_height < h then backfill_walk heads min_height ps (included @ [p]) else (included @ [p], False)
           | None \<Rightarrow> (included @ [p], False))"

definition backfill_wants :: "u64 \<Rightarrow> string \<Rightarrow> bool" where
  "backfill_wants min_height line \<longleftrightarrow>
     line \<noteq> [] \<and> hd line = CHR ''{'' \<and> last line = CHR ''}''
     \<and> (case extract_block_number line of None \<Rightarrow> True | Some h \<Rightarrow> min_height < h)"

text \<open>
  The lines of one file. \<open>limit\<close> is the recorded length for the newest file; \<open>ok k\<close> is whether the send of the
  \<open>k\<close>-th line works. The result: whether the channel is still open, the position, the lines sent so far.
\<close>

fun backfill_file :: "nat option \<Rightarrow> u64 \<Rightarrow> (nat \<Rightarrow> bool) \<Rightarrow> string list \<Rightarrow> nat \<Rightarrow> string list \<Rightarrow> bool \<times> nat \<times> string list" where
  "backfill_file limit min_height ok [] pos out = (True, pos, out)"
| "backfill_file limit min_height ok (seg # segs) pos out =
     (if \<not> text_ok seg then (True, pos, out)
      else let line_end = pos + length seg in
        if (case limit of None \<Rightarrow> False | Some n \<Rightarrow> n < line_end) \<or> last seg \<noteq> newline then (True, pos, out)
        else let line = trim_end seg in
          if backfill_wants min_height line
          then (if ok (length out) then backfill_file limit min_height ok segs line_end (out @ [line])
                else (False, line_end, out))
          else backfill_file limit min_height ok segs line_end out)"

text \<open>The files in turn; the second result is the position the live tracking continues at.\<close>

fun backfill_files ::
  "(path \<Rightarrow> string option) \<Rightarrow> path \<Rightarrow> nat \<Rightarrow> u64 \<Rightarrow> (nat \<Rightarrow> bool) \<Rightarrow> path list \<Rightarrow> nat \<Rightarrow> string list \<Rightarrow> bool \<times> nat \<times> string list" where
  "backfill_files contents newest recorded min_height ok [] cut_pos out = (True, cut_pos, out)"
| "backfill_files contents newest recorded min_height ok (p # ps) cut_pos out =
     (case contents p of
        None \<Rightarrow> backfill_files contents newest recorded min_height ok ps cut_pos out
      | Some c \<Rightarrow>
          (let (still_open, pos, out') =
                 backfill_file (if p = newest then Some recorded else None) min_height ok (split_inclusive c) 0 out
           in if \<not> still_open then (False, cut_pos, out')
              else backfill_files contents newest recorded min_height ok ps (if p = newest then pos else cut_pos) out'))"

text \<open>\<open>recorded\<close>: the size of the newest file before the reading, 0 if it cannot be had.\<close>

definition backfill_and_track ::
  "path list \<Rightarrow> (path \<Rightarrow> string option) \<Rightarrow> nat \<Rightarrow> (path \<Rightarrow> string option) \<Rightarrow> u64 \<Rightarrow> (nat \<Rightarrow> bool) \<Rightarrow> file_reader
     \<Rightarrow> bool \<times> string list \<times> file_reader" where
  "backfill_and_track files heads recorded contents min_height ok r =
     (case files of [] \<Rightarrow> (True, [], r)
      | newest # older \<Rightarrow>
          (let (included, too_far) = backfill_walk heads min_height files [];
               r1 = (if too_far then r\<lparr>fr_desynced := True\<rparr> else r);
               (still_open, cut_pos, out) = backfill_files contents newest recorded min_height ok (rev included) recorded []
           in if \<not> still_open then (False, out, r1)
              else (True, out, r1\<lparr>fr_current_path := Some newest, fr_file := False, fr_position := cut_pos, fr_partial := []\<rparr>)))"


section \<open>The watcher thread\<close>

datatype watcher_output = SentLine string | SentDesync | SentBackfillDone

text \<open>The backfill before the live tracking: what is sent, and whether the thread goes on.\<close>

definition watcher_backfill ::
  "event_source \<Rightarrow> path list \<Rightarrow> (path \<Rightarrow> string option) \<Rightarrow> nat \<Rightarrow> (path \<Rightarrow> string option) \<Rightarrow> u64 \<Rightarrow> (nat \<Rightarrow> bool) \<Rightarrow> file_reader
     \<Rightarrow> bool \<times> watcher_output list \<times> file_reader" where
  "watcher_backfill source files heads recorded contents min_height ok r =
     (if min_height = 0 \<or> source = Fills then (True, [], r)
      else let (channel_open, out, r1) = backfill_and_track files heads recorded contents min_height ok r in
        if \<not> channel_open then (False, map SentLine out, r1)
        else let (lost, r2) = take_desynced r1 in
          (True, map SentLine out @ (if lost then [SentDesync] else []) @ [SentBackfillDone], r2))"

text \<open>What a wait of the loop brings. A create event carries the looks at the old file while it is drained.\<close>

datatype watcher_event =
    Created path bool file_io "file_io list"
  | Modified path bool "nat option"
  | OtherEvent
  | WatchError
  | PollTimeout
  | EventsGone

text \<open>The event part of an iteration; \<open>None\<close> when the thread ends. \<open>True\<close>: the rest of the iteration is skipped.\<close>

definition watcher_on_event ::
  "instant \<Rightarrow> watcher_event \<Rightarrow> file_io \<Rightarrow> file_reader \<Rightarrow> (bool \<times> string list \<times> file_reader) option" where
  "watcher_on_event now ev io r =
     (case ev of
        Created p is_dir io0 ios \<Rightarrow>
          if is_dir then Some (True, [], r)
          else (case on_create io0 ios now p r of None \<Rightarrow> None
                | Some (old_lines, r1) \<Rightarrow> let (lines, r2) = on_modify io r1 in Some (False, old_lines @ lines, r2))
      | Modified p is_dir len \<Rightarrow>
          if is_dir then Some (True, [], r)
          else let r1 = (if fr_current_path r = None then start_tracking p len r else r);
                   (lines, r2) = on_modify io r1
               in Some (False, lines, r2)
      | OtherEvent \<Rightarrow> Some (False, [], r)
      | WatchError \<Rightarrow> Some (False, [], r)
      | PollTimeout \<Rightarrow> let (lines, r1) = on_modify io r in Some (False, lines, r1)
      | EventsGone \<Rightarrow> None)"

text \<open>
  One iteration: the event, the look back at a rotated file, the report of a loss, and every 10000 polls the
  search for a newer file (\<open>newer\<close> is the listing then, with the looks at the old file).
\<close>

definition watcher_iteration ::
  "instant \<Rightarrow> nat \<Rightarrow> watcher_event \<Rightarrow> file_io \<Rightarrow> nat option \<Rightarrow> hourly_listing \<Rightarrow> (path \<Rightarrow> nat option) \<Rightarrow> file_io \<Rightarrow> file_io list
     \<Rightarrow> file_reader \<Rightarrow> (watcher_output list \<times> file_reader) option" where
  "watcher_iteration now poll_count ev io rotated_len hourly mtime io0 ios r =
     (case watcher_on_event now ev io r of None \<Rightarrow> None
      | Some (skip_rest, lines, r1) \<Rightarrow>
          if skip_rest then Some (map SentLine lines, r1)
          else let (lost, r2) = take_desynced (check_rotation now rotated_len r1);
                   out = map SentLine lines @ (if lost then [SentDesync] else [])
               in if poll_count mod 10000 \<noteq> 0 then Some (out, r2)
                  else (case check_for_newer_file hourly mtime r2 of None \<Rightarrow> Some (out, r2)
                        | Some newer \<Rightarrow>
                            map_option (\<lambda>(old_lines, r3). (out @ map SentLine old_lines, r3)) (on_create io0 ios now newer r2)))"

section \<open>Splitting into lines\<close>

text \<open>The lines of a text by specification: its complete lines, trimmed, without the blank ones; and the rest.\<close>

definition complete_segments :: "string \<Rightarrow> string list" where
  "complete_segments s = filter (\<lambda>seg. last seg = newline) (split_inclusive s)"

definition tail_part :: "string \<Rightarrow> string" where
  "tail_part s = (case filter (\<lambda>seg. last seg \<noteq> newline) (split_inclusive s) of [] \<Rightarrow> [] | t # ts \<Rightarrow> t)"

definition good_line :: "string \<Rightarrow> bool" where
  "good_line line \<longleftrightarrow> line \<noteq> [] \<and> hd line = CHR ''{'' \<and> last line = CHR ''}''"

definition bad_segment :: "string \<Rightarrow> bool" where
  "bad_segment seg \<longleftrightarrow> \<not> text_ok seg \<or> (trim_end seg \<noteq> [] \<and> \<not> good_line (trim_end seg))"

definition lines_of :: "string \<Rightarrow> string list" where
  "lines_of s = filter (\<lambda>l. l \<noteq> []) (map trim_end (complete_segments s))"

lemma split_inclusive_concat [simp]: "concat (split_inclusive s) = s"
  by (induction s rule: split_inclusive.induct) (auto split: list.split)

lemma split_inclusive_nonempty: "seg \<in> set (split_inclusive s) \<Longrightarrow> seg \<noteq> []"
  by (induction s arbitrary: seg rule: split_inclusive.induct) (auto split: list.splits if_splits)

lemma split_inclusive_Nil_iff [simp]: "split_inclusive s = [] \<longleftrightarrow> s = []"
  by (cases s) (auto split: list.split)

text \<open>Only the last segment can lack its newline, and a newline ends a segment.\<close>

lemma split_inclusive_app:
  assumes "s = [] \<or> last s = newline"
  shows "split_inclusive (s @ t) = split_inclusive s @ split_inclusive t"
  using assms
proof (induction s rule: split_inclusive.induct)
  case (2 c cs)
  show ?case
  proof (cases "cs = []")
    case True
    then show ?thesis using 2 by simp
  next
    case False
    then have IH: "split_inclusive (cs @ t) = split_inclusive cs @ split_inclusive t"
      using 2 by (cases "c = newline") simp_all
    have "split_inclusive cs \<noteq> []" using False by simp
    then obtain x xs where "split_inclusive cs = x # xs" by (cases "split_inclusive cs") auto
    then show ?thesis using IH by simp
  qed
qed simp

definition whole_part :: "string \<Rightarrow> string" where
  "whole_part s = concat (complete_segments s)"

lemma split_shape:
  "\<exists>ss t. split_inclusive s = ss @ t \<and> (\<forall>seg \<in> set ss. last seg = newline) \<and> (t = [] \<or> (\<exists>u. t = [u] \<and> last u \<noteq> newline))"
proof (induction s rule: split_inclusive.induct)
  case (2 c cs)
  show ?case
  proof (cases "c = newline")
    case True
    with 2(1) obtain ss t where "split_inclusive cs = ss @ t" "\<forall>seg \<in> set ss. last seg = newline"
        "t = [] \<or> (\<exists>u. t = [u] \<and> last u \<noteq> newline)" by blast
    then show ?thesis using True by (intro exI [of _ "[c] # ss"] exI [of _ t]) auto
  next
    case False
    with 2(2) obtain ss t where st: "split_inclusive cs = ss @ t" "\<forall>seg \<in> set ss. last seg = newline"
        "t = [] \<or> (\<exists>u. t = [u] \<and> last u \<noteq> newline)" by blast
    show ?thesis
    proof (cases ss)
      case Nil
      show ?thesis
      proof (cases t)
        case Nil
        then show ?thesis using False st \<open>ss = []\<close> by (intro exI [of _ "[]"] exI [of _ "[[c]]"]) simp
      next
        case (Cons u us)
        then have u: "us = []" "last u \<noteq> newline" using st(3) by auto
        have "u \<noteq> []" using split_inclusive_nonempty [of u cs] st(1) Cons by simp
        then show ?thesis using False st(1) \<open>ss = []\<close> Cons u by (intro exI [of _ "[]"] exI [of _ "[c # u]"]) simp
      qed
    next
      case (Cons x xs)
      have "x \<noteq> []" using split_inclusive_nonempty [of x cs] st(1) Cons by simp
      then show ?thesis using False st Cons by (intro exI [of _ "(c # x) # xs"] exI [of _ t]) auto
    qed
  qed
qed simp

lemma split_parts:
  "split_inclusive s = complete_segments s @ (if tail_part s = [] then [] else [tail_part s])"
  "s = whole_part s @ tail_part s" "tail_part s = [] \<or> last (tail_part s) \<noteq> newline"
proof -
  obtain ss t where st: "split_inclusive s = ss @ t" "\<forall>seg \<in> set ss. last seg = newline"
      "t = [] \<or> (\<exists>u. t = [u] \<and> last u \<noteq> newline)"
    using split_shape by blast
  have f: "filter (\<lambda>seg. last seg = newline) ss = ss" "filter (\<lambda>seg. last seg \<noteq> newline) ss = []"
    using st(2) by (auto simp: filter_empty_conv intro: filter_True)
  have ne: "u \<noteq> []" if "t = [u]" for u using split_inclusive_nonempty [of u s] st(1) that by simp
  show 1: "split_inclusive s = complete_segments s @ (if tail_part s = [] then [] else [tail_part s])"
    and "tail_part s = [] \<or> last (tail_part s) \<noteq> newline"
    using st(1,3) f ne by (auto simp: complete_segments_def tail_part_def)
  have "s = concat (split_inclusive s)" by simp
  also have "\<dots> = whole_part s @ tail_part s" unfolding 1 by (simp add: whole_part_def)
  finally show "s = whole_part s @ tail_part s" .
qed

lemma whole_part_ends: "whole_part s = [] \<or> last (whole_part s) = newline"
proof (cases "complete_segments s" rule: rev_cases)
  case (snoc xs x)
  then have "x \<in> set (complete_segments s)" by simp
  then have "last x = newline" "x \<noteq> []" using split_inclusive_nonempty by (auto simp: complete_segments_def)
  then show ?thesis using snoc by (simp add: whole_part_def)
qed (simp add: whole_part_def)

lemma split_inclusive_seg: "seg \<in> set (split_inclusive s) \<Longrightarrow> split_inclusive seg = [seg]"
  by (induction s arbitrary: seg rule: split_inclusive.induct) (auto split: list.splits if_splits)

lemma split_tail: "split_inclusive (tail_part s) = (if tail_part s = [] then [] else [tail_part s])"
  using split_inclusive_seg [of "tail_part s" s] split_parts(1) [of s] by auto

lemma split_whole: "split_inclusive (whole_part s) = complete_segments s"
proof -
  have "split_inclusive s = split_inclusive (whole_part s) @ split_inclusive (tail_part s)"
    using split_inclusive_app [OF whole_part_ends, of s "tail_part s"] split_parts(2) [of s] by simp
  then show ?thesis using split_parts(1) [of s] split_tail [of s] by simp
qed

lemma complete_newline: "\<forall>seg \<in> set (complete_segments s). last seg = newline"
  by (simp add: complete_segments_def)

lemma whole_parts: "complete_segments (whole_part s) = complete_segments s" "tail_part (whole_part s) = []"
  using split_whole [of s] complete_newline [of s]
  by (simp_all add: complete_segments_def [of "whole_part s"] tail_part_def [of "whole_part s"])

lemma split_rest: "split_inclusive (s @ t) = complete_segments s @ split_inclusive (tail_part s @ t)"
proof -
  have "s @ t = whole_part s @ tail_part s @ t" using split_parts(2) [of s] by (metis append_assoc)
  then show ?thesis using split_inclusive_app [OF whole_part_ends, of s "tail_part s @ t"] split_whole [of s] by metis
qed

lemma split_more:
  "complete_segments (s @ t) = complete_segments s @ complete_segments (tail_part s @ t)"
  "tail_part (s @ t) = tail_part (tail_part s @ t)"
  using split_rest [of s t] complete_newline [of s]
  by (simp_all add: complete_segments_def [of "s @ t"] complete_segments_def [of "tail_part s @ t"]
      tail_part_def [of "s @ t"] tail_part_def [of "tail_part s @ t"])

section \<open>Incremental reading\<close>

definition good_lines :: "string \<Rightarrow> string list" where
  "good_lines s = map trim_end (filter (\<lambda>seg. text_ok seg \<and> good_line (trim_end seg)) (complete_segments s))"

lemma fold_read_segment:
  "fold read_segment segs (ls, d, p) =
     (ls @ map trim_end (filter (\<lambda>seg. last seg = newline \<and> text_ok seg \<and> good_line (trim_end seg)) segs),
      d \<or> (\<exists>seg \<in> set segs. last seg = newline \<and> bad_segment seg),
      (case rev (filter (\<lambda>seg. last seg \<noteq> newline) segs) of [] \<Rightarrow> p | t # ts \<Rightarrow> t))"
proof (induction segs arbitrary: ls d p)
  case (Cons seg segs)
  have "read_segment seg (ls, d, p) =
     (if last seg = newline \<and> text_ok seg \<and> good_line (trim_end seg) then ls @ [trim_end seg] else ls,
      d \<or> last seg = newline \<and> bad_segment seg, if last seg = newline then p else seg)"
    by (auto simp: read_segment_def good_line_def bad_segment_def Let_def)
  then show ?case using Cons.IH by (auto split: list.split)
qed simp

lemma read_text:
  "fold read_segment (split_inclusive s) ([], d, []) =
     (good_lines s, d \<or> (\<exists>seg \<in> set (complete_segments s). bad_segment seg), tail_part s)"
proof -
  have "rev (filter (\<lambda>seg. last seg \<noteq> newline) (split_inclusive s)) = (if tail_part s = [] then [] else [tail_part s])"
    using split_parts(3) [of s] by (subst split_parts(1)) (auto simp: complete_segments_def filter_empty_conv)
  then show ?thesis
    unfolding fold_read_segment good_lines_def complete_segments_def filter_filter by (simp add: conj_ac Bex_def)
qed

lemma good_lines_more: "good_lines (s @ t) = good_lines s @ good_lines (tail_part s @ t)"
  unfolding good_lines_def split_more(1) [of s t] by simp

lemma lines_of_more: "lines_of (s @ t) = lines_of s @ lines_of (tail_part s @ t)"
  unfolding lines_of_def split_more(1) [of s t] by simp

lemma good_lines_all:
  "\<not> (\<exists>seg \<in> set (complete_segments s). bad_segment seg) \<Longrightarrow> good_lines s = lines_of s"
proof -
  have "map trim_end (filter (\<lambda>seg. text_ok seg \<and> good_line (trim_end seg)) segs) = filter (\<lambda>l. l \<noteq> []) (map trim_end segs)"
    if "\<forall>seg \<in> set segs. \<not> bad_segment seg" for segs
    using that by (induction segs) (auto simp: bad_segment_def good_line_def)
  then show "\<not> (\<exists>seg \<in> set (complete_segments s). bad_segment seg) \<Longrightarrow> good_lines s = lines_of s"
    by (simp add: good_lines_def lines_of_def)
qed

lemma read_chunk_some:
  assumes "buf = take read_chunk_bytes (drop (fr_position r) contents)" "buf \<noteq> []"
  shows "read_chunk contents r =
     (good_lines (fr_partial r @ buf),
      r\<lparr>fr_position := fr_position r + length buf,
        fr_partial := (if max_partial_line_bytes < length (tail_part (fr_partial r @ buf)) then [] else tail_part (fr_partial r @ buf)),
        fr_desynced := (fr_desynced r \<or> (\<exists>seg \<in> set (complete_segments (fr_partial r @ buf)). bad_segment seg)
                        \<or> max_partial_line_bytes < length (tail_part (fr_partial r @ buf)))\<rparr>)"
  unfolding read_chunk_def Let_def assms(1) [symmetric] read_text using assms(2) by simp

text \<open>One look either changes nothing that matters, or reads a piece of the file.\<close>

lemma on_modify_cases:
  assumes "on_modify io r = (ls, r')"
  obtains (unchanged) f where "ls = []" "r' = r\<lparr>fr_file := f\<rparr>"
  | (piece) contents buf where "io_contents io = Some contents" "buf = take read_chunk_bytes (drop (fr_position r) contents)" "buf \<noteq> []"
      "ls = good_lines (fr_partial r @ buf)"
      "r' = r\<lparr>fr_file := True, fr_position := fr_position r + length buf,
              fr_partial := (if max_partial_line_bytes < length (tail_part (fr_partial r @ buf)) then [] else tail_part (fr_partial r @ buf)),
              fr_desynced := (fr_desynced r \<or> (\<exists>seg \<in> set (complete_segments (fr_partial r @ buf)). bad_segment seg)
                              \<or> max_partial_line_bytes < length (tail_part (fr_partial r @ buf)))\<rparr>"
proof -
  let ?r = "r\<lparr>fr_file := True\<rparr>"
  consider "ls = [] \<and> r' = r" | "ls = [] \<and> r' = ?r" | "ls = [] \<and> r' = ?r\<lparr>fr_file := False\<rparr>"
    | c where "io_contents io = Some c" "read_chunk c ?r = (ls, r')"
    using assms unfolding on_modify_def Let_def by (auto split: if_splits option.splits)
  then show ?thesis
  proof cases
    case 1
    then have e: "ls = []" "r' = r\<lparr>fr_file := fr_file r\<rparr>" by simp_all
    show ?thesis by (rule unchanged [OF e])
  next
    case 2
    then show ?thesis using unchanged [of True] by simp
  next
    case 3
    then show ?thesis using unchanged [of False] by simp
  next
    case (4 c)
    show ?thesis
    proof (cases "take read_chunk_bytes (drop (fr_position r) c) = []")
      case True
      then have "ls = [] \<and> r' = ?r" using 4(2) by (simp add: read_chunk_def Let_def)
      then show ?thesis using unchanged [of True] by simp
    next
      case False
      obtain buf where buf: "buf = take read_chunk_bytes (drop (fr_position r) c)" by blast
      then have ne: "buf \<noteq> []" using False by simp
      have "buf = take read_chunk_bytes (drop (fr_position ?r) c)" using buf by simp
      from 4(2) [unfolded read_chunk_some [OF this ne]] show ?thesis by (intro piece [OF 4(1) buf ne]) auto
    qed
  qed
qed

fun read_run :: "file_io list \<Rightarrow> file_reader \<Rightarrow> string list \<times> file_reader" where
  "read_run [] r = ([], r)"
| "read_run (io # ios) r =
     (let (ls, r1) = on_modify io r; (more_lines, r2) = read_run ios r1 in (ls @ more_lines, r2))"

text \<open>All looks see a beginning of the same final contents.\<close>

definition looks_at :: "string \<Rightarrow> file_io list \<Rightarrow> bool" where
  "looks_at F ios \<longleftrightarrow> (\<forall>io \<in> set ios. \<forall>c. io_contents io = Some c \<longrightarrow> (\<exists>rest. F = c @ rest))"

text \<open>The reader has read \<open>T\<close>, which lies from \<open>p0\<close> on in the contents, and has delivered \<open>ls\<close> of it.\<close>

definition has_read :: "string \<Rightarrow> nat \<Rightarrow> string \<Rightarrow> string list \<Rightarrow> file_reader \<Rightarrow> bool" where
  "has_read F p0 T ls r \<longleftrightarrow>
     (\<exists>rest. drop p0 F = T @ rest) \<and> fr_position r = p0 + length T \<and> p0 + length T \<le> length F
     \<and> (\<not> fr_desynced r \<longrightarrow> fr_partial r = tail_part T \<and> ls = lines_of T)"

lemma on_modify_reads:
  assumes h: "has_read F p0 T ls r" and l: "looks_at F [io]" and m: "on_modify io r = (more_lines, r')"
  shows "\<exists>T'. has_read F p0 (T @ T') (ls @ more_lines) r'
     \<and> fr_current_path r' = fr_current_path r \<and> fr_rotated_from r' = fr_rotated_from r \<and> (fr_desynced r \<longrightarrow> fr_desynced r')"
  using m
proof (cases rule: on_modify_cases)
  case (unchanged f)
  then show ?thesis using h by (intro exI [of _ "[]"]) (simp add: has_read_def)
next
  case (piece c buf)
  obtain rest0 where F: "F = c @ rest0" using l piece(1) by (auto simp: looks_at_def)
  obtain rest where rest: "drop p0 F = T @ rest" "p0 + length T \<le> length F" "fr_position r = p0 + length T"
    using h by (auto simp: has_read_def)
  have "rest = drop (fr_position r) F" using rest by (metis add.commute append_eq_conv_conj drop_drop)
  moreover have "fr_position r < length c" using piece(2,3) by (metis drop_all leI take_Nil)
  ultimately have "rest = drop (fr_position r) c @ rest0" using F by simp
  then have pre: "rest = buf @ drop read_chunk_bytes (drop (fr_position r) c) @ rest0"
    unfolding piece(2) by (metis append_assoc append_take_drop_id)
  have len: "p0 + length (T @ buf) \<le> length F"
  proof -
    have "length (drop p0 F) = length T + length buf + length (drop read_chunk_bytes (drop (fr_position r) c) @ rest0)"
      unfolding rest(1) pre by simp
    then show ?thesis using rest(2) by simp
  qed
  have exact: "fr_partial r' = tail_part (T @ buf) \<and> ls @ more_lines = lines_of (T @ buf)" if nd: "\<not> fr_desynced r'"
  proof -
    have "\<not> fr_desynced r" and ok: "\<not> (\<exists>seg \<in> set (complete_segments (fr_partial r @ buf)). bad_segment seg)"
      and short: "\<not> max_partial_line_bytes < length (tail_part (fr_partial r @ buf))"
      using nd unfolding piece(5) by simp_all
    then have p: "fr_partial r = tail_part T" "ls = lines_of T" using h by (simp_all add: has_read_def)
    have "more_lines = lines_of (tail_part T @ buf)" using piece(4) good_lines_all [OF ok] p(1) by simp
    moreover have "fr_partial r' = tail_part (tail_part T @ buf)" unfolding piece(5) using short p(1) by simp
    ultimately show ?thesis using p(2) lines_of_more [of T buf] split_more(2) [of T buf] by simp
  qed
  have "has_read F p0 (T @ buf) (ls @ more_lines) r'"
    unfolding has_read_def using rest(1) pre len exact rest(3) piece(5) by simp
  then show ?thesis using piece(5) by (intro exI [of _ buf]) simp
qed

lemma read_run_reads:
  "\<lbrakk>has_read F p0 T ls r; looks_at F ios; read_run ios r = (more_lines, r')\<rbrakk> \<Longrightarrow>
     \<exists>T'. has_read F p0 (T @ T') (ls @ more_lines) r'
       \<and> fr_current_path r' = fr_current_path r \<and> fr_rotated_from r' = fr_rotated_from r \<and> (fr_desynced r \<longrightarrow> fr_desynced r')"
proof (induction ios arbitrary: r T ls more_lines)
  case Nil
  then show ?case by (intro exI [of _ "[]"]) simp
next
  case (Cons io ios)
  obtain l1 r1 l2 where s: "on_modify io r = (l1, r1)" "read_run ios r1 = (l2, r')" "more_lines = l1 @ l2"
    using Cons.prems(3) by (auto simp: Let_def split: prod.splits)
  have "looks_at F [io]" "looks_at F ios" using Cons.prems(2) by (auto simp: looks_at_def)
  from on_modify_reads [OF Cons.prems(1) this(1) s(1)] obtain T1 where
    T1: "has_read F p0 (T @ T1) (ls @ l1) r1" "fr_current_path r1 = fr_current_path r" "fr_rotated_from r1 = fr_rotated_from r"
      "fr_desynced r \<longrightarrow> fr_desynced r1" by blast
  from Cons.IH [OF T1(1) \<open>looks_at F ios\<close> s(2)] obtain T2 where
    "has_read F p0 ((T @ T1) @ T2) ((ls @ l1) @ l2) r'" "fr_current_path r' = fr_current_path r1"
      "fr_rotated_from r' = fr_rotated_from r1" "fr_desynced r1 \<longrightarrow> fr_desynced r'" by blast
  then show ?case using T1 s(3) by (intro exI [of _ "T1 @ T2"]) simp
qed

lemma has_read_start: "\<lbrakk>fr_position r = p0; fr_partial r = []; p0 \<le> length F\<rbrakk> \<Longrightarrow> has_read F p0 [] [] r"
  by (simp add: has_read_def lines_of_def complete_segments_def tail_part_def)

lemma has_read_text: "has_read F p0 T ls r \<Longrightarrow> T = take (fr_position r - p0) (drop p0 F)"
  by (auto simp: has_read_def)

lemma incremental_exact:
  assumes "looks_at F ios" "fr_partial r = []" "fr_position r \<le> length F"
    and "read_run ios r = (ls, r')" "\<not> fr_desynced r'"
  shows "let T = take (fr_position r' - fr_position r) (drop (fr_position r) F)
         in fr_position r \<le> fr_position r' \<and> fr_position r' \<le> length F \<and> ls = lines_of T \<and> fr_partial r' = tail_part T"
proof -
  from read_run_reads [OF has_read_start [OF refl assms(2,3)] assms(1,4)] obtain T
    where h: "has_read F (fr_position r) T ls r'" by auto
  show ?thesis using has_read_text [OF h] h assms(5) by (simp add: has_read_def Let_def) 
qed


text \<open>
  C9. Reading in pieces is reading lines: however the file grows, wherever the pieces of at most 8 MB cut
  lines and characters, and whatever looks fail, a reader that has not flagged a loss has delivered exactly
  the complete non-blank lines of what lies between its first and its current position, trimmed, in order,
  and holds back exactly the unfinished rest.
\<close>

theorem incremental_reading_exact:
  assumes "looks_at F ios" "fr_partial r = []" "fr_position r \<le> length F"
    and "read_run ios r = (ls, r')" "\<not> fr_desynced r'"
  shows "let T = take (fr_position r' - fr_position r) (drop (fr_position r) F)
         in fr_position r \<le> fr_position r' \<and> fr_position r' \<le> length F \<and> ls = lines_of T \<and> fr_partial r' = tail_part T"
  by (rule incremental_exact [OF assms])

section \<open>Rotation\<close>

lemma drain_old_run:
  "drain_old ios old r = Some (ls, r') \<Longrightarrow> \<exists>n more_lines. read_run (take n ios) r = (more_lines, r') \<and> ls = old @ more_lines"
proof (induction ios arbitrary: old r)
  case (Cons io ios)
  obtain m r1 where m: "on_modify io r = (m, r1)" by fastforce
  show ?case
  proof (cases "m = []")
    case True
    then have "ls = old" "r' = r1" using Cons.prems m by (simp_all add: Let_def)
    then show ?thesis using m True by (intro exI [of _ "Suc 0"] exI [of _ "[]"]) (simp add: Let_def)
  next
    case False
    then have "drain_old ios (old @ m) r1 = Some (ls, r')" using Cons.prems m by (simp add: Let_def)
    from Cons.IH [OF this] obtain n l2 where "read_run (take n ios) r1 = (l2, r')" "ls = (old @ m) @ l2" by blast
    then show ?thesis using m by (intro exI [of _ "Suc n"] exI [of _ "m @ l2"]) (simp add: Let_def)
  qed
qed simp

lemma on_create_run:
  assumes "on_create io ios now p r = Some (ls, r')"
  shows "\<exists>n r1. read_run (io # take n ios) r = (ls, r1) \<and> r' = switch_to now p r1"
proof -
  obtain m r0 where m: "on_modify io r = (m, r0)" by fastforce
  then obtain r1 where "drain_old ios m r0 = Some (ls, r1)" "r' = switch_to now p r1"
    using assms by (auto simp: on_create_def Let_def)
  then obtain n l2 where "read_run (take n ios) r0 = (l2, r1)" "ls = m @ l2" using drain_old_run by blast
  then have "read_run (io # take n ios) r = (ls, r1)" using m by (simp add: Let_def)
  then show ?thesis using \<open>r' = switch_to now p r1\<close> by blast
qed


text \<open>
  C38. The drain before a rotation ends: while the old file stays below some size, some pass finds no new
  line, whatever the passes see.
\<close>

theorem drain_ends:
  assumes "\<forall>k. \<forall>c. io_contents (looks k) = Some c \<longrightarrow> length c \<le> max_size"
  shows "\<exists>n. drain_old (map looks [0..<n]) old r \<noteq> None"
proof -
  have "\<exists>n. drain_old (map looks [k..<k + n]) old r \<noteq> None" for k old
  proof (induction "max_size - fr_position r" arbitrary: k old r rule: less_induct)
    case less
    obtain m r1 where m: "on_modify (looks k) r = (m, r1)" by fastforce
    show ?case
    proof (cases "m = []")
      case True
      then have "drain_old (map looks [k..<k + 1]) old r \<noteq> None" using m by (simp add: Let_def)
      then show ?thesis by blast
    next
      case False
      from m have "max_size - fr_position r1 < max_size - fr_position r"
      proof (cases rule: on_modify_cases)
        case (unchanged f)
        then show ?thesis using False by simp
      next
        case (piece c buf)
        have "fr_position r < length c" using piece(2,3) by (metis drop_all leI take_Nil)
        moreover have "length c \<le> max_size" using assms piece(1) by blast
        ultimately show ?thesis using piece(3,5) by (cases buf) simp_all
      qed
      from less [OF this] obtain n where "drain_old (map looks [Suc k..<Suc k + n]) (old @ m) r1 \<noteq> None" by blast
      moreover have "[k..<k + Suc n] = k # [Suc k..<Suc k + n]" by (subst upt_conv_Cons) simp_all
      ultimately have "drain_old (map looks [k..<k + Suc n]) old r \<noteq> None"
        using m False by (simp only: list.map drain_old.simps Let_def prod.case if_False simp_thms)
      then show ?thesis by blast
    qed
  qed
  from this [of 0 old] show ?thesis by simp
qed


section \<open>Backfill and live tracking meet\<close>

text \<open>The segments of a file that the backfill gets to.\<close>

fun within_limit :: "nat option \<Rightarrow> string list \<Rightarrow> nat \<Rightarrow> string list" where
  "within_limit limit [] pos = []"
| "within_limit limit (seg # segs) pos =
     (if (case limit of None \<Rightarrow> False | Some n \<Rightarrow> n < pos + length seg) \<or> last seg \<noteq> newline then []
      else seg # within_limit limit segs (pos + length seg))"

lemma backfill_file_within:
  "\<lbrakk>\<forall>seg \<in> set segs. text_ok seg; \<forall>k. ok k\<rbrakk> \<Longrightarrow>
     backfill_file limit m ok segs pos out =
       (True, pos + length (concat (within_limit limit segs pos)),
        out @ filter (backfill_wants m) (map trim_end (within_limit limit segs pos)))"
  by (induction segs arbitrary: pos out) (auto simp: Let_def add.assoc)

lemma within_None: "within_limit None (split_inclusive s) pos = complete_segments s"
proof -
  have "within_limit None (ss @ t) pos = ss" if "\<forall>seg \<in> set ss. last seg = newline" "t = [] \<or> (\<exists>u. t = [u] \<and> last u \<noteq> newline)"
    for ss t pos
    using that by (induction ss arbitrary: pos) auto
  from this [OF complete_newline, of "if tail_part s = [] then [] else [tail_part s]" s pos] show ?thesis
    using split_parts(3) [of s] unfolding split_parts(1) [of s, symmetric] by auto
qed

lemma within_complete:
  "\<lbrakk>\<forall>seg \<in> set ss. last seg = newline; pos + length (concat ss) \<le> n\<rbrakk> \<Longrightarrow>
     within_limit (Some n) (ss @ ts) pos = ss @ within_limit (Some n) ts (pos + length (concat ss))"
  by (induction ss arbitrary: pos) (auto simp: add.assoc)

lemma split_inner: "seg \<in> set (split_inclusive s) \<Longrightarrow> newline \<notin> set (butlast seg)"
  by (induction s arbitrary: seg rule: split_inclusive.induct)
    (auto split: list.splits if_splits dest: split_inclusive_nonempty)

lemma tail_no_newline: "newline \<notin> set (tail_part s)"
proof (cases "tail_part s = []")
  case False
  then have "tail_part s \<in> set (split_inclusive s)" using split_parts(1) [of s] by auto
  then have "newline \<notin> set (butlast (tail_part s))" by (rule split_inner)
  moreover have "last (tail_part s) \<noteq> newline" using split_parts(3) [of s] False by simp
  ultimately show ?thesis using False by (metis append_butlast_last_id in_set_butlastD in_set_conv_decomp rotate1.simps(2) set_ConsD set_rotate1)
qed simp

lemma within_recorded:
  assumes "n \<le> length c"
  shows "within_limit (Some n) (split_inclusive c) 0 = complete_segments (take n c)"
proof -
  let ?s = "take n c" and ?t = "drop n c"
  let ?ts = "split_inclusive (tail_part ?s @ ?t)"
  have n: "length (whole_part ?s) + length (tail_part ?s) = n"
    using split_parts(2) [of ?s] assms by (metis length_append length_take min.absorb2)
  have c: "split_inclusive c = complete_segments ?s @ ?ts" using split_rest [of ?s ?t] by simp
  have "within_limit (Some n) ?ts (length (whole_part ?s)) = []"
  proof (cases ?ts)
    case (Cons x xs)
    show ?thesis
    proof (cases "last x = newline")
      case True
      have x: "x \<noteq> []" "tail_part ?s @ ?t = x @ concat xs"
        using split_inclusive_nonempty [of x "tail_part ?s @ ?t"] Cons split_inclusive_concat [of "tail_part ?s @ ?t"]
        by (simp, metis concat.simps(2))
      have "\<not> length x \<le> length (tail_part ?s)"
      proof
        assume "length x \<le> length (tail_part ?s)"
        then have "set x \<subseteq> set (tail_part ?s)" using x(2) by (metis append_eq_append_conv_if set_take_subset)
        then show False using True x(1) tail_no_newline [of ?s] last_in_set [OF x(1)] by auto
      qed
      then show ?thesis using Cons n by simp
    qed (use Cons in simp)
  next
    case Nil
    then show ?thesis by (simp only: within_limit.simps)
  qed
  then show ?thesis
    using within_complete [of "complete_segments ?s" 0 n ?ts] c n by (simp add: complete_segments_def whole_part_def)
qed

lemma wanted_lines: "filter (backfill_wants m) (map trim_end (complete_segments s)) = filter (backfill_wants m) (lines_of s)"
  by (simp add: lines_of_def) (metis (mono_tags, lifting) backfill_wants_def filter_cong)

definition whole_file_lines :: "(path \<Rightarrow> string option) \<Rightarrow> u64 \<Rightarrow> path \<Rightarrow> string list" where
  "whole_file_lines contents m p = (case contents p of None \<Rightarrow> [] | Some c \<Rightarrow> filter (backfill_wants m) (lines_of c))"

lemma backfill_files_older:
  assumes valid: "\<forall>p c. contents p = Some c \<longrightarrow> (\<forall>seg \<in> set (split_inclusive c). text_ok seg)" and ok: "\<forall>k. ok k"
  shows "newest \<notin> set ps \<Longrightarrow>
     backfill_files contents newest recorded m ok (ps @ qs) pos out =
       backfill_files contents newest recorded m ok qs pos (out @ concat (map (whole_file_lines contents m) ps))"
proof (induction ps arbitrary: out)
  case (Cons p ps)
  have IH: "backfill_files contents newest recorded m ok (ps @ qs) pos out' =
      backfill_files contents newest recorded m ok qs pos (out' @ concat (map (whole_file_lines contents m) ps))" for out'
    using Cons by simp
  have np: "p \<noteq> newest" using Cons.prems by auto
  show ?case
  proof (cases "contents p")
    case None
    then have "whole_file_lines contents m p = []" by (simp add: whole_file_lines_def)
    then show ?thesis using IH None by simp
  next
    case (Some c)
    have "\<forall>seg \<in> set (split_inclusive c). text_ok seg" using valid Some by blast
    from backfill_file_within [OF this ok, of None m 0 out]
    have "\<exists>pos'. backfill_file None m ok (split_inclusive c) 0 out = (True, pos', out @ filter (backfill_wants m) (lines_of c))"
      by (simp add: within_None wanted_lines)
    moreover have "whole_file_lines contents m p = filter (backfill_wants m) (lines_of c)" using Some by (simp add: whole_file_lines_def)
    ultimately show ?thesis using Some np IH by (auto simp: Let_def)
  qed
qed simp

lemma walk_newest: "\<exists>ps. fst (backfill_walk heads m (newest # older) []) = newest # ps \<and> set ps \<subseteq> set older \<and> (distinct older \<longrightarrow> distinct ps)"
proof -
  have w: "\<exists>ps. fst (backfill_walk heads m fs inc) = inc @ ps \<and> set ps \<subseteq> set fs \<and> (distinct fs \<longrightarrow> distinct ps)" for fs inc
  proof (induction fs arbitrary: inc)
    case (Cons f fs)
    show ?case
    proof (cases "max_backfill_files \<le> length inc \<or> (case first_block_number (heads f) of Some h \<Rightarrow> \<not> m < h | None \<Rightarrow> True)")
      case True
      then show ?thesis
        by (cases "max_backfill_files \<le> length inc") (auto split: option.splits intro: exI [of _ "[]"] exI [of _ "[f]"])
    next
      case False
      then have e: "backfill_walk heads m (f # fs) inc = backfill_walk heads m fs (inc @ [f])" by (auto split: option.splits)
      obtain ps where "fst (backfill_walk heads m fs (inc @ [f])) = (inc @ [f]) @ ps" "set ps \<subseteq> set fs" "distinct fs \<longrightarrow> distinct ps"
        using Cons.IH by blast
      then show ?thesis unfolding e by (intro exI [of _ "f # ps"]) auto
    qed
  qed simp
  show ?thesis
  proof (cases "first_block_number (heads newest)")
    case (Some h)
    then show ?thesis using w [of older "[newest]"] by (cases "m < h") auto
  qed simp
qed

text \<open>
  C20. The backfill and the live tracking meet without gap or overlap: if the files are valid text and the
  channel stays open, the backfill sends the wanted lines of the older files it reaches and then those of the
  newest file up to the last line complete when its size was recorded, and the reading that follows, unless
  it flags a loss, delivers exactly the lines of the newest file from there on.
\<close>

theorem backfill_meets_live:
  assumes valid: "\<forall>p c. contents p = Some c \<longrightarrow> (\<forall>seg \<in> set (split_inclusive c). text_ok seg)" and ok: "\<forall>k. ok k"
    and files: "newest \<notin> set older" "contents newest = Some c" "recorded \<le> length c" "F = c @ later"
    and bf: "backfill_and_track (newest # older) heads recorded contents min_height ok r = (still_open, out, r1)"
    and live: "looks_at F ios" "read_run ios r1 = (ls, r2)" "\<not> fr_desynced r2"
  shows "still_open \<and> fr_current_path r1 = Some newest \<and> fr_position r1 = length (whole_part (take recorded c))
     \<and> (\<exists>reached. set reached \<subseteq> set older \<and>
          out = concat (map (whole_file_lines contents min_height) reached)
                @ filter (backfill_wants min_height) (lines_of (take (fr_position r1) F)))
     \<and> lines_of (take (fr_position r2) F) = lines_of (take (fr_position r1) F) @ ls"
proof -
  obtain ps where ps: "fst (backfill_walk heads min_height (newest # older) []) = newest # ps" "set ps \<subseteq> set older"
    using walk_newest by blast
  obtain too_far where walk: "backfill_walk heads min_height (newest # older) [] = (newest # ps, too_far)"
    using ps(1) by (metis prod.collapse)
  let ?older = "concat (map (whole_file_lines contents min_height) (rev ps))" and ?s = "take recorded c"
  have np: "newest \<notin> set (rev ps)" using ps(2) files(1) by auto
  have v: "\<forall>seg \<in> set (split_inclusive c). text_ok seg" using valid files(2) by blast
  have "backfill_files contents newest recorded min_height ok (rev (newest # ps)) recorded [] =
      (True, length (whole_part ?s), ?older @ filter (backfill_wants min_height) (lines_of ?s))"
    using backfill_files_older [OF valid ok np, of recorded min_height "[newest]" recorded "[]"]
      backfill_file_within [OF v ok, of "Some recorded" min_height 0 ?older] files(2)
    by (simp add: within_recorded [OF files(3)] wanted_lines whole_part_def)
  then have res: "still_open" "out = ?older @ filter (backfill_wants min_height) (lines_of ?s)"
      "fr_current_path r1 = Some newest" "fr_position r1 = length (whole_part ?s)" "fr_partial r1 = []"
    using bf walk by (auto simp: backfill_and_track_def Let_def)
  have whole: "take (fr_position r1) F = whole_part ?s"
  proof -
    have "F = whole_part ?s @ tail_part ?s @ drop recorded c @ later"
      using split_parts(2) [of ?s] files(4) by (metis append_assoc append_take_drop_id)
    then show ?thesis using res(4) by (metis append_eq_conv_conj)
  qed
  have lo: "lines_of (whole_part ?s) = lines_of ?s" by (simp add: lines_of_def whole_parts(1))
  have le: "fr_position r1 \<le> length F"
    using res(4) files(4) split_parts(2) [of ?s] by (metis le_add1 length_append append_take_drop_id add.assoc)
  define T where "T = take (fr_position r2 - fr_position r1) (drop (fr_position r1) F)"
  have T: "fr_position r1 \<le> fr_position r2" "ls = lines_of T"
    using incremental_exact [OF live(1) res(5) le live(2,3)] by (simp_all add: T_def Let_def)
  have "take (fr_position r2) F = whole_part ?s @ T"
    using whole T(1) unfolding T_def by (metis take_add le_add_diff_inverse)
  then have "lines_of (take (fr_position r2) F) = lines_of (take (fr_position r1) F) @ ls"
    using lines_of_more [of "whole_part ?s" T] whole whole_parts(2) [of ?s] T(2) by simp
  moreover have "set (rev ps) \<subseteq> set older" using ps(2) by simp
  ultimately show ?thesis using res whole lo by (intro conjI exI [of _ "rev ps"]) simp_all
qed


section \<open>Sample files\<close>

definition sample_text :: string where
  "sample_text = ''{}'' @ [newline] @ ''{''"

definition sample_look :: file_io where
  "sample_look = \<lparr>io_open = True, io_size = Some 4, io_seek = True, io_contents = Some sample_text\<rparr>"

definition sample_reader :: file_reader where
  "sample_reader = (reader_new [])\<lparr>fr_current_path := Some [''f'']\<rparr>"

lemma sample_parsed:
  "good_lines sample_text = [''{}'']" "tail_part sample_text = ''{''" "lines_of sample_text = [''{}'']"
  "\<not> (\<exists>seg \<in> set (complete_segments sample_text). bad_segment seg)"
  by code_simp+

lemma sample_length: "length sample_text = 4"
  by (simp add: sample_text_def)

lemma sample_reads:
  assumes "fr_position r = 0" "fr_partial r = []" "fr_current_path r \<noteq> None" "\<not> fr_desynced r"
  shows "on_modify sample_look r = ([''{}''], r\<lparr>fr_file := True, fr_position := 4, fr_partial := ''{'', fr_desynced := False\<rparr>)"
proof -
  let ?r = "r\<lparr>fr_file := True\<rparr>"
  have b: "sample_text = take read_chunk_bytes (drop (fr_position ?r) sample_text)" using assms(1) sample_length by simp
  have ne: "sample_text \<noteq> []" by (simp add: sample_text_def)
  have "on_modify sample_look r = read_chunk sample_text ?r"
    using assms by (auto simp: on_modify_def sample_look_def Let_def)
  also have "\<dots> = ([''{}''], r\<lparr>fr_file := True, fr_position := 4, fr_partial := ''{'', fr_desynced := False\<rparr>)"
    unfolding read_chunk_some [OF b ne] using assms sample_parsed sample_length by simp
  finally show ?thesis .
qed

lemma sample_quiet: "4 \<le> fr_position r \<Longrightarrow> fr_current_path r \<noteq> None \<Longrightarrow> on_modify sample_look r = ([], r\<lparr>fr_file := True\<rparr>)"
  by (auto simp: on_modify_def sample_look_def)

theorem incremental_reading_exact_witness:
  "\<exists>r'. read_run [sample_look] sample_reader = ([''{}''], r')
     \<and> (let T = take (fr_position r' - fr_position sample_reader) (drop (fr_position sample_reader) sample_text)
        in fr_position sample_reader \<le> fr_position r' \<and> fr_position r' \<le> length sample_text \<and> [''{}''] = lines_of T
           \<and> fr_partial r' = tail_part T)"
proof -
  have r: "read_run [sample_look] sample_reader =
      ([''{}''], sample_reader\<lparr>fr_file := True, fr_position := 4, fr_partial := ''{'', fr_desynced := False\<rparr>)"
    using sample_reads [of sample_reader] by (simp add: sample_reader_def reader_new_def)
  have "looks_at sample_text [sample_look]" by (simp add: looks_at_def sample_look_def)
  from incremental_reading_exact [OF this _ _ r] r show ?thesis
    by (simp add: sample_reader_def reader_new_def)
qed


theorem drain_ends_witness: "\<exists>n. drain_old (map (\<lambda>k. sample_look) [0..<n]) [] sample_reader \<noteq> None"
  by (rule drain_ends [of _ 4]) (simp add: sample_look_def sample_length)

theorem backfill_meets_live_witness:
  "\<exists>out r1 r2. backfill_and_track [[''f'']] (\<lambda>p. None) 3 (\<lambda>p. Some sample_text) 7 (\<lambda>k. True) (reader_new []) = (True, out, r1)
     \<and> read_run [sample_look] r1 = ([], r2) \<and> fr_position r1 = 3 \<and> fr_position r2 = 4
     \<and> lines_of (take (fr_position r2) sample_text) = lines_of (take (fr_position r1) sample_text) @ []"
proof -
  let ?r1 = "(reader_new [])\<lparr>fr_current_path := Some [''f''], fr_file := False, fr_position := 3, fr_partial := []\<rparr>"
  let ?r2 = "?r1\<lparr>fr_file := True, fr_position := 4, fr_partial := ''{'', fr_desynced := False\<rparr>"
  have segs: "split_inclusive sample_text = [''{}'' @ [newline], ''{'']" "text_ok (''{}'' @ [newline])" "text_ok ''{''"
    "backfill_wants 7 (trim_end (''{}'' @ [newline]))" "trim_end (''{}'' @ [newline]) = ''{}''"
    by code_simp+
  have bf: "backfill_and_track [[''f'']] (\<lambda>p. None) 3 (\<lambda>p. Some sample_text) 7 (\<lambda>k. True) (reader_new []) = (True, [''{}''], ?r1)"
    using segs by (simp add: backfill_and_track_def first_block_number_def Let_def)
  have parsed: "good_lines ''{'' = []" "tail_part ''{'' = ''{''" "\<not> (\<exists>seg \<in> set (complete_segments ''{''). bad_segment seg)"
    by code_simp+
  have "''{'' = take read_chunk_bytes (drop (fr_position (?r1\<lparr>fr_file := True\<rparr>)) sample_text)" by (simp add: sample_text_def)
  from read_chunk_some [OF this] have "read_chunk sample_text (?r1\<lparr>fr_file := True\<rparr>) = ([], ?r2)"
    using parsed by (simp add: reader_new_def)
  then have run: "read_run [sample_look] ?r1 = ([], ?r2)" by (simp add: on_modify_def sample_look_def reader_new_def)
  have valid: "\<forall>p c. (\<lambda>p :: path. Some sample_text) p = Some c \<longrightarrow> (\<forall>seg \<in> set (split_inclusive c). text_ok seg)"
    using segs by simp
  have look: "looks_at sample_text [sample_look]" by (simp add: looks_at_def sample_look_def)
  have "lines_of (take (fr_position ?r2) sample_text) = lines_of (take (fr_position ?r1) sample_text) @ []"
    using backfill_meets_live [OF valid _ _ refl _ _ bf look run, of "[]"] sample_length by (simp add: reader_new_def)
  then show ?thesis using bf run by (intro exI conjI) (assumption | simp)+
qed

end
