(* ===== verification/Outbound.thy ===== *)
theory Outbound
  imports Broadcast "HOL-Library.Sublist"
begin

text \<open>
  The outbound half of a connection (\<open>servers/websocket_server.rs\<close>, \<open>Outbound\<close> and \<open>write_task\<close>): two bounded
  queues between the session task and the writer task.

  \<^item> \<open>outbound_conn\<close> holds both ends: the queued frames, whether the senders and the receivers still exist, the
    writer's flags, and what the socket took. \<open>oc_accepted\<close> is an observer's log of what was queued.
  \<^item> A send waits at most five seconds for a slot: \<open>elapsed\<close> says that they have passed, \<open>None\<close> that the send is
    still waiting.
  \<^item> One iteration of the writer's loop is \<open>writer_step\<close>, with what the socket answers as a parameter.
  \<^item> The session only needs to know what a send answers and what it adds to the log: the locale \<open>sender\<close>. The
    queue with a writer that runs in between, \<open>queue_send\<close>, is an interpretation.

  Shown: frames of a lane reach the socket in the order in which they were accepted, none is lost while the
  writer runs, pongs overtake any backlog, and when the session ends the writer drains both queues and stops.
\<close>

section \<open>The queues\<close>

abbreviation ws_send_timeout :: nat where "ws_send_timeout \<equiv> 5000"
abbreviation outbound_queue_depth :: nat where "outbound_queue_depth \<equiv> 128"
abbreviation pong_queue_depth :: nat where "pong_queue_depth \<equiv> 8"

definition pong_frame :: string where
  "pong_frame = ''{'' @ [CHR 0x22] @ ''channel'' @ [CHR 0x22] @ '':'' @ [CHR 0x22] @ ''pong'' @ [CHR 0x22] @ ''}''"

datatype lane = DataLane | PongLane

record outbound_conn =
  oc_data :: "string list"
  oc_pong :: "string list"
  oc_senders :: bool
  oc_receivers :: bool
  oc_running :: bool
  oc_data_open :: bool
  oc_pong_open :: bool
  oc_written :: "(lane \<times> string) list"
  oc_accepted :: "(lane \<times> string) list"
  oc_turn :: nat

definition conn_new :: outbound_conn where
  "conn_new = \<lparr>oc_data = [], oc_pong = [], oc_senders = True, oc_receivers = True, oc_running = True,
     oc_data_open = True, oc_pong_open = True, oc_written = [], oc_accepted = [], oc_turn = 0\<rparr>"

definition send_payload :: "bool \<Rightarrow> string \<Rightarrow> outbound_conn \<Rightarrow> (bool \<times> outbound_conn) option" where
  "send_payload elapsed payload c =
     (if \<not> oc_receivers c then Some (False, c)
      else if length (oc_data c) < outbound_queue_depth
      then Some (True, c\<lparr>oc_data := oc_data c @ [payload], oc_accepted := oc_accepted c @ [(DataLane, payload)]\<rparr>)
      else if elapsed then Some (False, c)
      else None)"

definition send_pong :: "outbound_conn \<Rightarrow> bool \<times> outbound_conn" where
  "send_pong c =
     (if \<not> oc_receivers c \<or> pong_queue_depth \<le> length (oc_pong c) then (False, c)
      else (True, c\<lparr>oc_pong := oc_pong c @ [pong_frame], oc_accepted := oc_accepted c @ [(PongLane, pong_frame)]\<rparr>))"

text \<open>The two ways to a payload. The connection is anything that offers \<open>send_payload\<close>.\<close>

definition send_frame :: "(string \<Rightarrow> 'c \<Rightarrow> bool \<times> 'c) \<Rightarrow> string \<Rightarrow> 'c \<Rightarrow> bool \<times> 'c" where
  "send_frame send frame c = (if frame = [] then (True, c) else send frame c)"

definition send_message :: "('r \<Rightarrow> 'e + string) \<Rightarrow> (string \<Rightarrow> 'c \<Rightarrow> bool \<times> 'c) \<Rightarrow> 'r \<Rightarrow> 'c \<Rightarrow> bool \<times> 'c" where
  "send_message to_json send msg c = (case to_json msg of Inl err \<Rightarrow> (True, c) | Inr payload \<Rightarrow> send payload c)"

section \<open>The writer\<close>

datatype sink_result = SinkOk | SinkError | SinkTimeout

definition write_out :: "sink_result \<Rightarrow> lane \<Rightarrow> string \<Rightarrow> outbound_conn \<Rightarrow> outbound_conn" where
  "write_out r la frame c =
     (case r of SinkOk \<Rightarrow> c\<lparr>oc_written := oc_written c @ [(la, frame)]\<rparr>
      | SinkError \<Rightarrow> c\<lparr>oc_running := False\<rparr>
      | SinkTimeout \<Rightarrow> c\<lparr>oc_running := False\<rparr>)"

definition data_branch :: "sink_result \<Rightarrow> outbound_conn \<Rightarrow> outbound_conn option" where
  "data_branch r c =
     (if \<not> oc_data_open c then None
      else case oc_data c of
             frame # rest \<Rightarrow> Some (write_out r DataLane frame (c\<lparr>oc_data := rest\<rparr>))
           | [] \<Rightarrow> if oc_senders c then None else Some (c\<lparr>oc_data_open := False\<rparr>))"

text \<open>The pong branch of the biased select comes first. \<open>None\<close>: the select waits, or the loop has ended.\<close>

definition writer_step :: "sink_result \<Rightarrow> outbound_conn \<Rightarrow> outbound_conn option" where
  "writer_step r c =
     (if \<not> oc_running c \<or> (\<not> oc_data_open c \<and> \<not> oc_pong_open c) then None
      else if \<not> oc_pong_open c then data_branch r c
      else case oc_pong c of
             frame # rest \<Rightarrow> Some (write_out r PongLane frame (c\<lparr>oc_pong := rest\<rparr>))
           | [] \<Rightarrow> if oc_senders c then data_branch r c else Some (c\<lparr>oc_pong_open := False\<rparr>))"

text \<open>\<open>oc_running\<close>: no write has failed. Behind the loop, after the closing handshake, the task ends and the receivers with it.\<close>

definition writer_exit :: "outbound_conn \<Rightarrow> outbound_conn" where
  "writer_exit c =
     (if oc_running c \<and> (oc_data_open c \<or> oc_pong_open c) then c
      else c\<lparr>oc_receivers := False, oc_data := [], oc_pong := []\<rparr>)"

definition drop_outbound :: "outbound_conn \<Rightarrow> outbound_conn" where
  "drop_outbound c = c\<lparr>oc_senders := False\<rparr>"

section \<open>Sends with the writer in between\<close>

definition writer_turn :: "sink_result \<Rightarrow> outbound_conn \<Rightarrow> outbound_conn" where
  "writer_turn r c = (case writer_step r c of None \<Rightarrow> writer_exit c | Some c' \<Rightarrow> c')"

text \<open>\<open>W k\<close>: what the socket answers to the writer before and while the \<open>k\<close>-th send waits.\<close>

definition queue_send :: "(nat \<Rightarrow> sink_result list) \<Rightarrow> string \<Rightarrow> outbound_conn \<Rightarrow> bool \<times> outbound_conn" where
  "queue_send W payload c =
     (let c1 = (fold writer_turn (W (oc_turn c)) c)\<lparr>oc_turn := oc_turn c + 1\<rparr>
      in case send_payload True payload c1 of None \<Rightarrow> (False, c1) | Some r \<Rightarrow> r)"

locale sender =
  fixes send :: "string \<Rightarrow> 'c \<Rightarrow> bool \<times> 'c" and sent :: "'c \<Rightarrow> string list"
  assumes send_True: "send p c = (True, c') \<Longrightarrow> sent c' = sent c @ [p]"
    and send_False: "send p c = (False, c') \<Longrightarrow> sent c' = sent c"
begin

lemma send_prefix: "\<exists>ps. sent (snd (send p c)) = sent c @ ps \<and> set ps \<subseteq> {p}"
proof (cases "send p c")
  case (Pair b c')
  then show ?thesis using send_True [of p c c'] send_False [of p c c'] by (cases b) auto
qed

lemma send_frame_True: "send_frame send f c = (True, c') \<Longrightarrow> sent c' = sent c @ (if f = [] then [] else [f])"
  by (auto simp: send_frame_def split: if_splits dest: send_True)

lemma send_frame_False: "send_frame send f c = (False, c') \<Longrightarrow> sent c' = sent c"
  by (auto simp: send_frame_def split: if_splits dest: send_False)

lemma send_message_True:
  "send_message to_json send m c = (True, c') \<Longrightarrow> sent c' = sent c @ (case to_json m of Inl e \<Rightarrow> [] | Inr p \<Rightarrow> [p])"
  by (auto simp: send_message_def split: sum.splits dest: send_True)

lemma send_message_False: "send_message to_json send m c = (False, c') \<Longrightarrow> sent c' = sent c"
  by (auto simp: send_message_def split: sum.splits dest: send_False)

end

text \<open>The data frames a connection has accepted.\<close>

definition of_lane :: "lane \<Rightarrow> (lane \<times> string) list \<Rightarrow> string list" where
  "of_lane la xs = map snd (filter (\<lambda>x. fst x = la) xs)"

lemma of_lane_simps [simp]:
  "of_lane la [] = []" "of_lane la (xs @ ys) = of_lane la xs @ of_lane la ys"
  "of_lane la ((la', p) # xs) = (if la' = la then p # of_lane la xs else of_lane la xs)"
  by (simp_all add: of_lane_def)

definition accepted_data :: "outbound_conn \<Rightarrow> string list" where
  "accepted_data c = of_lane DataLane (oc_accepted c)"

lemma write_out_accepted [simp]: "oc_accepted (write_out r la f c) = oc_accepted c"
  by (simp add: write_out_def split: sink_result.split)

lemma writer_turn_accepted [simp]: "oc_accepted (writer_turn r c) = oc_accepted c"
  by (auto simp: writer_turn_def writer_step_def data_branch_def writer_exit_def split: list.splits if_splits)

lemma fold_writer_turn_accepted [simp]: "oc_accepted (fold writer_turn rs c) = oc_accepted c"
  by (induction rs arbitrary: c) simp_all

interpretation queue: sender "queue_send W" accepted_data for W
  by unfold_locales
    (auto simp: queue_send_def send_payload_def accepted_data_def Let_def split: if_splits)


section \<open>The two queues and the socket\<close>

datatype conn_op = OpSend bool string | OpPong | OpWriter sink_result | OpDrop

fun conn_step :: "conn_op \<Rightarrow> outbound_conn \<Rightarrow> outbound_conn" where
  "conn_step (OpSend elapsed p) c =
     (if oc_senders c then (case send_payload elapsed p c of None \<Rightarrow> c | Some (ok, c') \<Rightarrow> c') else c)"
| "conn_step OpPong c = (if oc_senders c then snd (send_pong c) else c)"
| "conn_step (OpWriter r) c = writer_turn r c"
| "conn_step OpDrop c = drop_outbound c"

fun queue_of :: "lane \<Rightarrow> outbound_conn \<Rightarrow> string list" where
  "queue_of DataLane c = oc_data c"
| "queue_of PongLane c = oc_pong c"

definition nothing_lost :: "outbound_conn \<Rightarrow> bool" where
  "nothing_lost c \<longleftrightarrow> (\<forall>la. of_lane la (oc_accepted c) = of_lane la (oc_written c) @ queue_of la c)"

definition conn_ok :: "outbound_conn \<Rightarrow> bool" where
  "conn_ok c \<longleftrightarrow> length (oc_data c) \<le> outbound_queue_depth \<and> length (oc_pong c) \<le> pong_queue_depth
     \<and> (\<forall>la. prefix (of_lane la (oc_written c)) (of_lane la (oc_accepted c)))
     \<and> (oc_running c \<longrightarrow> nothing_lost c)
     \<and> (\<not> oc_data_open c \<longrightarrow> \<not> oc_senders c \<and> oc_data c = [])
     \<and> (\<not> oc_pong_open c \<longrightarrow> \<not> oc_senders c \<and> oc_pong c = [])"

lemma all_lanes: "(\<forall>la. P la) \<longleftrightarrow> P DataLane \<and> P PongLane"
  by (metis lane.exhaust)

lemma conn_new_ok: "conn_ok conn_new"
  by (simp add: conn_ok_def conn_new_def nothing_lost_def all_lanes)

lemma send_payload_ok: "conn_ok c \<Longrightarrow> oc_senders c \<Longrightarrow> send_payload e p c = Some (b, c') \<Longrightarrow> conn_ok c'"
  by (auto simp: send_payload_def conn_ok_def nothing_lost_def all_lanes split: if_splits)

lemma send_pong_ok: "conn_ok c \<Longrightarrow> oc_senders c \<Longrightarrow> conn_ok (snd (send_pong c))"
  by (auto simp: send_pong_def conn_ok_def nothing_lost_def all_lanes)

text \<open>Taking the front of a queue and writing it.\<close>

lemma write_pong_ok:
  assumes "conn_ok c" "oc_running c" "oc_pong c = f # fs"
  shows "conn_ok (write_out r PongLane f (c\<lparr>oc_pong := fs\<rparr>))"
  using assms by (cases r) (auto simp: write_out_def conn_ok_def nothing_lost_def all_lanes)

lemma write_data_ok:
  assumes "conn_ok c" "oc_running c" "oc_data c = f # fs"
  shows "conn_ok (write_out r DataLane f (c\<lparr>oc_data := fs\<rparr>))"
  using assms by (cases r) (auto simp: write_out_def conn_ok_def nothing_lost_def all_lanes)

lemma close_flags_ok:
  "conn_ok c \<Longrightarrow> \<not> oc_senders c \<Longrightarrow> oc_data c = [] \<Longrightarrow> conn_ok (c\<lparr>oc_data_open := False\<rparr>)"
  "conn_ok c \<Longrightarrow> \<not> oc_senders c \<Longrightarrow> oc_pong c = [] \<Longrightarrow> conn_ok (c\<lparr>oc_pong_open := False\<rparr>)"
  by (auto simp: conn_ok_def nothing_lost_def all_lanes)

lemma data_branch_ok: "conn_ok c \<Longrightarrow> oc_running c \<Longrightarrow> data_branch r c = Some c' \<Longrightarrow> conn_ok c'"
  by (auto simp: data_branch_def write_data_ok close_flags_ok split: list.splits if_splits)

lemma writer_exit_ok: "conn_ok c \<Longrightarrow> conn_ok (writer_exit c)"
  by (auto simp: writer_exit_def conn_ok_def nothing_lost_def all_lanes)

lemma writer_turn_ok:
  assumes "conn_ok c"
  shows "conn_ok (writer_turn r c)"
proof (cases "writer_step r c")
  case (Some c')
  then have "conn_ok c'"
    using assms
    by (auto simp: writer_step_def write_pong_ok close_flags_ok split: list.splits if_splits intro: data_branch_ok)
  then show ?thesis using Some by (simp add: writer_turn_def)
qed (use assms writer_exit_ok in \<open>simp add: writer_turn_def\<close>)

lemma conn_step_ok: "conn_ok c \<Longrightarrow> conn_ok (conn_step x c)"
  by (cases x)
    (auto simp: send_pong_ok writer_turn_ok drop_outbound_def split: option.split intro: send_payload_ok,
     auto simp: conn_ok_def nothing_lost_def all_lanes)

interpretation conn: invariant_system conn_step conn_ok conn_new
  by unfold_locales (rule conn_new_ok, rule conn_step_ok)

section \<open>Draining\<close>

lemma turn_pong:
  assumes "oc_running c" "oc_pong_open c" "oc_pong c = f # fs"
  shows "writer_turn SinkOk c = c\<lparr>oc_pong := fs, oc_written := oc_written c @ [(PongLane, f)]\<rparr>"
  using assms by (simp add: writer_turn_def writer_step_def write_out_def)

text \<open>Pongs first, whatever waits in the data queue.\<close>

lemma turns_pong:
  assumes "oc_running c" "oc_pong_open c"
  shows "fold writer_turn (replicate (length (oc_pong c)) SinkOk) c
    = c\<lparr>oc_pong := [], oc_written := oc_written c @ map (Pair PongLane) (oc_pong c)\<rparr>"
  using assms
proof (induction "oc_pong c" arbitrary: c)
  case (Cons f fs)
  let ?d = "c\<lparr>oc_pong := fs, oc_written := oc_written c @ [(PongLane, f)]\<rparr>"
  have "writer_turn SinkOk c = ?d" using Cons.prems Cons.hyps(2) by (intro turn_pong) simp_all
  then show ?case
    using Cons.hyps(1) [of ?d] Cons.prems unfolding Cons.hyps(2) [symmetric] by simp
qed simp

lemma turn_data:
  assumes "oc_running c" "oc_data_open c" "oc_pong c = []" "\<not> oc_pong_open c" "oc_data c = f # fs"
  shows "writer_turn SinkOk c = c\<lparr>oc_data := fs, oc_written := oc_written c @ [(DataLane, f)]\<rparr>"
  using assms by (simp add: writer_turn_def writer_step_def data_branch_def write_out_def)

lemma turns_data:
  assumes "oc_running c" "oc_data_open c" "oc_pong c = []" "\<not> oc_pong_open c"
  shows "fold writer_turn (replicate (length (oc_data c)) SinkOk) c
    = c\<lparr>oc_data := [], oc_written := oc_written c @ map (Pair DataLane) (oc_data c)\<rparr>"
  using assms
proof (induction "oc_data c" arbitrary: c)
  case (Cons f fs)
  let ?d = "c\<lparr>oc_data := fs, oc_written := oc_written c @ [(DataLane, f)]\<rparr>"
  have "writer_turn SinkOk c = ?d" using Cons.prems Cons.hyps(2) by (intro turn_data) simp_all
  then show ?case
    using Cons.hyps(1) [of ?d] Cons.prems unfolding Cons.hyps(2) [symmetric] by simp
qed simp

lemma drain_all:
  assumes "oc_running c" "oc_pong_open c" "oc_data_open c" "\<not> oc_senders c"
  shows "\<exists>n \<le> length (oc_pong c) + length (oc_data c) + 3.
    let c' = fold writer_turn (replicate n SinkOk) c
    in \<not> oc_receivers c' \<and> oc_running c'
     \<and> oc_written c' = oc_written c @ map (Pair PongLane) (oc_pong c) @ map (Pair DataLane) (oc_data c)"
proof -
  let ?c1 = "c\<lparr>oc_pong := [], oc_written := oc_written c @ map (Pair PongLane) (oc_pong c)\<rparr>"
  let ?c2 = "?c1\<lparr>oc_pong_open := False\<rparr>"
  let ?c3 = "?c2\<lparr>oc_data := [], oc_written := oc_written ?c1 @ map (Pair DataLane) (oc_data c)\<rparr>"
  let ?c4 = "?c3\<lparr>oc_data_open := False\<rparr>"
  have s2: "writer_turn SinkOk ?c1 = ?c2" and s4: "writer_turn SinkOk ?c3 = ?c4"
    using assms by (simp_all add: writer_turn_def writer_step_def data_branch_def)
  have s3: "fold writer_turn (replicate (length (oc_data c)) SinkOk) ?c2 = ?c3"
    using turns_data [of ?c2] assms by simp
  have s5: "writer_turn SinkOk ?c4 = ?c4\<lparr>oc_receivers := False, oc_data := [], oc_pong := []\<rparr>"
    using assms by (simp add: writer_turn_def writer_step_def writer_exit_def)
  have "replicate (length (oc_pong c) + length (oc_data c) + 3) SinkOk
      = replicate (length (oc_pong c)) SinkOk @ [SinkOk] @ replicate (length (oc_data c)) SinkOk @ [SinkOk, SinkOk]"
    by (simp add: replicate_add numeral_3_eq_3 replicate_app_Cons_same)
  then have "fold writer_turn (replicate (length (oc_pong c) + length (oc_data c) + 3) SinkOk) c
      = ?c4\<lparr>oc_receivers := False, oc_data := [], oc_pong := []\<rparr>"
    using turns_pong [OF assms(1,2)] s2 s3 s4 s5 by simp
  then show ?thesis using assms by (intro exI [of _ "length (oc_pong c) + length (oc_data c) + 3"]) (simp add: Let_def)
qed

section \<open>Properties\<close>

text \<open>
  C29. Whatever the interleaving of sends, pongs, the writer and the end of the session: at most 128 frames and
  8 pongs wait, what the socket took of a lane is a prefix of what was accepted in it, in order, and as long as
  no write has failed the rest of it is exactly what still waits.
\<close>

theorem writer_keeps_order:
  "let c = fold conn_step ops conn_new
   in length (oc_data c) \<le> 128 \<and> length (oc_pong c) \<le> 8
    \<and> (if oc_running c
       then of_lane la (oc_accepted c) = of_lane la (oc_written c) @ queue_of la c
       else prefix (of_lane la (oc_written c)) (of_lane la (oc_accepted c)))"
  using conn.run_inv [OF conn_new_ok, of ops] by (simp add: conn_ok_def nothing_lost_def Let_def)

text \<open>
  C39. When the session has ended, a writer whose writes succeed writes the waiting pongs, then the waiting
  frames, in order, and is done after at most three more turns than there are frames.
\<close>

theorem writer_drains:
  assumes "c = fold conn_step ops conn_new" "oc_running c" "oc_pong_open c" "oc_data_open c" "\<not> oc_senders c"
  shows "\<exists>n \<le> length (oc_pong c) + length (oc_data c) + 3.
    let c' = fold writer_turn (replicate n SinkOk) c
    in \<not> oc_receivers c' \<and> (\<forall>la. of_lane la (oc_written c') = of_lane la (oc_accepted c))"
proof -
  have "nothing_lost c"
    using conn.run_inv [OF conn_new_ok, of ops] assms(1,2) by (simp add: conn_ok_def)
  moreover have "of_lane la (map (Pair PongLane) (oc_pong c) @ map (Pair DataLane) (oc_data c)) = queue_of la c" for la
    by (cases la) (simp_all add: of_lane_def filter_map comp_def)
  ultimately show ?thesis
    using drain_all [OF assms(2-5)] by (auto simp: Let_def nothing_lost_def of_lane_def)
qed

theorem writer_drains_witness:
  "let c = fold conn_step [OpSend False ''a'', OpSend False ''b'', OpPong, OpDrop] conn_new
   in \<exists>n \<le> 6. let c' = fold writer_turn (replicate n SinkOk) c
       in \<not> oc_receivers c' \<and> (\<forall>la. of_lane la (oc_written c') = of_lane la (oc_accepted c))"
proof -
  let ?c = "fold conn_step [OpSend False ''a'', OpSend False ''b'', OpPong, OpDrop] conn_new"
  have c: "oc_running ?c \<and> oc_pong_open ?c \<and> oc_data_open ?c \<and> \<not> oc_senders ?c
      \<and> length (oc_pong ?c) + length (oc_data ?c) + 3 = 6"
    by (simp add: conn_new_def send_payload_def send_pong_def drop_outbound_def)
  show ?thesis unfolding Let_def
    using writer_drains [OF refl, of "[OpSend False ''a'', OpSend False ''b'', OpPong, OpDrop]"] c by (simp only: Let_def simp_thms)
qed

end
