(* ===== verification/Snapshot_Cache.thy ===== *)
theory Snapshot_Cache
  imports Listener
begin

text \<open>
  The one-shot snapshots (\<open>servers/websocket_server.rs\<close>): \<open>L4SnapshotCache\<close> with its limited builds, the bodies of
  \<open>/l4Book\<close> (also the start of an \<open>l4Book\<close> stream) and \<open>/untriggeredOrders\<close>, their HTTP answers and \<open>/health\<close>.

  \<^item> The cache is a hash map behind a mutex; \<open>None\<close> is the poisoned mutex.
  \<^item> \<open>l4_snapshot_body\<close> and \<open>untriggered_body\<close> have the same shape. \<open>body_step\<close> is that shape, cut at every await:
    one step of a request (\<open>request\<close> is where it stands), over the state that all requests share. What differs is
    the cache key, what is read under the listener's lock, and how it is rendered on the blocking thread.
  \<^item> The JSON encoder, the compressor and the display of a parse error are parameters. An error of the encoder or
    of the blocking thread is \<open>Inl\<close>.
  \<^item> The locale \<open>snapshot_source\<close> states what the cache relies on: admissible queries with the same key are the
    same query. Both endpoints are interpretations; for the second it holds because the handler turns away the
    empty coin.

  Shown: however requests, builds and changes of the book interleave, a served body is the rendering of the book
  for exactly this query at some moment, at most two builds run and at most 64 bodies are kept; the untriggered
  orders are grouped per coin, each coin once, ordered by identifier; the status of every answer.
\<close>

section \<open>The cache\<close>

abbreviation l4_snapshot_cache_ttl :: nat where "l4_snapshot_cache_ttl \<equiv> 100"
abbreviation l4_snapshot_build_permits :: nat where "l4_snapshot_build_permits \<equiv> 2"
abbreviation l4_snapshot_cache_max_entries :: nat where "l4_snapshot_cache_max_entries \<equiv> 64"

record l4_cache_entry =
  ce_built_at :: instant
  ce_body :: string
  ce_gzipped :: "string option"

type_synonym cache_key = "string \<times> px_band"
type_synonym l4_snapshot_cache = "(cache_key, l4_cache_entry) hash_map option"

definition snapshot_cache_new :: l4_snapshot_cache where "snapshot_cache_new = Some []"

definition cache_get :: "instant \<Rightarrow> cache_key \<Rightarrow> l4_snapshot_cache \<Rightarrow> (string \<times> string option) option" where
  "cache_get now k c =
     Option.bind c (\<lambda>entries. Option.bind (hm_get entries k) (\<lambda>e.
       if now - ce_built_at e < l4_snapshot_cache_ttl then Some (ce_body e, ce_gzipped e) else None))"

definition cache_insert :: "instant \<Rightarrow> cache_key \<Rightarrow> string \<Rightarrow> l4_snapshot_cache \<Rightarrow> l4_snapshot_cache" where
  "cache_insert now k body c =
     map_option (\<lambda>entries.
       let kept = (if l4_snapshot_cache_max_entries \<le> length entries
                   then filter (\<lambda>(k, e). now - ce_built_at e < l4_snapshot_cache_ttl) entries else entries)
       in if length kept < l4_snapshot_cache_max_entries
          then hm_insert k \<lparr>ce_built_at = now, ce_body = body, ce_gzipped = None\<rparr> kept else kept) c"

definition set_gzipped :: "cache_key \<Rightarrow> string \<Rightarrow> l4_snapshot_cache \<Rightarrow> l4_snapshot_cache" where
  "set_gzipped k gz c =
     map_option (\<lambda>entries. case hm_get entries k of
         None \<Rightarrow> entries
       | Some e \<Rightarrow> hm_insert k (e\<lparr>ce_gzipped := Some gz\<rparr>) entries) c"

section \<open>Building a body\<close>

record 'l cache_world =
  cw_now :: instant
  cw_source :: 'l
  cw_cache :: l4_snapshot_cache
  cw_permits :: nat

datatype ('q, 's) request =
    ReqStart 'q
  | ReqWaitPermit 'q
  | ReqPermit 'q
  | ReqLock 'q
  | ReqRender 'q 's
  | ReqInsert 'q string
  | ReqDone 'q "string + string option"

definition release :: "'l cache_world \<Rightarrow> 'l cache_world" where
  "release w = w\<lparr>cw_permits := cw_permits w + 1\<rparr>"

text \<open>\<open>None\<close>: the request waits for a permit, or is done.\<close>

fun body_step ::
  "('q \<Rightarrow> cache_key) \<Rightarrow> ('q \<Rightarrow> 'l \<Rightarrow> 's option) \<Rightarrow> ('q \<Rightarrow> 's \<Rightarrow> string + string) \<Rightarrow> ('q, 's) request \<Rightarrow> 'l cache_world
     \<Rightarrow> (('q, 's) request \<times> 'l cache_world) option" where
  "body_step key_of fetch render (ReqStart q) w =
     (case cache_get (cw_now w) (key_of q) (cw_cache w) of
        Some (body, gz) \<Rightarrow> Some (ReqDone q (Inr (Some body)), w)
      | None \<Rightarrow> Some (ReqWaitPermit q, w))"
| "body_step key_of fetch render (ReqWaitPermit q) w =
     (if cw_permits w = 0 then None else Some (ReqPermit q, w\<lparr>cw_permits := cw_permits w - 1\<rparr>))"
| "body_step key_of fetch render (ReqPermit q) w =
     (case cache_get (cw_now w) (key_of q) (cw_cache w) of
        Some (body, gz) \<Rightarrow> Some (ReqDone q (Inr (Some body)), release w)
      | None \<Rightarrow> Some (ReqLock q, w))"
| "body_step key_of fetch render (ReqLock q) w =
     (case fetch q (cw_source w) of
        None \<Rightarrow> Some (ReqDone q (Inr None), release w)
      | Some s \<Rightarrow> Some (ReqRender q s, w))"
| "body_step key_of fetch render (ReqRender q s) w =
     (case render q s of
        Inl err \<Rightarrow> Some (ReqDone q (Inl err), release w)
      | Inr body \<Rightarrow> Some (ReqInsert q body, w))"
| "body_step key_of fetch render (ReqInsert q body) w =
     Some (ReqDone q (Inr (Some body)), release (w\<lparr>cw_cache := cache_insert (cw_now w) (key_of q) body (cw_cache w)\<rparr>))"
| "body_step key_of fetch render (ReqDone q r) w = None"

subsection \<open>The L4 book of a coin in a price band\<close>

definition l4_key :: "string \<times> px_band \<Rightarrow> cache_key" where "l4_key q = q"

definition l4_fetch :: "string \<times> px_band \<Rightarrow> listener \<Rightarrow> (u64 \<times> u64 \<times> inner_l4_order snapshot) option" where
  "l4_fetch q l = listener_snapshot_for_coin (Coin (fst q)) (snd q) l"

definition l4_render ::
  "(l4_book \<Rightarrow> string + string) \<Rightarrow> string \<times> px_band \<Rightarrow> u64 \<times> u64 \<times> inner_l4_order snapshot \<Rightarrow> string + string" where
  "l4_render to_json q s =
     (let (time, height, coin_snapshot) = s;
          levels = (map l4_order_from (fst coin_snapshot), map l4_order_from (snd coin_snapshot))
      in to_json (L4Snapshot (fst q) time height levels))"

abbreviation l4_snapshot_body where
  "l4_snapshot_body to_json \<equiv> body_step l4_key l4_fetch (l4_render to_json)"

abbreviation quote :: string where "quote \<equiv> [CHR 0x22]"

definition l4_ws_frame :: "string \<Rightarrow> string" where
  "l4_ws_frame body =
     ''{'' @ quote @ ''channel'' @ quote @ '':'' @ quote @ ''l4Book'' @ quote @ '','' @ quote @ ''data'' @ quote @ '':'' @ body @ ''}''"

subsection \<open>The untriggered orders\<close>

record untriggered_orders =
  uo_time :: u64
  uo_height :: u64
  uo_data :: "(string \<times> (address \<times> l4_order) list) list"

definition untriggered_key :: "string option \<Rightarrow> cache_key" where
  "untriggered_key coin = ((case coin of None \<Rightarrow> [] | Some c \<Rightarrow> c), px_band_default)"

definition untriggered_fetch :: "string option \<Rightarrow> listener \<Rightarrow> (u64 \<times> u64 \<times> inner_l4_order list) option" where
  "untriggered_fetch coin l = compute_untriggered_snapshot (map_option Coin coin) l"

text \<open>Sorted by coin, then by identifier; then each order joins the last group or opens one.\<close>

definition sort_untriggered :: "inner_l4_order list \<Rightarrow> inner_l4_order list" where
  "sort_untriggered os = sort_key io_coin (sort_key io_oid os)"

definition group_untriggered ::
  "inner_l4_order \<Rightarrow> (string \<times> (address \<times> l4_order) list) list \<Rightarrow> (string \<times> (address \<times> l4_order) list) list" where
  "group_untriggered inner data =
     (let user = io_user inner; coin_name = coin_value (io_coin inner); order = l4_order_from inner
      in if data \<noteq> [] \<and> fst (last data) = coin_name
         then butlast data @ [(fst (last data), snd (last data) @ [(user, order)])]
         else data @ [(coin_name, [(user, order)])])"

definition untriggered_render ::
  "(untriggered_orders \<Rightarrow> string + string) \<Rightarrow> string option \<Rightarrow> u64 \<times> u64 \<times> inner_l4_order list \<Rightarrow> string + string" where
  "untriggered_render to_json coin s =
     (let (time, height, os) = s
      in to_json \<lparr>uo_time = time, uo_height = height, uo_data = fold group_untriggered (sort_untriggered os) []\<rparr>)"

abbreviation untriggered_body where
  "untriggered_body to_json \<equiv> body_step untriggered_key untriggered_fetch (untriggered_render to_json)"

section \<open>Compression\<close>

text \<open>\<open>gzip\<close>: the compressor on the blocking thread, \<open>None\<close> if it fails.\<close>

datatype gz_request = GzStart cache_key string | GzDeflate cache_key string | GzDone "string option"

fun gzipped_l4_body :: "(string \<Rightarrow> string option) \<Rightarrow> gz_request \<Rightarrow> 'l cache_world \<Rightarrow> (gz_request \<times> 'l cache_world) option" where
  "gzipped_l4_body gzip (GzStart k body) w =
     (case cache_get (cw_now w) k (cw_cache w) of
        Some (b, Some gz) \<Rightarrow> Some (GzDone (Some gz), w)
      | _ \<Rightarrow> Some (GzDeflate k body, w))"
| "gzipped_l4_body gzip (GzDeflate k body) w =
     (case gzip body of
        None \<Rightarrow> Some (GzDone None, w)
      | Some gz \<Rightarrow> Some (GzDone (Some gz), w\<lparr>cw_cache := set_gzipped k gz (cw_cache w)\<rparr>))"
| "gzipped_l4_body gzip (GzDone r) w = None"

section \<open>Answers\<close>

record http_response =
  hr_status :: nat
  hr_gzip :: bool
  hr_body :: string

definition json_response :: "nat \<Rightarrow> string \<Rightarrow> http_response" where
  "json_response status body = \<lparr>hr_status = status, hr_gzip = False, hr_body = body\<rparr>"

definition json_error :: "string \<Rightarrow> string" where
  "json_error msg = ''{'' @ quote @ ''error'' @ quote @ '':'' @ quote @ msg @ quote @ ''}''"

text \<open>\<open>accepts_gzip\<close> is whether the header says so, \<open>gz\<close> what \<open>gzipped_l4_body\<close> then answers.\<close>

definition body_response :: "bool \<Rightarrow> string option \<Rightarrow> string \<Rightarrow> http_response" where
  "body_response accepts_gzip gz body =
     (case (if accepts_gzip then gz else None) of
        Some z \<Rightarrow> \<lparr>hr_status = 200, hr_gzip = True, hr_body = z\<rparr>
      | None \<Rightarrow> json_response 200 body)"

definition l4_snapshot_query :: "(parse_error \<Rightarrow> string) \<Rightarrow> string \<Rightarrow> string option \<Rightarrow> string option \<Rightarrow> http_response + string \<times> px_band" where
  "l4_snapshot_query show_error coin min_px max_px =
     (case band_parse min_px max_px of
        Inl err \<Rightarrow> Inl (json_response 400 (json_error (''invalid price band: '' @ show_error err)))
      | Inr band \<Rightarrow> Inr (coin, band))"

definition l4_snapshot_answer :: "string \<Rightarrow> bool \<Rightarrow> string option \<Rightarrow> string + string option \<Rightarrow> http_response" where
  "l4_snapshot_answer coin accepts_gzip gz r =
     (case r of
        Inr (Some body) \<Rightarrow> body_response accepts_gzip gz body
      | Inr None \<Rightarrow> json_response 404 (json_error (''no order book for coin '' @ coin))
      | Inl err \<Rightarrow> json_response 500 (json_error ''snapshot build failed''))"

definition untriggered_query :: "string option \<Rightarrow> http_response + string option" where
  "untriggered_query coin =
     (if coin = Some [] then Inl (json_response 400 (json_error ''coin must not be empty; omit the parameter for all coins''))
      else Inr coin)"

definition untriggered_answer :: "bool \<Rightarrow> string option \<Rightarrow> string + string option \<Rightarrow> http_response" where
  "untriggered_answer accepts_gzip gz r =
     (case r of
        Inr (Some body) \<Rightarrow> body_response accepts_gzip gz body
      | Inr None \<Rightarrow> json_response 503 (json_error ''initializing - snapshot not yet installed'')
      | Inl err \<Rightarrow> json_response 500 (json_error ''untriggered orders build failed''))"

text \<open>\<open>/health\<close>: the gauge of readiness, the time of the last applied event and the clock, in milliseconds.\<close>

abbreviation health_stale_after_ms :: int where "health_stale_after_ms \<equiv> 15000"

definition health_age :: "int \<Rightarrow> int \<Rightarrow> int" where
  "health_age last_event_ms now_ms = (if 0 < last_event_ms then max (now_ms - last_event_ms) 0 else - 1)"

definition health_status :: "bool \<Rightarrow> int \<Rightarrow> int \<Rightarrow> string" where
  "health_status ready last_event_ms now_ms =
     (let age_ms = health_age last_event_ms now_ms
      in if \<not> ready then ''initializing''
         else if age_ms < 0 \<or> health_stale_after_ms < age_ms then ''stale''
         else ''ready'')"


section \<open>Grouping\<close>

text \<open>The same grouping, said by its result: each coin once, in order, with its orders by identifier.\<close>

definition untriggered_entry :: "inner_l4_order \<Rightarrow> address \<times> l4_order" where
  "untriggered_entry i = (io_user i, l4_order_from i)"

definition untriggered_grouping :: "inner_l4_order list \<Rightarrow> (string \<times> (address \<times> l4_order) list) list" where
  "untriggered_grouping os =
     map (\<lambda>c. (coin_value c, map untriggered_entry (sort_key io_oid (filter (\<lambda>i. io_coin i = c) os))))
       (sorted_list_of_set (io_coin ` set os))"

lemma group_untriggered_same:
  "fold group_untriggered ys (data @ [(coin_value c, es)]) = fold group_untriggered zs (data @ [(coin_value c, es @ map untriggered_entry (takeWhile (\<lambda>i. io_coin i = c) ys))])"
  if "zs = dropWhile (\<lambda>i. io_coin i = c) ys"
  using that
proof (induction ys arbitrary: es)
  case (Cons y ys)
  show ?case
  proof (cases "io_coin y = c")
    case True
    then have "group_untriggered y (data @ [(coin_value c, es)]) = data @ [(coin_value c, es @ [untriggered_entry y])]"
      by (simp add: group_untriggered_def untriggered_entry_def Let_def)
    then show ?thesis using Cons.IH [of "es @ [untriggered_entry y]"] Cons.prems True by simp
  next
    case False
    then show ?thesis using Cons.prems by simp
  qed
qed simp

lemma coin_value_inject: "coin_value a = coin_value b \<longleftrightarrow> a = b"
  by (cases a; cases b) simp

lemma sorted_takeWhile_filter:
  "sorted (map io_coin ys) \<Longrightarrow> (\<forall>y \<in> set ys. c \<le> io_coin y) \<Longrightarrow>
     takeWhile (\<lambda>i. io_coin i = c) ys = filter (\<lambda>i. io_coin i = c) ys
     \<and> dropWhile (\<lambda>i. io_coin i = c) ys = filter (\<lambda>i. io_coin i \<noteq> c) ys"
proof (induction ys)
  case (Cons y ys)
  show ?case
  proof (cases "io_coin y = c")
    case False
    then have "c < io_coin y" using Cons.prems(2) by (simp add: order.not_eq_order_implies_strict)
    then have "\<forall>z \<in> set ys. io_coin z \<noteq> c" using Cons.prems(1) by fastforce
    then show ?thesis using False by (simp add: filter_empty_conv filter_id_conv)
  qed (use Cons in auto)
qed simp

lemma sorted_list_of_set_min:
  "finite A \<Longrightarrow> x \<in> A \<Longrightarrow> (\<forall>y \<in> A. x \<le> y) \<Longrightarrow> sorted_list_of_set A = x # sorted_list_of_set (A - {x})"
  for x :: "'a::linorder"
  by (metis Min_eqI all_not_in_conv sorted_list_of_set_nonempty)

text \<open>The loop on orders sorted by coin, behind groups of other coins.\<close>

lemma fold_group_untriggered:
  assumes "sorted (map io_coin ys)" and "data = [] \<or> (\<forall>y \<in> set ys. coin_value (io_coin y) \<noteq> fst (last data))"
  shows "fold group_untriggered ys data = data @
    map (\<lambda>c. (coin_value c, map untriggered_entry (filter (\<lambda>i. io_coin i = c) ys))) (sorted_list_of_set (io_coin ` set ys))"
  using assms
proof (induction "length ys" arbitrary: ys data rule: less_induct)
  case less
  show ?case
  proof (cases ys)
    case (Cons y rest)
    let ?c = "io_coin y" and ?zs = "filter (\<lambda>i. io_coin i \<noteq> io_coin y) rest"
    have srt: "sorted (map io_coin rest)" "\<forall>z \<in> set rest. ?c \<le> io_coin z" using less.prems(1) by (simp_all add: Cons)
    note tw = sorted_takeWhile_filter [OF srt]
    let ?g = "(coin_value ?c, map untriggered_entry (filter (\<lambda>i. io_coin i = ?c) ys))"
    have "group_untriggered y data = data @ [(coin_value ?c, [untriggered_entry y])]"
      using less.prems(2) by (auto simp: Cons group_untriggered_def untriggered_entry_def Let_def)
    then have one: "fold group_untriggered ys data = fold group_untriggered ?zs (data @ [?g])"
      using group_untriggered_same [of ?zs ?c rest data "[untriggered_entry y]"] conjunct1 [OF tw] conjunct2 [OF tw] by (simp add: Cons)
    have "length ?zs < length ys" using length_filter_le [of "\<lambda>i. io_coin i \<noteq> ?c" rest] by (simp add: Cons less_Suc_eq_le)
    moreover have "sorted (map io_coin ?zs)" by (rule sorted_filter [OF srt(1)])
    moreover have "data @ [?g] = [] \<or> (\<forall>z \<in> set ?zs. coin_value (io_coin z) \<noteq> fst (last (data @ [?g])))"
      by (simp add: coin_value_inject)
    ultimately have two: "fold group_untriggered ?zs (data @ [?g]) = (data @ [?g]) @
        map (\<lambda>c. (coin_value c, map untriggered_entry (filter (\<lambda>i. io_coin i = c) ?zs))) (sorted_list_of_set (io_coin ` set ?zs))"
      by (rule less.hyps)
    have set: "io_coin ` set ?zs = io_coin ` set ys - {?c}" by (auto simp: Cons)
    have "sorted_list_of_set (io_coin ` set ys) = ?c # sorted_list_of_set (io_coin ` set ?zs)"
      unfolding set by (rule sorted_list_of_set_min) (use srt(2) in \<open>auto simp: Cons\<close>)
    moreover have "filter (\<lambda>i. io_coin i = c) ?zs = filter (\<lambda>i. io_coin i = c) ys" if "c \<in> set (sorted_list_of_set (io_coin ` set ?zs))" for c
    proof -
      have "c \<noteq> ?c" using that by auto
      then show ?thesis by (auto simp: Cons intro: filter_cong)
    qed
    ultimately show ?thesis
      unfolding one two by simp
  qed simp
qed

lemma filter_sort_twice: "filter (\<lambda>i. io_coin i = c) (sort_untriggered os) = sort_key io_oid (filter (\<lambda>i. io_coin i = c) os)"
  unfolding sort_untriggered_def by (simp add: sort_key_stable filter_sort)

lemma untriggered_grouped: "fold group_untriggered (sort_untriggered os) [] = untriggered_grouping os"
proof -
  have "sorted (map io_coin (sort_untriggered os))" unfolding sort_untriggered_def by (rule sorted_sort_key)
  moreover have "set (sort_untriggered os) = set os" by (simp add: sort_untriggered_def)
  ultimately show ?thesis
    using fold_group_untriggered [of "sort_untriggered os" "[]"] by (simp add: filter_sort_twice untriggered_grouping_def)
qed


section \<open>Many requests\<close>

text \<open>
  The clock runs, the source changes, admissible queries come in, some request makes its next step, some gzip is
  attached. The history lists every state the source has had.
\<close>

datatype ('l, 'q) world_op = WTick nat | WSource 'l | WRequest 'q | WStep nat | WGzip cache_key string

fun world_step ::
  "('q \<Rightarrow> cache_key) \<Rightarrow> ('q \<Rightarrow> 'l \<Rightarrow> 's option) \<Rightarrow> ('q \<Rightarrow> 's \<Rightarrow> string + string) \<Rightarrow> ('q \<Rightarrow> bool) \<Rightarrow> ('l, 'q) world_op
     \<Rightarrow> 'l cache_world \<times> ('q, 's) request list \<times> 'l list \<Rightarrow> 'l cache_world \<times> ('q, 's) request list \<times> 'l list" where
  "world_step key_of fetch render admits (WTick d) (w, reqs, hist) = (w\<lparr>cw_now := cw_now w + d\<rparr>, reqs, hist)"
| "world_step key_of fetch render admits (WSource l) (w, reqs, hist) = (w\<lparr>cw_source := l\<rparr>, reqs, hist @ [l])"
| "world_step key_of fetch render admits (WRequest q) (w, reqs, hist) =
     (w, if admits q then reqs @ [ReqStart q] else reqs, hist)"
| "world_step key_of fetch render admits (WStep i) (w, reqs, hist) =
     (if i < length reqs
      then (case body_step key_of fetch render (reqs ! i) w of
              None \<Rightarrow> (w, reqs, hist)
            | Some (r, w') \<Rightarrow> (w', reqs[i := r], hist))
      else (w, reqs, hist))"
| "world_step key_of fetch render admits (WGzip k gz) (w, reqs, hist) =
     (w\<lparr>cw_cache := set_gzipped k gz (cw_cache w)\<rparr>, reqs, hist)"

definition world_new :: "'l \<Rightarrow> 'l cache_world \<times> ('q, 's) request list \<times> 'l list" where
  "world_new l = (\<lparr>cw_now = 0, cw_source = l, cw_cache = snapshot_cache_new, cw_permits = l4_snapshot_build_permits\<rparr>, [], [l])"

definition genuine :: "('q \<Rightarrow> 'l \<Rightarrow> 's option) \<Rightarrow> ('q \<Rightarrow> 's \<Rightarrow> string + string) \<Rightarrow> 'l list \<Rightarrow> 'q \<Rightarrow> string \<Rightarrow> bool" where
  "genuine fetch render hist q body \<longleftrightarrow> (\<exists>l \<in> set hist. \<exists>s. fetch q l = Some s \<and> render q s = Inr body)"

fun holds_permit :: "('q, 's) request \<Rightarrow> bool" where
  "holds_permit (ReqPermit q) = True"
| "holds_permit (ReqLock q) = True"
| "holds_permit (ReqRender q s) = True"
| "holds_permit (ReqInsert q b) = True"
| "holds_permit (ReqStart q) = False"
| "holds_permit (ReqWaitPermit q) = False"
| "holds_permit (ReqDone q r) = False"

abbreviation builds :: "('q, 's) request list \<Rightarrow> nat" where
  "builds reqs \<equiv> length (filter holds_permit reqs)"

lemma builds_update:
  "i < length reqs \<Longrightarrow> builds (reqs[i := r]) + (if holds_permit (reqs ! i) then 1 else 0) = builds reqs + (if holds_permit r then 1 else 0)"
proof -
  assume i: "i < length reqs"
  have "builds reqs = builds (take i reqs @ reqs ! i # drop (Suc i) reqs)" using id_take_nth_drop [OF i] by simp
  moreover have "builds (reqs[i := r]) = builds (take i reqs @ r # drop (Suc i) reqs)" using upd_conv_take_nth_drop [OF i] by simp
  ultimately show ?thesis by simp
qed

lemma set_update_all: "(\<forall>x \<in> set xs. P x) \<Longrightarrow> P y \<Longrightarrow> \<forall>x \<in> set (xs[i := y]). P x"
  using set_update_subset_insert [of xs i y] by blast

locale snapshot_source =
  fixes key_of :: "'q \<Rightarrow> cache_key" and fetch :: "'q \<Rightarrow> 'l \<Rightarrow> 's option" and render :: "'q \<Rightarrow> 's \<Rightarrow> string + string"
    and admits :: "'q \<Rightarrow> bool"
  assumes key_inj: "admits q \<Longrightarrow> admits q' \<Longrightarrow> key_of q = key_of q' \<Longrightarrow> q = q'"
begin

definition entries_ok :: "'l list \<Rightarrow> l4_snapshot_cache \<Rightarrow> bool" where
  "entries_ok hist c \<longleftrightarrow>
     (case c of None \<Rightarrow> True | Some es \<Rightarrow>
        length es \<le> l4_snapshot_cache_max_entries
        \<and> (\<forall>x \<in> set es. \<exists>q. admits q \<and> key_of q = fst x \<and> genuine fetch render hist q (ce_body (snd x))))"

fun request_ok :: "'l list \<Rightarrow> ('q, 's) request \<Rightarrow> bool" where
  "request_ok hist (ReqRender q s) = (admits q \<and> (\<exists>l \<in> set hist. fetch q l = Some s))"
| "request_ok hist (ReqInsert q b) = (admits q \<and> genuine fetch render hist q b)"
| "request_ok hist (ReqDone q r) =
     (case r of Inr (Some b) \<Rightarrow> genuine fetch render hist q b
      | Inr None \<Rightarrow> (\<exists>l \<in> set hist. fetch q l = None) | Inl e \<Rightarrow> True)"
| "request_ok hist (ReqStart q) = admits q"
| "request_ok hist (ReqWaitPermit q) = admits q"
| "request_ok hist (ReqPermit q) = admits q"
| "request_ok hist (ReqLock q) = admits q"

fun world_ok :: "'l cache_world \<times> ('q, 's) request list \<times> 'l list \<Rightarrow> bool" where
  "world_ok (w, reqs, hist) \<longleftrightarrow>
     cw_source w \<in> set hist \<and> entries_ok hist (cw_cache w) \<and> (\<forall>r \<in> set reqs. request_ok hist r)
     \<and> cw_permits w + builds reqs = l4_snapshot_build_permits"

lemma hit_genuine:
  assumes "entries_ok hist c" "cache_get now (key_of q) c = Some (body, gz)" "admits q"
  shows "genuine fetch render hist q body"
proof -
  obtain es e where es: "c = Some es" "(key_of q, e) \<in> set es" "body = ce_body e"
    using assms(2) by (auto simp: cache_get_def Option.bind_eq_Some_conv split: if_splits dest: map_of_SomeD)
  then obtain q' where "admits q'" "key_of q' = key_of q" "genuine fetch render hist q' body"
    using assms(1) by (fastforce simp: entries_ok_def)
  then show ?thesis using key_inj [OF assms(3)] by metis
qed

lemma length_hm_insert: "length (hm_insert k v m) \<le> length m + 1"
  by (induction m) auto

lemma hm_insert_set: "x \<in> set (hm_insert k v m) \<Longrightarrow> x = (k, v) \<or> x \<in> set m"
  by (induction m) (auto split: if_splits)

lemma insert_entries_ok:
  assumes ok: "entries_ok hist c" and q: "admits q" "genuine fetch render hist q body"
  shows "entries_ok hist (cache_insert now (key_of q) body c)"
proof (cases c)
  case (Some es)
  define kept where "kept = (if l4_snapshot_cache_max_entries \<le> length es
    then filter (\<lambda>(k, e). now - ce_built_at e < l4_snapshot_cache_ttl) es else es)"
  let ?new = "\<lparr>ce_built_at = now, ce_body = body, ce_gzipped = None\<rparr>"
  have sub: "set kept \<subseteq> set es" "length kept \<le> length es" by (auto simp: kept_def)
  have old: "\<exists>q. admits q \<and> key_of q = fst x \<and> genuine fetch render hist q (ce_body (snd x))" if "x \<in> set kept" for x
    using ok subsetD [OF sub(1) that] by (simp add: Some entries_ok_def)
  have len: "length kept \<le> 64" using ok sub by (simp add: Some entries_ok_def)
  have new: "\<exists>q. admits q \<and> key_of q = fst x \<and> genuine fetch render hist q (ce_body (snd x))"
    if "x \<in> set (hm_insert (key_of q) ?new kept)" for x
    using hm_insert_set [OF that]
  proof
    assume "x = (key_of q, ?new)"
    then show ?thesis using q by (intro exI [of _ q]) simp
  qed (rule old)
  show ?thesis
  proof (cases "length kept < l4_snapshot_cache_max_entries")
    case True
    then have "cache_insert now (key_of q) body c = Some (hm_insert (key_of q) ?new kept)"
      by (simp add: Some cache_insert_def kept_def Let_def)
    then show ?thesis using new length_hm_insert [of "key_of q" ?new kept] True by (simp add: entries_ok_def)
  next
    case False
    then have "cache_insert now (key_of q) body c = Some kept"
      by (simp add: Some cache_insert_def kept_def Let_def)
    then show ?thesis using old len by (simp add: entries_ok_def)
  qed
qed (simp add: cache_insert_def entries_ok_def)

lemma length_hm_insert_present: "hm_get m k = Some e \<Longrightarrow> length (hm_insert k v m) = length m"
  by (induction m) (auto split: if_splits)

lemma gzip_entries_ok:
  assumes "entries_ok hist c"
  shows "entries_ok hist (set_gzipped k gz c)"
proof (cases c)
  case (Some es)
  show ?thesis
  proof (cases "hm_get es k")
    case (Some e)
    have "set_gzipped k gz c = Some (hm_insert k (e\<lparr>ce_gzipped := Some gz\<rparr>) es)"
      using Some by (simp add: \<open>c = Some es\<close> set_gzipped_def)
    moreover have "(k, e) \<in> set es" using Some by (rule map_of_SomeD)
    ultimately show ?thesis
      using assms length_hm_insert_present [OF Some] by (fastforce simp: \<open>c = Some es\<close> entries_ok_def dest!: hm_insert_set)
  qed (use assms in \<open>simp add: Some set_gzipped_def entries_ok_def\<close>)
qed (simp add: set_gzipped_def entries_ok_def)

lemma body_step_ok:
  assumes "cw_source w \<in> set hist" "entries_ok hist (cw_cache w)" "request_ok hist r"
    and "body_step key_of fetch render r w = Some (r', w')"
  shows "cw_source w' \<in> set hist \<and> entries_ok hist (cw_cache w') \<and> request_ok hist r'
    \<and> cw_permits w' + (if holds_permit r' then 1 else 0) = cw_permits w + (if holds_permit r then 1 else 0)"
proof (cases r)
  case (ReqInsert q b)
  then show ?thesis using assms insert_entries_ok by (auto simp: release_def)
next
  case (ReqRender q s)
  then show ?thesis using assms by (auto simp: release_def genuine_def split: sum.splits) blast+
next
  case (ReqLock q)
  then show ?thesis using assms by (auto simp: release_def split: option.splits)
next
  case (ReqWaitPermit q)
  then show ?thesis using assms by (auto split: if_splits)
next
  case (ReqPermit q)
  then show ?thesis using assms hit_genuine by (auto simp: release_def split: option.splits)
next
  case (ReqStart q)
  then show ?thesis using assms hit_genuine by (auto split: option.splits)
qed (use assms in simp)

lemma genuine_mono: "genuine fetch render hist q b \<Longrightarrow> genuine fetch render (hist @ [l]) q b"
  by (auto simp: genuine_def)

lemma request_ok_mono: "request_ok hist r \<Longrightarrow> request_ok (hist @ [l]) r"
  by (cases r) (auto simp: genuine_mono split: sum.splits option.splits)

lemma entries_ok_mono: "entries_ok hist c \<Longrightarrow> entries_ok (hist @ [l]) c"
  unfolding entries_ok_def by (cases c) (auto dest!: bspec intro: genuine_mono)

lemma world_step_ok:
  assumes "world_ok s"
  shows "world_ok (world_step key_of fetch render admits x s)"
proof -
  obtain w reqs hist where s: "s = (w, reqs, hist)" by (metis prod.collapse)
  show ?thesis
  proof (cases x)
    case (WStep i)
    show ?thesis
    proof (cases "i < length reqs \<and> body_step key_of fetch render (reqs ! i) w \<noteq> None")
      case True
      then obtain r w' where b: "body_step key_of fetch render (reqs ! i) w = Some (r, w')" and i: "i < length reqs" by auto
      have "cw_source w' \<in> set hist \<and> entries_ok hist (cw_cache w') \<and> request_ok hist r
          \<and> cw_permits w' + (if holds_permit r then 1 else 0) = cw_permits w + (if holds_permit (reqs ! i) then 1 else 0)"
        using assms i nth_mem [OF i] by (intro body_step_ok [OF _ _ _ b]) (auto simp: s)
      moreover have "\<forall>q \<in> set (reqs[i := r]). request_ok hist q"
        using assms calculation by (intro set_update_all) (auto simp: s)
      ultimately show ?thesis using assms i b builds_update [OF i, of r] by (auto simp: s WStep split: if_splits)
    qed (use assms in \<open>auto simp: s WStep split: option.split\<close>)
  next
    case (WSource l)
    then show ?thesis using assms by (auto simp: s request_ok_mono entries_ok_mono)
  qed (use assms in \<open>auto simp: s gzip_entries_ok\<close>)
qed

lemma world_new_ok: "world_ok (world_new l)"
  by (simp add: world_new_def entries_ok_def snapshot_cache_new_def)

lemma run_ok: "world_ok (fold (world_step key_of fetch render admits) ops (world_new l))"
proof -
  have "world_ok s \<Longrightarrow> world_ok (fold (world_step key_of fetch render admits) ops s)" for s
    by (induction ops arbitrary: s) (auto simp: world_step_ok simp del: world_ok.simps)
  then show ?thesis using world_new_ok by blast
qed

lemma served_genuine:
  assumes "fold (world_step key_of fetch render admits) ops (world_new l) = (w, reqs, hist)"
    and "ReqDone q (Inr (Some body)) \<in> set reqs"
  shows "genuine fetch render hist q body"
  using run_ok [of ops l] assms by fastforce

lemma limits:
  assumes "fold (world_step key_of fetch render admits) ops (world_new l) = (w, reqs, hist)"
  shows "builds reqs \<le> 2 \<and> (case cw_cache w of None \<Rightarrow> True | Some es \<Rightarrow> length es \<le> 64)"
  using run_ok [of ops l] unfolding assms by (auto simp: entries_ok_def split: option.splits)

end

interpretation l4: snapshot_source l4_key l4_fetch "l4_render to_json" "\<lambda>q. True" for to_json
  by unfold_locales (simp add: l4_key_def)

definition untriggered_admits :: "string option \<Rightarrow> bool" where
  "untriggered_admits coin \<longleftrightarrow> (\<exists>q. untriggered_query coin = Inr q)"

interpretation unt: snapshot_source untriggered_key untriggered_fetch "untriggered_render to_json" untriggered_admits for to_json
  by unfold_locales (auto simp: untriggered_admits_def untriggered_query_def untriggered_key_def split: option.splits if_splits)


section \<open>What the caching costs\<close>

text \<open>
  The compressor runs while the entry may be replaced, and its result is attached to whatever entry the key has
  then: a fresh body can carry the compression of an older one.
\<close>

lemma gzip_of_a_replaced_body:
  assumes "old_gz \<noteq> new_gz" "gzip old_body = Some old_gz" "gzip new_body = Some new_gz"
  shows "\<exists>w1 w2. gzipped_l4_body gzip (GzStart k old_body)
        \<lparr>cw_now = 0, cw_source = l, cw_cache = cache_insert 0 k old_body snapshot_cache_new, cw_permits = 2\<rparr> = Some (GzDeflate k old_body, w1)
    \<and> gzipped_l4_body gzip (GzDeflate k old_body)
        (w1\<lparr>cw_now := 150, cw_cache := cache_insert 150 k new_body (cw_cache w1)\<rparr>) = Some (GzDone (Some old_gz), w2)
    \<and> cache_get 150 k (cw_cache w2) = Some (new_body, Some old_gz)"
  using assms by (auto simp: cache_get_def cache_insert_def snapshot_cache_new_def set_gzipped_def update_conv')

text \<open>
  A body may be served although the book has moved on since it was built: within 100 ms any number of events may
  have been applied. A connection that starts an \<open>l4Book\<close> stream with it never sees those events.
\<close>

lemma hit_ignores_source:
  assumes "cache_get (cw_now w) (key_of q) (cw_cache w) = Some (body, gz)"
  shows "body_step key_of fetch render (ReqStart q) (w\<lparr>cw_source := l\<rparr>) = Some (ReqDone q (Inr (Some body)), w\<lparr>cw_source := l\<rparr>)"
  using assms by simp

section \<open>Properties\<close>

lemma one_request_done:
  assumes "fetch q l = Some s" "render q s = Inr body" "admits q"
  shows "\<exists>w. fold (world_step key_of fetch render admits) (WRequest q # replicate 6 (WStep 0)) (world_new l)
    = (w, [ReqDone q (Inr (Some body))], [l])"
  using assms by (simp add: world_new_def cache_get_def snapshot_cache_new_def eval_nat_numeral)

text \<open>
  C18. However requests, builds, the clock and changes of the book interleave, a body served for a coin and a
  price band is the rendering of the book of exactly this coin in exactly this band, as the listener had it at
  some moment.
\<close>

theorem l4_bodies_genuine:
  assumes "fold (world_step l4_key l4_fetch (l4_render to_json) (\<lambda>q. True)) ops (world_new l) = (w, reqs, hist)"
    and "ReqDone (coin, band) (Inr (Some body)) \<in> set reqs"
  shows "\<exists>l' \<in> set hist. \<exists>time height bs as. listener_snapshot_for_coin (Coin coin) band l' = Some (time, height, bs, as)
    \<and> to_json (L4Snapshot coin time height (map l4_order_from bs, map l4_order_from as)) = Inr body"
  using l4.served_genuine [OF assms] by (fastforce simp: genuine_def l4_fetch_def l4_render_def)

definition sample_state :: order_book_state where
  "sample_state = state_from_snapshot [] [sample_order 2 Ask 200 5] 7 9 False False True"

definition sample_listener :: listener where
  "sample_listener = (listener_new True False [] (True, True, True))
     \<lparr>ls_state := Some (sample_state\<lparr>st_order_book := [(Coin ''BTC'', add_order (sample_order 1 Bid 100 5) book_new)]\<rparr>)\<rparr>"

lemma sample_state_height: "st_height sample_state = 7"
  by (simp add: sample_state_def state_from_snapshot_def Let_def)

definition show_height :: "l4_book \<Rightarrow> string + string" where
  "show_height b = (case b of L4Snapshot c t h ls \<Rightarrow> Inr (c @ (if h = 7 then ''7'' else ''?'')) | L4Updates u \<Rightarrow> Inl ''updates'')"

theorem l4_bodies_genuine_witness:
  "\<exists>l' \<in> {sample_listener}. \<exists>time height bs as.
     listener_snapshot_for_coin (Coin ''BTC'') px_band_default l' = Some (time, height, bs, as)
     \<and> show_height (L4Snapshot ''BTC'' time height (map l4_order_from bs, map l4_order_from as)) = Inr ''BTC7''"
proof -
  let ?f = "fold (world_step l4_key l4_fetch (l4_render show_height) (\<lambda>q. True))
      (WRequest (''BTC'', px_band_default) # replicate 6 (WStep 0)) (world_new sample_listener)"
  obtain tm hg bs as where sn: "l4_fetch (''BTC'', px_band_default) sample_listener = Some (tm, hg, bs, as)" "hg = 7"
    by (simp add: l4_fetch_def sample_listener_def listener_snapshot_for_coin_def compute_snapshot_for_coin_def
        snapshot_for_coin_def sample_state_height) (metis prod.collapse)
  have rn: "l4_render show_height (''BTC'', px_band_default) (tm, hg, bs, as) = Inr ''BTC7''"
    using sn(2) by (simp add: l4_render_def show_height_def)
  obtain w where r: "?f = (w, [ReqDone (''BTC'', px_band_default) (Inr (Some ''BTC7''))], [sample_listener])"
    using one_request_done [where fetch = l4_fetch and render = "l4_render show_height" and admits = "\<lambda>q. True" and key_of = l4_key, OF sn(1) rn] by blast
  have "ReqDone (''BTC'', px_band_default) (Inr (Some ''BTC7'')) \<in> set [ReqDone (''BTC'', px_band_default) (Inr (Some ''BTC7''))]"
    by (rule list.set_intros)
  from l4_bodies_genuine [OF r this] show ?thesis by (simp only: list.set)
qed

text \<open>
  C40. A served body of untriggered orders lists every coin that has any once, in order, each with exactly its
  orders by identifier, as the listener had them at some moment; a query for one coin gets that coin's only.
\<close>

theorem untriggered_bodies_genuine:
  assumes "fold (world_step untriggered_key untriggered_fetch (untriggered_render to_json) untriggered_admits) ops (world_new l) = (w, reqs, hist)"
    and "ReqDone coin (Inr (Some body)) \<in> set reqs"
  shows "\<exists>l' \<in> set hist. \<exists>time height os. compute_untriggered_snapshot (map_option Coin coin) l' = Some (time, height, os)
    \<and> to_json \<lparr>uo_time = time, uo_height = height, uo_data = untriggered_grouping os\<rparr> = Inr body"
  using unt.served_genuine [OF assms] by (fastforce simp: genuine_def untriggered_fetch_def untriggered_render_def untriggered_grouped)

definition show_untriggered :: "untriggered_orders \<Rightarrow> string + string" where
  "show_untriggered u = Inr (if uo_height u = 7 then ''7'' else ''?'')"

theorem untriggered_bodies_genuine_witness:
  "\<exists>l' \<in> {sample_listener}. \<exists>time height os. compute_untriggered_snapshot None l' = Some (time, height, os)
     \<and> show_untriggered \<lparr>uo_time = time, uo_height = height, uo_data = untriggered_grouping os\<rparr> = Inr ''7''"
proof -
  let ?f = "fold (world_step untriggered_key untriggered_fetch (untriggered_render show_untriggered) untriggered_admits)
      (WRequest None # replicate 6 (WStep 0)) (world_new sample_listener)"
  obtain tm hg os where sn: "untriggered_fetch None sample_listener = Some (tm, hg, os)" "hg = 7"
    by (simp add: untriggered_fetch_def sample_listener_def compute_untriggered_snapshot_def untriggered_snapshot_def sample_state_height)
  have rn: "untriggered_render show_untriggered None (tm, hg, os) = Inr ''7''"
    using sn(2) by (simp add: untriggered_render_def show_untriggered_def)
  have ad: "untriggered_admits None" by (simp add: untriggered_admits_def untriggered_query_def)
  obtain w where r: "?f = (w, [ReqDone None (Inr (Some ''7''))], [sample_listener])"
    using one_request_done [where fetch = untriggered_fetch and render = "untriggered_render show_untriggered" and key_of = untriggered_key and admits = untriggered_admits, OF sn(1) rn ad] by blast
  have "ReqDone None (Inr (Some ''7'')) \<in> set [ReqDone None (Inr (Some ''7''))]"
    by (rule list.set_intros)
  from untriggered_bodies_genuine [OF r this] show ?thesis by (simp only: list.set option.map)
qed

text \<open>
  At most two builds are under way and at most 64 bodies are kept, whatever keys clients make up.
\<close>

theorem snapshot_work_bounded:
  "case fold (world_step l4_key l4_fetch (l4_render to_json) (\<lambda>q. True)) ops (world_new l) of
     (w, reqs, hist) \<Rightarrow> builds reqs \<le> 2 \<and> (case cw_cache w of None \<Rightarrow> True | Some es \<Rightarrow> length es \<le> 64)"
proof (cases "fold (world_step l4_key l4_fetch (l4_render to_json) (\<lambda>q. True)) ops (world_new l)")
  case (fields w reqs hist)
  show ?thesis unfolding fields using l4.limits [OF fields] by simp
qed

text \<open>
  The answers: a malformed or inverted band, an empty coin are the client's error; a coin without a book is
  not found, a listener without a snapshot not available, a failed build the server's error; everything else is the body.
\<close>

theorem answers_by_outcome:
  "hr_status (l4_snapshot_answer coin gz z r) = (case r of Inr (Some b) \<Rightarrow> 200 | Inr None \<Rightarrow> 404 | Inl e \<Rightarrow> 500)
   \<and> hr_status (untriggered_answer gz z r) = (case r of Inr (Some b) \<Rightarrow> 200 | Inr None \<Rightarrow> 503 | Inl e \<Rightarrow> 500)
   \<and> (case l4_snapshot_query show_error coin lo hi of Inl a \<Rightarrow> hr_status a = 400 | Inr q \<Rightarrow> band_parse lo hi = Inr (snd q) \<and> fst q = coin)
   \<and> (case untriggered_query oc of Inl a \<Rightarrow> hr_status a = 400 \<and> oc = Some [] | Inr q \<Rightarrow> q = oc)
   \<and> (health_status ready last_ms now = ''ready'' \<longleftrightarrow> ready \<and> 0 < last_ms \<and> now - last_ms \<le> 15000)"
  by (auto simp: l4_snapshot_answer_def untriggered_answer_def body_response_def json_response_def l4_snapshot_query_def
      untriggered_query_def health_status_def health_age_def Let_def split: sum.split option.split)

end
