(* ===== verification/Session.thy ===== *)
theory Session
  imports Outbound Snapshot_Cache
begin

text \<open>
  A client connection (\<open>servers/websocket_server.rs\<close>, \<open>handle_socket\<close>, \<open>run_session\<close> and what they call): the
  subscriptions and caches of one session, what it sends for every broadcast message, its heartbeats, and the
  answers to the client's requests.

  \<^item> \<open>session\<close> holds the locals of \<open>handle_socket\<close>; the connection is any type with a \<open>send\<close> as in \<open>Outbound\<close>.
    \<open>registries\<close> is what all sessions share: the shapes and families in use and the gauge of subscriptions.
  \<^item> The broadcast messages carry frames that the sessions share and fill in on first use, so an arm returns the
    message as it leaves it.
  \<^item> \<open>session_lib\<close> collects the third-party functions: the JSON encoder (\<open>Inl\<close> on an error), the hash of a book,
    the parser of an address, the text of a subscription in an error.
  \<^item> \<open>manager.subscriptions()\<close> iterates over a hash set: the order is that of the list here, and no statement
    depends on it. The body of an L4 snapshot comes from \<open>Snapshot_Cache\<close>.
  \<^item> The select loop is \<open>session_step\<close> on what becomes ready; the client's texts arrive parsed, \<open>None\<close> for a text
    that is no request.
\<close>

section \<open>Keys and entries\<close>

fun l2_shape_of :: "subscription \<Rightarrow> l2_snapshot_params option" where
  "l2_shape_of (SL2Book coin nsf nl man) = Some (l2_params_new nsf man)"
| "l2_shape_of (SL2Diff coin nsf nl man) = Some (l2_params_new nsf man)"
| "l2_shape_of (STrades c) = None"
| "l2_shape_of (SL4Book c) = None"
| "l2_shape_of (SBbo c) = None"
| "l2_shape_of (SOrderUpdates u) = None"
| "l2_shape_of (SBookDiffs c) = None"

definition or_default :: "'a \<Rightarrow> 'a option \<Rightarrow> 'a" where
  "or_default d x = (case x of None \<Rightarrow> d | Some v \<Rightarrow> v)"

definition l2_cache_key :: "string \<Rightarrow> nat option \<Rightarrow> u64 option \<Rightarrow> nat option \<Rightarrow> string" where
  "l2_cache_key coin nsf man nl =
     coin @ '':'' @ show_int (int (or_default 0 nsf)) @ '':'' @ show_int (uint (or_default 0 man))
     @ '':'' @ show_int (int (or_default default_levels nl))"

record l2_entry =
  le_hash :: u64
  le_last_sent :: instant
  le_payload :: "l2_book option"

type_synonym bbo_key = "(u64 \<times> u64) option \<times> (u64 \<times> u64) option"

record bbo_sent =
  be_tuple :: bbo_key
  be_last_sent :: instant
  be_payload :: "bbo option"

datatype server_response =
    RSubscriptionResponse client_message
  | RL2Book l2_book
  | RL2Diff l2_diff
  | RL4Book l4_book
  | RTrades "trade list"
  | RBbo bbo
  | RBookDiffs "node_data_order_diff list"
  | ROrderUpdates "order_update list"
  | RPong
  | RError string

record session_lib =
  sl_to_json :: "server_response \<Rightarrow> string + string"
  sl_hash :: "level list \<times> level list \<Rightarrow> u64"
  sl_parse_address :: "string \<Rightarrow> address option"
  sl_show_sub :: "subscription \<Rightarrow> string"

record 'c session =
  ss_conn :: 'c
  ss_alive :: bool
  ss_manager :: subscription_manager
  ss_universe :: "string set"
  ss_last_l2 :: "(string, l2_entry) hash_map"
  ss_last_l2_diff :: "(string, u64) hash_map"
  ss_last_bbo :: "(string, bbo_sent) hash_map"
  ss_user_addrs :: "(string, address) hash_map"
  ss_l2_guards :: "(l2_snapshot_params, unit) hash_map"
  ss_sub_guards :: "(subscription, broadcast_kind list) hash_map"
  ss_force_full :: bool

record registries =
  rg_params :: active_l2_params
  rg_subs :: active_subs
  rg_gauge :: gauge

definition session_new :: "'c \<Rightarrow> string set \<Rightarrow> 'c session" where
  "session_new conn universe =
     \<lparr>ss_conn = conn, ss_alive = True, ss_manager = manager_default, ss_universe = universe, ss_last_l2 = [],
      ss_last_l2_diff = [], ss_last_bbo = [], ss_user_addrs = [], ss_l2_guards = [], ss_sub_guards = [],
      ss_force_full = False\<rparr>"

text \<open>The three ways to answer, on the session.\<close>

definition put_frame :: "(string \<Rightarrow> 'c \<Rightarrow> bool \<times> 'c) \<Rightarrow> string \<Rightarrow> 'c session \<Rightarrow> bool \<times> 'c session" where
  "put_frame send f s = (let (ok, c) = send_frame send f (ss_conn s) in (ok, s\<lparr>ss_conn := c\<rparr>))"

definition put_message ::
  "session_lib \<Rightarrow> (string \<Rightarrow> 'c \<Rightarrow> bool \<times> 'c) \<Rightarrow> server_response \<Rightarrow> 'c session \<Rightarrow> bool \<times> 'c session" where
  "put_message lib send r s = (let (ok, c) = send_message (sl_to_json lib) send r (ss_conn s) in (ok, s\<lparr>ss_conn := c\<rparr>))"

section \<open>The L2 channels\<close>

definition export_inner_snapshot :: "inner_level snapshot \<Rightarrow> level list \<times> level list" where
  "export_inner_snapshot v = (map level_from (fst v), map level_from (snd v))"

definition build_l2_frame ::
  "session_lib \<Rightarrow> string \<Rightarrow> nat option \<Rightarrow> u64 option \<Rightarrow> nat \<Rightarrow> u64 \<Rightarrow> inner_level snapshot option \<Rightarrow> l2_built_frame" where
  "build_l2_frame lib coin nsf man n_levels time variant =
     (let exported = (case variant of None \<Rightarrow> ([], []) | Some v \<Rightarrow> export_inner_snapshot (snapshot_truncate n_levels v));
          book = from_l2_snapshot coin exported time nsf man (Some n_levels)
      in (sl_hash lib exported,
          case sl_to_json lib (RL2Book book) of Inr json \<Rightarrow> json | Inl err \<Rightarrow> [],
          book))"

text \<open>\<open>send_ws_data_from_snapshot\<close> from the resolved variant on.\<close>

definition send_l2_variant ::
  "session_lib \<Rightarrow> (string \<Rightarrow> 'c \<Rightarrow> bool \<times> 'c) \<Rightarrow> instant \<Rightarrow> bool \<Rightarrow> string \<Rightarrow> nat option \<Rightarrow> nat option \<Rightarrow> u64 option
     \<Rightarrow> inner_level snapshot option \<Rightarrow> 'c session \<times> snapshot_msg \<Rightarrow> bool \<times> 'c session \<times> snapshot_msg" where
  "send_l2_variant lib send now store_payload coin nsf nl man variant st =
     (let (s, m) = st;
          key = l2_cache_key coin nsf man nl;
          n_levels = or_default default_levels nl;
          (built, frames) = get_or_build (l2_frame_key_new coin nsf man n_levels)
            (\<lambda>_. build_l2_frame lib coin nsf man n_levels (sm_time m) variant) (sm_l2_frames m);
          m1 = m\<lparr>sm_l2_frames := frames\<rparr>;
          (current_hash, frame, payload) = built
      in if map_option le_hash (hm_get (ss_last_l2 s) key) \<noteq> Some current_hash
         then (let entry = \<lparr>le_hash = current_hash, le_last_sent = now,
                            le_payload = (if store_payload then Some payload else None)\<rparr>;
                   (ok, s1) = put_frame send frame (s\<lparr>ss_last_l2 := hm_insert key entry (ss_last_l2 s)\<rparr>)
               in (ok, s1, m1))
         else (True, s, m1))"

definition send_ws_data_from_snapshot ::
  "session_lib \<Rightarrow> (string \<Rightarrow> 'c \<Rightarrow> bool \<times> 'c) \<Rightarrow> instant \<Rightarrow> bool \<Rightarrow> subscription
     \<Rightarrow> 'c session \<times> snapshot_msg \<Rightarrow> bool \<times> 'c session \<times> snapshot_msg" where
  "send_ws_data_from_snapshot lib send now store_payload sub st =
     (let (s, m) = st
      in case sub of
           SL2Book coin nsf nl man \<Rightarrow>
             if \<not> ss_force_full s \<and> Coin coin \<notin> sm_dirty m \<and> hm_contains (ss_last_l2 s) (l2_cache_key coin nsf man nl)
             then (True, st)
             else (case hm_get (sm_l2_snapshots m) (Coin coin) of
                     Some per_coin \<Rightarrow>
                       (case hm_get per_coin (l2_params_new nsf man) of
                          None \<Rightarrow> (True, st)
                        | Some v \<Rightarrow> send_l2_variant lib send now store_payload coin nsf nl man (Some v) st)
                   | None \<Rightarrow> send_l2_variant lib send now store_payload coin nsf nl man None st)
         | _ \<Rightarrow> (True, st))"

text \<open>One l2Diff subscription: what a map of snapshots shows it, the shared diff, and the reply.\<close>

definition diff_export :: "string \<Rightarrow> nat option \<Rightarrow> u64 option \<Rightarrow> nat \<Rightarrow> l2_cache \<Rightarrow> (level list \<times> level list) option" where
  "diff_export coin nsf man depth src =
     Option.bind (hm_get src (Coin coin)) (\<lambda>per_coin.
       map_option (\<lambda>v. export_inner_snapshot (snapshot_truncate depth v)) (hm_get per_coin (l2_params_new nsf man)))"

definition diff_build :: "string \<Rightarrow> nat option \<Rightarrow> u64 option \<Rightarrow> nat \<Rightarrow> l2_cache \<Rightarrow> l2_cache \<Rightarrow> l2_diff_built_frame" where
  "diff_build coin nsf man depth previous snapshot =
     Option.bind (diff_export coin nsf man depth previous) (\<lambda>old.
       let new = or_default ([], []) (diff_export coin nsf man depth snapshot);
           bs = between (fst old) (fst new);
           as = between (snd old) (snd new)
       in if side_diff_is_empty bs \<and> side_diff_is_empty as then None else Some (bs, as))"

definition send_ws_data_from_l2_diff ::
  "session_lib \<Rightarrow> (string \<Rightarrow> 'c \<Rightarrow> bool \<times> 'c) \<Rightarrow> subscription
     \<Rightarrow> 'c session \<times> snapshot_msg \<Rightarrow> bool \<times> 'c session \<times> snapshot_msg" where
  "send_ws_data_from_l2_diff lib send sub st =
     (let (s, m) = st
      in case sub of
           SL2Diff coin nsf nl man \<Rightarrow>
             (let key = l2_cache_key coin nsf man nl;
                  depth = or_default default_levels nl;
                  caught_up = hm_get (ss_last_l2_diff s) key;
                  served = s\<lparr>ss_last_l2_diff := hm_insert key (sm_height m) (ss_last_l2_diff s)\<rparr>
              in if caught_up = None \<or> ss_force_full s \<or> \<not> hm_contains (sm_previous m) (Coin coin)
                 then (if caught_up \<noteq> None \<and> \<not> ss_force_full s \<and> Coin coin \<notin> sm_dirty m then (True, st)
                       else (let levels = or_default ([], []) (diff_export coin nsf man depth (sm_l2_snapshots m));
                                 resp = RL2Diff (L2Snapshot \<lparr>ds_coin = coin, ds_time = sm_time m, ds_height = sm_height m,
                                   ds_n_sig_figs = nsf, ds_mantissa = man, ds_n_levels = Some depth, ds_levels = levels\<rparr>)
                             in case sl_to_json lib resp of
                                  Inl err \<Rightarrow> (True, st)
                                | Inr frame \<Rightarrow> (let (ok, s1) = put_frame send frame served in (ok, s1, m))))
                 else if Coin coin \<notin> sm_dirty m then (True, st)
                 else (let (built, frames) = get_or_build (l2_frame_key_new coin nsf man depth)
                             (\<lambda>_. diff_build coin nsf man depth (sm_previous m) (sm_l2_snapshots m)) (sm_l2_diff_frames m);
                           m1 = m\<lparr>sm_l2_diff_frames := frames\<rparr>
                       in case built of
                            None \<Rightarrow> (True, s, m1)
                          | Some sides \<Rightarrow>
                              (let resp = RL2Diff (l2_diff_updates_new coin (sm_time m) (sm_height m)
                                     (or_default (sm_height m) caught_up) nsf man (Some depth) (fst sides) (snd sides))
                               in case sl_to_json lib resp of
                                    Inl err \<Rightarrow> (True, s, m1)
                                  | Inr frame \<Rightarrow> (let (ok, s1) = put_frame send frame served in (ok, s1, m1)))))
         | _ \<Rightarrow> (True, st))"

section \<open>Quotes, trades and orders\<close>

definition bbo_quote :: "(px \<times> sz \<times> u32) option \<Rightarrow> (u64 \<times> u64) option" where
  "bbo_quote q = map_option (\<lambda>(p, z, n). (px_value p, sz_value z)) q"

definition bbo_level :: "(px \<times> sz \<times> u32) option \<Rightarrow> level option" where
  "bbo_level q = map_option (\<lambda>(p, z, n). \<lparr>lv_px = px_to_str p, lv_sz = sz_to_str z, lv_n = unat n\<rparr>) q"

definition send_ws_data_from_bbo ::
  "session_lib \<Rightarrow> (string \<Rightarrow> 'c \<Rightarrow> bool \<times> 'c) \<Rightarrow> instant \<Rightarrow> bool \<Rightarrow> u64 \<Rightarrow> string
     \<Rightarrow> 'c session \<times> (coin, coin_bbo) hash_map \<Rightarrow> bool \<times> 'c session \<times> (coin, coin_bbo) hash_map" where
  "send_ws_data_from_bbo lib send now store_payload time coin st =
     (let (s, bbos) = st
      in case hm_get bbos (Coin coin) of
           None \<Rightarrow> (True, st)
         | Some cb \<Rightarrow>
             (let (best_bid, best_ask) = cb_raw cb;
                  tuple = (bbo_quote best_bid, bbo_quote best_ask)
              in if map_option be_tuple (hm_get (ss_last_bbo s) coin) \<noteq> Some tuple
                 then (let quote = \<lparr>bb_coin = coin, bb_time = time, bb_bid = bbo_level best_bid, bb_ask = bbo_level best_ask\<rparr>;
                           (frame, shared) = get_or_serialize (sl_to_json lib) (\<lambda>_. RBbo quote) (cb_frame cb);
                           entry = \<lparr>be_tuple = tuple, be_last_sent = now, be_payload = (if store_payload then Some quote else None)\<rparr>;
                           (ok, s1) = put_frame send frame (s\<lparr>ss_last_bbo := hm_insert coin entry (ss_last_bbo s)\<rparr>)
                       in (ok, s1, hm_insert (Coin coin) (cb\<lparr>cb_frame := shared\<rparr>) bbos))
                 else (True, st)))"

definition send_trades ::
  "session_lib \<Rightarrow> (string \<Rightarrow> 'c \<Rightarrow> bool \<times> 'c) \<Rightarrow> string
     \<Rightarrow> 'c session \<times> (string, coin_trades) hash_map \<Rightarrow> bool \<times> 'c session \<times> (string, coin_trades) hash_map" where
  "send_trades lib send coin st =
     (let (s, by_coin) = st
      in case hm_get by_coin coin of
           None \<Rightarrow> (True, st)
         | Some ct \<Rightarrow>
             (let (frame, shared) = get_or_serialize (sl_to_json lib) (\<lambda>_. RTrades (ct_trades ct)) (ct_frame ct);
                  (ok, s1) = put_frame send frame s
              in (ok, s1, hm_insert coin (ct\<lparr>ct_frame := shared\<rparr>) by_coin)))"

definition send_order_diffs ::
  "session_lib \<Rightarrow> (string \<Rightarrow> 'c \<Rightarrow> bool \<times> 'c) \<Rightarrow> u64 \<Rightarrow> u64 \<Rightarrow> subscription
     \<Rightarrow> 'c session \<times> (string, coin_diffs) hash_map \<Rightarrow> bool \<times> 'c session \<times> (string, coin_diffs) hash_map" where
  "send_order_diffs lib send time height sub st =
     (let (s, by_coin) = st
      in case sub of
           SBookDiffs coin \<Rightarrow>
             (case hm_get by_coin coin of
                None \<Rightarrow> (True, st)
              | Some cd \<Rightarrow>
                  (let (frame, shared) = get_or_serialize (sl_to_json lib) (\<lambda>_. RBookDiffs (cd_diffs cd)) (cd_book_diffs_frame cd);
                       (ok, s1) = put_frame send frame s
                   in (ok, s1, hm_insert coin (cd\<lparr>cd_book_diffs_frame := shared\<rparr>) by_coin)))
         | SL4Book coin \<Rightarrow>
             (case hm_get by_coin coin of
                None \<Rightarrow> (True, st)
              | Some cd \<Rightarrow>
                  (let (frame, shared) = get_or_serialize (sl_to_json lib)
                         (\<lambda>_. RL4Book (L4Updates \<lparr>lu_time = time, lu_height = height, lu_order_statuses = [], lu_book_diffs = cd_diffs cd\<rparr>))
                         (cd_l4_frame cd);
                       (ok, s1) = put_frame send frame s
                   in (ok, s1, hm_insert coin (cd\<lparr>cd_l4_frame := shared\<rparr>) by_coin)))
         | _ \<Rightarrow> (True, st))"

definition send_ws_order_updates ::
  "session_lib \<Rightarrow> (string \<Rightarrow> 'c \<Rightarrow> bool \<times> 'c) \<Rightarrow> string \<Rightarrow> u64 \<Rightarrow> u64 \<Rightarrow> (string, coin_statuses) hash_map
     \<Rightarrow> 'c session \<Rightarrow> bool \<times> 'c session" where
  "send_ws_order_updates lib send user time height by_coin s =
     (let (found, s1) =
        (case hm_get (ss_user_addrs s) user of
           Some addr \<Rightarrow> (Some addr, s)
         | None \<Rightarrow> (case sl_parse_address lib user of
                      Some addr \<Rightarrow> (Some addr, s\<lparr>ss_user_addrs := hm_insert user addr (ss_user_addrs s)\<rparr>)
                    | None \<Rightarrow> (None, s)))
      in case found of
           None \<Rightarrow> (True, s1)
         | Some addr \<Rightarrow>
             (let updates = map (\<lambda>x. order_update_new (os_user x) time height x)
                    (filter (\<lambda>x. os_user x = addr) (concat (map (\<lambda>(c, cs). cs_statuses cs) by_coin)))
              in if updates \<noteq> [] then put_message lib send (ROrderUpdates updates) s1 else (True, s1)))"

definition send_order_statuses ::
  "session_lib \<Rightarrow> (string \<Rightarrow> 'c \<Rightarrow> bool \<times> 'c) \<Rightarrow> u64 \<Rightarrow> u64 \<Rightarrow> subscription
     \<Rightarrow> 'c session \<times> (string, coin_statuses) hash_map \<Rightarrow> bool \<times> 'c session \<times> (string, coin_statuses) hash_map" where
  "send_order_statuses lib send time height sub st =
     (let (s, by_coin) = st
      in case sub of
           SL4Book coin \<Rightarrow>
             (case hm_get by_coin coin of
                None \<Rightarrow> (True, st)
              | Some cs \<Rightarrow>
                  (let (frame, shared) = get_or_serialize (sl_to_json lib)
                         (\<lambda>_. RL4Book (L4Updates \<lparr>lu_time = time, lu_height = height, lu_order_statuses = cs_statuses cs, lu_book_diffs = []\<rparr>))
                         (cs_l4_frame cs);
                       (ok, s1) = put_frame send frame s
                   in (ok, s1, hm_insert coin (cs\<lparr>cs_l4_frame := shared\<rparr>) by_coin)))
         | SOrderUpdates user \<Rightarrow>
             (let (ok, s1) = send_ws_order_updates lib send user time height by_coin s in (ok, s1, by_coin))
         | _ \<Rightarrow> (True, st))"

section \<open>One broadcast message\<close>

text \<open>The loop over the subscriptions, left as soon as the connection is doomed.\<close>

fun for_subs ::
  "(subscription \<Rightarrow> 'c session \<times> 'm \<Rightarrow> bool \<times> 'c session \<times> 'm) \<Rightarrow> subscription list \<Rightarrow> 'c session \<times> 'm \<Rightarrow> 'c session \<times> 'm" where
  "for_subs f [] st = st"
| "for_subs f (sub # subs) st =
     (if \<not> ss_alive (fst st) then st
      else (let (ok, s, m) = f sub st in for_subs f subs (s\<lparr>ss_alive := ss_alive s \<and> ok\<rparr>, m)))"

definition on_snapshot ::
  "session_lib \<Rightarrow> (string \<Rightarrow> 'c \<Rightarrow> bool \<times> 'c) \<Rightarrow> instant \<Rightarrow> bool \<Rightarrow> 'c session \<times> snapshot_msg \<Rightarrow> 'c session \<times> snapshot_msg" where
  "on_snapshot lib send now store_payload st =
     (let (s0, m0) = st;
          s1 = (case sm_universe m0 of None \<Rightarrow> s0 | Some u \<Rightarrow> s0\<lparr>ss_universe := u\<rparr>);
          (s2, m1) = for_subs (\<lambda>sub st'. case sub of
               SBbo coin \<Rightarrow> (True, st')
             | SL2Diff _ _ _ _ \<Rightarrow> send_ws_data_from_l2_diff lib send sub st'
             | _ \<Rightarrow> send_ws_data_from_snapshot lib send now store_payload sub st')
             (subscriptions (ss_manager s1)) (s1, m0)
      in (s2\<lparr>ss_force_full := False\<rparr>, m1))"

definition on_message ::
  "session_lib \<Rightarrow> (string \<Rightarrow> 'c \<Rightarrow> bool \<times> 'c) \<Rightarrow> instant \<Rightarrow> bool \<Rightarrow> bool \<Rightarrow> internal_message \<Rightarrow> 'c session
     \<Rightarrow> 'c session \<times> internal_message" where
  "on_message lib send now l2_hb bbo_hb msg s =
     (case msg of
        MSnapshot m \<Rightarrow> map_prod id MSnapshot (on_snapshot lib send now l2_hb (s, m))
      | MBboUpdate bbos time \<Rightarrow>
          map_prod id (\<lambda>b. MBboUpdate b time)
            (for_subs (\<lambda>sub st. case sub of SBbo coin \<Rightarrow> send_ws_data_from_bbo lib send now bbo_hb time coin st | _ \<Rightarrow> (True, st))
               (subscriptions (ss_manager s)) (s, bbos))
      | MFills trades \<Rightarrow>
          map_prod id MFills
            (for_subs (\<lambda>sub st. case sub of STrades coin \<Rightarrow> send_trades lib send coin st | _ \<Rightarrow> (True, st))
               (subscriptions (ss_manager s)) (s, trades))
      | ML4OrderDiffs time height ds \<Rightarrow>
          map_prod id (ML4OrderDiffs time height)
            (for_subs (send_order_diffs lib send time height) (subscriptions (ss_manager s)) (s, ds))
      | ML4OrderStatuses time height statuses \<Rightarrow>
          map_prod id (ML4OrderStatuses time height)
            (for_subs (send_order_statuses lib send time height) (subscriptions (ss_manager s)) (s, statuses)))"


section \<open>Heartbeats\<close>

text \<open>The period of the ticker, \<open>None\<close> when both heartbeats are off.\<close>

definition build_heartbeat_ticker :: "nat \<Rightarrow> nat \<Rightarrow> nat option" where
  "build_heartbeat_ticker l2book_heartbeat_ms bbo_heartbeat_ms =
     (let enabled = filter (\<lambda>ms. 0 < ms) [l2book_heartbeat_ms, bbo_heartbeat_ms]
      in if enabled = [] then None else Some (min (max (Min (set enabled) div 2) 50) 500))"

definition heartbeat_of :: "nat \<Rightarrow> nat option" where
  "heartbeat_of ms = (if 0 < ms then Some ms else None)"

definition beat_l2 ::
  "session_lib \<Rightarrow> (string \<Rightarrow> 'c \<Rightarrow> bool \<times> 'c) \<Rightarrow> instant \<Rightarrow> u64 \<Rightarrow> nat option \<Rightarrow> string \<Rightarrow> 'c session \<Rightarrow> bool \<times> 'c session" where
  "beat_l2 lib send now now_ms hb key s =
     (case (hb, hm_get (ss_last_l2 s) key) of
        (Some period, Some entry) \<Rightarrow>
          (case (if period \<le> now - le_last_sent entry then le_payload entry else None) of
             None \<Rightarrow> (True, s)
           | Some payload \<Rightarrow>
               (let payload1 = l2_set_time now_ms payload;
                    entry1 = entry\<lparr>le_payload := Some payload1, le_last_sent := now\<rparr>
                in put_message lib send (RL2Book payload1) (s\<lparr>ss_last_l2 := hm_insert key entry1 (ss_last_l2 s)\<rparr>)))
      | _ \<Rightarrow> (True, s))"

definition beat_bbo ::
  "session_lib \<Rightarrow> (string \<Rightarrow> 'c \<Rightarrow> bool \<times> 'c) \<Rightarrow> instant \<Rightarrow> u64 \<Rightarrow> nat option \<Rightarrow> string \<Rightarrow> 'c session \<Rightarrow> bool \<times> 'c session" where
  "beat_bbo lib send now now_ms hb coin s =
     (case (hb, hm_get (ss_last_bbo s) coin) of
        (Some period, Some entry) \<Rightarrow>
          (case (if period \<le> now - be_last_sent entry then be_payload entry else None) of
             None \<Rightarrow> (True, s)
           | Some payload \<Rightarrow>
               (let payload1 = payload\<lparr>bb_time := now_ms\<rparr>;
                    entry1 = entry\<lparr>be_payload := Some payload1, be_last_sent := now\<rparr>
                in put_message lib send (RBbo payload1) (s\<lparr>ss_last_bbo := hm_insert coin entry1 (ss_last_bbo s)\<rparr>)))
      | _ \<Rightarrow> (True, s))"

definition on_heartbeat ::
  "session_lib \<Rightarrow> (string \<Rightarrow> 'c \<Rightarrow> bool \<times> 'c) \<Rightarrow> instant \<Rightarrow> u64 \<Rightarrow> nat option \<Rightarrow> nat option \<Rightarrow> 'c session \<Rightarrow> 'c session" where
  "on_heartbeat lib send now now_ms l2_hb bbo_hb s =
     fst (for_subs (\<lambda>sub (s, u). case sub of
            SL2Book coin nsf nl man \<Rightarrow>
              (let (ok, s1) = beat_l2 lib send now now_ms l2_hb (l2_cache_key coin nsf man nl) s in (ok, s1, u))
          | SBbo coin \<Rightarrow> (let (ok, s1) = beat_bbo lib send now now_ms bbo_hb coin s in (ok, s1, u))
          | _ \<Rightarrow> (True, s, u)) (subscriptions (ss_manager s)) (s, ()))"

section \<open>Client requests\<close>

text \<open>\<open>body\<close>: what \<open>l4_snapshot_body\<close> answers for the coin without a band.\<close>

definition handle_immediate_snapshot :: "subscription \<Rightarrow> string + string option \<Rightarrow> string + string option" where
  "handle_immediate_snapshot sub body =
     (case sub of
        SL4Book coin \<Rightarrow>
          (case body of
             Inl err \<Rightarrow> Inl err
           | Inr (Some b) \<Rightarrow> Inr (Some (l4_ws_frame b))
           | Inr None \<Rightarrow> Inl ''Snapshot Failed'')
      | _ \<Rightarrow> Inr None)"

text \<open>The guards of a new subscription, and of one that goes.\<close>

definition acquire_guards :: "subscription \<Rightarrow> 'c session \<times> registries \<Rightarrow> 'c session \<times> registries" where
  "acquire_guards sub st =
     (let (s, rg) = st;
          (s1, rg1) = (case l2_shape_of sub of
              Some params \<Rightarrow>
                if hm_contains (ss_l2_guards s) params then (s, rg)
                else (s\<lparr>ss_l2_guards := hm_insert params () (ss_l2_guards s)\<rparr>, rg\<lparr>rg_params := params_acquire params (rg_params rg)\<rparr>)
            | None \<Rightarrow> (s, rg));
          (guards, subs) = acquire_for sub (rg_subs rg1);
          rg2 = rg1\<lparr>rg_subs := subs\<rparr>
      in (if guards \<noteq> [] then s1\<lparr>ss_sub_guards := hm_insert sub guards (ss_sub_guards s1)\<rparr> else s1, rg2))"

definition release_sub_guards :: "subscription \<Rightarrow> 'c session \<times> registries \<Rightarrow> 'c session \<times> registries" where
  "release_sub_guards sub st =
     (let (s, rg) = st
      in case hm_get (ss_sub_guards s) sub of
           None \<Rightarrow> (s, rg)
         | Some guards \<Rightarrow>
             (s\<lparr>ss_sub_guards := hm_remove sub (ss_sub_guards s)\<rparr>, rg\<lparr>rg_subs := fold subs_guard_drop guards (rg_subs rg)\<rparr>))"

definition release_l2_guard :: "l2_snapshot_params \<Rightarrow> 'c session \<times> registries \<Rightarrow> 'c session \<times> registries" where
  "release_l2_guard params st =
     (let (s, rg) = st
      in if hm_contains (ss_l2_guards s) params
         then (s\<lparr>ss_l2_guards := hm_remove params (ss_l2_guards s)\<rparr>, rg\<lparr>rg_params := params_guard_drop params (rg_params rg)\<rparr>)
         else (s, rg))"

definition manager_op ::
  "(subscription_manager \<times> gauge \<Rightarrow> 'a \<times> subscription_manager \<times> gauge) \<Rightarrow> 'c session \<times> registries \<Rightarrow> 'a \<times> 'c session \<times> registries" where
  "manager_op f st =
     (let (s, rg) = st; (r, m, g) = f (ss_manager s, rg_gauge rg)
      in (r, s\<lparr>ss_manager := m\<rparr>, rg\<lparr>rg_gauge := g\<rparr>))"

text \<open>What an unsubscription that removed something cleans up.\<close>

definition cleanup_removed :: "subscription \<Rightarrow> 'c session \<times> registries \<Rightarrow> 'c session \<times> registries" where
  "cleanup_removed sub st =
     (let (s, rg) = release_sub_guards sub st
      in case sub of
           SL2Book coin nsf nl man \<Rightarrow>
             (let s1 = s\<lparr>ss_last_l2 := hm_remove (l2_cache_key coin nsf man nl) (ss_last_l2 s)\<rparr>;
                  params = l2_params_new nsf man
              in if list_ex (\<lambda>x. l2_shape_of x = Some params) (subscriptions (ss_manager s1)) then (s1, rg)
                 else release_l2_guard params (s1, rg))
         | SL2Diff coin nsf nl man \<Rightarrow>
             (let s1 = s\<lparr>ss_last_l2_diff := hm_remove (l2_cache_key coin nsf man nl) (ss_last_l2_diff s)\<rparr>;
                  params = l2_params_new nsf man
              in if list_ex (\<lambda>x. l2_shape_of x = Some params) (subscriptions (ss_manager s1)) then (s1, rg)
                 else release_l2_guard params (s1, rg))
         | SBbo coin \<Rightarrow> (s\<lparr>ss_last_bbo := hm_remove coin (ss_last_bbo s)\<rparr>, rg)
         | _ \<Rightarrow> (s, rg))"

definition is_bbo :: "subscription \<Rightarrow> bool" where
  "is_bbo sub = (case sub of SBbo coin \<Rightarrow> True | _ \<Rightarrow> False)"

definition reply_error ::
  "session_lib \<Rightarrow> (string \<Rightarrow> 'c \<Rightarrow> bool \<times> 'c) \<Rightarrow> string \<Rightarrow> 'c session \<times> registries \<Rightarrow> bool \<times> 'c session \<times> registries" where
  "reply_error lib send msg st = (let (s, rg) = st; (ok, s1) = put_message lib send (RError msg) s in (ok, s1, rg))"

text \<open>Behind a successful subscription: the snapshot, the acknowledgement, the snapshot's frame.\<close>

definition start_stream ::
  "session_lib \<Rightarrow> (string \<Rightarrow> 'c \<Rightarrow> bool \<times> 'c) \<Rightarrow> string + string option \<Rightarrow> subscription \<Rightarrow> 'c session \<times> registries
     \<Rightarrow> bool \<times> 'c session \<times> registries" where
  "start_stream lib send body sub st =
     (case handle_immediate_snapshot sub body of
        Inl err \<Rightarrow>
          (let (removed, st1) = manager_op (unsubscribe sub) st
           in reply_error lib send (''Unable to grab order book snapshot: '' @ err) (release_sub_guards sub st1))
      | Inr snapshot_msg \<Rightarrow>
          (let (s, rg) = st; (ok, s1) = put_message lib send (RSubscriptionResponse (Subscribe sub)) s
           in if \<not> ok then (False, s1, rg)
              else case snapshot_msg of
                     None \<Rightarrow> (True, s1, rg)
                   | Some frame \<Rightarrow> (let (ok2, s2) = put_frame send frame s1 in (ok2, s2, rg))))"

definition receive_client_message ::
  "session_lib \<Rightarrow> (string \<Rightarrow> 'c \<Rightarrow> bool \<times> 'c) \<Rightarrow> bool \<Rightarrow> string + string option \<Rightarrow> client_message \<Rightarrow> 'c session \<times> registries
     \<Rightarrow> bool \<times> 'c session \<times> registries" where
  "receive_client_message lib send bbo_only body msg st =
     (case msg of
        Subscribe sub \<Rightarrow>
          if bbo_only \<and> \<not> is_bbo sub
          then reply_error lib send ''BBO-only mode: L2/L4/Trades subscriptions disabled. Only BBO subscriptions allowed.'' st
          else if \<not> validate (ss_universe (fst st)) sub
          then reply_error lib send (''Invalid subscription: '' @ sl_show_sub lib sub) st
          else (case manager_op (subscribe sub) st of
                  (Inl err, st1) \<Rightarrow>
                    reply_error lib send ''Rejected subscription: subscription limit reached for this connection'' st1
                | (Inr inserted, st1) \<Rightarrow>
                    if inserted then start_stream lib send body sub (acquire_guards sub st1)
                    else reply_error lib send (''Already subscribed: '' @ sl_show_sub lib sub) st1)
      | Unsubscribe sub \<Rightarrow>
          if bbo_only \<and> \<not> is_bbo sub
          then reply_error lib send ''BBO-only mode: L2/L4/Trades subscriptions disabled. Only BBO subscriptions allowed.'' st
          else if \<not> validate (ss_universe (fst st)) sub
          then reply_error lib send (''Invalid subscription: '' @ sl_show_sub lib sub) st
          else (let (removed, st1) = manager_op (unsubscribe sub) st
                in if removed
                   then (let (s, rg) = cleanup_removed sub st1;
                             (ok, s1) = put_message lib send (RSubscriptionResponse msg) s
                         in (ok, s1, rg))
                   else reply_error lib send (''Already unsubscribed: '' @ sl_show_sub lib sub) st1)
      | Ping \<Rightarrow> (True, st))"

section \<open>The session\<close>

text \<open>
  What the select of the loop may find ready. A text frame is parsed, with the answer of the snapshot cache in case
  it subscribes to an L4 book; \<open>None\<close> for a text that is no request. A ping is answered by \<open>pong\<close>.
\<close>

datatype session_event =
    EvMessage internal_message
  | EvLagged
  | EvChannelClosed
  | EvHeartbeat u64
  | EvText string "client_message option" "string + string option"
  | EvNotUtf8
  | EvClose
  | EvOtherFrame
  | EvStreamEnd
  | EvWriterGone

record session_config =
  sc_bbo_only :: bool
  sc_l2book_heartbeat_ms :: nat
  sc_bbo_heartbeat_ms :: nat

text \<open>One turn of the loop: \<open>True\<close> if it leaves the loop, the session, the registries.\<close>

definition session_step ::
  "session_lib \<Rightarrow> (string \<Rightarrow> 'c \<Rightarrow> bool \<times> 'c) \<Rightarrow> ('c \<Rightarrow> bool \<times> 'c) \<Rightarrow> session_config \<Rightarrow> instant \<Rightarrow> session_event
     \<Rightarrow> 'c session \<times> registries \<Rightarrow> bool \<times> 'c session \<times> registries" where
  "session_step lib send pong cfg now ev st =
     (let (s, rg) = st;
          l2_hb = heartbeat_of (sc_l2book_heartbeat_ms cfg);
          bbo_hb = heartbeat_of (sc_bbo_heartbeat_ms cfg)
      in case ev of
           EvMessage msg \<Rightarrow> (False, fst (on_message lib send now (l2_hb \<noteq> None) (bbo_hb \<noteq> None) msg s), rg)
         | EvLagged \<Rightarrow> (False, s\<lparr>ss_force_full := True\<rparr>, rg)
         | EvChannelClosed \<Rightarrow> (True, s, rg)
         | EvHeartbeat now_ms \<Rightarrow> (False, on_heartbeat lib send now now_ms l2_hb bbo_hb s, rg)
         | EvText text (Some Ping) body \<Rightarrow>
             (let (ok, c) = pong (ss_conn s) in (False, s\<lparr>ss_conn := c, ss_alive := ss_alive s \<and> ok\<rparr>, rg))
         | EvText text (Some msg) body \<Rightarrow>
             (let (ok, s1, rg1) = receive_client_message lib send (sc_bbo_only cfg) body msg (s, rg)
              in (False, s1\<lparr>ss_alive := ss_alive s1 \<and> ok\<rparr>, rg1))
         | EvText text None body \<Rightarrow>
             (let (ok, s1) = put_message lib send (RError (''Error parsing JSON into valid websocket request: '' @ text)) s
              in (False, s1\<lparr>ss_alive := ss_alive s1 \<and> ok\<rparr>, rg))
         | EvNotUtf8 \<Rightarrow> (True, s, rg)
         | EvClose \<Rightarrow> (True, s, rg)
         | EvOtherFrame \<Rightarrow> (False, s, rg)
         | EvStreamEnd \<Rightarrow> (True, s, rg)
         | EvWriterGone \<Rightarrow> (True, s, rg))"

fun run_session ::
  "session_lib \<Rightarrow> (string \<Rightarrow> 'c \<Rightarrow> bool \<times> 'c) \<Rightarrow> ('c \<Rightarrow> bool \<times> 'c) \<Rightarrow> session_config \<Rightarrow> (instant \<times> session_event) list
     \<Rightarrow> 'c session \<times> registries \<Rightarrow> 'c session \<times> registries" where
  "run_session lib send pong cfg [] st = st"
| "run_session lib send pong cfg ((now, ev) # evs) st =
     (if \<not> ss_alive (fst st) then st
      else (let (ended, st1) = session_step lib send pong cfg now ev st
            in if ended then st1 else run_session lib send pong cfg evs st1))"

text \<open>The end of the connection: every guard is dropped, and the manager with its gauge.\<close>

definition session_drop :: "'c session \<times> registries \<Rightarrow> registries" where
  "session_drop st =
     (let (s, rg) = st
      in rg\<lparr>rg_params := fold params_guard_drop (map fst (ss_l2_guards s)) (rg_params rg),
            rg_subs := fold subs_guard_drop (concat (map snd (ss_sub_guards s))) (rg_subs rg),
            rg_gauge := manager_drop (ss_manager s) (rg_gauge rg)\<rparr>)"

definition handle_socket ::
  "session_lib \<Rightarrow> (string \<Rightarrow> 'c \<Rightarrow> bool \<times> 'c) \<Rightarrow> ('c \<Rightarrow> bool \<times> 'c) \<Rightarrow> session_config \<Rightarrow> listener
     \<Rightarrow> (instant \<times> session_event) list \<Rightarrow> 'c \<Rightarrow> registries \<Rightarrow> 'c \<times> registries" where
  "handle_socket lib send pong cfg l evs conn rg =
     (let s = session_new conn (listener_universe l)
      in if is_ready l
         then (let st = run_session lib send pong cfg evs (s, rg) in (ss_conn (fst st), session_drop st))
         else (let (ok, s1) = put_message lib send (RError ''Order book not ready for streaming (waiting for snapshot)'') s
               in (ss_conn s1, session_drop (s1, rg))))"

end
