(* ===== verification/Session_Guards.thy ===== *)
theory Session_Guards
  imports Session
begin

text \<open>
  What a session holds on behalf of its client: the guards it has acquired in the shared registries, the gauge of
  subscriptions and its caches are, at every moment, exactly those of the live subscriptions, and closing the
  connection takes everything back.

  \<^item> \<open>kept\<close>: broadcast messages and heartbeats touch neither subscriptions nor guards.
  \<^item> \<open>session_ok base\<close> is the invariant, relative to the registries before the connection; every turn of
    the select loop keeps it.
\<close>

declare map_of_eq_Some_iff [simp del] Some_eq_map_of_iff [simp del]

section \<open>What messages leave alone\<close>

definition kept :: "'c session \<Rightarrow> 'c session \<Rightarrow> bool" where
  "kept s s' \<longleftrightarrow> ss_manager s' = ss_manager s \<and> ss_l2_guards s' = ss_l2_guards s \<and> ss_sub_guards s' = ss_sub_guards s"

lemma kept_refl [simp]: "kept s s"
  by (simp add: kept_def)

lemma kept_trans: "kept s s' \<Longrightarrow> kept s' s'' \<Longrightarrow> kept s s''"
  by (simp add: kept_def)

lemma kept_updates [simp]:
  "kept s (s'\<lparr>ss_alive := a\<rparr>) = kept s s'" "kept s (s'\<lparr>ss_force_full := a\<rparr>) = kept s s'"
  "kept s (s'\<lparr>ss_conn := c\<rparr>) = kept s s'" "kept s (s'\<lparr>ss_universe := u\<rparr>) = kept s s'"
  "kept s (s'\<lparr>ss_last_l2 := x1\<rparr>) = kept s s'" "kept s (s'\<lparr>ss_last_l2_diff := x2\<rparr>) = kept s s'"
  "kept s (s'\<lparr>ss_last_bbo := x3\<rparr>) = kept s s'" "kept s (s'\<lparr>ss_user_addrs := x4\<rparr>) = kept s s'"
  by (simp_all add: kept_def)

text \<open>Every cached key belongs to a live subscription.\<close>

definition caches_ok :: "'c session \<Rightarrow> bool" where
  "caches_ok s \<longleftrightarrow>
     (\<forall>k. hm_contains (ss_last_l2 s) k \<longrightarrow>
        (\<exists>c nsf nl man. SL2Book c nsf nl man \<in> set (subscriptions (ss_manager s)) \<and> k = l2_cache_key c nsf man nl))
     \<and> (\<forall>k. hm_contains (ss_last_l2_diff s) k \<longrightarrow>
        (\<exists>c nsf nl man. SL2Diff c nsf nl man \<in> set (subscriptions (ss_manager s)) \<and> k = l2_cache_key c nsf man nl))
     \<and> (\<forall>k. hm_contains (ss_last_bbo s) k \<longrightarrow> SBbo k \<in> set (subscriptions (ss_manager s)))"

lemma caches_ok_updates [simp]:
  "caches_ok (s\<lparr>ss_alive := a\<rparr>) = caches_ok s" "caches_ok (s\<lparr>ss_force_full := a\<rparr>) = caches_ok s"
  "caches_ok (s\<lparr>ss_conn := c\<rparr>) = caches_ok s" "caches_ok (s\<lparr>ss_universe := u\<rparr>) = caches_ok s"
  "caches_ok (s\<lparr>ss_user_addrs := x4\<rparr>) = caches_ok s"
  by (simp_all add: caches_ok_def)

lemma hm_contains_insert: "hm_contains (hm_insert k v m) k' \<longleftrightarrow> k' = k \<or> hm_contains m k'"
  by (simp add: update_conv')

lemma caches_ok_insert:
  "caches_ok s \<Longrightarrow> SL2Book c nsf nl man \<in> set (subscriptions (ss_manager s)) \<Longrightarrow>
     caches_ok (s\<lparr>ss_last_l2 := hm_insert (l2_cache_key c nsf man nl) e (ss_last_l2 s)\<rparr>)"
  "caches_ok s \<Longrightarrow> SL2Diff c nsf nl man \<in> set (subscriptions (ss_manager s)) \<Longrightarrow>
     caches_ok (s\<lparr>ss_last_l2_diff := hm_insert (l2_cache_key c nsf man nl) h (ss_last_l2_diff s)\<rparr>)"
  "caches_ok s \<Longrightarrow> SBbo coin \<in> set (subscriptions (ss_manager s)) \<Longrightarrow>
     caches_ok (s\<lparr>ss_last_bbo := hm_insert coin b (ss_last_bbo s)\<rparr>)"
  unfolding caches_ok_def by (simp_all add: hm_contains_insert del: not_None_eq) blast+

text \<open>\<open>serves s s'\<close>: what sending may do to a session.\<close>

definition serves :: "'c session \<Rightarrow> 'c session \<Rightarrow> bool" where
  "serves s s' \<longleftrightarrow> kept s s' \<and> (caches_ok s \<longrightarrow> caches_ok s')"

lemma serves_refl [simp]: "serves s s"
  by (simp add: serves_def)

lemma serves_trans: "serves s s' \<Longrightarrow> serves s' s'' \<Longrightarrow> serves s s''"
  by (auto simp: serves_def intro: kept_trans)

lemma serves_updates [simp]:
  "serves s (s'\<lparr>ss_alive := a\<rparr>) = serves s s'" "serves s (s'\<lparr>ss_force_full := a\<rparr>) = serves s s'"
  "serves s (s'\<lparr>ss_conn := c\<rparr>) = serves s s'" "serves s (s'\<lparr>ss_universe := u\<rparr>) = serves s s'"
  "serves s (s'\<lparr>ss_user_addrs := x\<rparr>) = serves s s'"
  by (simp_all add: serves_def)

lemma serves_put [simp]: "serves s (snd (put_frame send f s'')) = serves s s''" "serves s (snd (put_message lib send r s'')) = serves s s''"
  by (simp_all add: put_frame_def put_message_def split_beta Let_def)

lemma serves_put_D:
  "put_frame send f s'' = (ok, s') \<Longrightarrow> serves s s' = serves s s''" "put_message lib send r s'' = (ok, s') \<Longrightarrow> serves s s' = serves s s''"
  using serves_put(1) [of s send f s''] serves_put(2) [of s lib send r s''] by simp_all

lemma serves_insert:
  "SL2Book c nsf nl man \<in> set (subscriptions (ss_manager s)) \<Longrightarrow>
     serves s (s\<lparr>ss_last_l2 := hm_insert (l2_cache_key c nsf man nl) e (ss_last_l2 s)\<rparr>)"
  "SL2Diff c nsf nl man \<in> set (subscriptions (ss_manager s)) \<Longrightarrow>
     serves s (s\<lparr>ss_last_l2_diff := hm_insert (l2_cache_key c nsf man nl) h (ss_last_l2_diff s)\<rparr>)"
  "SBbo coin \<in> set (subscriptions (ss_manager s)) \<Longrightarrow>
     serves s (s\<lparr>ss_last_bbo := hm_insert coin b (ss_last_bbo s)\<rparr>)"
  using caches_ok_insert by (auto simp: serves_def)

lemma for_subs_serves:
  assumes "\<And>sub s m. sub \<in> set (subscriptions (ss_manager s)) \<Longrightarrow> serves s (fst (snd (f sub (s, m))))"
    and "set subs \<subseteq> set (subscriptions (ss_manager s))"
  shows "serves s (fst (for_subs f subs (s, m)))"
  using assms(2)
proof (induction subs arbitrary: s m)
  case (Cons sub subs)
  show ?case
  proof (cases "ss_alive s")
    case True
    obtain ok s1 m1 where f: "f sub (s, m) = (ok, s1, m1)" by (metis prod.collapse)
    let ?s1 = "s1\<lparr>ss_alive := ss_alive s1 \<and> ok\<rparr>"
    have one: "serves s ?s1" using assms(1) [of sub s m] Cons.prems f by simp
    then have "set subs \<subseteq> set (subscriptions (ss_manager ?s1))" using Cons.prems by (simp add: serves_def kept_def)
    from serves_trans [OF one Cons.IH [OF this]] show ?thesis using f True by simp
  qed simp
qed simp

section \<open>Every way to send\<close>

lemma serves_l2_variant:
  assumes "SL2Book coin nsf nl man \<in> set (subscriptions (ss_manager s))"
  shows "serves s (fst (snd (send_l2_variant lib send now store coin nsf nl man v (s, m))))"
  by (simp add: send_l2_variant_def Let_def split_beta serves_insert(1) [OF assms])

lemma serves_snapshot:
  "sub \<in> set (subscriptions (ss_manager s)) \<Longrightarrow>
     serves s (fst (snd (send_ws_data_from_snapshot lib send now store sub (s, m))))"
  by (auto simp: send_ws_data_from_snapshot_def serves_l2_variant split: subscription.split option.split)

lemma serves_l2_diff:
  "sub \<in> set (subscriptions (ss_manager s)) \<Longrightarrow>
     serves s (fst (snd (send_ws_data_from_l2_diff lib send sub (s, m))))"
  by (auto simp: send_ws_data_from_l2_diff_def Let_def split_beta serves_insert(2) split: subscription.split option.split sum.split)

lemma serves_bbo:
  "SBbo coin \<in> set (subscriptions (ss_manager s)) \<Longrightarrow>
     serves s (fst (snd (send_ws_data_from_bbo lib send now store time coin (s, b))))"
  by (auto simp: send_ws_data_from_bbo_def Let_def split_beta serves_insert(3) split: option.split)

lemma serves_others:
  "serves s (fst (snd (send_trades lib send coin (s, t))))"
  "serves s (fst (snd (send_order_diffs lib send time height sub (s, d))))"
  "serves s (snd (send_ws_order_updates lib send user time height h s))"
  "serves s (fst (snd (send_order_statuses lib send time height sub (s, h))))"
proof -
  show *: "serves s (snd (send_ws_order_updates lib send user time height h s))" for user
    by (auto simp: send_ws_order_updates_def Let_def split_beta split: option.split)
  show "serves s (fst (snd (send_order_statuses lib send time height sub (s, h))))"
    using * by (auto simp: send_order_statuses_def Let_def split_beta split: option.split subscription.split)
qed (auto simp: send_trades_def send_order_diffs_def Let_def split_beta split: option.split subscription.split)

lemma serves_on_snapshot: "serves s (fst (on_snapshot lib send now store (s, m)))"
proof -
  let ?s1 = "case sm_universe m of None \<Rightarrow> s | Some u \<Rightarrow> s\<lparr>ss_universe := u\<rparr>"
  let ?f = "\<lambda>sub st'. case sub of SBbo coin \<Rightarrow> (True, st')
             | SL2Diff _ _ _ _ \<Rightarrow> send_ws_data_from_l2_diff lib send sub st'
             | _ \<Rightarrow> send_ws_data_from_snapshot lib send now store sub st'"
  have "serves s' (fst (snd (?f sub (s', m'))))" if "sub \<in> set (subscriptions (ss_manager s'))" for sub s' m'
    using serves_snapshot [OF that] serves_l2_diff [OF that] by (cases sub) simp_all
  then have "serves ?s1 (fst (for_subs ?f (subscriptions (ss_manager ?s1)) (?s1, m)))"
    by (rule for_subs_serves) auto
  moreover have "serves s ?s1" by (simp split: option.split)
  ultimately have "serves s (fst (for_subs ?f (subscriptions (ss_manager ?s1)) (?s1, m)))"
    by (rule serves_trans [rotated])
  then show ?thesis by (cases "sm_universe m") (simp_all add: on_snapshot_def Let_def split_beta)
qed

lemma serves_on_message: "serves s (fst (on_message lib send now l2_hb bbo_hb msg s))"
proof (cases msg)
  case (MBboUpdate bbos time)
  show ?thesis unfolding MBboUpdate
    by (auto simp: on_message_def map_prod_def split_beta split: subscription.split intro!: for_subs_serves serves_bbo)
next
  case (MFills trades)
  show ?thesis unfolding MFills
    by (auto simp: on_message_def map_prod_def split_beta split: subscription.split intro!: for_subs_serves serves_others)
qed (auto simp: on_message_def map_prod_def split_beta serves_on_snapshot serves_others intro!: for_subs_serves)

lemma serves_heartbeat: "serves s (on_heartbeat lib send now now_ms l2_hb bbo_hb s)"
proof -
  have l2: "serves s (snd (beat_l2 lib send now now_ms l2_hb (l2_cache_key coin nsf man nl) s))"
    if "SL2Book coin nsf nl man \<in> set (subscriptions (ss_manager s))" for coin nsf nl man and s :: "'a session"
    by (auto simp: beat_l2_def Let_def serves_insert(1) [OF that] split: option.split)
  have bb: "serves s (snd (beat_bbo lib send now now_ms bbo_hb coin s))"
    if "SBbo coin \<in> set (subscriptions (ss_manager s))" for coin and s :: "'a session"
    by (auto simp: beat_bbo_def Let_def serves_insert(3) [OF that] split: option.split)
  show ?thesis
    unfolding on_heartbeat_def
    by (rule for_subs_serves) (auto simp: split_beta Let_def l2 bb split: subscription.split)
qed


section \<open>Counting\<close>

definition pcount :: "active_l2_params \<Rightarrow> l2_snapshot_params \<Rightarrow> nat" where
  "pcount m p = or_default 0 (hm_get m p)"

definition registry_ok :: "active_l2_params \<Rightarrow> bool" where
  "registry_ok m \<longleftrightarrow> hm_ok m \<and> (\<forall>p. hm_get m p \<noteq> Some 0)"

lemma pcount_acquire: "pcount (params_acquire p m) q = pcount m q + (if q = p then 1 else 0)"
  by (simp add: pcount_def params_acquire_def update_conv' or_default_def split: option.split)

lemma registry_ok_acquire: "registry_ok m \<Longrightarrow> registry_ok (params_acquire p m)"
  by (simp add: registry_ok_def params_acquire_def update_conv' distinct_update split: option.split)

lemma pcount_drop: "pcount (params_guard_drop p m) q = pcount m q - (if q = p then 1 else 0)"
  by (simp add: pcount_def params_guard_drop_def update_conv' delete_conv' or_default_def split: option.split)

lemma registry_ok_drop: "registry_ok m \<Longrightarrow> registry_ok (params_guard_drop p m)"
  by (auto simp: registry_ok_def params_guard_drop_def update_conv' delete_conv' distinct_update distinct_delete split: option.split)

lemma counter_acquire_all: "counter k (fold subs_acquire ks a) = counter k a + count_list ks k"
  by (induction ks arbitrary: a) (simp_all add: subs_acquire_def)

lemma counter_drop_all: "counter k (fold subs_guard_drop ks a) = counter k a - count_list ks k"
  by (induction ks arbitrary: a) (simp_all add: subs_guard_drop_def)

definition wanted_by :: "subscription list \<Rightarrow> broadcast_kind \<Rightarrow> nat" where
  "wanted_by xs k = sum_list (map (\<lambda>x. count_list (sub_kinds x) k) xs)"

lemma wanted_by_simps [simp]: "wanted_by [] k = 0" "wanted_by (x # xs) k = count_list (sub_kinds x) k + wanted_by xs k"
  by (simp_all add: wanted_by_def)

lemma wanted_by_remove:
  "distinct xs \<Longrightarrow> x \<in> set xs \<Longrightarrow> wanted_by xs k = count_list (sub_kinds x) k + wanted_by (removeAll x xs) k"
  by (induction xs) auto

section \<open>The invariant\<close>

definition families_ok :: "registries \<Rightarrow> subscription list \<Rightarrow> 'c session \<times> registries \<Rightarrow> bool" where
  "families_ok base xs st \<longleftrightarrow> hm_ok (ss_sub_guards (fst st))
     \<and> (\<forall>x. hm_get (ss_sub_guards (fst st)) x = (if x \<in> set xs \<and> sub_kinds x \<noteq> [] then Some (sub_kinds x) else None))
     \<and> (\<forall>k. counter k (rg_subs (snd st)) = counter k (rg_subs base) + wanted_by xs k)"

definition shapes_ok :: "registries \<Rightarrow> subscription list \<Rightarrow> 'c session \<times> registries \<Rightarrow> bool" where
  "shapes_ok base xs st \<longleftrightarrow> hm_ok (ss_l2_guards (fst st))
     \<and> (\<forall>p. hm_contains (ss_l2_guards (fst st)) p \<longleftrightarrow> (\<exists>x \<in> set xs. l2_shape_of x = Some p))
     \<and> registry_ok (rg_params (snd st))
     \<and> (\<forall>p. pcount (rg_params (snd st)) p
            = pcount (rg_params base) p + (if hm_contains (ss_l2_guards (fst st)) p then 1 else 0))"

abbreviation subs_of :: "'c session \<times> registries \<Rightarrow> subscription list" where
  "subs_of st \<equiv> subscriptions (ss_manager (fst st))"

definition session_ok :: "registries \<Rightarrow> 'c session \<times> registries \<Rightarrow> bool" where
  "session_ok base st \<longleftrightarrow> manager_ok (rg_gauge base) (ss_manager (fst st), rg_gauge (snd st))
     \<and> caches_ok (fst st) \<and> families_ok base (subs_of st) st \<and> shapes_ok base (subs_of st) st"

lemma serves_session_ok: "serves s s' \<Longrightarrow> session_ok base (s, rg) \<Longrightarrow> session_ok base (s', rg)"
  by (simp add: serves_def kept_def session_ok_def families_ok_def shapes_ok_def)

lemma distinct_subs: "session_ok base st \<Longrightarrow> distinct (subs_of st)"
  by (simp add: session_ok_def manager_ok_def)

lemma caches_ok_mono:
  assumes "caches_ok s" "set (subscriptions (ss_manager s)) \<subseteq> set (subscriptions (ss_manager s'))"
    and "ss_last_l2 s' = ss_last_l2 s" "ss_last_l2_diff s' = ss_last_l2_diff s" "ss_last_bbo s' = ss_last_bbo s"
  shows "caches_ok s'"
  using assms unfolding caches_ok_def assms(3-5) by blast

subsection \<open>A new subscription\<close>

lemma families_acquire:
  assumes "families_ok base xs st" "x \<notin> set xs"
  shows "families_ok base (x # xs) (acquire_guards x st)"
proof -
  have g: "ss_sub_guards (fst (acquire_guards x st)) =
      (if sub_kinds x \<noteq> [] then hm_insert x (sub_kinds x) (ss_sub_guards (fst st)) else ss_sub_guards (fst st))"
    by (cases st) (auto simp: acquire_guards_def acquire_for_def Let_def split: option.split)
  have c: "rg_subs (snd (acquire_guards x st)) = fold subs_acquire (sub_kinds x) (rg_subs (snd st))"
    by (cases st) (auto simp: acquire_guards_def acquire_for_def Let_def split: option.split)
  show ?thesis
    using assms unfolding families_ok_def g c
    by (auto simp: distinct_update update_conv' counter_acquire_all)
qed

lemma shapes_acquire:
  assumes "shapes_ok base xs st"
  shows "shapes_ok base (x # xs) (acquire_guards x st)"
proof -
  obtain s rg where st: "st = (s, rg)" by fastforce
  have g: "ss_l2_guards (fst (acquire_guards x st)) = (case l2_shape_of x of None \<Rightarrow> ss_l2_guards s
      | Some p \<Rightarrow> if hm_contains (ss_l2_guards s) p then ss_l2_guards s else hm_insert p () (ss_l2_guards s))"
    by (auto simp: st acquire_guards_def acquire_for_def Let_def split: option.split)
  have c: "rg_params (snd (acquire_guards x st)) = (case l2_shape_of x of None \<Rightarrow> rg_params rg
      | Some p \<Rightarrow> if hm_contains (ss_l2_guards s) p then rg_params rg else params_acquire p (rg_params rg))"
    by (auto simp: st acquire_guards_def acquire_for_def Let_def split: option.split)
  show ?thesis
  proof (cases "l2_shape_of x")
    case None
    then show ?thesis using assms unfolding shapes_ok_def g c by (simp add: st)
  next
    case (Some p)
    have "(\<exists>y \<in> set (x # xs). l2_shape_of y = Some q) \<longleftrightarrow> q = p \<or> (\<exists>y \<in> set xs. l2_shape_of y = Some q)" for q
      using Some by auto
    then show ?thesis
      using assms unfolding shapes_ok_def g c Some
      by (auto simp: st distinct_update update_conv' pcount_acquire registry_ok_acquire)
  qed
qed

lemma acquire_guards_keeps:
  "ss_manager (fst (acquire_guards x st)) = ss_manager (fst st)" "caches_ok (fst (acquire_guards x st)) = caches_ok (fst st)"
  "rg_gauge (snd (acquire_guards x st)) = rg_gauge (snd st)"
  by (cases st; auto simp: acquire_guards_def acquire_for_def Let_def caches_ok_def split: option.split)+

lemma manager_op_simps:
  "manager_op f st = (fst (f (ss_manager (fst st), rg_gauge (snd st))),
     (fst st)\<lparr>ss_manager := fst (snd (f (ss_manager (fst st), rg_gauge (snd st))))\<rparr>,
     (snd st)\<lparr>rg_gauge := snd (snd (f (ss_manager (fst st), rg_gauge (snd st))))\<rparr>)"
  by (simp add: manager_op_def split_beta Let_def)

lemma families_ok_cong:
  "ss_sub_guards (fst st') = ss_sub_guards (fst st) \<Longrightarrow> rg_subs (snd st') = rg_subs (snd st) \<Longrightarrow>
     families_ok base xs st' = families_ok base xs st"
  by (simp add: families_ok_def)

lemma shapes_ok_cong:
  "ss_l2_guards (fst st') = ss_l2_guards (fst st) \<Longrightarrow> rg_params (snd st') = rg_params (snd st) \<Longrightarrow>
     shapes_ok base xs st' = shapes_ok base xs st"
  by (simp add: shapes_ok_def)

lemma subscribe_inserts:
  assumes "manager_op (subscribe x) st = (Inr True, st1)"
  shows "x \<notin> set (subs_of st) \<and> subs_of st1 = x # subs_of st"
  using assms by (auto simp: manager_op_simps subscribe_def Let_def List.insert_def split: if_splits)

lemma subscribe_rejects:
  assumes "manager_op (subscribe x) st = (r, st1)" "r \<noteq> Inr True"
  shows "st1 = st"
  using assms
  by (cases st) (auto simp: manager_op_simps subscribe_def Let_def List.insert_def split: if_splits)

lemma manager_op_keeps:
  assumes "manager_op f st = (r, st1)"
  shows "f (ss_manager (fst st), rg_gauge (snd st)) = (r, ss_manager (fst st1), rg_gauge (snd st1))"
    and "ss_sub_guards (fst st1) = ss_sub_guards (fst st)" "ss_l2_guards (fst st1) = ss_l2_guards (fst st)"
    "rg_subs (snd st1) = rg_subs (snd st)" "rg_params (snd st1) = rg_params (snd st)"
    "ss_last_l2 (fst st1) = ss_last_l2 (fst st)" "ss_last_l2_diff (fst st1) = ss_last_l2_diff (fst st)"
    "ss_last_bbo (fst st1) = ss_last_bbo (fst st)"
  using assms unfolding manager_op_simps by auto

lemma subscribe_session_ok:
  assumes ok: "session_ok base st" and m: "manager_op (subscribe x) st = (Inr True, st1)"
  shows "session_ok base (acquire_guards x st1)"
proof -
  have x: "x \<notin> set (subs_of st)" and s1: "subs_of st1 = x # subs_of st"
    using subscribe_inserts [OF m] by simp_all
  note st1 = manager_op_keeps [OF m]
  have parts: "manager_ok (rg_gauge base) (ss_manager (fst st), rg_gauge (snd st))" "caches_ok (fst st)"
    "families_ok base (subs_of st) st" "shapes_ok base (subs_of st) st"
    using ok by (simp_all add: session_ok_def)
  have "manager_ok (rg_gauge base) (ss_manager (fst st1), rg_gauge (snd st1))"
    using subscribe_ok [OF parts(1), of x] by (simp add: st1(1))
  moreover have "caches_ok (fst st1)"
    by (rule caches_ok_mono [OF parts(2)]) (auto simp: s1 st1(6-8))
  moreover have "families_ok base (x # subs_of st) (acquire_guards x st1)"
    by (rule families_acquire [OF _ x]) (simp add: families_ok_cong [OF st1(2,4)] parts(3))
  moreover have "shapes_ok base (x # subs_of st) (acquire_guards x st1)"
    by (rule shapes_acquire) (simp add: shapes_ok_cong [OF st1(3,5)] parts(4))
  ultimately show ?thesis
    by (simp add: session_ok_def acquire_guards_keeps s1)
qed

subsection \<open>A subscription that goes\<close>

lemma families_release:
  assumes "families_ok base xs st" "distinct xs" "x \<in> set xs"
  shows "families_ok base (removeAll x xs) (release_sub_guards x st)"
proof -
  obtain s rg where st: "st = (s, rg)" by fastforce
  have get: "hm_get (ss_sub_guards s) x = (if sub_kinds x \<noteq> [] then Some (sub_kinds x) else None)"
    using assms by (simp add: families_ok_def st)
  have g: "hm_ok (ss_sub_guards (fst (release_sub_guards x st)))"
    "hm_get (ss_sub_guards (fst (release_sub_guards x st))) = (hm_get (ss_sub_guards s))(x := None)"
    using assms get by (auto simp: st families_ok_def release_sub_guards_def delete_conv' distinct_delete)
  have c: "rg_subs (snd (release_sub_guards x st)) = fold subs_guard_drop (sub_kinds x) (rg_subs rg)"
    using get by (auto simp: st release_sub_guards_def)
  show ?thesis
    using assms g wanted_by_remove [OF assms(2,3)] unfolding families_ok_def c g(2)
    by (auto simp: st counter_drop_all)
qed

lemma shapes_release:
  assumes "shapes_ok base xs st" "\<forall>y \<in> set ys. l2_shape_of y \<noteq> Some p" "\<forall>q. q \<noteq> p \<longrightarrow> (\<exists>y \<in> set ys. l2_shape_of y = Some q) = (\<exists>y \<in> set xs. l2_shape_of y = Some q)"
  shows "shapes_ok base ys (release_l2_guard p st)"
proof -
  obtain s rg where st: "st = (s, rg)" by fastforce
  have g1: "hm_ok (ss_l2_guards (fst (release_l2_guard p st)))"
    using assms(1) by (simp add: st shapes_ok_def release_l2_guard_def distinct_delete)
  have g2: "hm_get (ss_l2_guards (fst (release_l2_guard p st))) = (hm_get (ss_l2_guards s))(p := None)"
  proof (cases "hm_get (ss_l2_guards s) p")
    case None
    then show ?thesis by (simp add: st release_l2_guard_def fun_upd_idem)
  qed (simp add: st release_l2_guard_def delete_conv' fun_eq_iff)
  have c: "rg_params (snd (release_l2_guard p st)) = (if hm_contains (ss_l2_guards s) p then params_guard_drop p (rg_params rg) else rg_params rg)"
    by (auto simp: st release_l2_guard_def)
  show ?thesis
    using assms g1 unfolding shapes_ok_def c g2
    by (auto simp: st registry_ok_drop pcount_drop)
qed

lemma release_keeps [simp]:
  "ss_manager (fst (release_sub_guards x st)) = ss_manager (fst st)" "caches_ok (fst (release_sub_guards x st)) = caches_ok (fst st)"
  "rg_gauge (snd (release_sub_guards x st)) = rg_gauge (snd st)" "shapes_ok base xs (release_sub_guards x st) = shapes_ok base xs st"
  "ss_manager (fst (release_l2_guard p st)) = ss_manager (fst st)" "caches_ok (fst (release_l2_guard p st)) = caches_ok (fst st)"
  "rg_gauge (snd (release_l2_guard p st)) = rg_gauge (snd st)" "families_ok base xs (release_l2_guard p st) = families_ok base xs st"
  by (cases st; auto simp: release_sub_guards_def release_l2_guard_def caches_ok_def shapes_ok_def families_ok_def split: option.split)+


lemma unsubscribe_removes:
  assumes "manager_op (unsubscribe x) st = (True, st1)"
  shows "x \<in> set (subs_of st) \<and> subs_of st1 = removeAll x (subs_of st)"
  using assms by (auto simp: manager_op_simps unsubscribe_def Let_def)

lemma unsubscribe_nothing:
  assumes "manager_op (unsubscribe x) st = (False, st1)"
  shows "st1 = st"
  using assms by (cases st) (auto simp: manager_op_simps unsubscribe_def Let_def)

text \<open>What cleaning up does to the caches, and to the guards.\<close>

lemma cleanup_keeps [simp]:
  "ss_manager (fst (cleanup_removed x st)) = ss_manager (fst st)" "rg_gauge (snd (cleanup_removed x st)) = rg_gauge (snd st)"
  by (cases st; auto simp: cleanup_removed_def Let_def split_beta split: subscription.split)+

lemma caches_ok_removed:
  assumes "caches_ok s" "subscriptions (ss_manager s') = removeAll x (subscriptions (ss_manager s))"
    and "\<And>k. hm_get (ss_last_l2 s') k = (if (\<exists>c nsf nl man. x = SL2Book c nsf nl man \<and> k = l2_cache_key c nsf man nl) then None else hm_get (ss_last_l2 s) k)"
    and "\<And>k. hm_get (ss_last_l2_diff s') k = (if (\<exists>c nsf nl man. x = SL2Diff c nsf nl man \<and> k = l2_cache_key c nsf man nl) then None else hm_get (ss_last_l2_diff s) k)"
    and "\<And>k. hm_get (ss_last_bbo s') k = (if x = SBbo k then None else hm_get (ss_last_bbo s) k)"
  shows "caches_ok s'"
proof -
  have ne: "y \<in> set (subscriptions (ss_manager s'))" if "y \<in> set (subscriptions (ss_manager s))" "y \<noteq> x" for y
    using that assms(2) by simp
  show ?thesis
    unfolding caches_ok_def
  proof (intro conjI allI impI)
    fix k assume k: "hm_contains (ss_last_l2 s') k"
    then obtain c nsf nl man where h: "SL2Book c nsf nl man \<in> set (subscriptions (ss_manager s))" "k = l2_cache_key c nsf man nl"
      using assms(1) unfolding caches_ok_def assms(3) by (auto split: if_splits)
    moreover have "SL2Book c nsf nl man \<noteq> x" using k h(2) unfolding assms(3) by (auto split: if_splits)
    ultimately show "\<exists>c nsf nl man. SL2Book c nsf nl man \<in> set (subscriptions (ss_manager s')) \<and> k = l2_cache_key c nsf man nl"
      using ne by blast
  next
    fix k assume k: "hm_contains (ss_last_l2_diff s') k"
    then obtain c nsf nl man where h: "SL2Diff c nsf nl man \<in> set (subscriptions (ss_manager s))" "k = l2_cache_key c nsf man nl"
      using assms(1) unfolding caches_ok_def assms(4) by (auto split: if_splits)
    moreover have "SL2Diff c nsf nl man \<noteq> x" using k h(2) unfolding assms(4) by (auto split: if_splits)
    ultimately show "\<exists>c nsf nl man. SL2Diff c nsf nl man \<in> set (subscriptions (ss_manager s')) \<and> k = l2_cache_key c nsf man nl"
      using ne by blast
  next
    fix k assume k: "hm_contains (ss_last_bbo s') k"
    then show "SBbo k \<in> set (subscriptions (ss_manager s'))"
      using assms(1) ne unfolding caches_ok_def assms(5) by (auto split: if_splits)
  qed
qed

lemma release_caches [simp]:
  "ss_last_l2 (fst (release_sub_guards x st)) = ss_last_l2 (fst st)" "ss_last_l2_diff (fst (release_sub_guards x st)) = ss_last_l2_diff (fst st)"
  "ss_last_bbo (fst (release_sub_guards x st)) = ss_last_bbo (fst st)"
  "ss_last_l2 (fst (release_l2_guard p st)) = ss_last_l2 (fst st)" "ss_last_l2_diff (fst (release_l2_guard p st)) = ss_last_l2_diff (fst st)"
  "ss_last_bbo (fst (release_l2_guard p st)) = ss_last_bbo (fst st)"
  by (cases st; auto simp: release_sub_guards_def release_l2_guard_def split: option.split)+

lemma cleanup_caches:
  "hm_get (ss_last_l2 (fst (cleanup_removed x st))) k =
     (if (\<exists>c nsf nl man. x = SL2Book c nsf nl man \<and> k = l2_cache_key c nsf man nl) then None else hm_get (ss_last_l2 (fst st)) k)"
  "hm_get (ss_last_l2_diff (fst (cleanup_removed x st))) k =
     (if (\<exists>c nsf nl man. x = SL2Diff c nsf nl man \<and> k = l2_cache_key c nsf man nl) then None else hm_get (ss_last_l2_diff (fst st)) k)"
  "hm_get (ss_last_bbo (fst (cleanup_removed x st))) k = (if x = SBbo k then None else hm_get (ss_last_bbo (fst st)) k)"
  by (cases x; simp add: cleanup_removed_def Let_def split_beta delete_conv')+

lemma cleanup_families [simp]:
  "families_ok base xs (cleanup_removed x st) = families_ok base xs (release_sub_guards x st)"
proof -
  have upd: "families_ok base xs (s\<lparr>ss_last_l2 := a\<rparr>, rg) = families_ok base xs (s, rg)"
    "families_ok base xs (s\<lparr>ss_last_l2_diff := b\<rparr>, rg) = families_ok base xs (s, rg)"
    "families_ok base xs (s\<lparr>ss_last_bbo := c\<rparr>, rg) = families_ok base xs (s, rg)" for s :: "'a session" and rg a b c
    by (simp_all add: families_ok_def)
  show ?thesis by (cases x; simp add: cleanup_removed_def Let_def split_beta upd)
qed

lemma cleanup_by_shape:
  assumes "l2_shape_of x = Some p"
  shows "\<exists>st'. (\<forall>ys. shapes_ok base ys st' = shapes_ok base ys st) \<and>
    cleanup_removed x st = (if list_ex (\<lambda>y. l2_shape_of y = Some p) (subs_of st) then st' else release_l2_guard p st')"
proof -
  obtain s rg where r: "release_sub_guards x st = (s, rg)" by fastforce
  have ok: "shapes_ok base ys (s, rg) = shapes_ok base ys st" for ys
    using release_keeps(4) [of base ys x st] by (simp add: r)
  have m: "ss_manager s = ss_manager (fst st)" using release_keeps(1) [of x st] by (simp add: r)
  show ?thesis
  proof (cases x)
    case (SL2Book c nsf nl man)
    let ?s = "s\<lparr>ss_last_l2 := hm_remove (l2_cache_key c nsf man nl) (ss_last_l2 s)\<rparr>"
    have "shapes_ok base ys (?s, rg) = shapes_ok base ys st" for ys unfolding ok [symmetric] by (simp add: shapes_ok_def)
    then show ?thesis using assms m r by (intro exI [of _ "(?s, rg)"]) (simp add: SL2Book cleanup_removed_def Let_def)
  next
    case (SL2Diff c nsf nl man)
    let ?s = "s\<lparr>ss_last_l2_diff := hm_remove (l2_cache_key c nsf man nl) (ss_last_l2_diff s)\<rparr>"
    have "shapes_ok base ys (?s, rg) = shapes_ok base ys st" for ys unfolding ok [symmetric] by (simp add: shapes_ok_def)
    then show ?thesis using assms m r by (intro exI [of _ "(?s, rg)"]) (simp add: SL2Diff cleanup_removed_def Let_def)
  qed (use assms in simp_all)
qed

lemma cleanup_no_shape:
  assumes "l2_shape_of x = None"
  shows "shapes_ok base ys (cleanup_removed x st) = shapes_ok base ys st"
proof -
  obtain s rg where r: "release_sub_guards x st = (s, rg)" by fastforce
  have ok: "shapes_ok base ys (s, rg) = shapes_ok base ys st"
    using release_keeps(4) [of base ys x st] by (simp add: r)
  show ?thesis
    using assms r unfolding ok [symmetric]
    by (cases x) (simp_all add: cleanup_removed_def shapes_ok_def)
qed

lemma shapes_same:
  assumes "shapes_ok base xs st" "\<And>p. (\<exists>y \<in> set ys. l2_shape_of y = Some p) = (\<exists>y \<in> set xs. l2_shape_of y = Some p)"
  shows "shapes_ok base ys st"
  using assms(1) unfolding shapes_ok_def assms(2) .

lemma cleanup_shapes:
  assumes "shapes_ok base xs st" "x \<in> set xs" "subs_of st = removeAll x xs"
  shows "shapes_ok base (removeAll x xs) (cleanup_removed x st)"
proof (cases "l2_shape_of x")
  case None
  then show ?thesis
    unfolding cleanup_no_shape [OF None] by (intro shapes_same [OF assms(1)]) auto
next
  case (Some p)
  obtain st' where st': "shapes_ok base xs st'"
    "cleanup_removed x st = (if list_ex (\<lambda>y. l2_shape_of y = Some p) (removeAll x xs) then st' else release_l2_guard p st')"
    using cleanup_by_shape [OF Some, of base st] assms(1,3) by metis
  show ?thesis
  proof (cases "list_ex (\<lambda>y. l2_shape_of y = Some p) (removeAll x xs)")
    case True
    then have "(\<exists>y \<in> set (removeAll x xs). l2_shape_of y = Some q) = (\<exists>y \<in> set xs. l2_shape_of y = Some q)" for q
      using Some by (cases "q = p") (auto simp: list_ex_iff)
    then show ?thesis using True st' by (simp add: shapes_same [OF st'(1)])
  next
    case False
    then show ?thesis unfolding st'(2) if_not_P [OF False]
      using Some by (intro shapes_release [OF st'(1)]) (auto simp: list_ex_iff)
  qed
qed

lemma unsubscribe_session_ok:
  assumes ok: "session_ok base st" and m: "manager_op (unsubscribe x) st = (True, st1)"
  shows "session_ok base (cleanup_removed x st1)"
proof -
  have x: "x \<in> set (subs_of st)" and s1: "subs_of st1 = removeAll x (subs_of st)"
    using unsubscribe_removes [OF m] by simp_all
  note st1 = manager_op_keeps [OF m] and d = distinct_subs [OF ok]
  have parts: "manager_ok (rg_gauge base) (ss_manager (fst st), rg_gauge (snd st))" "caches_ok (fst st)"
    "families_ok base (subs_of st) st1" "shapes_ok base (subs_of st) st1"
    using ok by (simp_all add: session_ok_def families_ok_cong [OF st1(2,4)] shapes_ok_cong [OF st1(3,5)])
  have "manager_ok (rg_gauge base) (ss_manager (fst st1), rg_gauge (snd st1))"
    using unsubscribe_ok [OF parts(1), of x] by (simp add: st1(1))
  moreover have "caches_ok (fst (cleanup_removed x st1))"
    by (rule caches_ok_removed [OF parts(2), of _ x]) (simp_all only: cleanup_keeps s1 cleanup_caches st1(6-8))
  moreover have "families_ok base (removeAll x (subs_of st)) (cleanup_removed x st1)"
    using families_release [OF parts(3) d x] by simp
  moreover have "shapes_ok base (removeAll x (subs_of st)) (cleanup_removed x st1)"
    by (rule cleanup_shapes [OF parts(4) x s1])
  ultimately show ?thesis
    by (simp add: session_ok_def s1)
qed


section \<open>Requests\<close>

lemma kept_serves: "serves s s' \<Longrightarrow> kept s s'"
  by (simp add: serves_def)

lemma session_ok_put_message:
  "session_ok base (s, rg) \<Longrightarrow> session_ok base (snd (put_message lib send r s), rg)"
  "session_ok base (s, rg) \<Longrightarrow> session_ok base (snd (put_frame send f s), rg)"
  by (rule serves_session_ok [of s]; simp)+

lemma reply_error_ok: "session_ok base st \<Longrightarrow> session_ok base (snd (reply_error lib send msg st))"
  by (cases st) (simp add: reply_error_def Let_def split_beta session_ok_put_message)

lemma l4_start_failed:
  assumes "session_ok base st" "manager_op (unsubscribe x) st = (b, st1)" "x \<in> set (subs_of st)" "l2_shape_of x = None" "\<not> is_bbo x"
  shows "session_ok base (release_sub_guards x st1)"
proof -
  have "b" using assms(2,3) by (auto simp: manager_op_simps unsubscribe_def Let_def)
  then have "session_ok base (cleanup_removed x st1)"
    using unsubscribe_session_ok [OF assms(1)] assms(2) by simp
  moreover have "cleanup_removed x st1 = release_sub_guards x st1"
    using assms(4,5) by (cases x) (simp_all add: cleanup_removed_def is_bbo_def split_beta)
  ultimately show ?thesis by simp
qed

lemma start_stream_ok:
  assumes ok: "session_ok base st" and x: "x \<in> set (subs_of st)"
  shows "session_ok base (snd (start_stream lib send body x st))"
proof (cases "handle_immediate_snapshot x body")
  case (Inl err)
  then have "l2_shape_of x = None" "\<not> is_bbo x"
    by (cases x; simp add: handle_immediate_snapshot_def is_bbo_def)+
  then have "session_ok base (release_sub_guards x (snd (manager_op (unsubscribe x) st)))"
    using l4_start_failed [OF ok _ x] by (metis prod.collapse)
  then show ?thesis using Inl reply_error_ok by (simp add: start_stream_def Let_def split_beta)
next
  case (Inr r)
  obtain s rg where st: "st = (s, rg)" by fastforce
  show ?thesis
    using ok unfolding start_stream_def Inr st
    by (auto simp: Let_def split_beta session_ok_put_message split: option.split)
qed

lemma receive_ok:
  assumes "session_ok base st"
  shows "session_ok base (snd (receive_client_message lib send bbo_only body msg st))"
proof (cases msg)
  case (Subscribe x)
  obtain r st1 where m: "manager_op (subscribe x) st = (r, st1)"
    by (cases "manager_op (subscribe x) st") blast
  have acq: "session_ok base (snd (start_stream lib send body x (acquire_guards x st1)))" if "r = Inr True"
    using subscribe_session_ok [OF assms, of x st1] subscribe_inserts [of x st st1] m that
    by (intro start_stream_ok) (simp_all add: acquire_guards_keeps)
  have rej: "st1 = st" if "r \<noteq> Inr True" using subscribe_rejects [OF m that] .
  show ?thesis
    using assms acq rej
    by (cases r) (auto simp: Subscribe receive_client_message_def m reply_error_ok split: if_splits)
next
  case (Unsubscribe x)
  obtain r st1 where m: "manager_op (unsubscribe x) st = (r, st1)"
    by (cases "manager_op (unsubscribe x) st") blast
  obtain s rg where c: "cleanup_removed x st1 = (s, rg)" by fastforce
  have "session_ok base (s, rg)" if r using unsubscribe_session_ok [OF assms, of x st1] m c that by simp
  moreover have "st1 = st" if "\<not> r" using unsubscribe_nothing [of x st st1] m that by simp
  ultimately show ?thesis
    using assms c by (auto simp: Unsubscribe receive_client_message_def m Let_def split_beta reply_error_ok session_ok_put_message)
qed (use assms in \<open>simp add: receive_client_message_def\<close>)

lemma session_ok_alive [simp]:
  "session_ok base (s\<lparr>ss_alive := a\<rparr>, rg) = session_ok base (s, rg)" "session_ok base (s\<lparr>ss_force_full := a\<rparr>, rg) = session_ok base (s, rg)"
  "session_ok base (s\<lparr>ss_conn := c\<rparr>, rg) = session_ok base (s, rg)"
  by (simp_all add: session_ok_def families_ok_def shapes_ok_def)

lemma session_step_ok:
  assumes "session_ok base st"
  shows "session_ok base (snd (session_step lib send pong cfg now ev st))"
proof -
  obtain s rg where st: "st = (s, rg)" by fastforce
  have sv: "session_ok base (s', rg)" if "serves s s'" for s'
    using serves_session_ok [OF that] assms by (simp add: st)
  show ?thesis
  proof (cases ev)
    case (EvText raw parsed body)
    show ?thesis
    proof (cases parsed)
      case None
      then show ?thesis using assms by (simp add: EvText st session_step_def Let_def split_beta session_ok_put_message)
    next
      case (Some msg)
      then show ?thesis
        using assms receive_ok [OF assms, of lib send "sc_bbo_only cfg" body msg]
        by (cases msg) (simp_all add: EvText st session_step_def Let_def split_beta)
    qed
  qed (use assms in \<open>simp_all add: st session_step_def Let_def sv serves_on_message serves_heartbeat\<close>)
qed


lemma run_session_ok: "session_ok base st \<Longrightarrow> session_ok base (run_session lib send pong cfg evs st)"
proof (induction evs arbitrary: st)
  case (Cons e evs)
  obtain now ev where e: "e = (now, ev)" by fastforce
  obtain ended st1 where r: "session_step lib send pong cfg now ev st = (ended, st1)" by (metis surj_pair)
  have "session_ok base st1" using session_step_ok [OF Cons.prems, of lib send pong cfg now ev] by (simp add: r)
  then show ?case using Cons by (simp add: e r)
qed simp

lemma session_new_ok: "registry_ok (rg_params rg) \<Longrightarrow> session_ok rg (session_new conn u, rg)"
  by (simp add: session_ok_def session_new_def manager_init_ok caches_ok_def families_ok_def shapes_ok_def
      manager_ok_def manager_default_def)

section \<open>The end of the connection\<close>

lemma pcount_drop_all: "pcount (fold params_guard_drop ps m) q = pcount m q - count_list ps q"
  by (induction ps arbitrary: m) (simp_all add: pcount_drop)

lemma count_list_keys: "hm_ok m \<Longrightarrow> count_list (map fst m) k = (if hm_contains m k then 1 else 0)"
  by (induction m) (auto simp: count_list_0_iff)

lemma count_list_values:
  "hm_ok m \<Longrightarrow> count_list (concat (map snd m)) k = (\<Sum>x \<in> fst ` set m. count_list (the (hm_get m x)) k)"
proof (induction m)
  case (Cons e m)
  have "(\<Sum>x \<in> fst ` set m. count_list (the (hm_get (e # m) x)) k) = (\<Sum>x \<in> fst ` set m. count_list (the (hm_get m x)) k)"
  proof (rule sum.cong [OF refl])
    fix x assume "x \<in> fst ` set m"
    moreover have "fst e \<notin> fst ` set m" using Cons.prems by simp
    ultimately have "x \<noteq> fst e" by blast
    then show "count_list (the (hm_get (e # m) x)) k = count_list (the (hm_get m x)) k" by (cases e) simp
  qed
  then show ?case using Cons by simp
qed simp

lemma wanted_by_sum: "distinct xs \<Longrightarrow> wanted_by xs k = (\<Sum>x \<in> set xs. count_list (sub_kinds x) k)"
  by (simp add: wanted_by_def sum_list_distinct_conv_sum_set)

lemma held_families:
  assumes "families_ok base xs st" "distinct xs"
  shows "count_list (concat (map snd (ss_sub_guards (fst st)))) k = wanted_by xs k"
proof -
  let ?m = "ss_sub_guards (fst st)"
  have keys: "fst ` set ?m = {x \<in> set xs. sub_kinds x \<noteq> []}"
    using assms(1) unfolding dom_map_of_keys [symmetric] by (auto simp: families_ok_def dom_def split: if_splits)
  have "count_list (concat (map snd ?m)) k = (\<Sum>x \<in> {x \<in> set xs. sub_kinds x \<noteq> []}. count_list (sub_kinds x) k)"
    unfolding count_list_values [OF conjunct1 [OF assms(1) [unfolded families_ok_def]]] keys
    using assms(1) by (intro sum.cong) (simp_all add: families_ok_def)
  also have "\<dots> = wanted_by xs k"
    unfolding wanted_by_sum [OF assms(2)] by (rule sum.mono_neutral_left) auto
  finally show ?thesis .
qed

lemma session_drop_base:
  assumes "session_ok base st"
  shows "pcount (rg_params (session_drop st)) p = pcount (rg_params base) p
    \<and> counter k (rg_subs (session_drop st)) = counter k (rg_subs base)
    \<and> rg_gauge (session_drop st) = rg_gauge base"
proof -
  obtain s rg where st: "st = (s, rg)" by fastforce
  have sh: "shapes_ok base (subscriptions (ss_manager s)) (s, rg)" and fa: "families_ok base (subscriptions (ss_manager s)) (s, rg)"
    and ma: "manager_ok (rg_gauge base) (ss_manager s, rg_gauge rg)"
    using assms by (simp_all add: session_ok_def st)
  have d: "distinct (subscriptions (ss_manager s))" using ma by (simp add: manager_ok_def)
  show ?thesis
    using sh fa manager_drop_base [OF ma] held_families [OF fa d, of k] count_list_keys [of "ss_l2_guards s" p]
    by (simp add: st session_drop_def pcount_drop_all counter_drop_all shapes_ok_def families_ok_def)
qed

section \<open>A sample\<close>

definition sample_lib :: session_lib where
  "sample_lib = \<lparr>sl_to_json = (\<lambda>r. Inr ''json''), sl_hash = (\<lambda>ls. of_nat (length (fst ls) + length (snd ls))),
     sl_parse_address = (\<lambda>u. None), sl_show_sub = (\<lambda>x. ''sub'')\<rparr>"

definition sample_config :: session_config where
  "sample_config = \<lparr>sc_bbo_only = False, sc_l2book_heartbeat_ms = 0, sc_bbo_heartbeat_ms = 0\<rparr>"

definition sample_registries :: registries where
  "sample_registries = \<lparr>rg_params = [(base_params, 1)], rg_subs = active_subs_default, rg_gauge = (\<lambda>l. 0)\<rparr>"

lemma sample_registries_ok: "registry_ok (rg_params sample_registries)"
  by (simp add: registry_ok_def sample_registries_def)

section \<open>Properties\<close>


definition sample_events :: "(instant \<times> session_event) list" where
  "sample_events =
     [(0, EvText [] (Some (Subscribe (SL2Book ''BTC'' (Some 5) None (Some 2)))) (Inr None)),
      (1, EvText [] (Some (Subscribe (SBbo ''BTC''))) (Inr None)),
      (2, EvText [] (Some (Subscribe (SL4Book ''BTC''))) (Inr None)),
      (3, EvText [] (Some (Unsubscribe (SBbo ''BTC''))) (Inr None))]"


text \<open>
  C15. A connection leaves no trace: when it has ended, for whatever reason and with whatever it still holds, the
  registries of shapes and families and the gauge of subscriptions are as before it came.
\<close>

theorem connection_leaves_no_trace:
  assumes "registry_ok (rg_params rg0)"
    and "handle_socket lib (queue_send W) pong cfg l evs conn rg0 = (conn', rg)"
  shows "(\<forall>p. pcount (rg_params rg) p = pcount (rg_params rg0) p)
    \<and> (\<forall>k. counter k (rg_subs rg) = counter k (rg_subs rg0)) \<and> rg_gauge rg = rg_gauge rg0"
proof -
  have "\<exists>st :: outbound_conn session \<times> registries. session_ok rg0 st \<and> rg = session_drop st"
  proof (cases "is_ready l")
    case True
    let ?st = "run_session lib (queue_send W) pong cfg evs (session_new conn (listener_universe l), rg0)"
    have "rg = session_drop ?st" using assms(2) True by (simp add: handle_socket_def Let_def)
    moreover have "session_ok rg0 ?st" by (rule run_session_ok [OF session_new_ok [OF assms(1)]])
    ultimately show ?thesis by (intro exI [of _ ?st]) (rule conjI)
  next
    case False
    let ?msg = "RError ''Order book not ready for streaming (waiting for snapshot)''"
    let ?st = "(snd (put_message lib (queue_send W) ?msg (session_new conn (listener_universe l))), rg0)"
    have "rg = session_drop ?st" using assms(2) False by (simp add: handle_socket_def Let_def split_beta)
    moreover have "session_ok rg0 ?st" by (rule session_ok_put_message(1) [OF session_new_ok [OF assms(1)]])
    ultimately show ?thesis by (intro exI [of _ ?st]) (rule conjI)
  qed
  then show ?thesis using session_drop_base by blast
qed

theorem connection_leaves_no_trace_witness:
  "let rg = snd (handle_socket sample_lib (queue_send (\<lambda>k. [])) send_pong sample_config (listener_new True False [] (True, True, True))
        sample_events conn_new sample_registries)
   in pcount (rg_params rg) base_params = 1 \<and> rg_gauge rg ''l2Book'' = 0"
  using connection_leaves_no_trace [OF sample_registries_ok prod.collapse [symmetric], of sample_lib "\<lambda>k. []" send_pong sample_config
      "listener_new True False [] (True, True, True)" sample_events conn_new]
  by (simp add: Let_def) (simp add: sample_registries_def pcount_def or_default_def)

end
