(* ===== verification/Session_Answers.thy ===== *)
theory Session_Answers
  imports Session_Guards
begin

text \<open>
  What a client's request is answered (\<open>receive_client_message\<close> and the text arm of \<open>run_session\<close>), against an
  abstract specification that sees only the list of subscriptions: \<open>request_spec\<close> gives the response, the frame
  behind it, if any, and the subscriptions afterwards.

  \<^item> \<open>json_total\<close>: the JSON writer fails on no response (the code skips a response it cannot write, and logs it).
  \<^item> \<open>response_text\<close> is the text of a response.

  Shown: every text frame is answered by exactly one response, a snapshot follows only an acknowledged \<open>l4Book\<close>
  subscription, a refused request changes no subscription; a ping is answered on its own lane.
\<close>

section \<open>The specification\<close>

definition json_total :: "session_lib \<Rightarrow> bool" where
  "json_total lib \<longleftrightarrow> (\<forall>r. \<exists>j. sl_to_json lib r = Inr j \<and> j \<noteq> [])"

definition response_text :: "session_lib \<Rightarrow> server_response \<Rightarrow> string" where
  "response_text lib r = projr (sl_to_json lib r)"

lemma json_total_text: "json_total lib \<Longrightarrow> sl_to_json lib r = Inr (response_text lib r) \<and> response_text lib r \<noteq> []"
  unfolding json_total_def response_text_def by (metis sum.sel(2))

definition denied :: string where
  "denied = ''BBO-only mode: L2/L4/Trades subscriptions disabled. Only BBO subscriptions allowed.''"

definition admitted :: "bool \<Rightarrow> string set \<Rightarrow> session_lib \<Rightarrow> subscription \<Rightarrow> server_response option" where
  "admitted bbo_only u lib sub =
     (if bbo_only \<and> \<not> is_bbo sub then Some (RError denied)
      else if \<not> validate u sub then Some (RError (''Invalid subscription: '' @ sl_show_sub lib sub))
      else None)"

fun request_spec ::
  "session_lib \<Rightarrow> bool \<Rightarrow> string set \<Rightarrow> string + string option \<Rightarrow> client_message \<Rightarrow> subscription list
     \<Rightarrow> server_response \<times> string list \<times> subscription list" where
  "request_spec lib bbo_only u body (Subscribe sub) xs =
     (case admitted bbo_only u lib sub of
        Some r \<Rightarrow> (r, [], xs)
      | None \<Rightarrow>
          if sub \<in> set xs then (RError (''Already subscribed: '' @ sl_show_sub lib sub), [], xs)
          else if max_subscriptions_per_connection \<le> length xs
          then (RError ''Rejected subscription: subscription limit reached for this connection'', [], xs)
          else (case handle_immediate_snapshot sub body of
                 Inl err \<Rightarrow> (RError (''Unable to grab order book snapshot: '' @ err), [], xs)
               | Inr None \<Rightarrow> (RSubscriptionResponse (Subscribe sub), [], sub # xs)
               | Inr (Some frame) \<Rightarrow> (RSubscriptionResponse (Subscribe sub), [frame], sub # xs)))"
| "request_spec lib bbo_only u body (Unsubscribe sub) xs =
     (case admitted bbo_only u lib sub of
        Some r \<Rightarrow> (r, [], xs)
      | None \<Rightarrow>
          if sub \<in> set xs then (RSubscriptionResponse (Unsubscribe sub), [], removeAll sub xs)
          else (RError (''Already unsubscribed: '' @ sl_show_sub lib sub), [], xs))"
| "request_spec lib bbo_only u body Ping xs = (RPong, [], xs)"

text \<open>What is sent: all of it, or a part if the connection is given up.\<close>

definition sends :: "bool \<Rightarrow> string list \<Rightarrow> string list \<Rightarrow> string list \<Rightarrow> bool" where
  "sends ok old fs new \<longleftrightarrow> (if ok then new = old @ fs else \<exists>n. new = old @ take n fs)"

lemma sends_stop: "sends False old [a] new \<Longrightarrow> sends False old (a # fs) new"
  unfolding sends_def by (metis append_Nil take_Cons' take_Suc_Cons take_0 take_Nil)

lemma sends_go: "sends True old [a] mid \<Longrightarrow> sends ok mid fs new \<Longrightarrow> sends ok old (a # fs) new"
  unfolding sends_def by (cases ok) (auto intro: exI [of _ "Suc n" for n])

section \<open>The handler follows it\<close>

lemma reply_error_manager: "ss_manager (fst (snd (reply_error lib send msg st))) = ss_manager (fst st)"
  by (cases st) (simp add: reply_error_def put_message_def Let_def split_beta)

lemma l4_ws_frame_nonempty: "l4_ws_frame b \<noteq> []"
  by (simp add: l4_ws_frame_def)

lemma immediate_frame: "handle_immediate_snapshot sub body = Inr (Some f) \<Longrightarrow> f \<noteq> []"
  by (auto simp: handle_immediate_snapshot_def l4_ws_frame_nonempty split: subscription.splits sum.splits option.splits)

context sender
begin

lemma put_message_sent:
  assumes "json_total lib" "put_message lib send r s = (ok, s')"
  shows "sends ok (sent (ss_conn s)) [response_text lib r] (sent (ss_conn s')) \<and> ss_manager s' = ss_manager s"
proof (cases ok)
  case True
  then show ?thesis
    using assms(2) send_message_True [of "sl_to_json lib" r "ss_conn s"] json_total_text [OF assms(1), of r]
    by (auto simp: put_message_def sends_def Let_def split: prod.splits)
next
  case False
  then show ?thesis
    using assms(2) send_message_False [of "sl_to_json lib" r "ss_conn s"]
    by (auto simp: put_message_def sends_def Let_def split: prod.splits intro!: exI [of _ 0])
qed

lemma reply_error_sent:
  assumes "json_total lib" "reply_error lib send msg st = (ok, s', rg')"
  shows "sends ok (sent (ss_conn (fst st))) [response_text lib (RError msg)] (sent (ss_conn s')) \<and> ss_manager s' = ss_manager (fst st)"
  using assms(2) put_message_sent [OF assms(1), of "RError msg" "fst st"]
  by (cases st) (auto simp: reply_error_def Let_def split: prod.splits)

lemma start_stream_sent:
  assumes "json_total lib" "start_stream lib send body sub st = (ok, s', rg')" "sub \<notin> set xs" "subs_of st = sub # xs"
  shows "case (case handle_immediate_snapshot sub body of
          Inl err \<Rightarrow> (RError (''Unable to grab order book snapshot: '' @ err), [], xs)
        | Inr None \<Rightarrow> (RSubscriptionResponse (Subscribe sub), [], sub # xs)
        | Inr (Some frame) \<Rightarrow> (RSubscriptionResponse (Subscribe sub), [frame], sub # xs)) of
      (r, fs, ys) \<Rightarrow> sends ok (sent (ss_conn (fst st))) (response_text lib r # fs) (sent (ss_conn s')) \<and> subscriptions (ss_manager s') = ys"
proof (cases "handle_immediate_snapshot sub body")
  case (Inl err)
  obtain b st1 where m: "manager_op (unsubscribe sub) st = (b, st1)" by (metis prod.collapse)
  have conn: "ss_conn (fst (release_sub_guards sub st1)) = ss_conn (fst st)"
    using m by (cases st; auto simp: release_sub_guards_def manager_op_simps split: option.splits prod.splits)
  have subs: "subscriptions (ss_manager (fst (release_sub_guards sub st1))) = xs"
    using m assms(3,4) by (auto simp: manager_op_simps unsubscribe_def Let_def)
  show ?thesis
    using reply_error_sent [OF assms(1), of "''Unable to grab order book snapshot: '' @ err" "release_sub_guards sub st1" ok s' rg'] assms(2) conn subs
    by (simp add: start_stream_def Inl m)
next
  case (Inr frame)
  obtain s rg where st: "st = (s, rg)" by fastforce
  obtain ok1 s1 where p: "put_message lib send (RSubscriptionResponse (Subscribe sub)) s = (ok1, s1)" by fastforce
  note sent1 = put_message_sent [OF assms(1) p]
  show ?thesis
  proof (cases "frame = None \<or> \<not> ok1")
    case True
    then have "ok = ok1" "s' = s1" using assms(2) by (auto simp: start_stream_def Inr st p split: if_splits)
    show ?thesis
    proof (cases ok1)
      case True
      then show ?thesis using sent1 \<open>frame = None \<or> \<not> ok1\<close> \<open>ok = ok1\<close> \<open>s' = s1\<close> assms(4) by (simp add: Inr st)
    next
      case False
      then show ?thesis
        using sent1 \<open>ok = ok1\<close> \<open>s' = s1\<close> assms(4) sends_stop [of "sent (ss_conn s)" _ "sent (ss_conn s1)"]
        by (cases frame) (simp_all add: Inr st)
    qed
  next
    case False
    then obtain f where f: "frame = Some f" by (cases frame) auto
    have e: "f \<noteq> []" using immediate_frame Inr f by blast
    obtain ok2 s2 where q: "put_frame send f s1 = (ok2, s2)" by fastforce
    have "ok = ok2" "s' = s2" using assms(2) False by (auto simp: start_stream_def Inr st p f q)
    moreover have "ss_manager s2 = ss_manager s1" using q by (auto simp: put_frame_def Let_def split: prod.splits)
    moreover have "sends ok2 (sent (ss_conn s1)) [f] (sent (ss_conn s2))"
      using q e send_frame_True [of f "ss_conn s1"] send_frame_False [of f "ss_conn s1"]
      by (cases ok2) (auto simp: put_frame_def sends_def Let_def split: prod.splits intro!: exI [of _ 0])
    ultimately show ?thesis
      using sent1 False assms(4) sends_go by (auto simp: Inr st f)
  qed
qed

lemma receive_follows_spec:
  assumes "json_total lib" "msg \<noteq> Ping" "receive_client_message lib send bbo_only body msg (s, rg) = (ok, s', rg')"
  shows "case request_spec lib bbo_only (ss_universe s) body msg (subscriptions (ss_manager s)) of
      (r, fs, ys) \<Rightarrow> sends ok (sent (ss_conn s)) (response_text lib r # fs) (sent (ss_conn s')) \<and> subscriptions (ss_manager s') = ys"
proof -
  note err = reply_error_sent [OF assms(1), of _ "(s, rg)" ok s' rg']
  show ?thesis
  proof (cases msg)
    case (Subscribe sub)
    show ?thesis
    proof (cases "admitted bbo_only (ss_universe s) lib sub")
      case (Some r)
      then show ?thesis using assms(3) err by (auto simp: Subscribe receive_client_message_def admitted_def denied_def split: if_splits)
    next
      case None
      then have adm: "\<not> (bbo_only \<and> \<not> is_bbo sub)" "validate (ss_universe s) sub" by (auto simp: admitted_def split: if_splits)
      obtain r st1 where m: "manager_op (subscribe sub) (s, rg) = (r, st1)" by (metis prod.collapse)
      consider (new) "r = Inr True" | (old) "r = Inr False" | (full) e where "r = Inl e"
        by (metis sum.exhaust_sel)
      then show ?thesis
      proof cases
        case new
        note ins = subscribe_inserts [OF m [unfolded new]]
        have room: "\<not> max_subscriptions_per_connection \<le> length (subscriptions (ss_manager s))"
          using m ins new by (auto simp: manager_op_simps subscribe_def Let_def split: if_splits)
        have conn: "ss_conn (fst (acquire_guards sub st1)) = ss_conn s"
          using m by (auto simp: acquire_guards_def manager_op_simps Let_def split_beta split: option.splits)
        have subs: "subs_of (acquire_guards sub st1) = sub # subscriptions (ss_manager s)"
          using ins by (simp add: acquire_guards_keeps)
        have "start_stream lib send body sub (acquire_guards sub st1) = (ok, s', rg')"
          using assms(3) adm m new by (auto simp: Subscribe receive_client_message_def)
        from start_stream_sent [OF assms(1) this _ subs] show ?thesis
          using ins room conn None by (simp add: Subscribe)
      next
        case old
        then have "sub \<in> set (subscriptions (ss_manager s))"
          using m by (auto simp: manager_op_simps subscribe_def Let_def split: if_splits)
        moreover have "st1 = (s, rg)" using subscribe_rejects [OF m] old by simp
        ultimately show ?thesis using assms(3) adm m old err None by (auto simp: Subscribe receive_client_message_def)
      next
        case full
        then have "sub \<notin> set (subscriptions (ss_manager s))" "max_subscriptions_per_connection \<le> length (subscriptions (ss_manager s))"
          using m by (auto simp: manager_op_simps subscribe_def Let_def split: if_splits)
        moreover have "st1 = (s, rg)" using subscribe_rejects [OF m] full by simp
        ultimately show ?thesis using assms(3) adm m full err None by (auto simp: Subscribe receive_client_message_def)
      qed
    qed
  next
    case (Unsubscribe sub)
    show ?thesis
    proof (cases "admitted bbo_only (ss_universe s) lib sub")
      case (Some r)
      then show ?thesis using assms(3) err by (auto simp: Unsubscribe receive_client_message_def admitted_def denied_def split: if_splits)
    next
      case None
      then have adm: "\<not> (bbo_only \<and> \<not> is_bbo sub)" "validate (ss_universe s) sub" by (auto simp: admitted_def split: if_splits)
      obtain b st1 where m: "manager_op (unsubscribe sub) (s, rg) = (b, st1)" by (metis prod.collapse)
      show ?thesis
      proof (cases b)
        case True
        note rem = unsubscribe_removes [OF m [unfolded eqTrueI [OF True]]]
        obtain s2 rg2 where c: "cleanup_removed sub st1 = (s2, rg2)" by fastforce
        have conn: "ss_conn s2 = ss_conn s"
          using c m by (cases sub; auto simp: cleanup_removed_def release_sub_guards_def release_l2_guard_def manager_op_simps Let_def split_beta
              split: option.splits if_splits)
        have subs: "subscriptions (ss_manager s2) = removeAll sub (subscriptions (ss_manager s))"
          using rem cleanup_keeps(1) [of sub st1] c by simp
        have "put_message lib send (RSubscriptionResponse msg) s2 = (ok, s')"
          using assms(3) adm m True c by (auto simp: Unsubscribe receive_client_message_def Let_def split: prod.splits)
        from put_message_sent [OF assms(1) this] show ?thesis
          using rem conn subs None by (simp add: Unsubscribe)
      next
        case False
        then have "sub \<notin> set (subscriptions (ss_manager s))" using m by (auto simp: manager_op_simps unsubscribe_def Let_def)
        moreover have "st1 = (s, rg)" using unsubscribe_nothing [of sub "(s, rg)" st1] m False by simp
        ultimately show ?thesis using assms(3) adm m False err None by (auto simp: Unsubscribe receive_client_message_def Let_def)
      qed
    qed
  qed (use assms(2) in simp)
qed

end

lemma sends_weaken: "sends ok old fs new \<Longrightarrow> (a \<Longrightarrow> ok) \<Longrightarrow> sends a old fs new"
  unfolding sends_def by (metis order_refl take_all)

section \<open>Properties\<close>

text \<open>
  C16. Every request is answered: a text that is no request, a request that is refused and one that is granted get
  exactly one response, the snapshot of an \<open>l4Book\<close> stream directly behind its acknowledgement; a refused request
  leaves the subscriptions as they were; a ping gets its pong on the lane of the pongs. If the connection is given
  up meanwhile, a part of that was sent.
\<close>

theorem requests_answered:
  assumes "json_total lib"
    and "session_step lib (queue_send W) send_pong cfg now (EvText txt msg body) (s, rg) = (ended, s', rg')"
  shows "\<not> ended \<and>
    (case msg of
       None \<Rightarrow>
         sends (ss_alive s') (accepted_data (ss_conn s))
           [response_text lib (RError (''Error parsing JSON into valid websocket request: '' @ txt))] (accepted_data (ss_conn s'))
         \<and> subscriptions (ss_manager s') = subscriptions (ss_manager s)
     | Some m \<Rightarrow>
         if m = Ping
         then accepted_data (ss_conn s') = accepted_data (ss_conn s) \<and> subscriptions (ss_manager s') = subscriptions (ss_manager s)
           \<and> sends (ss_alive s') (of_lane PongLane (oc_accepted (ss_conn s))) [pong_frame] (of_lane PongLane (oc_accepted (ss_conn s')))
         else (case request_spec lib (sc_bbo_only cfg) (ss_universe s) body m (subscriptions (ss_manager s)) of
             (r, frames, subs) \<Rightarrow>
               sends (ss_alive s') (accepted_data (ss_conn s)) (response_text lib r # frames) (accepted_data (ss_conn s'))
               \<and> subscriptions (ss_manager s') = subs))"
proof (cases msg)
  case None
  obtain ok s1 where p: "put_message lib (queue_send W) (RError (''Error parsing JSON into valid websocket request: '' @ txt)) s = (ok, s1)"
    by fastforce
  then have "\<not> ended \<and> s' = s1\<lparr>ss_alive := ss_alive s1 \<and> ok\<rparr>"
    using assms(2) by (simp add: session_step_def None del: append_Cons)
  then show ?thesis
    using queue.put_message_sent [OF assms(1) p] sends_weaken None by auto
next
  case (Some m)
  show ?thesis
  proof (cases "m = Ping")
    case True
    obtain ok c where p: "send_pong (ss_conn s) = (ok, c)" by fastforce
    then have e: "\<not> ended \<and> s' = s\<lparr>ss_conn := c, ss_alive := ss_alive s \<and> ok\<rparr>"
      using assms(2) by (simp add: session_step_def Some True)
    have "accepted_data c = accepted_data (ss_conn s)
        \<and> sends ok (of_lane PongLane (oc_accepted (ss_conn s))) [pong_frame] (of_lane PongLane (oc_accepted c))"
      using p by (auto simp: send_pong_def accepted_data_def sends_def split: if_splits intro: exI [of _ 0])
    then show ?thesis using e Some True sends_weaken by auto
  next
    case False
    obtain ok s1 rg1 where p: "receive_client_message lib (queue_send W) (sc_bbo_only cfg) body m (s, rg) = (ok, s1, rg1)"
      by (metis prod.collapse)
    have e: "\<not> ended \<and> s' = s1\<lparr>ss_alive := ss_alive s1 \<and> ok\<rparr>"
      using assms(2) False p by (cases m) (simp_all add: session_step_def Some)
    show ?thesis
      using queue.receive_follows_spec [OF assms(1) False p] e Some False sends_weaken by auto
  qed
qed

theorem requests_answered_witness:
  "let s' = fst (snd (session_step sample_lib (queue_send (\<lambda>k. [])) send_pong sample_config 0
        (EvText ''text'' (Some (Subscribe (STrades ''BTC''))) (Inr None)) (session_new conn_new {''BTC''}, sample_registries)))
   in subscriptions (ss_manager s') = [STrades ''BTC'']
     \<and> sends (ss_alive s') [] [response_text sample_lib (RSubscriptionResponse (Subscribe (STrades ''BTC'')))] (accepted_data (ss_conn s'))"
proof -
  have total: "json_total sample_lib" by (simp add: json_total_def sample_lib_def)
  have "request_spec sample_lib (sc_bbo_only sample_config) {''BTC''} (Inr None) (Subscribe (STrades ''BTC'')) []
      = (RSubscriptionResponse (Subscribe (STrades ''BTC'')), [], [STrades ''BTC''])"
    by code_simp
  then show ?thesis
    using requests_answered [OF total prod.collapse [symmetric, THEN trans, OF arg_cong [of _ _ "Pair _"], OF prod.collapse [symmetric]],
        of "\<lambda>k. []" sample_config 0 "''text''" "Some (Subscribe (STrades ''BTC''))" "Inr None" "session_new conn_new {''BTC''}" sample_registries]
    by (simp add: Let_def session_new_def manager_default_def accepted_data_def conn_new_def)
qed

end
