(* ===== verification/Session_Streams.thy ===== *)
theory Session_Streams
  imports Session_Answers
begin

text \<open>
  The streams of trades, book diffs, L4 updates and order updates: what a session sends for one broadcast message
  (the \<open>Fills\<close>, \<open>L4OrderDiffs\<close> and \<open>L4OrderStatuses\<close> arms of \<open>run_session\<close>), against \<open>stream_reply\<close>, which says what
  a subscription is owed for a message.

  \<^item> \<open>shared_ok\<close>: the frames that other sessions have left in the message are the texts of its responses.
  \<^item> \<open>addrs_ok\<close>: the addresses the session has parsed are those of its users.
  \<^item> What a message says of a coin, without the shared frames, is \<open>said\<close>: filling in a frame does not change it.
\<close>

section \<open>What a subscription is owed\<close>

definition l4_diffs :: "u64 \<Rightarrow> u64 \<Rightarrow> node_data_order_diff list \<Rightarrow> server_response" where
  "l4_diffs time height ds =
     RL4Book (L4Updates \<lparr>lu_time = time, lu_height = height, lu_order_statuses = [], lu_book_diffs = ds\<rparr>)"

definition l4_statuses :: "u64 \<Rightarrow> u64 \<Rightarrow> node_data_order_status list \<Rightarrow> server_response" where
  "l4_statuses time height ss =
     RL4Book (L4Updates \<lparr>lu_time = time, lu_height = height, lu_order_statuses = ss, lu_book_diffs = []\<rparr>)"

definition user_reply :: "u64 \<Rightarrow> u64 \<Rightarrow> node_data_order_status list \<Rightarrow> address \<Rightarrow> server_response option" where
  "user_reply time height ss a =
     (let mine = filter (\<lambda>x. os_user x = a) ss
      in if mine = [] then None else Some (ROrderUpdates (map (\<lambda>x. order_update_new a time height x) mine)))"

definition said :: "('v \<Rightarrow> 'p) \<Rightarrow> ('k, 'v) hash_map \<Rightarrow> ('k, 'p) hash_map" where
  "said payload m = map (\<lambda>(k, v). (k, payload v)) m"

definition stream_reply :: "session_lib \<Rightarrow> internal_message \<Rightarrow> subscription \<Rightarrow> server_response option" where
  "stream_reply lib msg sub =
     (case msg of
        MFills ts \<Rightarrow>
          (case sub of STrades c \<Rightarrow> map_option RTrades (hm_get (said ct_trades ts) c) | _ \<Rightarrow> None)
      | ML4OrderDiffs time height ds \<Rightarrow>
          (case sub of
             SBookDiffs c \<Rightarrow> map_option RBookDiffs (hm_get (said cd_diffs ds) c)
           | SL4Book c \<Rightarrow> map_option (l4_diffs time height) (hm_get (said cd_diffs ds) c)
           | _ \<Rightarrow> None)
      | ML4OrderStatuses time height ss \<Rightarrow>
          (case sub of
             SL4Book c \<Rightarrow> map_option (l4_statuses time height) (hm_get (said cs_statuses ss) c)
           | SOrderUpdates u \<Rightarrow>
               Option.bind (sl_parse_address lib u) (user_reply time height (concat (map snd (said cs_statuses ss))))
           | _ \<Rightarrow> None)
      | _ \<Rightarrow> None)"

definition is_stream :: "internal_message \<Rightarrow> bool" where
  "is_stream msg = (case msg of MSnapshot m \<Rightarrow> False | MBboUpdate b t \<Rightarrow> False | _ \<Rightarrow> True)"

section \<open>Honest frames\<close>

definition frame_ok :: "session_lib \<Rightarrow> server_response \<Rightarrow> shared_frame \<Rightarrow> bool" where
  "frame_ok lib r f \<longleftrightarrow> f = None \<or> f = Some (response_text lib r)"

definition shared_ok :: "session_lib \<Rightarrow> internal_message \<Rightarrow> bool" where
  "shared_ok lib msg =
     (case msg of
        MFills ts \<Rightarrow> (\<forall>c x. hm_get ts c = Some x \<longrightarrow> frame_ok lib (RTrades (ct_trades x)) (ct_frame x))
      | ML4OrderDiffs time height ds \<Rightarrow>
          (\<forall>c x. hm_get ds c = Some x \<longrightarrow> frame_ok lib (RBookDiffs (cd_diffs x)) (cd_book_diffs_frame x)
             \<and> frame_ok lib (l4_diffs time height (cd_diffs x)) (cd_l4_frame x))
      | ML4OrderStatuses time height ss \<Rightarrow>
          (\<forall>c x. hm_get ss c = Some x \<longrightarrow> frame_ok lib (l4_statuses time height (cs_statuses x)) (cs_l4_frame x))
      | _ \<Rightarrow> True)"

definition addrs_ok :: "session_lib \<Rightarrow> 'c session \<Rightarrow> bool" where
  "addrs_ok lib s \<longleftrightarrow> (\<forall>u a. hm_get (ss_user_addrs s) u = Some a \<longrightarrow> sl_parse_address lib u = Some a)"

lemma frame_ok_serialize:
  assumes "json_total lib" "frame_ok lib r f" "get_or_serialize (sl_to_json lib) (\<lambda>_. r) f = (t, f')"
  shows "t = response_text lib r \<and> f' = Some (response_text lib r)"
  using assms json_total_text [OF assms(1), of r]
  by (auto simp: frame_ok_def get_or_serialize_def Let_def split: option.splits)

lemma said_get: "hm_get (said payload m) k = map_option payload (hm_get m k)"
  by (simp add: said_def map_of_map)

lemma said_fill: "hm_get m k = Some v \<Longrightarrow> payload v' = payload v \<Longrightarrow> said payload (hm_insert k v' m) = said payload m"
  by (induction m) (auto simp: said_def)

section \<open>The loop\<close>

lemma sends_append: "sends True old fs mid \<Longrightarrow> sends ok mid gs new \<Longrightarrow> sends ok old (fs @ gs) new"
  unfolding sends_def by (cases ok) (auto intro: exI [of _ "length fs + n" for n])

lemma sends_cut: "sends False old fs new \<Longrightarrow> sends False old (fs @ gs) new"
proof -
  assume "sends False old fs new"
  then obtain n where "new = old @ take n fs" by (auto simp: sends_def)
  moreover have "take n fs = take (min n (length fs)) (fs @ gs)" by (cases "n \<le> length fs") simp_all
  ultimately have "\<exists>n. new = old @ take n (fs @ gs)" by metis
  then show ?thesis unfolding sends_def by (simp only: if_False)
qed

lemma sends_nothing [simp]: "sends ok old [] old"
  by (simp add: sends_def)

definition texts :: "session_lib \<Rightarrow> server_response option \<Rightarrow> string list" where
  "texts lib r = (case r of None \<Rightarrow> [] | Some x \<Rightarrow> [response_text lib x])"

definition keeps :: "session_lib \<Rightarrow> internal_message \<Rightarrow> internal_message \<Rightarrow> bool" where
  "keeps lib msg msg' \<longleftrightarrow> shared_ok lib msg' \<and> (\<forall>sub. stream_reply lib msg' sub = stream_reply lib msg sub)"

context sender
begin

lemma for_subs_sends:
  assumes step: "\<And>sub s m ok s1 m1. f sub (s, m) = (ok, s1, m1) \<Longrightarrow> I s m \<Longrightarrow>
      sends ok (sent (ss_conn s)) (owed sub) (sent (ss_conn s1)) \<and> I s1 m1"
    and alive: "\<And>s m a. I (s\<lparr>ss_alive := a\<rparr>) m = I s m"
    and "I s m" "for_subs f subs (s, m) = (s', m')"
  shows "sends (ss_alive s') (sent (ss_conn s)) (concat (map owed subs)) (sent (ss_conn s')) \<and> I s' m'"
  using assms(3,4)
proof (induction subs arbitrary: s m)
  case (Cons sub subs)
  show ?case
  proof (cases "ss_alive s")
    case False
    then show ?thesis using Cons.prems by (auto simp: sends_def intro: exI [of _ 0])
  next
    case True
    obtain ok s1 m1 where f: "f sub (s, m) = (ok, s1, m1)" by (metis prod.collapse)
    let ?s1 = "s1\<lparr>ss_alive := ss_alive s1 \<and> ok\<rparr>"
    note one = step [OF f Cons.prems(1)]
    have run: "for_subs f subs (?s1, m1) = (s', m')" using Cons.prems(2) True f by simp
    have rest: "sends (ss_alive s') (sent (ss_conn s1)) (concat (map owed subs)) (sent (ss_conn s')) \<and> I s' m'"
      using Cons.IH [OF _ run] one alive by simp
    show ?thesis
    proof (cases ok)
      case True
      then show ?thesis using one rest sends_append by auto
    next
      case False
      then have "s' = ?s1" using run by (cases subs) auto
      then show ?thesis using False one rest sends_cut by auto
    qed
  qed
qed simp

lemma shared_frame_sends:
  assumes "json_total lib" "frame_ok lib r f" "get_or_serialize (sl_to_json lib) (\<lambda>_. r) f = (t, f')" "put_frame send t s = (ok, s1)"
  shows "sends ok (sent (ss_conn s)) [response_text lib r] (sent (ss_conn s1)) \<and> ss_user_addrs s1 = ss_user_addrs s
    \<and> f' = Some (response_text lib r)"
  using frame_ok_serialize [OF assms(1-3)] json_total_text [OF assms(1), of r] assms(4)
    send_frame_True [of t "ss_conn s"] send_frame_False [of t "ss_conn s"]
  by (cases ok) (auto simp: put_frame_def sends_def Let_def split: prod.splits intro: exI [of _ 0])

lemma trades_step:
  assumes "json_total lib" "shared_ok lib (MFills m)"
    and "(case sub of STrades c \<Rightarrow> send_trades lib send c (s, m) | _ \<Rightarrow> (True, s, m)) = (ok, s1, m1)"
  shows "sends ok (sent (ss_conn s)) (texts lib (stream_reply lib (MFills m) sub)) (sent (ss_conn s1))
    \<and> ss_user_addrs s1 = ss_user_addrs s \<and> keeps lib (MFills m) (MFills m1)"
proof (cases "\<exists>c x. sub = STrades c \<and> hm_get m c = Some x")
  case False
  then show ?thesis
    using assms by (cases sub) (auto simp: send_trades_def stream_reply_def said_get texts_def keeps_def split: option.splits)
next
  case True
  then obtain c x where c: "sub = STrades c" "hm_get m c = Some x" by blast
  obtain t f' where g: "get_or_serialize (sl_to_json lib) (\<lambda>_. RTrades (ct_trades x)) (ct_frame x) = (t, f')" by fastforce
  obtain s2 where p: "put_frame send t s = (ok, s2)" "s1 = s2" "m1 = hm_insert c (x\<lparr>ct_frame := f'\<rparr>) m"
    using assms(3) by (auto simp: send_trades_def c g Let_def split: prod.splits)
  have fr: "frame_ok lib (RTrades (ct_trades x)) (ct_frame x)" using assms(2) c by (simp add: shared_ok_def)
  note sent = shared_frame_sends [OF assms(1) fr g p(1)]
  have same: "said ct_trades m1 = said ct_trades m"
    unfolding p(3) by (rule said_fill [OF c(2)]) simp
  have "shared_ok lib (MFills m1)"
    using assms(2) sent p(3) by (auto simp: shared_ok_def frame_ok_def update_conv')
  then have "keeps lib (MFills m) (MFills m1)" by (simp add: keeps_def stream_reply_def same split: subscription.split)
  then show ?thesis using sent p(2) c by (simp add: stream_reply_def said_get texts_def)
qed

lemma diffs_step:
  assumes "json_total lib" "shared_ok lib (ML4OrderDiffs time height m)" "send_order_diffs lib send time height sub (s, m) = (ok, s1, m1)"
  shows "sends ok (sent (ss_conn s)) (texts lib (stream_reply lib (ML4OrderDiffs time height m) sub)) (sent (ss_conn s1))
    \<and> ss_user_addrs s1 = ss_user_addrs s \<and> keeps lib (ML4OrderDiffs time height m) (ML4OrderDiffs time height m1)"
proof -
  have keep: "keeps lib (ML4OrderDiffs time height m) (ML4OrderDiffs time height m1)"
    if "said cd_diffs m1 = said cd_diffs m" "shared_ok lib (ML4OrderDiffs time height m1)" for m1
    using that by (simp add: keeps_def stream_reply_def split: subscription.split)
  consider (book) c x where "sub = SBookDiffs c" "hm_get m c = Some x" | (l4) c x where "sub = SL4Book c" "hm_get m c = Some x"
    | (none) "stream_reply lib (ML4OrderDiffs time height m) sub = None" "(ok, s1, m1) = (True, s, m)"
    using assms(3) by (cases sub) (auto simp: send_order_diffs_def stream_reply_def said_get split: option.splits)
  then show ?thesis
  proof cases
    case book
    obtain t f' where g: "get_or_serialize (sl_to_json lib) (\<lambda>_. RBookDiffs (cd_diffs x)) (cd_book_diffs_frame x) = (t, f')" by fastforce
    obtain s2 where p: "put_frame send t s = (ok, s2)" "s1 = s2" "m1 = hm_insert c (x\<lparr>cd_book_diffs_frame := f'\<rparr>) m"
      using assms(3) by (auto simp: send_order_diffs_def book g Let_def split: prod.splits)
    have fr: "frame_ok lib (RBookDiffs (cd_diffs x)) (cd_book_diffs_frame x)" using assms(2) book by (simp add: shared_ok_def)
    note sent = shared_frame_sends [OF assms(1) fr g p(1)]
    have same: "said cd_diffs m1 = said cd_diffs m"
      unfolding p(3) by (rule said_fill [OF book(2)]) simp
    have "shared_ok lib (ML4OrderDiffs time height m1)"
      using assms(2) sent p(3) book(2) by (auto simp: shared_ok_def frame_ok_def update_conv')
    then show ?thesis using sent p(2) book keep [OF same] by (simp add: stream_reply_def said_get texts_def)
  next
    case l4
    obtain t f' where g: "get_or_serialize (sl_to_json lib) (\<lambda>_. l4_diffs time height (cd_diffs x)) (cd_l4_frame x) = (t, f')" by fastforce
    obtain s2 where p: "put_frame send t s = (ok, s2)" "s1 = s2" "m1 = hm_insert c (x\<lparr>cd_l4_frame := f'\<rparr>) m"
      using assms(3) g by (auto simp: send_order_diffs_def l4 l4_diffs_def Let_def split: prod.splits)
    have fr: "frame_ok lib (l4_diffs time height (cd_diffs x)) (cd_l4_frame x)" using assms(2) l4 by (simp add: shared_ok_def)
    note sent = shared_frame_sends [OF assms(1) fr g p(1)]
    have same: "said cd_diffs m1 = said cd_diffs m"
      unfolding p(3) by (rule said_fill [OF l4(2)]) simp
    have "shared_ok lib (ML4OrderDiffs time height m1)"
      using assms(2) sent p(3) l4(2) by (auto simp: shared_ok_def frame_ok_def update_conv')
    then show ?thesis using sent p(2) l4 keep [OF same] by (simp add: stream_reply_def said_get texts_def)
  next
    case none
    then show ?thesis using keep assms(2) by (simp add: texts_def)
  qed
qed

lemma put_message_owed:
  assumes "json_total lib" "put_message lib send r s = (ok, s1)"
  shows "sends ok (sent (ss_conn s)) [response_text lib r] (sent (ss_conn s1)) \<and> ss_user_addrs s1 = ss_user_addrs s"
  using put_message_sent [OF assms] assms(2) by (auto simp: put_message_def Let_def split: prod.splits)

lemma user_step:
  assumes "json_total lib" "addrs_ok lib s" "send_ws_order_updates lib send u time height m s = (ok, s1)"
  shows "sends ok (sent (ss_conn s)) (texts lib (stream_reply lib (ML4OrderStatuses time height m) (SOrderUpdates u))) (sent (ss_conn s1))
    \<and> addrs_ok lib s1"
proof -
  have all: "concat (map (\<lambda>(c, cs). cs_statuses cs) m) = concat (map snd (said cs_statuses m))"
    by (simp add: said_def split_def comp_def)
  show ?thesis
  proof (cases "sl_parse_address lib u")
    case None
    then have "hm_get (ss_user_addrs s) u = None" using assms(2) by (cases "hm_get (ss_user_addrs s) u") (auto simp: addrs_ok_def)
    then show ?thesis using None assms by (simp add: send_ws_order_updates_def stream_reply_def texts_def)
  next
    case (Some a)
    obtain s2 where s2: "ss_conn s2 = ss_conn s" "addrs_ok lib s2"
      "send_ws_order_updates lib send u time height m s =
         (let updates = map (\<lambda>x. order_update_new (os_user x) time height x)
                (filter (\<lambda>x. os_user x = a) (concat (map (\<lambda>(c, cs). cs_statuses cs) m)))
          in if updates \<noteq> [] then put_message lib send (ROrderUpdates updates) s2 else (True, s2))"
    proof (cases "hm_get (ss_user_addrs s) u")
      case None
      then show thesis
        using that [of "s\<lparr>ss_user_addrs := hm_insert u a (ss_user_addrs s)\<rparr>"] Some assms(2)
        by (auto simp: send_ws_order_updates_def addrs_ok_def update_conv')
    next
      case found: (Some a')
      then have "a' = a" using assms(2) Some by (auto simp: addrs_ok_def)
      then show thesis using that [of s] found assms(2) by (simp add: send_ws_order_updates_def)
    qed
    let ?mine = "filter (\<lambda>x. os_user x = a) (concat (map snd (said cs_statuses m)))"
    have upd: "map (\<lambda>x. order_update_new (os_user x) time height x) ?mine = map (\<lambda>x. order_update_new a time height x) ?mine"
      by (rule map_cong) auto
    have owed: "stream_reply lib (ML4OrderStatuses time height m) (SOrderUpdates u) = user_reply time height (concat (map snd (said cs_statuses m))) a"
      by (simp add: stream_reply_def Some)
    show ?thesis
    proof (cases "?mine = []")
      case True
      then show ?thesis using assms(3) s2 unfolding owed all by (simp add: user_reply_def texts_def)
    next
      case False
      then have "put_message lib send (ROrderUpdates (map (\<lambda>x. order_update_new a time height x) ?mine)) s2 = (ok, s1)"
        using assms(3) s2(3) unfolding all upd by (simp add: Let_def)
      from put_message_owed [OF assms(1) this] show ?thesis
        using False s2(1,2) unfolding owed by (simp add: user_reply_def texts_def addrs_ok_def)
    qed
  qed
qed

lemma statuses_step:
  assumes "json_total lib" "shared_ok lib (ML4OrderStatuses time height m)" "addrs_ok lib s"
    and "send_order_statuses lib send time height sub (s, m) = (ok, s1, m1)"
  shows "sends ok (sent (ss_conn s)) (texts lib (stream_reply lib (ML4OrderStatuses time height m) sub)) (sent (ss_conn s1))
    \<and> addrs_ok lib s1 \<and> keeps lib (ML4OrderStatuses time height m) (ML4OrderStatuses time height m1)"
proof -
  have keep: "keeps lib (ML4OrderStatuses time height m) (ML4OrderStatuses time height m1)"
    if "said cs_statuses m1 = said cs_statuses m" "shared_ok lib (ML4OrderStatuses time height m1)" for m1
    using that by (simp add: keeps_def stream_reply_def split: subscription.split)
  consider (l4) c x where "sub = SL4Book c" "hm_get m c = Some x" | (user) u where "sub = SOrderUpdates u"
    | (none) "stream_reply lib (ML4OrderStatuses time height m) sub = None" "(ok, s1, m1) = (True, s, m)"
    using assms(4) by (cases sub) (auto simp: send_order_statuses_def stream_reply_def said_get split: option.splits)
  then show ?thesis
  proof cases
    case l4
    obtain t f' where g: "get_or_serialize (sl_to_json lib) (\<lambda>_. l4_statuses time height (cs_statuses x)) (cs_l4_frame x) = (t, f')" by fastforce
    obtain s2 where p: "put_frame send t s = (ok, s2)" "s1 = s2" "m1 = hm_insert c (x\<lparr>cs_l4_frame := f'\<rparr>) m"
      using assms(4) g by (auto simp: send_order_statuses_def l4 l4_statuses_def Let_def split: prod.splits)
    have fr: "frame_ok lib (l4_statuses time height (cs_statuses x)) (cs_l4_frame x)" using assms(2) l4 by (simp add: shared_ok_def)
    note sent = shared_frame_sends [OF assms(1) fr g p(1)]
    have same: "said cs_statuses m1 = said cs_statuses m"
      unfolding p(3) by (rule said_fill [OF l4(2)]) simp
    have "shared_ok lib (ML4OrderStatuses time height m1)"
      using assms(2) sent p(3) l4(2) by (auto simp: shared_ok_def frame_ok_def update_conv')
    then show ?thesis using sent p(2) l4 keep [OF same] assms(3) by (simp add: stream_reply_def said_get texts_def addrs_ok_def)
  next
    case user
    then have "send_ws_order_updates lib send u time height m s = (ok, s1)" "m1 = m"
      using assms(4) by (auto simp: send_order_statuses_def split: prod.splits)
    then show ?thesis using user_step [OF assms(1,3)] user keep assms(2) by simp
  next
    case none
    then show ?thesis using keep assms(2,3) by (simp add: texts_def)
  qed
qed

lemma owed_all: "concat (map (\<lambda>x. texts lib (r x)) xs) = map (response_text lib) (List.map_filter r xs)"
  by (induction xs) (auto simp: texts_def List.map_filter_def split: option.splits)

text \<open>The three arms.\<close>

lemma stream_message:
  assumes "json_total lib" "is_stream msg" "shared_ok lib msg" "addrs_ok lib s"
    and "on_message lib send now l2_hb bbo_hb msg s = (s', msg')"
  shows "sends (ss_alive s') (sent (ss_conn s)) (map (response_text lib) (List.map_filter (stream_reply lib msg) (subscriptions (ss_manager s)))) (sent (ss_conn s'))
    \<and> addrs_ok lib s' \<and> keeps lib msg msg'"
proof -
  let ?subs = "subscriptions (ss_manager s)"
  have refl: "keeps lib msg msg" using assms(3) by (simp add: keeps_def)
  have trans: "keeps lib msg m2" if "keeps lib msg m1" "keeps lib m1 m2" for m1 m2 using that by (simp add: keeps_def)
  have ok: "shared_ok lib m1" "stream_reply lib m1 sub = stream_reply lib msg sub" if "keeps lib msg m1" for m1 sub
    using that by (simp_all add: keeps_def)
  have alive: "addrs_ok lib (s\<lparr>ss_alive := a\<rparr>) = addrs_ok lib s" for a and s :: "'c session" by (simp add: addrs_ok_def)
  have addrs: "addrs_ok lib s1 = addrs_ok lib s" if "ss_user_addrs s1 = ss_user_addrs s" for s s1 :: "'c session"
    using that by (simp add: addrs_ok_def)
  show ?thesis
  proof (cases msg)
    case (MFills ts)
    let ?f = "\<lambda>sub st. case sub of STrades coin \<Rightarrow> send_trades lib send coin st | _ \<Rightarrow> (True, st)"
    obtain ts' where run: "for_subs ?f ?subs (s, ts) = (s', ts')" "msg' = MFills ts'"
      using assms(5) by (auto simp: on_message_def MFills map_prod_def split: prod.splits)
    have "sends (ss_alive s') (sent (ss_conn s)) (concat (map (\<lambda>sub. texts lib (stream_reply lib msg sub)) ?subs)) (sent (ss_conn s'))
        \<and> (addrs_ok lib s' \<and> keeps lib msg (MFills ts'))"
    proof (rule for_subs_sends [OF _ _ _ run(1)])
      fix sub and s :: "'c session" and m ok' s1 m1
      assume f: "?f sub (s, m) = (ok', s1, m1)" and I: "addrs_ok lib s \<and> keeps lib msg (MFills m)"
      show "sends ok' (sent (ss_conn s)) (texts lib (stream_reply lib msg sub)) (sent (ss_conn s1)) \<and> addrs_ok lib s1 \<and> keeps lib msg (MFills m1)"
        using trades_step [OF assms(1) ok(1) [OF conjunct2 [OF I]] f] I ok(2) addrs trans by metis
    qed (use assms(4) alive refl MFills in auto)
    then show ?thesis using run(2) by (simp add: owed_all)
  next
    case (ML4OrderDiffs time height ds)
    let ?f = "send_order_diffs lib send time height"
    obtain ds' where run: "for_subs ?f ?subs (s, ds) = (s', ds')" "msg' = ML4OrderDiffs time height ds'"
      using assms(5) by (auto simp: on_message_def ML4OrderDiffs map_prod_def split: prod.splits)
    have "sends (ss_alive s') (sent (ss_conn s)) (concat (map (\<lambda>sub. texts lib (stream_reply lib msg sub)) ?subs)) (sent (ss_conn s'))
        \<and> (addrs_ok lib s' \<and> keeps lib msg (ML4OrderDiffs time height ds'))"
    proof (rule for_subs_sends [OF _ _ _ run(1)])
      fix sub and s :: "'c session" and m ok' s1 m1
      assume f: "?f sub (s, m) = (ok', s1, m1)" and I: "addrs_ok lib s \<and> keeps lib msg (ML4OrderDiffs time height m)"
      show "sends ok' (sent (ss_conn s)) (texts lib (stream_reply lib msg sub)) (sent (ss_conn s1)) \<and> addrs_ok lib s1
          \<and> keeps lib msg (ML4OrderDiffs time height m1)"
        using diffs_step [OF assms(1) ok(1) [OF conjunct2 [OF I]] f] I ok(2) addrs trans by metis
    qed (use assms(4) alive refl ML4OrderDiffs in auto)
    then show ?thesis using run(2) by (simp add: owed_all)
  next
    case (ML4OrderStatuses time height ss)
    let ?f = "send_order_statuses lib send time height"
    obtain ss' where run: "for_subs ?f ?subs (s, ss) = (s', ss')" "msg' = ML4OrderStatuses time height ss'"
      using assms(5) by (auto simp: on_message_def ML4OrderStatuses map_prod_def split: prod.splits)
    have "sends (ss_alive s') (sent (ss_conn s)) (concat (map (\<lambda>sub. texts lib (stream_reply lib msg sub)) ?subs)) (sent (ss_conn s'))
        \<and> (addrs_ok lib s' \<and> keeps lib msg (ML4OrderStatuses time height ss'))"
    proof (rule for_subs_sends [OF _ _ _ run(1)])
      fix sub and s :: "'c session" and m ok' s1 m1
      assume f: "?f sub (s, m) = (ok', s1, m1)" and I: "addrs_ok lib s \<and> keeps lib msg (ML4OrderStatuses time height m)"
      show "sends ok' (sent (ss_conn s)) (texts lib (stream_reply lib msg sub)) (sent (ss_conn s1)) \<and> addrs_ok lib s1
          \<and> keeps lib msg (ML4OrderStatuses time height m1)"
        using statuses_step [OF assms(1) ok(1) [OF conjunct2 [OF I]] conjunct1 [OF I] f] I ok(2) trans by metis
    qed (use assms(4) alive refl ML4OrderStatuses in auto)
    then show ?thesis using run(2) by (simp add: owed_all)
  qed (use assms(2) in \<open>simp_all add: is_stream_def\<close>)
qed

end

text \<open>What the listener broadcasts is honest: its frames are not filled in yet.\<close>

lemma broadcast_shared_ok:
  "shared_ok lib (ML4OrderDiffs time height (group_diffs_by_coin ds skip_spot))"
  "shared_ok lib (ML4OrderStatuses time height (group_statuses_by_coin ss))"
  "shared_ok lib (MFills (fst (group_fills b st)))"
  by (auto simp: shared_ok_def frame_ok_def group_diffs_by_coin_def group_statuses_by_coin_def group_fills_def shared_frame_new_def
      map_of_map Let_def split_beta)

section \<open>Properties\<close>

text \<open>
  C11. The streams are exact: for a message of trades, book diffs or order statuses a session sends every subscription
  what the message says of its coin or user, in the order of its subscriptions and nothing else, whichever session
  serialized a frame first; what it leaves in the message is again honest. If the connection is given up meanwhile,
  a part of that was sent.
\<close>

theorem streams_exact:
  assumes "json_total lib" "is_stream msg" "shared_ok lib msg" "addrs_ok lib s"
    and "on_message lib (queue_send W) now l2_hb bbo_hb msg s = (s', msg')"
  shows "sends (ss_alive s') (accepted_data (ss_conn s))
      (map (response_text lib) (List.map_filter (stream_reply lib msg) (subscriptions (ss_manager s)))) (accepted_data (ss_conn s'))
    \<and> addrs_ok lib s' \<and> shared_ok lib msg'"
  using queue.stream_message [OF assms] by (auto simp: keeps_def)

definition sample_trades :: internal_message where
  "sample_trades = MFills [(''BTC'', \<lparr>ct_trades = [], ct_frame = None\<rparr>), (''ETH'', \<lparr>ct_trades = [], ct_frame = Some ''json''\<rparr>)]"

definition sample_trader :: "outbound_conn session" where
  "sample_trader = (session_new conn_new {''BTC'', ''ETH''})\<lparr>ss_manager := \<lparr>subscriptions = [STrades ''ETH'', SBbo ''BTC'', STrades ''BTC'']\<rparr>\<rparr>"

theorem streams_exact_witness:
  "let (s', msg') = on_message sample_lib (queue_send (\<lambda>k. [])) 0 False False sample_trades sample_trader
   in sends (ss_alive s') [] [''json'', ''json''] (accepted_data (ss_conn s')) \<and> shared_ok sample_lib msg'"
proof -
  have h: "json_total sample_lib" "is_stream sample_trades" "shared_ok sample_lib sample_trades" "addrs_ok sample_lib sample_trader"
    by (auto simp: json_total_def sample_lib_def is_stream_def sample_trades_def shared_ok_def frame_ok_def response_text_def
        addrs_ok_def sample_trader_def session_new_def)
  have "map (response_text sample_lib) (List.map_filter (stream_reply sample_lib sample_trades) (subscriptions (ss_manager sample_trader)))
      = [''json'', ''json'']"
    by code_simp
  moreover have "accepted_data (ss_conn sample_trader) = []"
    by (simp add: sample_trader_def session_new_def conn_new_def accepted_data_def)
  ultimately show ?thesis
    using streams_exact [OF h prod.collapse [symmetric], of "\<lambda>k. []" 0 False False] by (simp add: split_beta Let_def)
qed

end
