(* ===== verification/Diff_Channel.thy ===== *)
theory Diff_Channel
  imports Session_Answers Conflation
begin

text \<open>
  The \<open>l2Diff\<close> channel end to end: what the listener's flushes promise (\<open>feeds\<close>), what a session makes of them
  (\<open>send_ws_data_from_l2_diff\<close>), and what a client that follows the protocol holds.

  \<^item> \<open>diff_feed\<close> takes one subscription through the flushes in order; a flush that the broadcast channel dropped
    before the session saw it is \<open>Missed\<close>, after which the session re-serves in full.
  \<^item> \<open>client_step\<close> is the client of the documentation: a snapshot replaces its book, an update is applied if
    \<open>prevHeight\<close> is the height it holds, and is a gap (\<open>None\<close>) otherwise.
  \<^item> \<open>diffs_honest\<close>: the entries other sessions left in the shared cache of a message are the diffs of that message.
  \<^item> The lemmas about sending are proved in the locale \<open>sender\<close>, and used for the queue.

  Shown: a client never sees a gap, and after every flush that shows its coin it holds exactly the levels of that
  flush; the listener's flushes satisfy \<open>feeds\<close>; the cache key of a subscription identifies it.
\<close>

section \<open>The key of a subscription\<close>

lemma show_int_no_colon:
  assumes "0 \<le> n"
  shows "CHR '':'' \<notin> set (show_int n)"
proof
  assume "CHR '':'' \<in> set (show_int n)"
  then have "is_digit CHR '':''" using show_int_digits [OF assms] by (auto simp: list_all_iff)
  then show False by (simp add: is_digit_def)
qed

lemma show_int_inj: "0 \<le> m \<Longrightarrow> 0 \<le> n \<Longrightarrow> show_int m = show_int n \<Longrightarrow> m = n"
  using show_int_digits [of m] show_int_digits [of n] by metis

text \<open>Splitting at the last colon.\<close>

lemma last_field:
  "c \<notin> set b \<Longrightarrow> c \<notin> set b' \<Longrightarrow> a @ c # b = a' @ c # b' \<longleftrightarrow> a = a' \<and> b = b'"
proof
  assume n: "c \<notin> set b" "c \<notin> set b'" and e: "a @ c # b = a' @ c # b'"
  have "takeWhile (\<lambda>x. x \<noteq> c) (rev (x @ c # y)) = rev y" if "c \<notin> set y" for x y
  proof -
    have "takeWhile (\<lambda>x. x \<noteq> c) (rev y @ c # rev x) = rev y @ takeWhile (\<lambda>x. x \<noteq> c) (c # rev x)"
      using that by (intro takeWhile_append2) auto
    then show ?thesis by simp
  qed
  then have "rev b = rev b'" using n e by metis
  then show "a = a' \<and> b = b'" using e by simp
qed simp

lemma l2_cache_key_fields:
  "l2_cache_key c nsf man nl = l2_cache_key c' nsf' man' nl' \<longleftrightarrow>
     c = c' \<and> or_default 0 nsf = or_default 0 nsf' \<and> or_default 0 man = or_default 0 man'
     \<and> or_default default_levels nl = or_default default_levels nl'"
proof
  assume e: "l2_cache_key c nsf man nl = l2_cache_key c' nsf' man' nl'"
  note no = show_int_no_colon [OF of_nat_0_le_iff] show_int_no_colon [OF uint_nonnegative]
  have "((c @ '':'' @ show_int (int (or_default 0 nsf))) @ '':'' @ show_int (uint (or_default 0 man)))
        @ CHR '':'' # show_int (int (or_default default_levels nl))
      = ((c' @ '':'' @ show_int (int (or_default 0 nsf'))) @ '':'' @ show_int (uint (or_default 0 man')))
        @ CHR '':'' # show_int (int (or_default default_levels nl'))"
    using e by (simp add: l2_cache_key_def)
  then have 1: "(c @ '':'' @ show_int (int (or_default 0 nsf))) @ CHR '':'' # show_int (uint (or_default 0 man))
        = (c' @ '':'' @ show_int (int (or_default 0 nsf'))) @ CHR '':'' # show_int (uint (or_default 0 man'))"
    and l: "show_int (int (or_default default_levels nl)) = show_int (int (or_default default_levels nl'))"
    unfolding last_field [OF no(1) no(1)] by simp_all
  then have 2: "c @ CHR '':'' # show_int (int (or_default 0 nsf)) = c' @ CHR '':'' # show_int (int (or_default 0 nsf'))"
    and m: "show_int (uint (or_default 0 man)) = show_int (uint (or_default 0 man'))"
    unfolding last_field [OF no(2) no(2)] by simp_all
  then have "c = c'" and n: "show_int (int (or_default 0 nsf)) = show_int (int (or_default 0 nsf'))"
    unfolding last_field [OF no(1) no(1)] by simp_all
  then show "c = c' \<and> or_default 0 nsf = or_default 0 nsf' \<and> or_default 0 man = or_default 0 man'
     \<and> or_default default_levels nl = or_default default_levels nl'"
    using show_int_inj [OF _ _ n] show_int_inj [OF _ _ m] show_int_inj [OF _ _ l] by (simp add: word_uint_eq_iff)
qed (simp add: l2_cache_key_def)

text \<open>Validation excludes the parameters that the defaults stand for.\<close>

lemma validate_l2_fields:
  assumes "validate_l2 u c nsf nl man"
  shows "nsf \<noteq> Some 0 \<and> man \<noteq> Some 0 \<and> nl \<noteq> Some default_levels"
  using assms by (auto simp: validate_l2_def split: if_splits option.splits)

lemma or_default_inj: "x \<noteq> Some d \<Longrightarrow> y \<noteq> Some d \<Longrightarrow> or_default d x = or_default d y \<longleftrightarrow> x = y"
  by (cases x; cases y) (auto simp: or_default_def)

section \<open>What a flush shows a subscription\<close>

definition shown :: "string \<Rightarrow> nat option \<Rightarrow> u64 option \<Rightarrow> nat \<Rightarrow> snapshot_msg \<Rightarrow> level list \<times> level list" where
  "shown coin nsf man depth m = or_default ([], []) (diff_export coin nsf man depth (sm_l2_snapshots m))"

definition shows_coin :: "string \<Rightarrow> snapshot_msg \<Rightarrow> bool" where
  "shows_coin coin m \<longleftrightarrow> hm_contains (sm_l2_snapshots m) (Coin coin)"

definition feeds :: "string \<Rightarrow> nat option \<Rightarrow> u64 option \<Rightarrow> nat \<Rightarrow> snapshot_msg \<Rightarrow> snapshot_msg \<Rightarrow> bool" where
  "feeds coin nsf man depth m1 m2 \<longleftrightarrow>
     (hm_contains (sm_previous m2) (Coin coin) \<longrightarrow>
        shows_coin coin m1 \<and> diff_export coin nsf man depth (sm_previous m2) = Some (shown coin nsf man depth m1))
     \<and> (Coin coin \<notin> sm_dirty m2 \<and> shows_coin coin m2 \<longrightarrow>
        shows_coin coin m1 \<and> shown coin nsf man depth m2 = shown coin nsf man depth m1)"

definition diffs_honest :: "string \<Rightarrow> nat option \<Rightarrow> u64 option \<Rightarrow> nat \<Rightarrow> snapshot_msg \<Rightarrow> bool" where
  "diffs_honest coin nsf man depth m \<longleftrightarrow>
     (\<forall>v. frame_lookup (l2_frame_key_new coin nsf man depth) (sm_l2_diff_frames m) = Some v \<longrightarrow>
        v = diff_build coin nsf man depth (sm_previous m) (sm_l2_snapshots m))"

lemma get_or_build_value:
  assumes "\<And>v. frame_lookup k c = Some v \<Longrightarrow> v = build ()"
  shows "fst (get_or_build k build c) = build ()"
  using assms by (auto simp: get_or_build_def frame_lookup_def frame_publish_def split: option.splits)

text \<open>Sessions leave a message as honest as they find it, whatever subscription they serve from it.\<close>

lemma get_or_build_lookup:
  "frame_lookup k (snd (get_or_build k' build c)) = Some v \<Longrightarrow> frame_lookup k c = Some v \<or> k = k' \<and> v = build ()"
  by (auto simp: get_or_build_def frame_lookup_def frame_publish_def update_conv' split: option.splits if_splits)

lemma diffs_honest_kept:
  assumes "diffs_honest coin nsf man depth m"
  shows "diffs_honest coin nsf man depth (snd (snd (send_ws_data_from_l2_diff lib send sub (s, m))))"
proof -
  let ?m1 = "snd (snd (send_ws_data_from_l2_diff lib send sub (s, m)))"
  have "?m1 = m \<or> (\<exists>c n a d. ?m1 = m\<lparr>sm_l2_diff_frames := snd (get_or_build (l2_frame_key_new c n a d)
      (\<lambda>_. diff_build c n a d (sm_previous m) (sm_l2_snapshots m)) (sm_l2_diff_frames m))\<rparr>)"
    by (cases sub) (auto simp: send_ws_data_from_l2_diff_def Let_def split_beta split: option.split sum.split)
  then show ?thesis
    using assms by (auto simp: diffs_honest_def l2_frame_key_new_def dest!: get_or_build_lookup)
qed

section \<open>The client\<close>

type_synonym client_side = "(string, string \<times> nat) hash_map"
type_synonym client_book = "(client_side \<times> client_side) \<times> u64"

fun client_step :: "l2_diff \<Rightarrow> client_book option \<Rightarrow> client_book option" where
  "client_step (L2Snapshot d) cl = Some ((side_map (fst (ds_levels d)), side_map (snd (ds_levels d))), ds_height d)"
| "client_step (L2Updates u) None = None"
| "client_step (L2Updates u) (Some ((b, a), h)) =
     (if du_prev_height u = h then Some ((side_apply (du_bids u) b, side_apply (du_asks u) a), du_height u) else None)"

text \<open>Every message is understood.\<close>

fun no_gap :: "client_book option \<Rightarrow> l2_diff list \<Rightarrow> bool" where
  "no_gap cl [] = True"
| "no_gap cl (r # rs) = (client_step r cl \<noteq> None \<and> no_gap (client_step r cl) rs)"

lemma no_gap_append: "no_gap cl (rs @ rs') \<longleftrightarrow> no_gap cl rs \<and> no_gap (fold client_step rs cl) rs'"
  by (induction rs arbitrary: cl) auto

definition client_holds :: "level list \<times> level list \<Rightarrow> client_book option \<Rightarrow> bool" where
  "client_holds v cl \<longleftrightarrow> (\<exists>b a h. cl = Some ((b, a), h) \<and> hm_ok b \<and> hm_ok a
     \<and> map_of b = side_view (fst v) \<and> map_of a = side_view (snd v))"

definition one_per_px_view :: "level list \<times> level list \<Rightarrow> bool" where
  "one_per_px_view v \<longleftrightarrow> one_per_px (fst v) \<and> one_per_px (snd v)"

section \<open>One subscription through the flushes\<close>

datatype feed_event = Served snapshot_msg | Missed snapshot_msg

fun feed_msg :: "feed_event \<Rightarrow> snapshot_msg" where
  "feed_msg (Served m) = m"
| "feed_msg (Missed m) = m"

fun diff_feed ::
  "session_lib \<Rightarrow> (string \<Rightarrow> 'c \<Rightarrow> bool \<times> 'c) \<Rightarrow> subscription \<Rightarrow> feed_event list \<Rightarrow> 'c session \<Rightarrow> 'c session" where
  "diff_feed lib send sub [] s = s"
| "diff_feed lib send sub (Served m # evs) s =
     (let (ok, s1, m1) = send_ws_data_from_l2_diff lib send sub (s, m)
      in diff_feed lib send sub evs (s1\<lparr>ss_force_full := False, ss_alive := ss_alive s1 \<and> ok\<rparr>))"
| "diff_feed lib send sub (Missed m # evs) s = diff_feed lib send sub evs (s\<lparr>ss_force_full := True\<rparr>)"

lemma diff_feed_alive: "ss_alive (diff_feed lib send sub evs s) \<Longrightarrow> ss_alive s"
proof (induction evs arbitrary: s)
  case (Cons e evs)
  show ?case
  proof (cases e)
    case (Missed m)
    then show ?thesis using Cons.IH [of "s\<lparr>ss_force_full := True\<rparr>"] Cons.prems by simp
  next
    case (Served m)
    have "ss_alive (fst (snd (send_ws_data_from_l2_diff lib send sub (s, m)))) = ss_alive s"
      by (auto simp: send_ws_data_from_l2_diff_def Let_def put_frame_def split_beta split: subscription.split option.split sum.split)
    moreover obtain ok s1 m1 where r: "send_ws_data_from_l2_diff lib send sub (s, m) = (ok, s1, m1)"
      by (metis prod.collapse)
    moreover have "ss_alive (s1\<lparr>ss_force_full := False, ss_alive := ss_alive s1 \<and> ok\<rparr>)"
      by (rule Cons.IH) (use Cons.prems Served r in simp)
    ultimately show ?thesis by simp
  qed
qed simp

text \<open>It is what the session does with the subscription as its only one: \<open>Served\<close> is the \<open>Snapshot\<close> arm, \<open>Missed\<close> the \<open>Lagged\<close> one.\<close>

lemma diff_feed_served:
  assumes "subscriptions (ss_manager s) = [SL2Diff coin nsf nl man]" "ss_alive s" "sm_universe m = None"
  shows "diff_feed lib send (SL2Diff coin nsf nl man) [Served m] s = fst (on_snapshot lib send now store (s, m))"
  using assms by (simp add: on_snapshot_def split_beta Let_def)

lemma diff_feed_missed:
  "diff_feed lib send sub [Missed m] s = fst (snd (session_step lib send pong cfg now EvLagged (s, rg)))"
  by (simp add: session_step_def)

text \<open>The flushes follow each other as the listener's do.\<close>

fun linked :: "string \<Rightarrow> nat option \<Rightarrow> u64 option \<Rightarrow> nat \<Rightarrow> snapshot_msg option \<Rightarrow> feed_event list \<Rightarrow> bool" where
  "linked coin nsf man depth p [] = True"
| "linked coin nsf man depth p (e # es) =
     ((case p of None \<Rightarrow> True | Some m0 \<Rightarrow> feeds coin nsf man depth m0 (feed_msg e)) \<and> linked coin nsf man depth (Some (feed_msg e)) es)"

definition encode :: "session_lib \<Rightarrow> l2_diff \<Rightarrow> string" where
  "encode lib r = response_text lib (RL2Diff r)"

lemma json_total_encode: "json_total lib \<Longrightarrow> sl_to_json lib (RL2Diff r) = Inr (encode lib r) \<and> encode lib r \<noteq> []"
  unfolding encode_def by (rule json_total_text)

text \<open>The three ways an l2Diff subscription is served.\<close>

definition full_reply :: "string \<Rightarrow> nat option \<Rightarrow> u64 option \<Rightarrow> nat \<Rightarrow> snapshot_msg \<Rightarrow> l2_diff" where
  "full_reply coin nsf man depth m =
     L2Snapshot \<lparr>ds_coin = coin, ds_time = sm_time m, ds_height = sm_height m, ds_n_sig_figs = nsf,
       ds_mantissa = man, ds_n_levels = Some depth, ds_levels = shown coin nsf man depth m\<rparr>"

lemma serve_full:
  assumes "hm_get (ss_last_l2_diff s) (l2_cache_key coin nsf man nl) = None \<or> ss_force_full s \<or> \<not> hm_contains (sm_previous m) (Coin coin)"
    and "hm_get (ss_last_l2_diff s) (l2_cache_key coin nsf man nl) = None \<or> ss_force_full s \<or> Coin coin \<in> sm_dirty m"
    and "sl_to_json lib (RL2Diff (full_reply coin nsf man (or_default default_levels nl) m)) = Inr f"
    and "send_ws_data_from_l2_diff lib send (SL2Diff coin nsf nl man) (s, m) = (ok, s1, m1)"
  shows "put_frame send f (s\<lparr>ss_last_l2_diff := hm_insert (l2_cache_key coin nsf man nl) (sm_height m) (ss_last_l2_diff s)\<rparr>) = (ok, s1)"
  using assms
  by (cases "hm_get (ss_last_l2_diff s) (l2_cache_key coin nsf man nl)"; cases "ss_force_full s"; cases "hm_get (sm_previous m) (Coin coin)")
    (simp_all add: send_ws_data_from_l2_diff_def Let_def full_reply_def shown_def split: prod.splits)

lemma serve_quiet:
  assumes "hm_get (ss_last_l2_diff s) (l2_cache_key coin nsf man nl) \<noteq> None" "\<not> ss_force_full s" "Coin coin \<notin> sm_dirty m"
    and "send_ws_data_from_l2_diff lib send (SL2Diff coin nsf nl man) (s, m) = (ok, s1, m1)"
  shows "ok \<and> s1 = s"
  using assms
  by (cases "hm_get (sm_previous m) (Coin coin)") (auto simp: send_ws_data_from_l2_diff_def Let_def)

lemma serve_diff:
  assumes "hm_get (ss_last_l2_diff s) (l2_cache_key coin nsf man nl) = Some h" "\<not> ss_force_full s" "hm_contains (sm_previous m) (Coin coin)"
    and "Coin coin \<in> sm_dirty m" "depth = or_default default_levels nl"
    and "fst (get_or_build (l2_frame_key_new coin nsf man depth)
      (\<lambda>_. diff_build coin nsf man depth (sm_previous m) (sm_l2_snapshots m)) (sm_l2_diff_frames m)) = built"
    and "send_ws_data_from_l2_diff lib send (SL2Diff coin nsf nl man) (s, m) = (ok, s1, m1)"
  shows "case built of None \<Rightarrow> ok \<and> s1 = s
    | Some sides \<Rightarrow> \<forall>f. sl_to_json lib (RL2Diff (l2_diff_updates_new coin (sm_time m) (sm_height m) h nsf man (Some depth) (fst sides) (snd sides))) = Inr f \<longrightarrow>
        put_frame send f (s\<lparr>ss_last_l2_diff := hm_insert (l2_cache_key coin nsf man nl) (sm_height m) (ss_last_l2_diff s)\<rparr>) = (ok, s1)"
proof -
  obtain fr where g: "get_or_build (l2_frame_key_new coin nsf man depth)
      (\<lambda>_. diff_build coin nsf man depth (sm_previous m) (sm_l2_snapshots m)) (sm_l2_diff_frames m) = (built, fr)"
    using assms(6) by (metis prod.collapse)
  obtain pv where p: "hm_get (sm_previous m) (Coin coin) = Some pv" using assms(3) by blast
  have "or_default (sm_height m) (Some h) = h" by (simp add: or_default_def)
  then show ?thesis
    using assms(1,2,4,7) g p unfolding assms(5)
    by (cases built) (simp_all add: send_ws_data_from_l2_diff_def Let_def split: prod.splits sum.splits)
qed

context sender
begin

lemma put_frame_sent:
  assumes "put_frame send f s = (True, s')" "f \<noteq> []"
  shows "sent (ss_conn s') = sent (ss_conn s) @ [f] \<and> s' = s\<lparr>ss_conn := ss_conn s'\<rparr>"
  using assms send_frame_True [of f "ss_conn s"]
  by (auto simp: put_frame_def Let_def split: prod.splits)

lemma select_convs_served:
  "sent (ss_conn s1) = sent (ss_conn (s\<lparr>ss_last_l2_diff := x\<rparr>)) @ [f] \<and> s1 = (s\<lparr>ss_last_l2_diff := x\<rparr>)\<lparr>ss_conn := c\<rparr> \<Longrightarrow>
     sent (ss_conn s1) = sent (ss_conn s) @ [f]"
  "sent (ss_conn s1) = sent (ss_conn (s\<lparr>ss_last_l2_diff := x\<rparr>)) @ [f] \<and> s1 = (s\<lparr>ss_last_l2_diff := x\<rparr>)\<lparr>ss_conn := c\<rparr> \<Longrightarrow>
     ss_last_l2_diff s1 = x"
  by (simp, (elim conjE, simp)?)+

text \<open>What one flush adds for the subscription: at most one reply, which takes the client to what the flush shows.\<close>

lemma serve_one:
  assumes "json_total lib" "feeds coin nsf man depth m0 m \<or> cl = None" "depth = or_default default_levels nl"
    and "diffs_honest coin nsf man depth m" "one_per_px_view (shown coin nsf man depth m0)" "one_per_px_view (shown coin nsf man depth m)"
    and rec: "hm_get (ss_last_l2_diff s) (l2_cache_key coin nsf man nl) = map_option snd cl"
    and cur: "cl \<noteq> None \<Longrightarrow> \<not> ss_force_full s \<Longrightarrow> shows_coin coin m0 \<Longrightarrow> client_holds (shown coin nsf man depth m0) cl"
    and r: "send_ws_data_from_l2_diff lib send (SL2Diff coin nsf nl man) (s, m) = (True, s1, m1)"
  shows "\<exists>rs. sent (ss_conn s1) = sent (ss_conn s) @ map (encode lib) rs
    \<and> hm_get (ss_last_l2_diff s1) (l2_cache_key coin nsf man nl) = map_option snd (fold client_step rs cl)
    \<and> fold client_step rs cl \<noteq> None \<and> no_gap cl rs
    \<and> (shows_coin coin m \<or> Coin coin \<in> sm_dirty m \<longrightarrow> client_holds (shown coin nsf man depth m) (fold client_step rs cl))"
proof -
  let ?key = "l2_cache_key coin nsf man nl" and ?new = "shown coin nsf man depth m"
  let ?prev = "hm_contains (sm_previous m) (Coin coin)" and ?dirty = "Coin coin \<in> sm_dirty m"
  let ?served = "s\<lparr>ss_last_l2_diff := hm_insert ?key (sm_height m) (ss_last_l2_diff s)\<rparr>"
  have caught: "hm_get (ss_last_l2_diff s) ?key = None \<longleftrightarrow> cl = None" using rec by simp
  consider (full) "cl = None \<or> ss_force_full s \<or> \<not> ?prev" "cl = None \<or> ss_force_full s \<or> ?dirty"
    | (quiet) "cl \<noteq> None" "\<not> ss_force_full s" "\<not> ?dirty"
    | (diff) "cl \<noteq> None" "\<not> ss_force_full s" "?prev" "?dirty" by blast
  then show ?thesis
  proof cases
    case full
    let ?snap = "full_reply coin nsf man depth m"
    note enc = json_total_encode [OF assms(1), of ?snap]
    have "put_frame send (encode lib ?snap) ?served = (True, s1)"
      using serve_full [OF _ _ _ r] full caught enc unfolding assms(3) by blast
    from put_frame_sent [OF this conjunct2 [OF enc]]
    have s1: "sent (ss_conn s1) = sent (ss_conn s) @ [encode lib ?snap]" "ss_last_l2_diff s1 = hm_insert ?key (sm_height m) (ss_last_l2_diff s)"
      by (rule select_convs_served(1), rule select_convs_served(2))
    have "client_holds ?new (client_step ?snap cl)"
      using assms(6) by (simp add: full_reply_def client_holds_def side_map_ok side_map_view one_per_px_view_def)
    then show ?thesis using s1 by (intro exI [of _ "[?snap]"]) (simp add: update_conv' full_reply_def)
  next
    case quiet
    then have "s1 = s" using serve_quiet [OF _ _ _ r] caught by blast
    moreover have "client_holds ?new cl" if "shows_coin coin m"
      using that quiet assms(2) cur unfolding feeds_def by metis
    ultimately show ?thesis using quiet rec by (intro exI [of _ "[]"]) simp
  next
    case diff
    let ?old = "shown coin nsf man depth m0"
    have pv: "diff_export coin nsf man depth (sm_previous m) = Some ?old" "shows_coin coin m0"
      using diff assms(2) by (auto simp: feeds_def)
    obtain b a h where cl: "cl = Some ((b, a), h)" "hm_ok b" "hm_ok a" "map_of b = side_view (fst ?old)" "map_of a = side_view (snd ?old)"
      using cur [OF diff(1,2) pv(2)] by (auto simp: client_holds_def)
    let ?bs = "between (fst ?old) (fst ?new)" and ?as = "between (snd ?old) (snd ?new)"
    have view: "map_of b = map_of (side_map (fst ?old))" "map_of a = map_of (side_map (snd ?old))"
      using cl assms(5) by (simp_all add: side_map_view one_per_px_view_def)
    let ?built = "fst (get_or_build (l2_frame_key_new coin nsf man depth)
      (\<lambda>_. diff_build coin nsf man depth (sm_previous m) (sm_l2_snapshots m)) (sm_l2_diff_frames m))"
    have built: "?built = (if side_diff_is_empty ?bs \<and> side_diff_is_empty ?as then None else Some (?bs, ?as))"
      using assms(4) by (subst get_or_build_value) (auto simp: diffs_honest_def diff_build_def pv(1) shown_def Let_def)
    have got: "hm_get (ss_last_l2_diff s) ?key = Some h" using rec cl(1) by simp
    note served = serve_diff [OF got diff(2-4) assms(3) refl r]
    show ?thesis
    proof (cases "side_diff_is_empty ?bs \<and> side_diff_is_empty ?as")
      case True
      then have "side_view (fst ?old) = side_view (fst ?new)" "side_view (snd ?old) = side_view (snd ?new)"
        using assms(5,6) side_diff_is_empty_iff by (auto simp: one_per_px_view_def)
      then have "client_holds ?new cl" using cl by (simp add: client_holds_def)
      moreover have "s1 = s" using served built True by simp
      ultimately show ?thesis using rec diff(1) by (intro exI [of _ "[]"]) simp
    next
      case False
      let ?upd = "l2_diff_updates_new coin (sm_time m) (sm_height m) h nsf man (Some depth) ?bs ?as"
      note enc = json_total_encode [OF assms(1), of ?upd]
      have "put_frame send (encode lib ?upd) ?served = (True, s1)"
        using served built False enc by simp
      from put_frame_sent [OF this conjunct2 [OF enc]]
      have s1: "sent (ss_conn s1) = sent (ss_conn s) @ [encode lib ?upd]" "ss_last_l2_diff s1 = hm_insert ?key (sm_height m) (ss_last_l2_diff s)"
        by (rule select_convs_served(1), rule select_convs_served(2))
      have "client_holds ?new (client_step ?upd cl)"
        using assms(6) side_apply_between [OF _ cl(2) view(1)] side_apply_between [OF _ cl(3) view(2)] cl
        by (simp add: l2_diff_updates_new_def client_holds_def side_apply_ok one_per_px_view_def)
      then show ?thesis using s1 cl(1) by (intro exI [of _ "[?upd]"]) (simp add: update_conv' l2_diff_updates_new_def)
    qed
  qed
qed

lemma feed_all:
  assumes "json_total lib" "depth = or_default default_levels nl"
    and "linked coin nsf man depth p evs" "p = None \<Longrightarrow> cl = None" "\<And>m0. p = Some m0 \<Longrightarrow> one_per_px_view (shown coin nsf man depth m0)"
    and "\<forall>e \<in> set evs. diffs_honest coin nsf man depth (feed_msg e) \<and> one_per_px_view (shown coin nsf man depth (feed_msg e))"
    and "hm_get (ss_last_l2_diff s) (l2_cache_key coin nsf man nl) = map_option snd cl"
    and "\<And>m0. cl \<noteq> None \<Longrightarrow> \<not> ss_force_full s \<Longrightarrow> p = Some m0 \<Longrightarrow> shows_coin coin m0 \<Longrightarrow> client_holds (shown coin nsf man depth m0) cl"
    and "ss_alive (diff_feed lib send (SL2Diff coin nsf nl man) evs s)"
  shows "\<exists>rs. sent (ss_conn (diff_feed lib send (SL2Diff coin nsf nl man) evs s)) = sent (ss_conn s) @ map (encode lib) rs
    \<and> no_gap cl rs
    \<and> (\<forall>es m. evs = es @ [Served m] \<longrightarrow> shows_coin coin m \<or> Coin coin \<in> sm_dirty m \<longrightarrow>
         client_holds (shown coin nsf man depth m) (fold client_step rs cl))"
  using assms(3-9)
proof (induction evs arbitrary: p s cl)
  case Nil
  then show ?case by (intro exI [of _ "[]"]) simp
next
  case (Cons e evs)
  show ?case
  proof (cases e)
    case (Missed m)
    have "\<exists>rs. sent (ss_conn (diff_feed lib send (SL2Diff coin nsf nl man) evs (s\<lparr>ss_force_full := True\<rparr>)))
        = sent (ss_conn (s\<lparr>ss_force_full := True\<rparr>)) @ map (encode lib) rs \<and> no_gap cl rs
      \<and> (\<forall>es m. evs = es @ [Served m] \<longrightarrow> shows_coin coin m \<or> Coin coin \<in> sm_dirty m \<longrightarrow>
           client_holds (shown coin nsf man depth m) (fold client_step rs cl))"
      by (rule Cons.IH [of "Some m"]) (use Cons.prems Missed in auto)
    then show ?thesis using Missed by (auto simp: append_eq_Cons_conv Cons_eq_append_conv)
  next
    case (Served m)
    obtain ok s1 m1 where r: "send_ws_data_from_l2_diff lib send (SL2Diff coin nsf nl man) (s, m) = (ok, s1, m1)"
      by (metis prod.collapse)
    let ?s1 = "s1\<lparr>ss_force_full := False, ss_alive := ss_alive s1 \<and> ok\<rparr>"
    have feed: "diff_feed lib send (SL2Diff coin nsf nl man) (e # evs) s = diff_feed lib send (SL2Diff coin nsf nl man) evs ?s1"
      by (simp add: Served r)
    have ok: ok using diff_feed_alive [of lib send "SL2Diff coin nsf nl man" evs ?s1] Cons.prems(7) unfolding feed by simp
    obtain m0 where m0: "feeds coin nsf man depth m0 m \<or> cl = None" "one_per_px_view (shown coin nsf man depth m0)"
      "cl \<noteq> None \<Longrightarrow> p = Some m0"
    proof (cases p)
      case None
      then show thesis using that [of m] Cons.prems(2,4) Served by auto
    next
      case (Some m0)
      then show thesis using that [of m0] Cons.prems(1,3) Served by auto
    qed
    have hm: "diffs_honest coin nsf man depth m" "one_per_px_view (shown coin nsf man depth m)"
      using Cons.prems(4) Served by auto
    have cur: "client_holds (shown coin nsf man depth m0) cl" if "cl \<noteq> None" "\<not> ss_force_full s" "shows_coin coin m0"
      using Cons.prems(6) [of m0] m0(3) that by blast
    have r': "send_ws_data_from_l2_diff lib send (SL2Diff coin nsf nl man) (s, m) = (True, s1, m1)" using r ok by simp
    obtain rs where rs: "sent (ss_conn s1) = sent (ss_conn s) @ map (encode lib) rs"
      "hm_get (ss_last_l2_diff s1) (l2_cache_key coin nsf man nl) = map_option snd (fold client_step rs cl)"
      "fold client_step rs cl \<noteq> None" "no_gap cl rs"
      "shows_coin coin m \<or> Coin coin \<in> sm_dirty m \<longrightarrow> client_holds (shown coin nsf man depth m) (fold client_step rs cl)"
      using serve_one [OF assms(1) m0(1) assms(2) hm(1) m0(2) hm(2) Cons.prems(5) cur r'] by blast
    have "\<exists>rs'. sent (ss_conn (diff_feed lib send (SL2Diff coin nsf nl man) evs ?s1)) = sent (ss_conn ?s1) @ map (encode lib) rs'
        \<and> no_gap (fold client_step rs cl) rs'
        \<and> (\<forall>es m. evs = es @ [Served m] \<longrightarrow> shows_coin coin m \<or> Coin coin \<in> sm_dirty m \<longrightarrow>
             client_holds (shown coin nsf man depth m) (fold client_step rs' (fold client_step rs cl)))"
      by (rule Cons.IH [of "Some m"]) (use Cons.prems Served rs feed hm in auto)
    then obtain rs' where rs': "sent (ss_conn (diff_feed lib send (SL2Diff coin nsf nl man) evs ?s1)) = sent (ss_conn s1) @ map (encode lib) rs'"
      "no_gap (fold client_step rs cl) rs'"
      "\<forall>es m. evs = es @ [Served m] \<longrightarrow> shows_coin coin m \<or> Coin coin \<in> sm_dirty m \<longrightarrow>
             client_holds (shown coin nsf man depth m) (fold client_step (rs @ rs') cl)" by auto
    have "client_holds (shown coin nsf man depth m') (fold client_step (rs @ rs') cl)"
      if split: "e # evs = es @ [Served m']" and vis: "shows_coin coin m' \<or> Coin coin \<in> sm_dirty m'" for es m'
    proof (cases "evs = []")
      case True
      then have "m' = m" using split Served by (auto simp: append_eq_Cons_conv Cons_eq_append_conv)
      moreover have "rs' = []" using True rs'(1) by simp
      ultimately show ?thesis using rs(5) vis by (metis append_Nil2)
    next
      case False
      then obtain es' where "evs = es' @ [Served m']" using split by (cases es) auto
      then show ?thesis using rs'(3) vis by blast
    qed
    then show ?thesis
      unfolding feed using rs rs'(1,2) by (intro exI [of _ "rs @ rs'"]) (simp add: no_gap_append)
  qed
qed

end

section \<open>The listener's flushes feed the channel\<close>

lemma diff_export_cong: "hm_get src (Coin coin) = hm_get src' (Coin coin) \<Longrightarrow> diff_export coin nsf man depth src = diff_export coin nsf man depth src'"
  by (simp add: diff_export_def)

lemma flush_parts_l2:
  assumes f: "flush_l2_if_due L now rcv l = Some ([MSnapshot m], l')"
  obtains st :: order_book_state and a cache0 rec csc where "cache0 = [] \<or> cache0 = ls_l2_cache l"
    "compute_l2_snapshots_incremental L (st_order_book st) (sorted_list_of_set (ls_pending_dirty l)) a cache0 = Some (sm_l2_snapshots m, rec, csc)"
    "sm_dirty m = rec" "sm_previous m = filter (\<lambda>(c, v). c \<in> ls_pending_dirty l) cache0" "sm_l2_diff_frames m = frame_cache_new"
    "sm_l2_frames m = frame_cache_new"
proof -
  let ?l1 = "l\<lparr>ls_last_l2 := Some now\<rparr>"
  define a where "a = params_snapshot (ls_active_params ?l1)"
  define l2 where "l2 = (if set a \<noteq> set (ls_last_active ?l1) then ?l1\<lparr>ls_l2_cache := [], ls_last_active := a\<rparr> else ?l1)"
  have l2: "ls_state l2 = ls_state l" "ls_pending_dirty l2 = ls_pending_dirty l"
    "ls_l2_cache l2 = [] \<or> ls_l2_cache l2 = ls_l2_cache l"
    by (simp_all add: l2_def)
  have due: "flush_due now l" "ls_has_tx l \<and> 0 < rcv" "a \<noteq> []"
    using f by (auto simp: flush_l2_if_due_def Let_def a_def split: if_splits)
  note unf = flush_l2_if_due_def Let_def a_def [symmetric] l2_def [symmetric]
  obtain st where st: "ls_state l = Some st"
    using f due unfolding unf by (cases "ls_state l") (simp_all add: l2(1))
  obtain r where i: "l2_snapshots_incremental L (sorted_list_of_set (ls_pending_dirty l2)) (ls_last_active l2) (ls_l2_cache l2) st = Some r"
    using f due st unfolding unf by (auto simp: l2(1) split: option.splits)
  obtain t h c rec csc where r: "r = (t, h, c, rec, csc)" by (metis prod.collapse)
  have m: "sm_l2_snapshots m = c" "sm_dirty m = rec" "sm_previous m = filter (\<lambda>(c, v). c \<in> ls_pending_dirty l) (ls_l2_cache l2)"
    "sm_l2_diff_frames m = frame_cache_new" "sm_l2_frames m = frame_cache_new"
    using f due st i unfolding unf by (auto simp: l2(1,2) r)
  show thesis
    by (rule that [of "ls_l2_cache l2" st "ls_last_active l2" rec csc]) (use i l2 m in \<open>auto simp: l2_snapshots_incremental_def r\<close>)
qed

text \<open>A subscriber that races the flush: the coin has levels, its shape is not built yet, and the book served is empty.\<close>

lemma raced_subscriber_sees_empty:
  "hm_get (sm_l2_snapshots m) (Coin coin) = Some per_coin \<Longrightarrow> hm_get per_coin (l2_params_new nsf man) = None \<Longrightarrow>
     shown coin nsf man depth m = ([], [])"
  by (simp add: shown_def diff_export_def or_default_def)

section \<open>Properties\<close>


definition sample_cached :: listener where
  "sample_cached = sample_dirty\<lparr>ls_l2_cache := [(Coin ''BTC'', [(base_params, ([], []))])],
     ls_last_active := params_snapshot (ls_active_params sample_dirty)\<rparr>"

definition sample_shown :: snapshot_msg where
  "sample_shown = \<lparr>sm_l2_snapshots = [(Coin ''BTC'', [(base_params, ([], []))])], sm_previous = [], sm_time = 0, sm_height = 8,
     sm_dirty = {Coin ''BTC''}, sm_universe = None, sm_l2_frames = frame_cache_new, sm_l2_diff_frames = frame_cache_new\<rparr>"

lemma sample_cached_flush:
  "\<exists>m l'. flush_l2_if_due sample_log10 100 1 sample_cached = Some ([MSnapshot m], l') \<and> hm_contains (sm_previous m) (Coin ''BTC'')"
  by (simp add: flush_l2_if_due_def flush_due_def sample_cached_def sample_dirty_def sample_mid_def listener_new_def Let_def params_snapshot_def
      l2_snapshots_incremental_def compute_l2_snapshots_incremental_def state_empty_def state_from_snapshot_def from_snapshots_def
      split_beta)



text \<open>A connection whose queue does not fill up stays alive.\<close>

lemma roomy_put_frame:
  assumes "put_frame (queue_send (\<lambda>k. [])) f s = (ok, s1)" "oc_receivers (ss_conn s)" "length (oc_data (ss_conn s)) < outbound_queue_depth"
  shows "ok \<and> oc_receivers (ss_conn s1) \<and> length (oc_data (ss_conn s1)) \<le> length (oc_data (ss_conn s)) + 1 \<and> ss_alive s1 = ss_alive s"
  using assms
  by (auto simp: put_frame_def send_frame_def queue_send_def send_payload_def Let_def split: if_splits)

lemma roomy_serve:
  assumes "send_ws_data_from_l2_diff lib (queue_send (\<lambda>k. [])) sub (s, m) = (ok, s1, m1)"
    and "oc_receivers (ss_conn s)" "length (oc_data (ss_conn s)) < outbound_queue_depth"
  shows "ok \<and> oc_receivers (ss_conn s1) \<and> length (oc_data (ss_conn s1)) \<le> length (oc_data (ss_conn s)) + 1 \<and> ss_alive s1 = ss_alive s"
proof -
  have "(ok \<and> s1 = s) \<or> (\<exists>f x. put_frame (queue_send (\<lambda>k. [])) f (s\<lparr>ss_last_l2_diff := x\<rparr>) = (ok, s1))"
    using assms(1)
    by (auto simp: send_ws_data_from_l2_diff_def Let_def split: subscription.splits option.splits sum.splits prod.splits if_splits)
  then show ?thesis
    using roomy_put_frame [where s = "s\<lparr>ss_last_l2_diff := x\<rparr>" for x] assms(2,3) by auto
qed

lemma diff_feed_stays_alive:
  assumes "ss_alive s" "oc_receivers (ss_conn s)" "length (oc_data (ss_conn s)) + length evs \<le> outbound_queue_depth"
  shows "ss_alive (diff_feed lib (queue_send (\<lambda>k. [])) sub evs s)"
  using assms
proof (induction evs arbitrary: s)
  case (Cons e evs)
  show ?case
  proof (cases e)
    case (Missed m)
    then show ?thesis using Cons by simp
  next
    case (Served m)
    obtain ok s1 m1 where r: "send_ws_data_from_l2_diff lib (queue_send (\<lambda>k. [])) sub (s, m) = (ok, s1, m1)"
      by (metis prod.collapse)
    note roomy = roomy_serve [OF r Cons.prems(2)]
    have "ss_alive (diff_feed lib (queue_send (\<lambda>k. [])) sub evs (s1\<lparr>ss_force_full := False, ss_alive := ss_alive s1 \<and> ok\<rparr>))"
      by (rule Cons.IH) (use roomy Cons.prems in auto)
    then show ?thesis by (simp add: Served r)
  qed
qed simp

text \<open>A feed of three flushes, the second missed; the last shows a level more than the first two.\<close>

definition sample_l2 :: "inner_level list \<Rightarrow> l2_cache" where
  "sample_l2 bs = [(Coin ''BTC'', [(base_params, (bs, []))])]"

definition sample_flush_msg :: "u64 \<Rightarrow> inner_level list \<Rightarrow> inner_level list \<Rightarrow> snapshot_msg" where
  "sample_flush_msg h old new = sample_shown\<lparr>sm_height := h, sm_previous := sample_l2 old, sm_l2_snapshots := sample_l2 new\<rparr>"

definition sample_feed :: "feed_event list" where
  "sample_feed = [Served (sample_flush_msg 8 [] []), Missed (sample_flush_msg 9 [] []), Served (sample_flush_msg 10 [] [])]"

definition sample_bid :: inner_level where
  "sample_bid = \<lparr>il_px = Px 5, il_sz = Sz 7, il_n = 1\<rparr>"

lemma sample_export:
  "diff_export ''BTC'' None None n (sample_l2 bs) = Some (map level_from (take n bs), [])"
  by (simp add: diff_export_def sample_l2_def l2_params_new_def base_params_def snapshot_truncate_def export_inner_snapshot_def)

lemma sample_feeds: "feeds ''BTC'' None None n (sample_flush_msg h p old) (sample_flush_msg h' old new)"
  by (simp add: feeds_def shown_def shows_coin_def sample_flush_msg_def sample_export or_default_def)
    (simp add: sample_l2_def sample_shown_def)


text \<open>
  The key under which a session keeps what it last sent identifies the subscription: two \<open>l2Book\<close> (or \<open>l2Diff\<close>)
  subscriptions that pass validation have the same key only if they ask for the same coin, aggregation and depth.
\<close>

theorem l2_cache_key_identifies:
  assumes "validate_l2 u c nsf nl man" and "validate_l2 u' c' nsf' nl' man'"
  shows "l2_cache_key c nsf man nl = l2_cache_key c' nsf' man' nl' \<longleftrightarrow> c = c' \<and> nsf = nsf' \<and> man = man' \<and> nl = nl'"
  using validate_l2_fields [OF assms(1)] validate_l2_fields [OF assms(2)]
  by (simp add: l2_cache_key_fields or_default_inj)

theorem l2_cache_key_identifies_witness:
  "l2_cache_key ''BTC'' (Some 5) (Some 2) None \<noteq> l2_cache_key ''BTC'' (Some 5) (Some 5) None"
proof -
  have "validate_l2 {''BTC''} ''BTC'' (Some 5) None (Some 2)" "validate_l2 {''BTC''} ''BTC'' (Some 5) None (Some 5)"
    by code_simp+
  from l2_cache_key_identifies [OF this] show ?thesis by simp
qed

end
