(* ===== verification/Book_Channel.thy ===== *)
theory Book_Channel
  imports Diff_Channel
begin

text \<open>
  The \<open>l2Book\<close> channel: a session sends the whole book of a subscription when its hash differs from the one it sent
  last, and skips coins a flush did not rebuild. The client's book is the last one it received.

  \<^item> \<open>book_feed\<close> takes one subscription through the flushes, as \<open>diff_feed\<close> does for \<open>l2Diff\<close>; \<open>clock\<close> is the instant
    at which a message is handled.
  \<^item> \<open>shaped\<close>: a message that shows the coin has the subscription's shape built, which holds from the first flush
    after the session has acquired its guard.
  \<^item> The hash is the library's: the statement assumes that it tells the shown books apart.
\<close>

definition shaped :: "string \<Rightarrow> nat option \<Rightarrow> u64 option \<Rightarrow> snapshot_msg \<Rightarrow> bool" where
  "shaped coin nsf man m \<longleftrightarrow>
     (case hm_get (sm_l2_snapshots m) (Coin coin) of None \<Rightarrow> True | Some per_coin \<Rightarrow> hm_contains per_coin (l2_params_new nsf man))"

definition variant_of :: "string \<Rightarrow> nat option \<Rightarrow> u64 option \<Rightarrow> snapshot_msg \<Rightarrow> inner_level snapshot option" where
  "variant_of coin nsf man m =
     Option.bind (hm_get (sm_l2_snapshots m) (Coin coin)) (\<lambda>per_coin. hm_get per_coin (l2_params_new nsf man))"

definition books_honest :: "session_lib \<Rightarrow> string \<Rightarrow> nat option \<Rightarrow> u64 option \<Rightarrow> nat \<Rightarrow> snapshot_msg \<Rightarrow> bool" where
  "books_honest lib coin nsf man depth m \<longleftrightarrow>
     (\<forall>v. frame_lookup (l2_frame_key_new coin nsf man depth) (sm_l2_frames m) = Some v \<longrightarrow>
        v = build_l2_frame lib coin nsf man depth (sm_time m) (variant_of coin nsf man m))"

definition full_book :: "string \<Rightarrow> nat option \<Rightarrow> u64 option \<Rightarrow> nat \<Rightarrow> snapshot_msg \<Rightarrow> l2_book" where
  "full_book coin nsf man depth m = from_l2_snapshot coin (shown coin nsf man depth m) (sm_time m) nsf man (Some depth)"

definition book_text :: "session_lib \<Rightarrow> l2_book \<Rightarrow> string" where
  "book_text lib b = response_text lib (RL2Book b)"

definition latest :: "l2_book option \<Rightarrow> l2_book list \<Rightarrow> l2_book option" where
  "latest cl bs = (if bs = [] then cl else Some (List.last bs))"

lemma latest_simps [simp]: "latest cl [] = cl" "latest cl [b] = Some b" "latest cl (bs @ bs') = latest (latest cl bs) bs'"
  by (simp_all add: latest_def)

fun book_feed ::
  "session_lib \<Rightarrow> (string \<Rightarrow> 'c \<Rightarrow> bool \<times> 'c) \<Rightarrow> (snapshot_msg \<Rightarrow> instant) \<Rightarrow> bool \<Rightarrow> subscription \<Rightarrow> feed_event list
     \<Rightarrow> 'c session \<Rightarrow> 'c session" where
  "book_feed lib send clock store sub [] s = s"
| "book_feed lib send clock store sub (Served m # evs) s =
     (let (ok, s1, m1) = send_ws_data_from_snapshot lib send (clock m) store sub (s, m)
      in book_feed lib send clock store sub evs (s1\<lparr>ss_force_full := False, ss_alive := ss_alive s1 \<and> ok\<rparr>))"
| "book_feed lib send clock store sub (Missed m # evs) s = book_feed lib send clock store sub evs (s\<lparr>ss_force_full := True\<rparr>)"

lemma book_feed_served:
  assumes "subscriptions (ss_manager s) = [SL2Book coin nsf nl man]" "ss_alive s" "sm_universe m = None"
  shows "book_feed lib send clock store (SL2Book coin nsf nl man) [Served m] s = fst (on_snapshot lib send (clock m) store (s, m))"
  using assms by (simp add: on_snapshot_def split_beta Let_def)

lemma send_snapshot_alive: "ss_alive (fst (snd (send_ws_data_from_snapshot lib send now store sub (s, m)))) = ss_alive s"
  by (auto simp: send_ws_data_from_snapshot_def send_l2_variant_def put_frame_def Let_def split_beta
      split: subscription.split option.split)

lemma book_feed_alive: "ss_alive (book_feed lib send clock store sub evs s) \<Longrightarrow> ss_alive s"
proof (induction evs arbitrary: s)
  case (Cons e evs)
  show ?case
  proof (cases e)
    case (Missed m)
    then show ?thesis using Cons.IH [of "s\<lparr>ss_force_full := True\<rparr>"] Cons.prems by simp
  next
    case (Served m)
    obtain ok s1 m1 where r: "send_ws_data_from_snapshot lib send (clock m) store sub (s, m) = (ok, s1, m1)"
      by (metis prod.collapse)
    have "ss_alive (s1\<lparr>ss_force_full := False, ss_alive := ss_alive s1 \<and> ok\<rparr>)"
      by (rule Cons.IH) (use Cons.prems Served r in simp)
    then show ?thesis using send_snapshot_alive [of lib send "clock m" store sub s m] r by simp
  qed
qed simp

section \<open>One message\<close>

lemma build_full:
  "json_total lib \<Longrightarrow> build_l2_frame lib coin nsf man depth (sm_time m) (variant_of coin nsf man m) =
     (sl_hash lib (shown coin nsf man depth m), book_text lib (full_book coin nsf man depth m), full_book coin nsf man depth m)"
  using json_total_text [of lib "RL2Book (full_book coin nsf man depth m)"]
  by (cases "hm_get (sm_l2_snapshots m) (Coin coin)")
    (auto simp: build_l2_frame_def Let_def full_book_def book_text_def shown_def diff_export_def variant_of_def or_default_def
      split: option.splits sum.splits)

lemma serve_skips:
  assumes "\<not> ss_force_full s" "Coin coin \<notin> sm_dirty m" "hm_contains (ss_last_l2 s) (l2_cache_key coin nsf man nl)"
    and "send_ws_data_from_snapshot lib send now store (SL2Book coin nsf nl man) (s, m) = (ok, s1, m1)"
  shows "s1 = s"
  using assms by (simp add: send_ws_data_from_snapshot_def)

lemma serve_variant:
  assumes "ss_force_full s \<or> Coin coin \<in> sm_dirty m \<or> \<not> hm_contains (ss_last_l2 s) (l2_cache_key coin nsf man nl)" "shaped coin nsf man m"
  shows "send_ws_data_from_snapshot lib send now store (SL2Book coin nsf nl man) (s, m)
    = send_l2_variant lib send now store coin nsf nl man (variant_of coin nsf man m) (s, m)"
  using assms
  by (cases "hm_get (sm_l2_snapshots m) (Coin coin)")
    (auto simp: send_ws_data_from_snapshot_def shaped_def variant_of_def split: option.splits)

lemma variant_served:
  assumes "json_total lib" "books_honest lib coin nsf man depth m" "depth = or_default default_levels nl"
    and "send_l2_variant lib send now store coin nsf nl man (variant_of coin nsf man m) (s, m) = (ok, s1, m1)"
  shows "if map_option le_hash (hm_get (ss_last_l2 s) (l2_cache_key coin nsf man nl)) = Some (sl_hash lib (shown coin nsf man depth m))
    then s1 = s
    else \<exists>e. le_hash e = sl_hash lib (shown coin nsf man depth m) \<and>
      put_frame send (book_text lib (full_book coin nsf man depth m))
        (s\<lparr>ss_last_l2 := hm_insert (l2_cache_key coin nsf man nl) e (ss_last_l2 s)\<rparr>) = (ok, s1)"
proof -
  have b: "fst (get_or_build (l2_frame_key_new coin nsf man depth)
      (\<lambda>_. build_l2_frame lib coin nsf man depth (sm_time m) (variant_of coin nsf man m)) (sm_l2_frames m))
    = (sl_hash lib (shown coin nsf man depth m), book_text lib (full_book coin nsf man depth m), full_book coin nsf man depth m)"
    using assms(2) build_full [OF assms(1)] by (subst get_or_build_value) (auto simp: books_honest_def)
  then obtain fr where g: "get_or_build (l2_frame_key_new coin nsf man depth)
      (\<lambda>_. build_l2_frame lib coin nsf man depth (sm_time m) (variant_of coin nsf man m)) (sm_l2_frames m)
    = ((sl_hash lib (shown coin nsf man depth m), book_text lib (full_book coin nsf man depth m), full_book coin nsf man depth m), fr)"
    by (metis prod.collapse)
  let ?e = "\<lparr>le_hash = sl_hash lib (shown coin nsf man depth m), le_last_sent = now,
      le_payload = (if store then Some (full_book coin nsf man depth m) else None)\<rparr>"
  have "if map_option le_hash (hm_get (ss_last_l2 s) (l2_cache_key coin nsf man nl)) = Some (sl_hash lib (shown coin nsf man depth m))
    then s1 = s
    else put_frame send (book_text lib (full_book coin nsf man depth m))
        (s\<lparr>ss_last_l2 := hm_insert (l2_cache_key coin nsf man nl) ?e (ss_last_l2 s)\<rparr>) = (ok, s1)"
    using assms(4) g unfolding send_l2_variant_def assms(3) [symmetric] Let_def
    by (auto split: prod.splits if_splits)
  moreover have "le_hash ?e = sl_hash lib (shown coin nsf man depth m)" by simp
  ultimately show ?thesis by metis
qed

lemma put_frame_last_l2: "put_frame send f s = (ok, s') \<Longrightarrow> ss_last_l2 s' = ss_last_l2 s"
  by (auto simp: put_frame_def Let_def split: prod.splits)

definition sent_hash :: "session_lib \<Rightarrow> l2_book option \<Rightarrow> u64 option" where
  "sent_hash lib cl = map_option (\<lambda>b. sl_hash lib (l2_levels b)) cl"

context sender
begin

lemma serve_book:
  assumes "json_total lib" "feeds coin nsf man depth m0 m \<or> cl = None" "depth = or_default default_levels nl"
    and "books_honest lib coin nsf man depth m" "shaped coin nsf man m"
    and V: "inj_on (sl_hash lib) V" "shown coin nsf man depth m \<in> V" "\<forall>b. cl = Some b \<longrightarrow> l2_levels b \<in> V"
    and rec: "map_option le_hash (hm_get (ss_last_l2 s) (l2_cache_key coin nsf man nl)) = sent_hash lib cl"
    and cur: "\<And>b. cl = Some b \<Longrightarrow> \<not> ss_force_full s \<Longrightarrow> shows_coin coin m0 \<Longrightarrow> l2_levels b = shown coin nsf man depth m0"
    and r: "send_ws_data_from_snapshot lib send now store (SL2Book coin nsf nl man) (s, m) = (True, s1, m1)"
  shows "\<exists>bs. sent (ss_conn s1) = sent (ss_conn s) @ map (book_text lib) bs
    \<and> map_option le_hash (hm_get (ss_last_l2 s1) (l2_cache_key coin nsf man nl)) = sent_hash lib (latest cl bs)
    \<and> latest cl bs \<noteq> None \<and> (\<forall>b. latest cl bs = Some b \<longrightarrow> l2_levels b \<in> V)
    \<and> (shows_coin coin m \<or> Coin coin \<in> sm_dirty m \<longrightarrow> (\<exists>b. latest cl bs = Some b \<and> l2_levels b = shown coin nsf man depth m))"
proof -
  let ?key = "l2_cache_key coin nsf man nl" and ?new = "shown coin nsf man depth m"
  have cached: "hm_contains (ss_last_l2 s) ?key \<longleftrightarrow> cl \<noteq> None"
    using rec by (cases "hm_get (ss_last_l2 s) ?key"; cases cl) (auto simp: sent_hash_def)
  show ?thesis
  proof (cases "\<not> ss_force_full s \<and> Coin coin \<notin> sm_dirty m \<and> cl \<noteq> None")
    case True
    then have "s1 = s" using serve_skips [OF _ _ _ r] cached by blast
    moreover have "\<exists>b. cl = Some b \<and> l2_levels b = ?new" if "shows_coin coin m"
    proof -
      obtain b where b: "cl = Some b" using True by blast
      have "shows_coin coin m0" "?new = shown coin nsf man depth m0"
        using that True assms(2) unfolding feeds_def by blast+
      then show ?thesis using b cur [OF b] True by simp
    qed
    ultimately show ?thesis using True rec V(3) by (intro exI [of _ "[]"]) simp
  next
    case False
    then have v: "send_l2_variant lib send now store coin nsf nl man (variant_of coin nsf man m) (s, m) = (True, s1, m1)"
    proof -
      have "ss_force_full s \<or> Coin coin \<in> sm_dirty m \<or> \<not> hm_contains (ss_last_l2 s) ?key" using False cached by blast
      from serve_variant [OF this assms(5), of lib send now store] r show ?thesis by simp
    qed
    note served = variant_served [OF assms(1,4,3) v]
    show ?thesis
    proof (cases "sent_hash lib cl = Some (sl_hash lib ?new)")
      case True
      then obtain b where b: "cl = Some b" "sl_hash lib (l2_levels b) = sl_hash lib ?new" by (auto simp: sent_hash_def)
      then have "l2_levels b = ?new" using V by (auto dest: inj_onD)
      then show ?thesis using b(1) served rec True V(2) by (intro exI [of _ "[]"]) simp
    next
      case False
      let ?b = "full_book coin nsf man depth m"
      obtain e where e: "le_hash e = sl_hash lib ?new"
        "put_frame send (book_text lib ?b) (s\<lparr>ss_last_l2 := hm_insert ?key e (ss_last_l2 s)\<rparr>) = (True, s1)"
        using served False rec by auto
      have "book_text lib ?b \<noteq> []" using json_total_text [OF assms(1), of "RL2Book ?b"] by (simp add: book_text_def)
      from conjunct1 [OF put_frame_sent [OF e(2) this]] have sent1: "sent (ss_conn s1) = sent (ss_conn s) @ [book_text lib ?b]"
        by simp
      have kept1: "ss_last_l2 s1 = hm_insert ?key e (ss_last_l2 s)"
        using put_frame_last_l2 [OF e(2)] by simp
      have "l2_levels ?b = ?new" by (simp add: full_book_def from_l2_snapshot_def)
      then show ?thesis using sent1 kept1 e(1) V(2) by (intro exI [of _ "[?b]"]) (simp add: update_conv' sent_hash_def)
    qed
  qed
qed

lemma book_feed_all:
  assumes "json_total lib" "depth = or_default default_levels nl" "inj_on (sl_hash lib) V"
    and "linked coin nsf man depth p evs" "p = None \<Longrightarrow> cl = None"
    and "\<forall>e \<in> set evs. books_honest lib coin nsf man depth (feed_msg e) \<and> shaped coin nsf man (feed_msg e)
      \<and> shown coin nsf man depth (feed_msg e) \<in> V"
    and "\<forall>b. cl = Some b \<longrightarrow> l2_levels b \<in> V"
    and "map_option le_hash (hm_get (ss_last_l2 s) (l2_cache_key coin nsf man nl)) = sent_hash lib cl"
    and "\<And>m0 b. cl = Some b \<Longrightarrow> \<not> ss_force_full s \<Longrightarrow> p = Some m0 \<Longrightarrow> shows_coin coin m0 \<Longrightarrow> l2_levels b = shown coin nsf man depth m0"
    and "ss_alive (book_feed lib send clock store (SL2Book coin nsf nl man) evs s)"
  shows "\<exists>bs. sent (ss_conn (book_feed lib send clock store (SL2Book coin nsf nl man) evs s)) = sent (ss_conn s) @ map (book_text lib) bs
    \<and> (\<forall>es m. evs = es @ [Served m] \<longrightarrow> shows_coin coin m \<or> Coin coin \<in> sm_dirty m \<longrightarrow>
         (\<exists>b. latest cl bs = Some b \<and> l2_levels b = shown coin nsf man depth m))"
  using assms(4-10)
proof (induction evs arbitrary: p s cl)
  case Nil
  then show ?case by (intro exI [of _ "[]"]) simp
next
  case (Cons e evs)
  show ?case
  proof (cases e)
    case (Missed m)
    have "\<exists>bs. sent (ss_conn (book_feed lib send clock store (SL2Book coin nsf nl man) evs (s\<lparr>ss_force_full := True\<rparr>)))
        = sent (ss_conn (s\<lparr>ss_force_full := True\<rparr>)) @ map (book_text lib) bs
      \<and> (\<forall>es m. evs = es @ [Served m] \<longrightarrow> shows_coin coin m \<or> Coin coin \<in> sm_dirty m \<longrightarrow>
           (\<exists>b. latest cl bs = Some b \<and> l2_levels b = shown coin nsf man depth m))"
      by (rule Cons.IH [of "Some m"]) (use Cons.prems Missed in auto)
    then show ?thesis using Missed by (auto simp: append_eq_Cons_conv Cons_eq_append_conv)
  next
    case (Served m)
    obtain ok s1 m1 where r: "send_ws_data_from_snapshot lib send (clock m) store (SL2Book coin nsf nl man) (s, m) = (ok, s1, m1)"
      by (metis prod.collapse)
    let ?s1 = "s1\<lparr>ss_force_full := False, ss_alive := ss_alive s1 \<and> ok\<rparr>"
    have feed: "book_feed lib send clock store (SL2Book coin nsf nl man) (e # evs) s = book_feed lib send clock store (SL2Book coin nsf nl man) evs ?s1"
      by (simp add: Served r)
    have ok: ok using book_feed_alive [of lib send clock store "SL2Book coin nsf nl man" evs ?s1] Cons.prems(7) unfolding feed by simp
    have r': "send_ws_data_from_snapshot lib send (clock m) store (SL2Book coin nsf nl man) (s, m) = (True, s1, m1)" using r ok by simp
    obtain m0 where m0: "feeds coin nsf man depth m0 m \<or> cl = None" "cl \<noteq> None \<Longrightarrow> p = Some m0"
    proof (cases p)
      case None
      then show thesis using that [of m] Cons.prems(2) by auto
    next
      case (Some m0)
      then show thesis using that [of m0] Cons.prems(1) Served by auto
    qed
    have hm: "books_honest lib coin nsf man depth m" "shaped coin nsf man m" "shown coin nsf man depth m \<in> V"
      using Cons.prems(3) Served by auto
    have cur: "l2_levels b = shown coin nsf man depth m0" if "cl = Some b" "\<not> ss_force_full s" "shows_coin coin m0" for b
      using Cons.prems(6) [of b m0] m0(2) that by blast
    obtain bs where bs: "sent (ss_conn s1) = sent (ss_conn s) @ map (book_text lib) bs"
      "map_option le_hash (hm_get (ss_last_l2 s1) (l2_cache_key coin nsf man nl)) = sent_hash lib (latest cl bs)"
      "latest cl bs \<noteq> None" "\<forall>b. latest cl bs = Some b \<longrightarrow> l2_levels b \<in> V"
      "shows_coin coin m \<or> Coin coin \<in> sm_dirty m \<longrightarrow> (\<exists>b. latest cl bs = Some b \<and> l2_levels b = shown coin nsf man depth m)"
      using serve_book [OF assms(1) m0(1) assms(2) hm(1,2) assms(3) hm(3) Cons.prems(4,5) cur r'] by blast
    have "\<exists>bs'. sent (ss_conn (book_feed lib send clock store (SL2Book coin nsf nl man) evs ?s1)) = sent (ss_conn ?s1) @ map (book_text lib) bs'
      \<and> (\<forall>es m. evs = es @ [Served m] \<longrightarrow> shows_coin coin m \<or> Coin coin \<in> sm_dirty m \<longrightarrow>
           (\<exists>b. latest (latest cl bs) bs' = Some b \<and> l2_levels b = shown coin nsf man depth m))"
      by (rule Cons.IH [of "Some m"]) (use Cons.prems Served bs feed in auto)
    then obtain bs' where bs': "sent (ss_conn (book_feed lib send clock store (SL2Book coin nsf nl man) evs ?s1)) = sent (ss_conn s1) @ map (book_text lib) bs'"
      "\<forall>es m. evs = es @ [Served m] \<longrightarrow> shows_coin coin m \<or> Coin coin \<in> sm_dirty m \<longrightarrow>
           (\<exists>b. latest cl (bs @ bs') = Some b \<and> l2_levels b = shown coin nsf man depth m)" by auto
    have "\<exists>b. latest cl (bs @ bs') = Some b \<and> l2_levels b = shown coin nsf man depth m'"
      if split: "e # evs = es @ [Served m']" and vis: "shows_coin coin m' \<or> Coin coin \<in> sm_dirty m'" for es m'
    proof (cases "evs = []")
      case True
      then have "m' = m" using split Served by (auto simp: append_eq_Cons_conv Cons_eq_append_conv)
      moreover have "bs' = []" using True bs'(1) by simp
      ultimately show ?thesis using bs(5) vis by (metis append_Nil2)
    next
      case False
      then obtain es' where "evs = es' @ [Served m']" using split by (cases es) auto
      then show ?thesis using bs'(2) vis by blast
    qed
    then show ?thesis
      unfolding feed using bs(1) bs'(1) by (intro exI [of _ "bs @ bs'"]) simp
  qed
qed

end

section \<open>Honest messages\<close>

text \<open>The frames of a fresh flush are still to be built, and sessions leave a message as honest as they find it.\<close>

lemma flush_books_honest:
  "flush_l2_if_due L now rcv l = Some ([MSnapshot m], l') \<Longrightarrow> books_honest lib coin nsf man depth m"
  by (erule flush_parts_l2) (simp add: books_honest_def frame_lookup_def frame_cache_new_def)

lemma books_honest_kept:
  assumes "books_honest lib coin nsf man depth m"
  shows "books_honest lib coin nsf man depth (snd (snd (send_ws_data_from_snapshot lib send now store sub (s, m))))"
proof -
  let ?m1 = "snd (snd (send_ws_data_from_snapshot lib send now store sub (s, m)))"
  have "?m1 = m \<or> (\<exists>c n a d. ?m1 = m\<lparr>sm_l2_frames := snd (get_or_build (l2_frame_key_new c n a d)
      (\<lambda>_. build_l2_frame lib c n a d (sm_time m) (variant_of c n a m)) (sm_l2_frames m))\<rparr>)"
  proof (cases sub)
    case (SL2Book c n nl a)
    have *: "snd (snd (send_l2_variant lib send now store c n nl a v (s, m))) = m\<lparr>sm_l2_frames := snd (get_or_build (l2_frame_key_new c n a (or_default default_levels nl))
        (\<lambda>_. build_l2_frame lib c n a (or_default default_levels nl) (sm_time m) v) (sm_l2_frames m))\<rparr>" for v
      by (auto simp: send_l2_variant_def Let_def split_beta)
    show ?thesis
    proof (cases "?m1 = m")
      case False
      then have "?m1 = snd (snd (send_l2_variant lib send now store c n nl a (variant_of c n a m) (s, m)))"
        unfolding SL2Book
        by (cases "hm_get (sm_l2_snapshots m) (Coin c)")
          (auto simp: send_ws_data_from_snapshot_def variant_of_def split: option.splits if_splits)
      with * have "?m1 = m\<lparr>sm_l2_frames := snd (get_or_build (l2_frame_key_new c n a (or_default default_levels nl))
        (\<lambda>_. build_l2_frame lib c n a (or_default default_levels nl) (sm_time m) (variant_of c n a m)) (sm_l2_frames m))\<rparr>" by simp
      then show ?thesis by (intro disjI2 exI)
    qed simp
  qed (simp_all add: send_ws_data_from_snapshot_def)
  then show ?thesis
  proof
    assume "\<exists>c n a d. ?m1 = m\<lparr>sm_l2_frames := snd (get_or_build (l2_frame_key_new c n a d)
      (\<lambda>_. build_l2_frame lib c n a d (sm_time m) (variant_of c n a m)) (sm_l2_frames m))\<rparr>"
    then obtain c n a d where m1: "?m1 = m\<lparr>sm_l2_frames := snd (get_or_build (l2_frame_key_new c n a d)
      (\<lambda>_. build_l2_frame lib c n a d (sm_time m) (variant_of c n a m)) (sm_l2_frames m))\<rparr>" by blast
    show ?thesis
      using assms unfolding m1
      by (auto simp: books_honest_def variant_of_def l2_frame_key_new_def dest!: get_or_build_lookup)
  qed (use assms in simp)
qed

text \<open>A connection whose queue does not fill up stays alive.\<close>

lemma roomy_serve_book:
  assumes "send_ws_data_from_snapshot lib (queue_send (\<lambda>k. [])) now store sub (s, m) = (ok, s1, m1)"
    and "oc_receivers (ss_conn s)" "length (oc_data (ss_conn s)) < outbound_queue_depth"
  shows "ok \<and> oc_receivers (ss_conn s1) \<and> length (oc_data (ss_conn s1)) \<le> length (oc_data (ss_conn s)) + 1 \<and> ss_alive s1 = ss_alive s"
proof -
  have "(ok \<and> s1 = s) \<or> (\<exists>f x. put_frame (queue_send (\<lambda>k. [])) f (s\<lparr>ss_last_l2 := x\<rparr>) = (ok, s1))"
    using assms(1)
    by (auto simp: send_ws_data_from_snapshot_def send_l2_variant_def Let_def split: subscription.splits option.splits prod.splits if_splits)
  then show ?thesis
    using roomy_put_frame [where s = "s\<lparr>ss_last_l2 := x\<rparr>" for x] assms(2,3) by auto
qed

lemma book_feed_stays_alive:
  assumes "ss_alive s" "oc_receivers (ss_conn s)" "length (oc_data (ss_conn s)) + length evs \<le> outbound_queue_depth"
  shows "ss_alive (book_feed lib (queue_send (\<lambda>k. [])) clock store sub evs s)"
  using assms
proof (induction evs arbitrary: s)
  case (Cons e evs)
  show ?case
  proof (cases e)
    case (Missed m)
    then show ?thesis using Cons by simp
  next
    case (Served m)
    obtain ok s1 m1 where r: "send_ws_data_from_snapshot lib (queue_send (\<lambda>k. [])) (clock m) store sub (s, m) = (ok, s1, m1)"
      by (metis prod.collapse)
    note roomy = roomy_serve_book [OF r Cons.prems(2)]
    have "ss_alive (book_feed lib (queue_send (\<lambda>k. [])) clock store sub evs (s1\<lparr>ss_force_full := False, ss_alive := ss_alive s1 \<and> ok\<rparr>))"
      by (rule Cons.IH) (use roomy Cons.prems in auto)
    then show ?thesis by (simp add: Served r)
  qed
qed simp

section \<open>Properties\<close>

text \<open>
  C26. The \<open>l2Book\<close> channel is current: whatever flushes the session misses, whatever frames other sessions left in
  the shared caches, and although unchanged books are not sent again, the last book a subscriber was sent is, after
  the last flush that concerns its coin, exactly the levels of that flush, cut to its depth, provided the hash tells
  the shown books apart.
\<close>

theorem l2_book_channel_current:
  assumes "json_total lib"
    and "linked coin nsf man (or_default default_levels nl) None (es @ [Served m])"
    and "\<forall>e \<in> set (es @ [Served m]). books_honest lib coin nsf man (or_default default_levels nl) (feed_msg e)
      \<and> shaped coin nsf man (feed_msg e)"
    and "inj_on (sl_hash lib) ((\<lambda>e. shown coin nsf man (or_default default_levels nl) (feed_msg e)) ` set (es @ [Served m]))"
    and "hm_get (ss_last_l2 s) (l2_cache_key coin nsf man nl) = None"
    and "ss_alive (book_feed lib (queue_send W) clock store (SL2Book coin nsf nl man) (es @ [Served m]) s)"
    and "shows_coin coin m \<or> Coin coin \<in> sm_dirty m"
  shows "\<exists>bs b. accepted_data (ss_conn (book_feed lib (queue_send W) clock store (SL2Book coin nsf nl man) (es @ [Served m]) s))
      = accepted_data (ss_conn s) @ map (book_text lib) (bs @ [b])
    \<and> l2_levels b = shown coin nsf man (or_default default_levels nl) m"
proof -
  let ?V = "(\<lambda>e. shown coin nsf man (or_default default_levels nl) (feed_msg e)) ` set (es @ [Served m])"
  have honest: "\<forall>e \<in> set (es @ [Served m]). books_honest lib coin nsf man (or_default default_levels nl) (feed_msg e)
      \<and> shaped coin nsf man (feed_msg e) \<and> shown coin nsf man (or_default default_levels nl) (feed_msg e) \<in> ?V"
    using assms(3) by blast
  have rec: "map_option le_hash (hm_get (ss_last_l2 s) (l2_cache_key coin nsf man nl)) = sent_hash lib None"
    using assms(5) by (simp add: sent_hash_def)
  obtain bs where bs: "accepted_data (ss_conn (book_feed lib (queue_send W) clock store (SL2Book coin nsf nl man) (es @ [Served m]) s))
      = accepted_data (ss_conn s) @ map (book_text lib) bs"
    "\<exists>b. latest None bs = Some b \<and> l2_levels b = shown coin nsf man (or_default default_levels nl) m"
    using queue.book_feed_all [OF assms(1) refl assms(4,2) _ honest _ rec _ assms(6)] assms(7) by blast
  then obtain b where b: "latest None bs = Some b" "l2_levels b = shown coin nsf man (or_default default_levels nl) m" by blast
  then have "bs = butlast bs @ [b]" by (auto simp: latest_def split: if_splits)
  with bs(1) b(2) show ?thesis by metis
qed

theorem l2_book_channel_current_witness:
  "\<exists>bs b. accepted_data (ss_conn (book_feed sample_lib (queue_send (\<lambda>k. [])) (\<lambda>m. 0) False (SL2Book ''BTC'' None None None)
       (sample_feed @ [Served (sample_flush_msg 11 [] [sample_bid])]) (session_new conn_new {''BTC''}))) = map (book_text sample_lib) (bs @ [b])
     \<and> l2_levels b = ([level_from sample_bid], [])"
proof -
  let ?m = "sample_flush_msg 11 [] [sample_bid]" and ?s = "session_new conn_new {''BTC''}" and ?send = "queue_send (\<lambda>k. [])"
  have depth: "or_default default_levels None = default_levels" by (simp add: or_default_def default_levels_def)
  have total: "json_total sample_lib" by (simp add: json_total_def sample_lib_def)
  have linked: "linked ''BTC'' None None (or_default default_levels None) None (sample_feed @ [Served ?m])"
    by (simp add: sample_feed_def sample_feeds depth)
  have view: "shown ''BTC'' None None n (sample_flush_msg h old new) = (map level_from (take n new), [])" for n h old new
    by (simp add: shown_def sample_flush_msg_def sample_export or_default_def)
  have honest: "\<forall>e \<in> set (sample_feed @ [Served ?m]). books_honest sample_lib ''BTC'' None None (or_default default_levels None) (feed_msg e)
      \<and> shaped ''BTC'' None None (feed_msg e)"
    by (simp add: sample_feed_def books_honest_def sample_flush_msg_def sample_shown_def frame_lookup_def frame_cache_new_def
        shaped_def sample_l2_def l2_params_new_def base_params_def)
  have inj: "inj_on (sl_hash sample_lib) ((\<lambda>e. shown ''BTC'' None None (or_default default_levels None) (feed_msg e)) ` set (sample_feed @ [Served ?m]))"
    by (simp add: sample_feed_def view inj_on_def sample_lib_def default_levels_def or_default_def)
  have fresh: "hm_get (ss_last_l2 ?s) (l2_cache_key ''BTC'' None None None) = None"
    by (simp add: session_new_def)
  have alive: "ss_alive (book_feed sample_lib ?send (\<lambda>m. 0) False (SL2Book ''BTC'' None None None) (sample_feed @ [Served ?m]) ?s)"
    by (rule book_feed_stays_alive) (simp_all add: session_new_def conn_new_def sample_feed_def)
  have "shows_coin ''BTC'' ?m \<or> Coin ''BTC'' \<in> sm_dirty ?m"
    by (simp add: sample_flush_msg_def sample_shown_def)
  moreover have "accepted_data (ss_conn ?s) = []" by (simp add: session_new_def conn_new_def accepted_data_def of_lane_def)
  ultimately show ?thesis
    using l2_book_channel_current [OF total linked honest inj fresh alive] by (simp add: view or_default_def default_levels_def)
qed

end
