(* ===== verification/Spec2Isabelle.thy ===== *)
theory Spec2Isabelle
  imports Pairing L2_Cache L2_Diff Conflation Live_Merge Msg_Pack Main_Loop File_Reader
    Outbound Snapshot_Cache Session Session_Guards Session_Answers Session_Streams Diff_Channel Book_Channel
begin

text \<open>
  A verification development of the order book server (\<open>src/server\<close>): a program that follows the streaming files of a
  Hyperliquid node, keeps the order books of all coins, and serves them to websocket and HTTP clients.

  \<^bold>\<open>The program.\<close> Three file watchers (\<open>listeners/order_book/parallel.rs\<close>) read the order statuses, the raw book
  diffs and the fills of every block from files that grow and rotate. The event loop (\<open>hl_listen_hft\<close> in
  \<open>listeners/order_book/mod.rs\<close>) merges the two book streams by block and applies them to the book state
  (\<open>state.rs\<close>), which pairs the halves of each order and keeps one book per coin (\<open>order_book/\<close>). The books start
  from a dump of the node's own state; when data may have been lost, a new dump is fetched, installed next to the
  running stream and caught up from a replay cache. What changed is broadcast: quotes, trades, diffs and statuses at
  once, L2 snapshots from a buffer of changed coins that is flushed at a fixed rate. Each connection
  (\<open>servers/websocket_server.rs\<close>) turns the broadcasts into the channels its client subscribed to; HTTP endpoints serve
  one-shot L4 snapshots and untriggered orders from a cache.

  \<^bold>\<open>The theories\<close>, each with the source it models (under \<open>src/server/src/\<close>); the records and functions have the names
  of the code, with a prefix or suffix where a name is taken.

  \<^enum> \<open>Prelude\<close>: integers, \<open>HashMap\<close> and \<open>BTreeMap\<close>, and the locales that the components share.
  \<^enum> \<open>Order_Types\<close> (\<open>order_book/types.rs\<close>, \<open>types/inner.rs\<close>), \<open>Fixed_Point\<close> (\<open>order_book/types.rs\<close>: decimal texts
    and the binary64 arithmetic between), \<open>Wire_Types\<close> (\<open>types/mod.rs\<close>, \<open>types/inner.rs\<close>, \<open>types/node_data.rs\<close>).
  \<^enum> \<open>Linked_List\<close>, \<open>Price_Level\<close>, \<open>Order_Book\<close> (\<open>order_book/linked_list.rs\<close>, \<open>price_level.rs\<close>, \<open>mod.rs\<close>): the
    time-priority queue on a slab, a price level, the book of one coin with matching.
  \<^enum> \<open>Levels\<close> (\<open>order_book/levels.rs\<close>): L2 aggregation. \<open>Multi_Book\<close> (\<open>order_book/multi_book.rs\<close>): the books of all
    coins and the conversion of a dump.
  \<^enum> \<open>Book_State\<close>, \<open>Pairing\<close> (\<open>listeners/order_book/state.rs\<close>): statuses and diffs, their pairing, maintenance.
  \<^enum> \<open>L2_Cache\<close> (\<open>listeners/order_book/utils.rs\<close>), \<open>L2_Diff\<close> (\<open>types/mod.rs\<close>), \<open>Broadcast\<close> (the messages, groupings,
    shared frames and registries of \<open>listeners/order_book/mod.rs\<close>).
  \<^enum> \<open>Listener\<close>, \<open>Conflation\<close> (\<open>OrderBookListener\<close> and the phased install), \<open>Live_Merge\<close> (\<open>LiveMerge\<close>), \<open>Main_Loop\<close>
    (\<open>fetch_snapshot\<close>, \<open>hl_listen_hft\<close>, \<open>process_rmp_file\<close>), all of \<open>listeners/order_book/mod.rs\<close> and \<open>utils.rs\<close>.
  \<^enum> \<open>Msg_Pack\<close> (\<open>utils.rs\<close>): the height of the persisted state. \<open>File_Reader\<close> (\<open>parallel.rs\<close>): reading, backfill,
    rotation, the watcher thread.
  \<^enum> \<open>Subscriptions\<close> (\<open>types/subscription.rs\<close>), \<open>Outbound\<close>, \<open>Session\<close>, \<open>Snapshot_Cache\<close> (\<open>servers/websocket_server.rs\<close>): a
    connection from its subscriptions to its writer, the endpoints. \<open>Session_Guards\<close> (what a session holds),
    \<open>Session_Answers\<close> (what a request is answered), \<open>Session_Streams\<close> (what a broadcast makes it send),
    \<open>Diff_Channel\<close> and \<open>Book_Channel\<close> (the \<open>l2Diff\<close> and \<open>l2Book\<close> channels between flushes, session and client) prove
    its properties.

  \<^bold>\<open>How code becomes definitions.\<close> A struct is a record, an enum a datatype, \<open>u64\<close> and \<open>u32\<close> are words that wrap around,
  \<open>usize\<close> is a natural number. An operation is a function on the state; \<open>None\<close> is a panic, or a wait where a text says
  so; \<open>Inl\<close> is the \<open>Err\<close> of a \<open>Result\<close>, returned with the state as the early return leaves it. \<open>Instant::now()\<close> is an
  argument, in milliseconds. An \<open>async\<close> function is cut at its await points wherever others may run in between: the
  install (\<open>install_snapshot_phased_impl\<close>), the merge (\<open>merge_step\<close>), the snapshot bodies (\<open>body_step\<close>), the outbound
  queues (\<open>conn_step\<close>), the main loop's handlers; the properties quantify over every interleaving of these steps. The
  iteration order of a \<open>HashMap\<close> is the order of a list that no property depends on. Log lines and metrics are left
  out, unless a property counts something.

  \<^bold>\<open>What is shown.\<close>

  \<^item> Books: matching is by price and time, the invariant of the book holds in every reachable state, the slab-backed
    list is a plain queue, eviction of empty books is invisible, quotes and L2 views are those of the resting orders,
    aggregating directly or in two steps is the same.
  \<^item> Pairing: the books do not depend on where an order's status falls among its diffs; what maintenance may lose it
    reports; the well-formedness of the state is kept by every batch.
  \<^item> Texts and bytes: prices and sizes survive printing and parsing, the MessagePack reader steps over exactly the
    well-formed values and finds the height, a dump is converted completely or rejected.
  \<^item> Files: what is read in pieces is the lines of the file, each once; backfill and live reading meet; a rotation
    loses nothing silently and its drain ends.
  \<^item> Streams: the merge hands out every line once and in order, at most 32 blocks apart, and never waits more than
    ten seconds for a silent stream; the install in phases equals the install under one lock or leaves the book marked;
    a loss stays marked until an install covers it; streams resume exactly above the installed height; fetches keep
    their backoff.
  \<^item> Serving: a flush shows the current book, the registries hold exactly what live sessions hold, every request is answered,
    every subscription is sent exactly what a broadcast says of its coin or user, a connection leaves no trace, frames
    leave in order and none is lost while the writer runs, an \<open>l2Diff\<close> client never sees a gap
    and holds exactly the current levels, the last book an \<open>l2Book\<close> subscriber was sent is the current one, a cached body is the rendering of the book at some moment.

  \<^bold>\<open>Interfaces.\<close> \<open>dictionary\<close> (both maps), \<open>simulation\<close> (the multi book against one book per coin), \<open>invariant_system\<close>
  (the invariants of the book, the state, the listener, the registries, the frame cache, the subscriptions, the
  connection), \<open>slab_laws\<close> and \<open>node_slab_laws\<close> (what the list relies on of the crate \<open>slab\<close>), \<open>bucketing\<close> (the L2 walk
  over the bucket function of the code, and over the identity), \<open>sender\<close> (what a session relies on of its outbound
  queue), \<open>snapshot_source\<close> (what the body cache relies on of an endpoint). Each is interpreted where its provider is
  defined, and the properties use the facts of the interpretations.

  \<^bold>\<open>Parameters\<close> stand for what is not in the repository: the slab, the JSON reader and writer, the hash of a book, the
  compressor, the address parser, the \<open>f64\<close> logarithm (\<open>log10_floor\<close>, exact where a theorem says \<open>log10_exact\<close>), the
  dump command, what the file system and the socket answer, which shared slab counts as fragmented.

  \<^bold>\<open>Bounds.\<close> The constants are those of the code: merge lookahead 32 blocks, 64 batches per \<open>take\<close>, ten seconds of
  silence; 64 KB of the persisted state; chunks of 8 MB and at most 16 MB of an incomplete line; a chase of at most 32
  rounds; a re-sync backoff from 10 to 300 seconds; 32 coins of backfill per flush; 256 subscriptions per connection;
  queues of 128 frames and 8 pongs, five seconds per send; bodies kept for 100 ms, at most 64, two builds at a time.
  Loops are structural recursions or
  functions with a measure (\<open>mp_skip\<close>: every value takes a byte), except one: \<open>drain_old\<close> takes the list of what it
  observes at each pass, and \<open>drain_ends\<close> shows how many passes are enough.

  \<^bold>\<open>Not modelled.\<close> \<open>servers/websocket_server.rs\<close>: \<open>run_websocket_server\<close> with its routes and the TCP and websocket
  set-up. \<open>parallel.rs\<close>: \<open>start_parallel_file_watchers\<close>, the \<open>notify\<close> set-up and the barrier between the two backfills,
  which only start threads. \<open>metrics.rs\<close>, \<open>lib.rs\<close>, \<open>prelude.rs\<close>, the \<open>mod.rs\<close> files that only declare modules, and the
  binary: glue and observation. The wire representation by \<open>serde\<close> derives is a parameter, because it is generated.
  The test modules in the files are not program code.
\<close>

end
